(* ===== verification/Prelude.thy ===== *)
theory Prelude
  imports Main "HOL-Library.Multiset" "HOL-Library.Word"
begin

text \<open>
  Shared vocabulary of the development: Go's signed 64-bit integers written out on
  \<^typ>\<open>int\<close> (\<open>i64\<close> wraps, \<open>go_div\<close> and \<open>go_rem\<close> truncate towards zero), the result
  monad in which errors and panics are the left summand, Go maps with a zero default, and
  the generic facts on sums and capped sums that the bandwidth components share.
\<close>

named_theorems i64_simps \<open>normalisation of wrapped 64-bit arithmetic\<close>
named_theorems res_simps \<open>computation rules of the result monad\<close>

text \<open>Identities of runs; only their equality matters.\<close>

type_synonym uuid = nat

section \<open>Signed 64-bit integers\<close>

text \<open>
  A Go \<open>int64\<close> (and \<open>int\<close> and \<open>time.Duration\<close> on the supported platforms) is an \<^typ>\<open>int\<close>
  in \<open>[-2^63, 2^63)\<close>; an operation that may leave the range is wrapped with \<open>i64\<close>.
\<close>

definition i64_min :: int where
  "i64_min = - 9223372036854775808"

definition i64_max :: int where
  "i64_max = 9223372036854775807"

definition in_i64 :: "int \<Rightarrow> bool" where
  "in_i64 x \<longleftrightarrow> i64_min \<le> x \<and> x \<le> i64_max"

definition i64 :: "int \<Rightarrow> int" where
  "i64 x = (x + 9223372036854775808) mod 18446744073709551616 - 9223372036854775808"

lemma i64_in_range [simp]: "in_i64 (i64 x)"
  by (simp add: in_i64_def i64_def i64_min_def i64_max_def)

lemma i64_id: "in_i64 x \<Longrightarrow> i64 x = x"
  by (simp add: in_i64_def i64_def i64_min_def i64_max_def)

lemma i64_nonneg_id: "0 \<le> x \<Longrightarrow> x < 9223372036854775808 \<Longrightarrow> i64 x = x"
  by (simp add: i64_id in_i64_def i64_min_def i64_max_def)

lemma i64_cong_iff:
  "i64 a = i64 b \<longleftrightarrow> a mod 18446744073709551616 = b mod 18446744073709551616"
  by (simp add: i64_def mod_add_cong mod_eq_dvd_iff)

lemma i64_mod [simp]: "i64 a mod 18446744073709551616 = a mod 18446744073709551616"
  by (simp add: i64_def mod_diff_left_eq)

lemma i64_add_left [i64_simps]: "i64 (i64 a + b) = i64 (a + b)"
  by (simp add: i64_cong_iff) (metis i64_mod mod_add_left_eq)

lemma i64_add_right [i64_simps]: "i64 (a + i64 b) = i64 (a + b)"
  by (metis i64_add_left add.commute)

lemma i64_add_middle [i64_simps]: "i64 (a + (i64 b + c)) = i64 (a + (b + c))"
  by (metis i64_add_left i64_add_right)

lemma i64_diff_left [i64_simps]: "i64 (i64 a - b) = i64 (a - b)"
  by (simp add: i64_cong_iff) (metis i64_mod mod_diff_left_eq)

lemma i64_diff_right [i64_simps]: "i64 (a - i64 b) = i64 (a - b)"
  by (simp add: i64_cong_iff) (metis i64_mod mod_diff_right_eq)

lemma i64_idem [i64_simps]: "i64 (i64 a) = i64 a"
  by (simp add: i64_id)

text \<open>Go's integer division and remainder truncate towards zero; the divisor is non-zero.\<close>

definition go_div :: "int \<Rightarrow> int \<Rightarrow> int" where
  "go_div a b = i64 (sgn a * sgn b * (\<bar>a\<bar> div \<bar>b\<bar>))"

definition go_rem :: "int \<Rightarrow> int \<Rightarrow> int" where
  "go_rem a b = sgn a * (\<bar>a\<bar> mod \<bar>b\<bar>)"

lemma go_div_nonneg: "0 \<le> a \<Longrightarrow> in_i64 a \<Longrightarrow> 0 < b \<Longrightarrow> go_div a b = a div b"
proof -
  assume a: "0 \<le> a" "in_i64 a" "0 < b"
  have "a div b \<le> a"
    using a zdiv_mono2 [of a 1 b] by simp
  moreover have "0 \<le> a div b"
    using a by (simp add: pos_imp_zdiv_nonneg_iff)
  ultimately have "in_i64 (a div b)"
    using a by (auto simp: in_i64_def i64_min_def)
  then show ?thesis
    using a by (cases "a = 0") (simp_all add: go_div_def i64_id sgn_if)
qed

lemma go_rem_nonneg: "0 \<le> a \<Longrightarrow> 0 < b \<Longrightarrow> go_rem a b = a mod b"
  by (cases "a = 0") (simp_all add: go_rem_def sgn_if)

section \<open>Results\<close>

text \<open>
  A fallible operation returns \<open>'e + 'a\<close>: \<open>Inl\<close> carries the error or panic, \<open>Inr\<close> the value.
\<close>

definition res_bind :: "'e + 'a \<Rightarrow> ('a \<Rightarrow> 'e + 'b) \<Rightarrow> 'e + 'b" where
  "res_bind m f = (case m of Inl e \<Rightarrow> Inl e | Inr x \<Rightarrow> f x)"

lemma res_bind_Inl [simp, res_simps]: "res_bind (Inl e) f = Inl e"
  and res_bind_Inr [simp, res_simps]: "res_bind (Inr x) f = f x"
  by (simp_all add: res_bind_def)

lemma res_bind_Inr_iff:
  "res_bind m f = Inr y \<longleftrightarrow> (\<exists>x. m = Inr x \<and> f x = Inr y)"
  by (cases m) auto

lemma res_bind_split:
  "P (res_bind m f) \<longleftrightarrow> (\<forall>e. m = Inl e \<longrightarrow> P (Inl e)) \<and> (\<forall>x. m = Inr x \<longrightarrow> P (f x))"
  by (cases m) auto

text \<open>Running a sequence of fallible operations, stopped by the first error.\<close>

fun run_ops :: "('o \<Rightarrow> 's \<Rightarrow> 'e + 's) \<Rightarrow> 'o list \<Rightarrow> 's \<Rightarrow> 'e + 's" where
  "run_ops step [] s = Inr s"
| "run_ops step (x # xs) s = res_bind (step x s) (run_ops step xs)"

section \<open>Go maps\<close>

text \<open>Reading an absent key of a Go map yields the element type's zero value.\<close>

definition zero_at :: "('k \<rightharpoonup> int) \<Rightarrow> 'k \<Rightarrow> int" where
  "zero_at m k = (case m k of None \<Rightarrow> 0 | Some v \<Rightarrow> v)"

lemma zero_at_upd [simp]: "zero_at (m(k \<mapsto> v)) j = (if j = k then v else zero_at m j)"
  by (simp add: zero_at_def)

lemma zero_at_del [simp]: "zero_at (m(k := None)) j = (if j = k then 0 else zero_at m j)"
  by (simp add: zero_at_def)

lemma zero_at_empty [simp]: "zero_at Map.empty j = 0"
  by (simp add: zero_at_def)

section \<open>Capped sums\<close>

text \<open>
  \<open>capped l xs\<close> is the bandwidth that demands \<open>xs\<close> take when each is capped at the level \<open>l\<close>.
\<close>

definition capped :: "int \<Rightarrow> int list \<Rightarrow> int" where
  "capped l xs = sum_list (map (min l) xs)"

lemma capped_Nil [simp]: "capped l [] = 0"
  and capped_Cons [simp]: "capped l (x # xs) = min l x + capped l xs"
  and capped_append [simp]: "capped l (xs @ ys) = capped l xs + capped l ys"
  by (simp_all add: capped_def)

lemma capped_mono: "l \<le> m \<Longrightarrow> capped l xs \<le> capped m xs"
  by (induction xs) auto

lemma capped_above: "\<forall>x \<in> set xs. x \<le> l \<Longrightarrow> capped l xs = sum_list xs"
  by (induction xs) auto

lemma capped_below: "\<forall>x \<in> set xs. l \<le> x \<Longrightarrow> capped l xs = int (length xs) * l"
  by (induction xs) (auto simp: algebra_simps)

lemma capped_le_sum: "capped l xs \<le> sum_list xs"
  by (induction xs) auto

lemma capped_strict: "x \<in> set xs \<Longrightarrow> l < x \<Longrightarrow> capped l xs < capped (l + 1) xs"
proof (induction xs)
  case (Cons y ys)
  then show ?case
    using capped_mono [of l "l + 1" ys] by (auto simp: min_def)
qed simp

lemma capped_mset: "mset xs = mset ys \<Longrightarrow> capped l xs = capped l ys"
  unfolding capped_def by (metis mset_map sum_mset_sum_list)

lemma sum_list_mset_eq: "mset xs = mset ys \<Longrightarrow> sum_list xs = (sum_list ys :: int)"
  by (metis sum_mset_sum_list)

lemma sum_list_nonneg_int: "\<forall>x \<in> set xs. (0 :: int) \<le> x \<Longrightarrow> 0 \<le> sum_list xs"
  by (induction xs) auto

lemma member_le_sum_list_int:
  "\<forall>x \<in> set xs. (0 :: int) \<le> x \<Longrightarrow> y \<in> set xs \<Longrightarrow> y \<le> sum_list xs"
proof (induction xs)
  case (Cons x xs)
  then show ?case
    using sum_list_nonneg_int [of xs] by auto
qed simp

text \<open>
  The level at which the demands of \<open>ys\<close>, all of them larger than the settled demands \<open>xs\<close>,
  use up a capacity: the division that ends the fair-share search.
\<close>

lemma capped_level:
  fixes cap :: int
  assumes low: "\<forall>x \<in> set xs. capped x (xs @ ys) \<le> cap"
    and high: "\<forall>y \<in> set ys. cap \<le> capped y (xs @ ys)"
    and sep: "\<forall>x \<in> set xs. \<forall>y \<in> set ys. x \<le> y"
    and ne: "ys \<noteq> []"
    and l: "l = (cap - sum_list xs) div int (length ys)"
  shows "capped l (xs @ ys) \<le> cap"
    and "cap < sum_list (xs @ ys) \<Longrightarrow> cap < capped (l + 1) (xs @ ys)"
proof -
  let ?m = "int (length ys)"
  have m: "0 < ?m" using ne by simp
  have lm: "l * ?m \<le> cap - sum_list xs" "cap - sum_list xs < (l + 1) * ?m"
    using m pos_mod_bound [OF m, of "cap - sum_list xs"]
      pos_mod_sign [OF m, of "cap - sum_list xs"]
      div_mult_mod_eq [of "cap - sum_list xs" ?m]
    unfolding l distrib_right mult_1 by linarith+
  have xs_le: "\<forall>x \<in> set xs. x \<le> l"
  proof
    fix x assume "x \<in> set xs"
    define M where "M = Max (set xs)"
    have M: "M \<in> set xs" "\<forall>z \<in> set xs. z \<le> M"
      using \<open>x \<in> set xs\<close> by (auto simp: M_def intro!: Max_in)
    have "capped M (xs @ ys) = sum_list xs + ?m * M"
      using M sep by (simp add: capped_above capped_below)
    then have "?m * M \<le> cap - sum_list xs"
      using low M(1) by fastforce
    then have "M \<le> l"
      using l m by (metis div_mult_self1_is_m mult.commute zdiv_mono1 order_less_imp_not_eq2
          nonzero_mult_div_cancel_left)
    then show "x \<le> l" using M \<open>x \<in> set xs\<close> by auto
  qed
  have ys_ge: "\<forall>y \<in> set ys. l \<le> y"
  proof
    fix y assume "y \<in> set ys"
    define N where "N = Min (set ys)"
    have N: "N \<in> set ys" "\<forall>z \<in> set ys. N \<le> z"
      using ne by (auto simp: N_def intro!: Min_in)
    have "capped N (xs @ ys) = sum_list xs + ?m * N"
      using N sep by (simp add: capped_above capped_below)
    then have "l * ?m \<le> N * ?m"
      using high N(1) lm(1) by (fastforce simp: mult.commute)
    then have "l \<le> N" using m by simp
    then show "l \<le> y" using N \<open>y \<in> set ys\<close> by auto
  qed
  have at_l: "capped l (xs @ ys) = sum_list xs + ?m * l"
    using xs_le ys_ge by (simp add: capped_above capped_below)
  show "capped l (xs @ ys) \<le> cap"
    using at_l lm(1) by (simp add: mult.commute)
  assume less: "cap < sum_list (xs @ ys)"
  show "cap < capped (l + 1) (xs @ ys)"
  proof (cases "\<forall>y \<in> set ys. l + 1 \<le> y")
    case True
    moreover have "capped (l + 1) xs = sum_list xs"
      using xs_le by (intro capped_above) force
    ultimately have "capped (l + 1) (xs @ ys) = sum_list xs + ?m * (l + 1)"
      by (simp add: capped_below)
    then show ?thesis using lm(2) by (simp add: algebra_simps)
  next
    case False
    then obtain y where "y \<in> set ys" "y < l + 1" by auto
    then have "l \<in> set ys" using ys_ge by (metis add1_zle_eq antisym zless_add1_eq not_le)
    then have "cap \<le> capped l (xs @ ys)" using high by blast
    moreover have "\<exists>y \<in> set ys. l < y"
    proof (rule ccontr)
      assume "\<not> ?thesis"
      then have "capped l (xs @ ys) = sum_list (xs @ ys)"
        using xs_le by (intro capped_above) auto
      then show False
        using less at_l lm(1) by (simp add: algebra_simps)
    qed
    ultimately show ?thesis
      using capped_strict [of _ "xs @ ys" l] by fastforce
  qed
qed

end
