(* ===== verification/Avl.thy ===== *)
theory Avl
  imports Prelude
begin

text \<open>
  \<open>src/internal/avl/avl.go\<close>: the balanced tree behind every fair share. A node carries its
  identity, its value, the sum and count of its subtree, its balance and height, its parent
  pointer and the address the allocator gave it; \<open>refs\<close> maps an identity to the address of
  its node, so the aliasing between the map and the tree is explicit. Dereferencing a nil
  pointer, inserting a duplicate identity and inserting a negative value panic in the code
  and are the left summand here. Subtree sums wrap at 64 bits; heights and counts are
  bounded by the number of allocated nodes and are plain integers.
\<close>

section \<open>Nodes and trees\<close>

type_synonym addr = nat

datatype panic =
    NilDereference
  | DuplicateID
  | NegativeValue
  | DanglingRef
    \<comment> \<open>\<open>DanglingRef\<close> is not a Go panic: it marks a \<open>refs\<close> entry whose node is outside the
       tree, which \<open>AVL_inv\<close> excludes.\<close>

record 'id node_info =
  ID :: 'id
  node_sum :: int
  node_count :: int
  Value :: int
  bal :: int
  h :: int
  Parent :: "addr option"
  addr :: addr

datatype 'id node = Nil | Node "'id node_info" "'id node" "'id node"

record 'id avl =
  root :: "'id node"
  refs :: "'id \<rightharpoonup> addr"
  next_addr :: addr

definition empty_avl :: "'id avl" where
  "empty_avl = \<lparr>root = Nil, refs = Map.empty, next_addr = 0\<rparr>"

section \<open>Rebalancing\<close>

definition newNode ::
  "('id \<rightharpoonup> addr) \<Rightarrow> addr \<Rightarrow> addr option \<Rightarrow> int \<Rightarrow> 'id \<Rightarrow> panic + 'id node \<times> ('id \<rightharpoonup> addr)" where
  "newNode rs a par v i =
     (let n = Node \<lparr>ID = i, node_sum = v, node_count = 1, Value = v, bal = 0, h = 0,
                    Parent = par, addr = a\<rparr> Nil Nil in
      case rs i of Some _ \<Rightarrow> Inl DuplicateID | None \<Rightarrow> Inr (n, rs(i \<mapsto> a)))"

fun recompute :: "'id node \<Rightarrow> panic + 'id node" where
  "recompute Nil = Inl NilDereference"
| "recompute (Node x l r) =
     (let lh = (case l of Nil \<Rightarrow> 0 | Node y _ _ \<Rightarrow> h y + 1);
          lsum = (case l of Nil \<Rightarrow> 0 | Node y _ _ \<Rightarrow> node_sum y);
          lc = (case l of Nil \<Rightarrow> 0 | Node y _ _ \<Rightarrow> node_count y);
          rh = (case r of Nil \<Rightarrow> 0 | Node y _ _ \<Rightarrow> h y + 1);
          rsum = (case r of Nil \<Rightarrow> 0 | Node y _ _ \<Rightarrow> node_sum y);
          rc = (case r of Nil \<Rightarrow> 0 | Node y _ _ \<Rightarrow> node_count y) in
      Inr (Node (x\<lparr>bal := rh - lh, h := max lh rh,
                   node_sum := i64 (Value x + lsum + rsum),
                   node_count := 1 + lc + rc\<rparr>) l r))"

fun set_parent :: "addr option \<Rightarrow> 'id node \<Rightarrow> 'id node" where
  "set_parent p Nil = Nil"
| "set_parent p (Node x l r) = Node (x\<lparr>Parent := p\<rparr>) l r"

fun rotLeft :: "'id node \<Rightarrow> panic + 'id node" where
  "rotLeft (Node x l (Node y rl rr)) =
     res_bind (recompute (Node (x\<lparr>Parent := Some (addr y)\<rparr>) l (set_parent (Some (addr x)) rl)))
       (\<lambda>n. recompute (Node y n rr))"
| "rotLeft _ = Inl NilDereference"

fun rotRight :: "'id node \<Rightarrow> panic + 'id node" where
  "rotRight (Node x (Node y ll lr) r) =
     res_bind (recompute (Node (x\<lparr>Parent := Some (addr y)\<rparr>) (set_parent (Some (addr x)) lr) r))
       (\<lambda>n. recompute (Node y ll n))"
| "rotRight _ = Inl NilDereference"

fun bal_of :: "'id node \<Rightarrow> panic + int" where
  "bal_of Nil = Inl NilDereference"
| "bal_of (Node x _ _) = Inr (bal x)"

fun Node_rotate :: "'id node \<Rightarrow> panic + 'id node" where
  "Node_rotate Nil = Inl NilDereference"
| "Node_rotate (Node x l r) =
     (if bal x \<le> 1 \<and> bal x \<ge> -1 then Inr (Node x l r)
      else if bal x = 2 then
        res_bind (bal_of r) (\<lambda>b.
          if b < 0 then res_bind (rotRight r) (\<lambda>r'. rotLeft (Node x l r'))
          else rotLeft (Node x l r))
      else if bal x = -2 then
        res_bind (bal_of l) (\<lambda>b.
          if b > 0 then res_bind (rotLeft l) (\<lambda>l'. rotRight (Node x l' r))
          else rotRight (Node x l r))
      else Inr (Node x l r))"

section \<open>Insertion and deletion\<close>

fun Node_insert ::
  "('id \<rightharpoonup> addr) \<Rightarrow> addr \<Rightarrow> 'id \<Rightarrow> int \<Rightarrow> 'id node \<Rightarrow> panic + 'id node \<times> ('id \<rightharpoonup> addr)" where
  "Node_insert rs a i v Nil = Inl NilDereference"
| "Node_insert rs a i v (Node x l r) =
     res_bind
       (if v \<le> Value x then
          res_bind (case l of Nil \<Rightarrow> newNode rs a (Some (addr x)) v i
                    | Node _ _ _ \<Rightarrow> Node_insert rs a i v l)
            (\<lambda>(l', rs'). Inr (Node x l' r, rs'))
        else
          res_bind (case r of Nil \<Rightarrow> newNode rs a (Some (addr x)) v i
                    | Node _ _ _ \<Rightarrow> Node_insert rs a i v r)
            (\<lambda>(r', rs'). Inr (Node x l r', rs')))
       (\<lambda>(n, rs'). res_bind (recompute n) (\<lambda>n'. res_bind (Node_rotate n') (\<lambda>n''. Inr (n'', rs'))))"

fun minNode :: "'id node \<Rightarrow> panic + 'id node_info" where
  "minNode Nil = Inl NilDereference"
| "minNode (Node x l r) = (case l of Nil \<Rightarrow> Inr x | Node _ _ _ \<Rightarrow> minNode l)"

text \<open>
  \<open>deleteNode\<close> overwrites the identity and value of the node it deletes with those of the
  smallest node on its right and points that identity's reference at the overwritten node,
  before it deletes the smallest node; \<open>delete\<close> searches both sides on an equal value.
\<close>

function (sequential)
  Node_delete :: "('id \<rightharpoonup> addr) \<Rightarrow> 'id \<Rightarrow> int \<Rightarrow> 'id node \<Rightarrow>
                    panic + 'id node \<times> ('id \<rightharpoonup> addr) \<times> bool" and
  Node_deleteNode :: "('id \<rightharpoonup> addr) \<Rightarrow> 'id node \<Rightarrow> panic + 'id node \<times> ('id \<rightharpoonup> addr)" where
  "Node_delete rs i v Nil = Inr (Nil, rs, False)"
| "Node_delete rs i v (Node x l r) =
     (if i = ID x then
        res_bind (Node_deleteNode rs (Node x l r)) (\<lambda>(n, rs'). Inr (n, rs', True))
      else
        res_bind
          (if v \<le> Value x then
             res_bind (Node_delete rs i v l) (\<lambda>(l', rs1, d1).
               if \<not> d1 \<and> v = Value x then
                 res_bind (Node_delete rs1 i v r) (\<lambda>(r', rs2, d2). Inr (Node x l' r', rs2, d2))
               else Inr (Node x l' r, rs1, d1))
           else
             res_bind (Node_delete rs i v r) (\<lambda>(r', rs1, d1). Inr (Node x l r', rs1, d1)))
          (\<lambda>(n, rs', deleted).
            if \<not> deleted then Inr (n, rs', False)
            else res_bind (recompute n) (\<lambda>n'. res_bind (Node_rotate n') (\<lambda>n''. Inr (n'', rs', True)))))"
| "Node_deleteNode rs Nil = Inl NilDereference"
| "Node_deleteNode rs (Node x l r) =
     (if l = Nil \<or> r = Nil then
        Inr (set_parent (Parent x) (if l \<noteq> Nil then l else r), rs)
      else
        res_bind (minNode r) (\<lambda>m.
        res_bind (Node_delete (rs(ID m \<mapsto> addr x)) (ID m) (Value m) r) (\<lambda>(r', rs', _).
        res_bind (recompute (Node (x\<lparr>Value := Value m, ID := ID m\<rparr>) l r')) (\<lambda>n.
        res_bind (Node_rotate n) (\<lambda>n'. Inr (n', rs'))))))"
  by pat_completeness auto
termination
  by (relation "measure (\<lambda>s. case s of Inl (_, _, _, t) \<Rightarrow> 2 * size t + 1 | Inr (_, t) \<Rightarrow> 2 * size t)")
     auto

text \<open>Reading through a reference: the node the tree holds at an address.\<close>

fun node_at :: "addr \<Rightarrow> 'id node \<Rightarrow> 'id node_info option" where
  "node_at a Nil = None"
| "node_at a (Node x l r) =
     (if addr x = a then Some x
      else case node_at a l of Some y \<Rightarrow> Some y | None \<Rightarrow> node_at a r)"

definition AVL_Insert :: "'id \<Rightarrow> int \<Rightarrow> 'id avl \<Rightarrow> panic + 'id avl" where
  "AVL_Insert i v t =
     (if v < 0 then Inl NegativeValue
      else res_bind
        (case root t of
           Nil \<Rightarrow> newNode (refs t) (next_addr t) None v i
         | Node _ _ _ \<Rightarrow> Node_insert (refs t) (next_addr t) i v (root t))
        (\<lambda>(n, rs). Inr (t\<lparr>root := n, refs := rs, next_addr := next_addr t + 1\<rparr>)))"

definition AVL_Delete :: "'id \<Rightarrow> 'id avl \<Rightarrow> panic + 'id avl" where
  "AVL_Delete i t =
     (if root t = Nil then Inr t
      else case refs t i of
        None \<Rightarrow> Inr t
      | Some a \<Rightarrow>
          (case node_at a (root t) of
             None \<Rightarrow> Inl DanglingRef
           | Some old \<Rightarrow>
               res_bind (Node_delete (refs t) i (Value old) (root t)) (\<lambda>(n, rs, deleted).
                 if \<not> deleted then Inr (t\<lparr>refs := rs\<rparr>)
                 else Inr (t\<lparr>root := n, refs := rs(i := None)\<rparr>))))"

definition AVL_Replace :: "'id \<Rightarrow> int \<Rightarrow> 'id avl \<Rightarrow> panic + 'id avl" where
  "AVL_Replace i v t = res_bind (AVL_Delete i t) (AVL_Insert i v)"

definition AVL_Add :: "'id \<Rightarrow> int \<Rightarrow> 'id avl \<Rightarrow> panic + 'id avl" where
  "AVL_Add i v t =
     (case refs t i of
        None \<Rightarrow> AVL_Insert i v t
      | Some a \<Rightarrow>
          (case node_at a (root t) of
             None \<Rightarrow> Inl DanglingRef
           | Some old \<Rightarrow> AVL_Replace i (i64 (Value old + v)) t))"

section \<open>Queries\<close>

definition Unbounded :: int where
  "Unbounded = -1"

text \<open>
  \<open>yieldRange\<close> calls the consumer on each node in range and stops as soon as it returns
  false; the consumer is a function on its own state.
\<close>

fun yieldRange ::
  "('s \<Rightarrow> 'id node_info \<Rightarrow> 's \<times> bool) \<Rightarrow> int \<Rightarrow> int \<Rightarrow> 'id node \<Rightarrow> 's \<Rightarrow> 's \<times> bool" where
  "yieldRange yield from to Nil s = (s, True)"
| "yieldRange yield from to (Node x l r) s =
     (let fromOk = (from = Unbounded \<or> Value x \<ge> from);
          toOk = (to = Unbounded \<or> Value x < to);
          (s1, c1) = (if fromOk \<and> toOk then yield s x else (s, True));
          (s2, c2) = (if \<not> c1 then (s1, False)
                      else if fromOk then yieldRange yield from to l s1 else (s1, True)) in
      if \<not> c2 then (s2, False)
      else if toOk then yieldRange yield from to r s2 else (s2, True))"

definition AVL_Range ::
  "('s \<Rightarrow> 'id node_info \<Rightarrow> 's \<times> bool) \<Rightarrow> int \<Rightarrow> int \<Rightarrow> 'id avl \<Rightarrow> 's \<Rightarrow> 's" where
  "AVL_Range yield from to t s = fst (yieldRange yield from to (root t) s)"

definition AVL_Get :: "'id \<Rightarrow> 'id avl \<Rightarrow> addr option" where
  "AVL_Get i t = (if root t = Nil then None else refs t i)"

fun Node_fairshare :: "int \<Rightarrow> int \<Rightarrow> int \<Rightarrow> 'id node \<Rightarrow> panic + int" where
  "Node_fairshare cap leftSum rightCount Nil = Inl NilDereference"
| "Node_fairshare cap leftSum rightCount (Node x l r) =
     (let countLarger = rightCount + (case r of Nil \<Rightarrow> 0 | Node y _ _ \<Rightarrow> node_count y);
          sumSmaller = i64 (leftSum + (case l of Nil \<Rightarrow> 0 | Node y _ _ \<Rightarrow> node_sum y) + Value x);
          totalIfLambdaIsNode = i64 (sumSmaller + countLarger * Value x) in
      if cap \<le> totalIfLambdaIsNode then
        (case l of
           Nil \<Rightarrow> Inr (go_div (i64 (cap - leftSum)) (1 + countLarger))
         | Node _ _ _ \<Rightarrow> Node_fairshare cap leftSum (1 + countLarger) l)
      else
        (case r of
           Nil \<Rightarrow> if rightCount = 0 then Inr (Value x)
                  else Inr (go_div (i64 (cap - sumSmaller)) rightCount)
         | Node _ _ _ \<Rightarrow> Node_fairshare cap sumSmaller rightCount r))"

definition AVL_Fairshare :: "int \<Rightarrow> 'id avl \<Rightarrow> panic + int" where
  "AVL_Fairshare cap t = (if root t = Nil then Inr 0 else Node_fairshare cap 0 0 (root t))"

definition AVL_Len :: "'id avl \<Rightarrow> int" where
  "AVL_Len t = (case root t of Nil \<Rightarrow> 0 | Node x _ _ \<Rightarrow> node_count x)"

definition AVL_Sum :: "'id avl \<Rightarrow> int" where
  "AVL_Sum t = (case root t of Nil \<Rightarrow> 0 | Node x _ _ \<Rightarrow> node_sum x)"

section \<open>Contents and well-formedness\<close>

fun cells :: "'id node \<Rightarrow> (addr \<times> 'id \<times> int) list" where
  "cells Nil = []"
| "cells (Node x l r) = cells l @ (addr x, ID x, Value x) # cells r"

definition centries :: "(addr \<times> 'id \<times> int) list \<Rightarrow> ('id \<times> int) list" where
  "centries cs = map (\<lambda>(a, i, v). (i, v)) cs"

definition cids :: "(addr \<times> 'id \<times> int) list \<Rightarrow> 'id list" where
  "cids cs = map (\<lambda>(a, i, v). i) cs"

definition cvals :: "(addr \<times> 'id \<times> int) list \<Rightarrow> int list" where
  "cvals cs = map (\<lambda>(a, i, v). v) cs"

definition caddrs :: "(addr \<times> 'id \<times> int) list \<Rightarrow> addr list" where
  "caddrs cs = map (\<lambda>(a, i, v). a) cs"

lemma cell_simps [simp]:
  "centries [] = []" "centries (c # cs) = snd c # centries cs"
  "centries (xs @ ys) = centries xs @ centries ys"
  "cids [] = []" "cids (c # cs) = fst (snd c) # cids cs" "cids (xs @ ys) = cids xs @ cids ys"
  "cvals [] = []" "cvals (c # cs) = snd (snd c) # cvals cs" "cvals (xs @ ys) = cvals xs @ cvals ys"
  "caddrs [] = []" "caddrs (c # cs) = fst c # caddrs cs" "caddrs (xs @ ys) = caddrs xs @ caddrs ys"
  by (simp_all add: centries_def cids_def cvals_def caddrs_def split_beta)

lemma cell_mem:
  "(a, i, v) \<in> set cs \<Longrightarrow>
     a \<in> set (caddrs cs) \<and> i \<in> set (cids cs) \<and> v \<in> set (cvals cs) \<and> (i, v) \<in> set (centries cs)"
  by (force simp: centries_def cids_def cvals_def caddrs_def)

lemma cids_mem: "i \<in> set (cids cs) \<longleftrightarrow> (\<exists>a v. (a, i, v) \<in> set cs)"
  and cvals_mem: "v \<in> set (cvals cs) \<longleftrightarrow> (\<exists>a i. (a, i, v) \<in> set cs)"
  and caddrs_mem: "a \<in> set (caddrs cs) \<longleftrightarrow> (\<exists>i v. (a, i, v) \<in> set cs)"
  by (force simp: cids_def cvals_def caddrs_def)+

lemma cids_entries: "cids cs = map fst (centries cs)"
  and cvals_entries: "cvals cs = map snd (centries cs)"
  by (simp_all add: cids_def cvals_def centries_def split_beta)

abbreviation node_ids :: "'id node \<Rightarrow> 'id list" where
  "node_ids t \<equiv> cids (cells t)"

abbreviation node_entries :: "'id node \<Rightarrow> ('id \<times> int) list" where
  "node_entries t \<equiv> centries (cells t)"

abbreviation node_values :: "'id node \<Rightarrow> int list" where
  "node_values t \<equiv> cvals (cells t)"

abbreviation node_addrs :: "'id node \<Rightarrow> addr list" where
  "node_addrs t \<equiv> caddrs (cells t)"

fun hgt :: "'id node \<Rightarrow> int" where
  "hgt Nil = 0" | "hgt (Node x l r) = h x + 1"

fun cnt :: "'id node \<Rightarrow> int" where
  "cnt Nil = 0" | "cnt (Node x l r) = node_count x"

fun tsum :: "'id node \<Rightarrow> int" where
  "tsum Nil = 0" | "tsum (Node x l r) = node_sum x"

text \<open>Every derived field agrees with the children, and the children's heights differ by at most one.\<close>

fun balanced :: "'id node \<Rightarrow> bool" where
  "balanced Nil = True"
| "balanced (Node x l r) \<longleftrightarrow>
     bal x = hgt r - hgt l \<and> h x = max (hgt l) (hgt r)
     \<and> node_sum x = i64 (Value x + tsum l + tsum r) \<and> node_count x = 1 + cnt l + cnt r
     \<and> \<bar>hgt r - hgt l\<bar> \<le> 1 \<and> balanced l \<and> balanced r"

definition AVL_inv :: "'id avl \<Rightarrow> bool" where
  "AVL_inv t \<longleftrightarrow>
     balanced (root t) \<and> sorted (node_values (root t)) \<and> distinct (node_ids (root t))
     \<and> distinct (node_addrs (root t)) \<and> (\<forall>a \<in> set (node_addrs (root t)). a < next_addr t)
     \<and> (\<forall>v \<in> set (node_values (root t)). 0 \<le> v)
     \<and> (\<forall>i a. refs t i = Some a \<longleftrightarrow> (\<exists>v. (a, i, v) \<in> set (cells (root t))))"

definition AVL_entries :: "'id avl \<Rightarrow> ('id \<times> int) list" where
  "AVL_entries t = node_entries (root t)"

subsection \<open>Rebalancing keeps the contents\<close>

definition mk :: "'id node_info \<Rightarrow> 'id node \<Rightarrow> 'id node \<Rightarrow> 'id node" where
  "mk x l r = Node (x\<lparr>bal := hgt r - hgt l, h := max (hgt l) (hgt r),
                      node_sum := i64 (Value x + tsum l + tsum r),
                      node_count := 1 + cnt l + cnt r\<rparr>) l r"

lemma recompute_mk [simp]: "recompute (Node x l r) = Inr (mk x l r)"
  by (cases l; cases r) (simp_all add: mk_def Let_def)

declare recompute.simps(2) [simp del]

lemma mk_simps [simp]:
  "hgt (mk x l r) = 1 + max (hgt l) (hgt r)"
  "cells (mk x l r) = cells l @ (addr x, ID x, Value x) # cells r"
  "balanced (mk x l r) \<longleftrightarrow> \<bar>hgt r - hgt l\<bar> \<le> 1 \<and> balanced l \<and> balanced r"
  by (auto simp: mk_def)

lemma set_parent_simps [simp]:
  "hgt (set_parent p t) = hgt t" "cnt (set_parent p t) = cnt t" "tsum (set_parent p t) = tsum t"
  "cells (set_parent p t) = cells t" "balanced (set_parent p t) = balanced t"
  by (cases t; simp)+

lemma hgt_nonneg: "balanced t \<Longrightarrow> 0 \<le> hgt t"
  by (induction t) auto

lemma hgt_pos_iff: "balanced t \<Longrightarrow> 0 < hgt t \<longleftrightarrow> t \<noteq> Nil"
  using hgt_nonneg by (cases t) fastforce+

lemma mk_info [simp]:
  "mk (x\<lparr>bal := b, h := k, node_sum := s, node_count := c\<rparr>) l r = mk x l r"
  by (simp add: mk_def)

lemma rotLeft_mk [simp]:
  "rotLeft (Node x l (mk z a b)) =
     Inr (mk z (mk (x\<lparr>Parent := Some (addr z)\<rparr>) l (set_parent (Some (addr x)) a)) b)"
  by (simp add: mk_def [of z a b])

lemma rotRight_mk [simp]:
  "rotRight (Node x (mk z a b) r) =
     Inr (mk z a (mk (x\<lparr>Parent := Some (addr z)\<rparr>) (set_parent (Some (addr x)) b) r))"
  by (simp add: mk_def [of z a b])

lemma rotate_balanced:
  assumes "\<bar>hgt r - hgt l\<bar> \<le> 1"
  shows "Node_rotate (mk x l r) = Inr (mk x l r)"
  using assms by (subst (1 2) mk_def, subst Node_rotate.simps) auto

lemma mk_node:
  "\<exists>X. mk x l r = Node X l r \<and> bal X = hgt r - hgt l
     \<and> addr X = addr x \<and> ID X = ID x \<and> Value X = Value x"
  by (simp add: mk_def)

lemma rotate_right_heavy:
  assumes bal: "balanced l" "balanced r" and d: "hgt r - hgt l = 2"
  shows "\<exists>t. Node_rotate (mk x l r) = Inr t \<and> balanced t
    \<and> cells t = cells l @ (addr x, ID x, Value x) # cells r
    \<and> (hgt t = hgt r \<or> hgt t = hgt r + 1)"
proof -
  obtain X where X: "mk x l r = Node X l r" "bal X = 2" "addr X = addr x" "ID X = ID x"
      "Value X = Value x"
    using mk_node [of x l r] d by auto
  obtain y rl rr where r: "r = Node y rl rr"
    using d hgt_nonneg [OF bal(1)] by (cases r) auto
  show ?thesis
  proof (cases "bal y < 0")
    case False
    then show ?thesis
      using bal d r unfolding X(1) by (auto simp: X(2-))
  next
    case True
    then obtain z rll rlr where "rl = Node z rll rlr"
      using bal(2) hgt_nonneg [of rr] r by (cases rl) auto
    then show ?thesis
      using bal d r True unfolding X(1) by (auto simp: X(2-) max_def)
  qed
qed

lemma rotate_left_heavy:
  assumes bal: "balanced l" "balanced r" and d: "hgt r - hgt l = -2"
  shows "\<exists>t. Node_rotate (mk x l r) = Inr t \<and> balanced t
    \<and> cells t = cells l @ (addr x, ID x, Value x) # cells r
    \<and> (hgt t = hgt l \<or> hgt t = hgt l + 1)"
proof -
  obtain X where X: "mk x l r = Node X l r" "bal X = -2" "addr X = addr x" "ID X = ID x"
      "Value X = Value x"
    using mk_node [of x l r] d by auto
  obtain y ll lr where l: "l = Node y ll lr"
    using d hgt_nonneg [OF bal(2)] by (cases l) auto
  show ?thesis
  proof (cases "bal y > 0")
    case False
    then show ?thesis
      using bal d l unfolding X(1) by (auto simp: X(2-))
  next
    case True
    then obtain z lrl lrr where "lr = Node z lrl lrr"
      using bal(1) hgt_nonneg [of ll] l by (cases lr) auto
    then show ?thesis
      using bal d l True unfolding X(1) by (auto simp: X(2-) max_def)
  qed
qed

text \<open>
  One rebalancing step: with children whose heights differ by at most two, \<open>recompute\<close> and
  \<open>rotate\<close> do not panic, keep the in-order contents and restore the balance.
\<close>

lemma rotate_mk:
  assumes "balanced l" "balanced r" "\<bar>hgt r - hgt l\<bar> \<le> 2"
  shows "\<exists>t. Node_rotate (mk x l r) = Inr t \<and> balanced t
    \<and> cells t = cells l @ (addr x, ID x, Value x) # cells r
    \<and> (\<bar>hgt r - hgt l\<bar> \<le> 1 \<longrightarrow> hgt t = 1 + max (hgt l) (hgt r))
    \<and> (hgt t = max (hgt l) (hgt r) \<or> hgt t = 1 + max (hgt l) (hgt r))"
proof -
  consider "\<bar>hgt r - hgt l\<bar> \<le> 1" | "hgt r - hgt l = 2" | "hgt r - hgt l = -2"
    using assms(3) by linarith
  then show ?thesis
  proof cases
    case 1
    then show ?thesis using assms by (simp add: rotate_balanced)
  next
    case 2
    then show ?thesis using rotate_right_heavy [OF assms(1,2) 2, of x] by auto
  next
    case 3
    then show ?thesis using rotate_left_heavy [OF assms(1,2) 3, of x] by auto
  qed
qed

lemma sorted_Node:
  "sorted (node_values (Node x l r)) \<longleftrightarrow>
     sorted (node_values l) \<and> sorted (node_values r)
     \<and> (\<forall>v \<in> set (node_values l). v \<le> Value x) \<and> (\<forall>v \<in> set (node_values r). Value x \<le> v)"
  by (fastforce simp: sorted_append)

lemma cells_not_Nil [simp]: "cells t = [] \<longleftrightarrow> t = Nil"
  by (cases t) auto

lemma cnt_length: "balanced t \<Longrightarrow> cnt t = int (length (cells t))"
  by (induction t) auto

lemma tsum_sum: "balanced t \<Longrightarrow> tsum t = i64 (sum_list (node_values t))"
proof (induction t)
  case Nil
  then show ?case by (simp add: i64_def)
next
  case (Node x l r)
  then show ?case
    by (simp add: i64_simps add.assoc)
       (metis (no_types, opaque_lifting) add.left_commute i64_add_left i64_add_right)
qed

subsection \<open>Insertion\<close>

lemma newNode_cases:
  "newNode rs a p v i =
     (if rs i = None
      then Inr (Node \<lparr>ID = i, node_sum = v, node_count = 1, Value = v, bal = 0, h = 0,
                      Parent = p, addr = a\<rparr> Nil Nil, rs(i \<mapsto> a))
      else Inl DuplicateID)"
  by (auto simp: newNode_def split: option.splits)

text \<open>What a subtree insertion establishes: the new cell at its place, one more level at most.\<close>

definition inserted :: "addr \<Rightarrow> 'id \<Rightarrow> int \<Rightarrow> 'id node \<Rightarrow> 'id node \<Rightarrow> bool" where
  "inserted a i v t t' \<longleftrightarrow>
     balanced t' \<and> (hgt t' = hgt t \<or> hgt t' = hgt t + 1)
     \<and> (\<exists>xs ys. cells t = xs @ ys \<and> cells t' = xs @ (a, i, v) # ys
          \<and> (sorted (node_values t) \<longrightarrow>
               (\<forall>x \<in> set (cvals xs). x \<le> v) \<and> (\<forall>y \<in> set (cvals ys). v \<le> y)))"

lemma inserted_leaf:
  "in_i64 v \<Longrightarrow> inserted a i v Nil
     (Node \<lparr>ID = i, node_sum = v, node_count = 1, Value = v, bal = 0, h = 0, Parent = p, addr = a\<rparr>
        Nil Nil)"
  by (auto simp: inserted_def i64_id)

lemma inserted_left:
  assumes ins: "inserted a i v l l'" and bal: "balanced (Node x l r)" and v: "v \<le> Value x"
  shows "\<exists>t'. Node_rotate (mk x l' r) = Inr t' \<and> inserted a i v (Node x l r) t'"
proof -
  from ins obtain xs ys where l: "cells l = xs @ ys" "cells l' = xs @ (a, i, v) # ys"
    and ord: "sorted (node_values l) \<longrightarrow>
      (\<forall>x \<in> set (cvals xs). x \<le> v) \<and> (\<forall>y \<in> set (cvals ys). v \<le> y)"
    and h: "balanced l'" "hgt l' = hgt l \<or> hgt l' = hgt l + 1"
    by (auto simp: inserted_def)
  have "\<bar>hgt r - hgt l'\<bar> \<le> 2"
    using bal h by auto
  then obtain t' where t': "Node_rotate (mk x l' r) = Inr t'" "balanced t'"
    "cells t' = cells l' @ (addr x, ID x, Value x) # cells r"
    "\<bar>hgt r - hgt l'\<bar> \<le> 1 \<longrightarrow> hgt t' = 1 + max (hgt l') (hgt r)"
    "hgt t' = max (hgt l') (hgt r) \<or> hgt t' = 1 + max (hgt l') (hgt r)"
    using rotate_mk [of l' r x] bal h by auto
  have "hgt t' = hgt (Node x l r) \<or> hgt t' = hgt (Node x l r) + 1"
    using t'(4,5) h(2) bal by (auto simp: max_def split: if_splits)
  moreover have "sorted (node_values (Node x l r)) \<longrightarrow>
      (\<forall>x \<in> set (cvals xs). x \<le> v) \<and>
      (\<forall>y \<in> set (cvals (ys @ (addr x, ID x, Value x) # cells r)). v \<le> y)"
    using ord v unfolding sorted_Node by fastforce
  ultimately show ?thesis
    using t'(1-3) l unfolding inserted_def
    by (intro exI [of _ t'] conjI exI [of _ xs] exI [of _ "ys @ (addr x, ID x, Value x) # cells r"])
       auto
qed

lemma inserted_right:
  assumes ins: "inserted a i v r r'" and bal: "balanced (Node x l r)" and v: "Value x < v"
  shows "\<exists>t'. Node_rotate (mk x l r') = Inr t' \<and> inserted a i v (Node x l r) t'"
proof -
  from ins obtain xs ys where r: "cells r = xs @ ys" "cells r' = xs @ (a, i, v) # ys"
    and ord: "sorted (node_values r) \<longrightarrow>
      (\<forall>x \<in> set (cvals xs). x \<le> v) \<and> (\<forall>y \<in> set (cvals ys). v \<le> y)"
    and h: "balanced r'" "hgt r' = hgt r \<or> hgt r' = hgt r + 1"
    by (auto simp: inserted_def)
  have "\<bar>hgt r' - hgt l\<bar> \<le> 2"
    using bal h by auto
  then obtain t' where t': "Node_rotate (mk x l r') = Inr t'" "balanced t'"
    "cells t' = cells l @ (addr x, ID x, Value x) # cells r'"
    "\<bar>hgt r' - hgt l\<bar> \<le> 1 \<longrightarrow> hgt t' = 1 + max (hgt l) (hgt r')"
    "hgt t' = max (hgt l) (hgt r') \<or> hgt t' = 1 + max (hgt l) (hgt r')"
    using rotate_mk [of l r' x] bal h by auto
  have "hgt t' = hgt (Node x l r) \<or> hgt t' = hgt (Node x l r) + 1"
    using t'(4,5) h(2) bal by (auto simp: max_def split: if_splits)
  moreover have "sorted (node_values (Node x l r)) \<longrightarrow>
      (\<forall>x \<in> set (cvals (cells l @ (addr x, ID x, Value x) # xs)). x \<le> v) \<and>
      (\<forall>y \<in> set (cvals ys). v \<le> y)"
    using ord v unfolding sorted_Node by fastforce
  ultimately show ?thesis
    using t'(1-3) r unfolding inserted_def
    by (intro exI [of _ t'] conjI exI [of _ "cells l @ (addr x, ID x, Value x) # xs"] exI [of _ ys])
       auto
qed

lemma Node_insert_ok:
  assumes "balanced t" "t \<noteq> Nil" "rs i = None" "in_i64 v"
  shows "\<exists>t'. Node_insert rs a i v t = Inr (t', rs(i \<mapsto> a)) \<and> inserted a i v t t'"
  using assms(1,2)
proof (induction t)
  case (Node x l r)
  show ?case
  proof (cases "v \<le> Value x")
    case True
    have "\<exists>l'. (case l of Nil \<Rightarrow> newNode rs a (Some (addr x)) v i
                | Node _ _ _ \<Rightarrow> Node_insert rs a i v l) = Inr (l', rs(i \<mapsto> a))
            \<and> inserted a i v l l'"
      using Node assms(3,4)
      by (cases l) (auto simp: newNode_cases inserted_leaf simp del: Node_insert.simps fun_upd_apply)
    then show ?thesis
      using inserted_left [OF _ Node.prems(1) True] True by fastforce
  next
    case False
    have "\<exists>r'. (case r of Nil \<Rightarrow> newNode rs a (Some (addr x)) v i
                | Node _ _ _ \<Rightarrow> Node_insert rs a i v r) = Inr (r', rs(i \<mapsto> a))
            \<and> inserted a i v r r'"
      using Node assms(3,4)
      by (cases r) (auto simp: newNode_cases inserted_leaf simp del: Node_insert.simps fun_upd_apply)
    then show ?thesis
      using inserted_right [OF _ Node.prems(1)] False by fastforce
  qed
qed simp

lemma Node_insert_duplicate:
  "t \<noteq> Nil \<Longrightarrow> rs i \<noteq> None \<Longrightarrow> Node_insert rs a i v t = Inl DuplicateID"
proof (induction t)
  case (Node x l r)
  then show ?case
    by (cases l; cases r) (auto simp: newNode_cases)
qed simp

subsection \<open>Deletion\<close>

text \<open>
  What the deletion of \<open>i\<close> from a subtree establishes: its entry is gone and every other one
  stays in order, at most one level is lost, the surviving identities' references point at
  the nodes that now hold them, and no other reference moved.
\<close>

definition refs_agree :: "('id \<rightharpoonup> addr) \<Rightarrow> (addr \<times> 'id \<times> int) list \<Rightarrow> bool" where
  "refs_agree rs cs \<longleftrightarrow> (\<forall>a j w. (a, j, w) \<in> set cs \<longrightarrow> rs j = Some a)"

lemma refs_agree_simps [simp]:
  "refs_agree rs []" "refs_agree rs ((a, j, w) # cs) \<longleftrightarrow> rs j = Some a \<and> refs_agree rs cs"
  "refs_agree rs (xs @ ys) \<longleftrightarrow> refs_agree rs xs \<and> refs_agree rs ys"
  unfolding refs_agree_def by (simp, fastforce, simp, blast)

definition removed ::
  "('id \<rightharpoonup> addr) \<Rightarrow> 'id \<Rightarrow> 'id node \<Rightarrow> ('id \<rightharpoonup> addr) \<Rightarrow> 'id node \<Rightarrow> bool" where
  "removed rs i t rs' t' \<longleftrightarrow>
     balanced t' \<and> (hgt t' = hgt t \<or> hgt t' = hgt t - 1)
     \<and> node_entries t' = filter (\<lambda>e. fst e \<noteq> i) (node_entries t)
     \<and> set (node_addrs t') \<subseteq> set (node_addrs t) \<and> distinct (node_addrs t')
     \<and> refs_agree rs' (cells t') \<and> (\<forall>j. j \<notin> set (node_ids t) \<or> j = i \<longrightarrow> rs' j = rs j)"

text \<open>What the deletion of \<open>i\<close> with value \<open>v\<close> relies on.\<close>

definition removable :: "('id \<rightharpoonup> addr) \<Rightarrow> 'id \<Rightarrow> int \<Rightarrow> 'id node \<Rightarrow> bool" where
  "removable rs i v t \<longleftrightarrow>
     balanced t \<and> sorted (node_values t) \<and> distinct (node_ids t) \<and> distinct (node_addrs t)
     \<and> (\<forall>a j w. (a, j, w) \<in> set (cells t) \<longrightarrow> (if j = i then w = v else rs j = Some a))"

lemma Node_delete_absent: "i \<notin> set (node_ids t) \<Longrightarrow> Node_delete rs i v t = Inr (t, rs, False)"
  by (induction t arbitrary: rs) auto

lemma minNode_first:
  "t \<noteq> Nil \<Longrightarrow> \<exists>m cs. minNode t = Inr m \<and> cells t = (addr m, ID m, Value m) # cs"
proof (induction t)
  case (Node x l r)
  then show ?case by (cases l) fastforce+
qed simp

lemma filter_entries_id: "i \<notin> set (cids cs) \<Longrightarrow> filter (\<lambda>e. fst e \<noteq> i) (centries cs) = centries cs"
  by (auto simp: cids_entries intro!: filter_True)

lemma removable_refs:
  "removable rs i v t \<Longrightarrow> (a, j, w) \<in> set (cells t) \<Longrightarrow> j \<noteq> i \<Longrightarrow> rs j = Some a"
  unfolding removable_def by presburger

lemma removable_left: "removable rs i v (Node x l r) \<Longrightarrow> removable rs i v l"
  unfolding removable_def sorted_Node by auto

lemma removable_right: "removable rs i v (Node x l r) \<Longrightarrow> removable rs i v r"
  unfolding removable_def sorted_Node by auto

lemma removable_ids:
  assumes "removable rs i v (Node x l r)"
  shows "i \<in> set (node_ids l) \<Longrightarrow> i \<noteq> ID x \<and> i \<notin> set (node_ids r)"
    and "i \<in> set (node_ids r) \<Longrightarrow> i \<noteq> ID x \<and> i \<notin> set (node_ids l)"
    and "i = ID x \<Longrightarrow> i \<notin> set (node_ids l) \<and> i \<notin> set (node_ids r)"
  using assms by (auto simp: removable_def)

lemma removed_left:
  assumes rem: "removed rs i l rs' l'" and pre: "removable rs i v (Node x l r)"
    and i: "i \<in> set (node_ids l)"
  shows "\<exists>t'. Node_rotate (mk x l' r) = Inr t' \<and> removed rs i (Node x l r) rs' t'"
proof -
  have hs: "balanced l'" "hgt l' = hgt l \<or> hgt l' = hgt l - 1" "balanced (Node x l r)"
    using rem pre by (auto simp: removed_def removable_def)
  have "\<bar>hgt r - hgt l'\<bar> \<le> 2"
    using hs by auto
  then obtain t' where t': "Node_rotate (mk x l' r) = Inr t'" "balanced t'"
    "cells t' = cells l' @ (addr x, ID x, Value x) # cells r"
    "\<bar>hgt r - hgt l'\<bar> \<le> 1 \<longrightarrow> hgt t' = 1 + max (hgt l') (hgt r)"
    "hgt t' = max (hgt l') (hgt r) \<or> hgt t' = 1 + max (hgt l') (hgt r)"
    using rotate_mk [of l' r x] hs by auto
  have "hgt t' = hgt (Node x l r) \<or> hgt t' = hgt (Node x l r) - 1"
    using t'(4,5) hs by (auto simp: max_def split: if_splits)
  moreover have "i \<noteq> ID x" "i \<notin> set (node_ids r)"
    using removable_ids(1) [OF pre i] by auto
  moreover have "refs_agree rs' ((addr x, ID x, Value x) # cells r)"
    unfolding refs_agree_def
  proof (intro allI impI)
    fix a j w assume c: "(a, j, w) \<in> set ((addr x, ID x, Value x) # cells r)"
    then have "j \<notin> set (node_ids l)" "j \<noteq> i"
      using pre calculation(2,3) by (auto simp: removable_def dest: cell_mem)
    then show "rs' j = Some a"
      using rem pre c by (auto simp: removable_def removed_def)
  qed
  ultimately have "removed rs i (Node x l r) rs' t'"
    unfolding removed_def
  proof (intro conjI)
    show "balanced t'" by (rule t'(2))
    show "node_entries t' = filter (\<lambda>e. fst e \<noteq> i) (node_entries (Node x l r))"
      using rem t'(3) \<open>i \<noteq> ID x\<close> \<open>i \<notin> set (node_ids r)\<close> by (simp add: removed_def filter_entries_id)
    show "set (node_addrs t') \<subseteq> set (node_addrs (Node x l r))"
      using rem t'(3) by (auto simp: removed_def)
    show "distinct (node_addrs t')"
      using rem pre t'(3) by (auto simp: removed_def removable_def)
    show "\<forall>j. j \<notin> set (node_ids (Node x l r)) \<or> j = i \<longrightarrow> rs' j = rs j"
      using rem by (auto simp: removed_def)
    show "refs_agree rs' (cells t')"
      using rem t'(3) \<open>refs_agree rs' ((addr x, ID x, Value x) # cells r)\<close>
      by (auto simp: removed_def refs_agree_def)
  qed simp
  then show ?thesis using t'(1) by blast
qed

lemma removed_right:
  assumes rem: "removed rs i r rs' r'" and pre: "removable rs i v (Node x l r)"
    and i: "i \<in> set (node_ids r)"
  shows "\<exists>t'. Node_rotate (mk x l r') = Inr t' \<and> removed rs i (Node x l r) rs' t'"
proof -
  have hs: "balanced r'" "hgt r' = hgt r \<or> hgt r' = hgt r - 1" "balanced (Node x l r)"
    using rem pre by (auto simp: removed_def removable_def)
  have "\<bar>hgt r' - hgt l\<bar> \<le> 2"
    using hs by auto
  then obtain t' where t': "Node_rotate (mk x l r') = Inr t'" "balanced t'"
    "cells t' = cells l @ (addr x, ID x, Value x) # cells r'"
    "\<bar>hgt r' - hgt l\<bar> \<le> 1 \<longrightarrow> hgt t' = 1 + max (hgt l) (hgt r')"
    "hgt t' = max (hgt l) (hgt r') \<or> hgt t' = 1 + max (hgt l) (hgt r')"
    using rotate_mk [of l r' x] hs by auto
  have "hgt t' = hgt (Node x l r) \<or> hgt t' = hgt (Node x l r) - 1"
    using t'(4,5) hs by (auto simp: max_def split: if_splits)
  moreover have "i \<noteq> ID x" "i \<notin> set (node_ids l)"
    using removable_ids(2) [OF pre i] by auto
  moreover have "refs_agree rs' (cells l @ [(addr x, ID x, Value x)])"
    unfolding refs_agree_def
  proof (intro allI impI)
    fix a j w assume c: "(a, j, w) \<in> set (cells l @ [(addr x, ID x, Value x)])"
    then have "j \<notin> set (node_ids r)" "j \<noteq> i"
      using pre calculation(2,3) by (auto simp: removable_def dest: cell_mem)
    then show "rs' j = Some a"
      using rem pre c by (auto simp: removable_def removed_def)
  qed
  ultimately have "removed rs i (Node x l r) rs' t'"
    unfolding removed_def
  proof (intro conjI)
    show "balanced t'" by (rule t'(2))
    show "node_entries t' = filter (\<lambda>e. fst e \<noteq> i) (node_entries (Node x l r))"
      using rem t'(3) \<open>i \<noteq> ID x\<close> \<open>i \<notin> set (node_ids l)\<close> by (simp add: removed_def filter_entries_id)
    show "set (node_addrs t') \<subseteq> set (node_addrs (Node x l r))"
      using rem t'(3) by (auto simp: removed_def)
    show "distinct (node_addrs t')"
      using rem pre t'(3) by (auto simp: removed_def removable_def)
    show "\<forall>j. j \<notin> set (node_ids (Node x l r)) \<or> j = i \<longrightarrow> rs' j = rs j"
      using rem by (auto simp: removed_def)
    show "refs_agree rs' (cells t')"
      using rem t'(3) \<open>refs_agree rs' (cells l @ [(addr x, ID x, Value x)])\<close>
      by (auto simp: removed_def refs_agree_def)
  qed simp
  then show ?thesis using t'(1) by blast
qed

lemma Node_deleteNode_one_child:
  assumes pre: "removable rs (ID x) v (Node x l r)" and one: "l = Nil \<or> r = Nil"
  shows "removed rs (ID x) (Node x l r) rs (set_parent p (if l \<noteq> Nil then l else r))"
proof -
  have i: "ID x \<notin> set (node_ids l)" "ID x \<notin> set (node_ids r)"
    using removable_ids(3) [OF pre] by auto
  moreover have "hgt (Node x l r) - 1 = hgt (if l \<noteq> Nil then l else r)"
    using pre one hgt_nonneg [of l] hgt_nonneg [of r] by (auto simp: removable_def)
  moreover have "refs_agree rs (cells l @ cells r)"
    unfolding refs_agree_def
  proof (intro allI impI)
    fix a j w assume c: "(a, j, w) \<in> set (cells l @ cells r)"
    then have "j \<noteq> ID x" using i by (auto dest: cell_mem)
    then show "rs j = Some a" using removable_refs [OF pre, of a j w] c by auto
  qed
  ultimately show ?thesis
    using pre one by (auto simp: removed_def removable_def filter_entries_id)
qed

text \<open>
  The two-children case: the smallest cell \<open>m\<close> of the right subtree moves into the node at
  \<open>addr x\<close>, whose reference was redirected before \<open>m\<close> is deleted below.
\<close>

lemma Node_deleteNode_two_children:
  assumes pre: "removable rs (ID x) v (Node x l r)"
    and m: "cells r = (addr m, ID m, Value m) # cs"
    and rem: "removed (rs(ID m \<mapsto> addr x)) (ID m) r rs' r'"
  shows "\<exists>t'. Node_rotate (mk (x\<lparr>Value := Value m, ID := ID m\<rparr>) l r') = Inr t'
    \<and> removed rs (ID x) (Node x l r) rs' t'"
proof -
  let ?x = "x\<lparr>Value := Value m, ID := ID m\<rparr>"
  have hs: "balanced r'" "hgt r' = hgt r \<or> hgt r' = hgt r - 1" "balanced (Node x l r)"
    using rem pre by (auto simp: removed_def removable_def)
  have "\<bar>hgt r' - hgt l\<bar> \<le> 2"
    using hs by auto
  then obtain t' where t': "Node_rotate (mk ?x l r') = Inr t'" "balanced t'"
    "cells t' = cells l @ (addr x, ID m, Value m) # cells r'"
    "\<bar>hgt r' - hgt l\<bar> \<le> 1 \<longrightarrow> hgt t' = 1 + max (hgt l) (hgt r')"
    "hgt t' = max (hgt l) (hgt r') \<or> hgt t' = 1 + max (hgt l) (hgt r')"
    using rotate_mk [of l r' ?x] hs by auto
  have disj: "ID m \<notin> set (cids cs)" "ID x \<notin> set (node_ids l)" "ID x \<notin> set (node_ids r)"
    "set (node_ids l) \<inter> set (node_ids r) = {}" "ID m \<noteq> ID x"
    using pre m by (auto simp: removable_def)
  have "removed rs (ID x) (Node x l r) rs' t'"
    unfolding removed_def
  proof (intro conjI)
    show "balanced t'" by (rule t'(2))
    show "hgt t' = hgt (Node x l r) \<or> hgt t' = hgt (Node x l r) - 1"
      using t'(4,5) hs by (auto simp: max_def split: if_splits)
    show "node_entries t' = filter (\<lambda>e. fst e \<noteq> ID x) (node_entries (Node x l r))"
      using rem t'(3) disj m by (simp add: removed_def filter_entries_id)
    show "set (node_addrs t') \<subseteq> set (node_addrs (Node x l r))"
      using rem t'(3) by (auto simp: removed_def)
    show "distinct (node_addrs t')"
      using rem pre t'(3) by (auto simp: removed_def removable_def)
    show "\<forall>j. j \<notin> set (node_ids (Node x l r)) \<or> j = ID x \<longrightarrow> rs' j = rs j"
      using rem disj m by (auto simp: removed_def)
    have "rs' (ID m) = Some (addr x)"
      using rem by (simp add: removed_def)
    moreover have "refs_agree rs' (cells l)"
      unfolding refs_agree_def
    proof (intro allI impI)
      fix a j w assume c: "(a, j, w) \<in> set (cells l)"
      then have "j \<noteq> ID x" "j \<notin> set (node_ids r)" using disj by (auto dest: cell_mem)
      then show "rs' j = Some a"
        using rem m removable_refs [OF pre, of a j w] c by (auto simp: removed_def)
    qed
    ultimately show "refs_agree rs' (cells t')"
      using rem t'(3) by (simp add: removed_def)
  qed
  then show ?thesis using t'(1) by blast
qed

lemma removable_min:
  assumes pre: "removable rs i v (Node x l r)" and m: "cells r = (addr m, ID m, Value m) # cs"
    and i: "i = ID x"
  shows "removable (rs(ID m \<mapsto> addr x)) (ID m) (Value m) r"
proof -
  have "(a, j, w) \<in> set (cells r) \<Longrightarrow> if j = ID m then w = Value m else rs j = Some a" for a j w
    using removable_ids(3) [OF pre i] removable_refs [OF pre, of a j w] removable_right [OF pre] m
    by (auto simp: removable_def dest: cell_mem)
  then show ?thesis
    using removable_right [OF pre] by (auto simp: removable_def)
qed

lemma Node_delete_ok:
  assumes "removable rs i v t" "i \<in> set (node_ids t)"
  shows "\<exists>t' rs'. Node_delete rs i v t = Inr (t', rs', True) \<and> removed rs i t rs' t'"
  using assms
proof (induction t arbitrary: rs i v)
  case (Node x l r)
  show ?case
  proof (cases "i = ID x")
    case True
    show ?thesis
    proof (cases "l = Nil \<or> r = Nil")
      case one: True
      then show ?thesis
        using Node_deleteNode_one_child [of rs x v l r "Parent x"] Node.prems(1) True by auto
    next
      case two: False
      obtain m cs where m: "minNode r = Inr m" "cells r = (addr m, ID m, Value m) # cs"
        using two minNode_first by blast
      obtain r' rs' where r': "Node_delete (rs(ID m \<mapsto> addr x)) (ID m) (Value m) r = Inr (r', rs', True)"
        "removed (rs(ID m \<mapsto> addr x)) (ID m) r rs' r'"
        using Node.IH(2) [OF removable_min [OF Node.prems(1) m(2) True]] unfolding m(2) cell_simps
        by (metis fst_conv list.set_intros(1) snd_conv)
      show ?thesis
        using Node_deleteNode_two_children [OF _ m(2) r'(2)] Node.prems(1) True two m r' by fastforce
    qed
  next
    case False
    show ?thesis
    proof (cases "i \<in> set (node_ids l)")
      case left: True
      then have "v \<le> Value x"
        using Node.prems(1) unfolding removable_def sorted_Node by (auto simp: cids_mem dest: cell_mem)
      moreover obtain l' rs' where "Node_delete rs i v l = Inr (l', rs', True)"
        "removed rs i l rs' l'"
        using Node.IH(1) [OF removable_left [OF Node.prems(1)] left] by auto
      ultimately show ?thesis
        using removed_left [OF _ Node.prems(1) left] False by fastforce
    next
      case right: False
      then have r: "i \<in> set (node_ids r)" using Node.prems(2) False by auto
      then have "Value x \<le> v"
        using Node.prems(1) unfolding removable_def sorted_Node by (auto simp: cids_mem dest: cell_mem)
      moreover obtain r' rs' where "Node_delete rs i v r = Inr (r', rs', True)"
        "removed rs i r rs' r'"
        using Node.IH(2) [OF removable_right [OF Node.prems(1)] r] by auto
      ultimately show ?thesis
        using removed_right [OF _ Node.prems(1) r] False Node_delete_absent [OF right] by fastforce
    qed
  qed
qed simp

declare Node_insert.simps [simp del] Node_delete.simps [simp del]

section \<open>Operations on the tree\<close>

lemma AVL_inv_empty: "AVL_inv empty_avl"
  by (simp add: AVL_inv_def empty_avl_def)

lemma AVL_inv_refs:
  "AVL_inv t \<Longrightarrow> refs t i = None \<longleftrightarrow> i \<notin> set (map fst (AVL_entries t))"
  unfolding AVL_inv_def AVL_entries_def cids_entries [symmetric] cids_mem
  by (metis not_Some_eq)

lemma AVL_inv_refs_agree: "AVL_inv t \<Longrightarrow> refs_agree (refs t) (cells (root t))"
  by (auto simp: AVL_inv_def refs_agree_def)

lemma node_at_cell:
  assumes "distinct (node_addrs t)" "(a, i, v) \<in> set (cells t)"
  shows "\<exists>x. node_at a t = Some x \<and> ID x = i \<and> Value x = v"
  using assms
proof (induction t)
  case (Node x l r)
  have none: "a \<notin> set (node_addrs u) \<Longrightarrow> node_at a u = None" for u :: "'a node"
    by (induction u) auto
  show ?case
  proof (cases "(a, i, v) \<in> set (cells l)")
    case True
    then show ?thesis using Node by (auto dest: cell_mem)
  next
    case False
    show ?thesis
    proof (cases "(a, i, v) \<in> set (cells r)")
      case True
      then have "a \<notin> set (node_addrs l)" "a \<noteq> addr x"
        using Node.prems(1) by (auto dest: cell_mem)
      then show ?thesis using Node True none [of l] by auto
    next
      case not_r: False
      then show ?thesis using Node.prems(2) False by auto
    qed
  qed
qed simp

lemma AVL_inv_insert:
  assumes inv: "AVL_inv t" and i: "i \<notin> set (node_ids (root t))" and v: "0 \<le> v"
    and n: "balanced n" "cells (root t) = xs @ ys" "cells n = xs @ (next_addr t, i, v) # ys"
    and ord: "\<forall>x \<in> set (cvals xs). x \<le> v" "\<forall>y \<in> set (cvals ys). v \<le> y"
  shows "AVL_inv (t\<lparr>root := n, refs := (refs t)(i \<mapsto> next_addr t), next_addr := next_addr t + 1\<rparr>)"
    (is "AVL_inv ?t")
  unfolding AVL_inv_def
proof (intro conjI)
  show "balanced (root ?t)" using n(1) by simp
  show "sorted (node_values (root ?t))"
    using inv n(2,3) ord by (fastforce simp: AVL_inv_def sorted_append)
  show "distinct (node_ids (root ?t))" using inv i n(2,3) by (auto simp: AVL_inv_def)
  have fresh: "next_addr t \<notin> set (node_addrs (root t))" using inv by (auto simp: AVL_inv_def)
  show "distinct (node_addrs (root ?t))" using inv fresh n(2,3) by (auto simp: AVL_inv_def)
  show "\<forall>a \<in> set (node_addrs (root ?t)). a < next_addr ?t"
    using inv n(2,3) by (auto simp: AVL_inv_def less_Suc_eq)
  show "\<forall>v \<in> set (node_values (root ?t)). 0 \<le> v"
    using inv n(2,3) v by (auto simp: AVL_inv_def)
  have mem: "(a, j, w) \<in> set (cells n) \<longleftrightarrow> (a, j, w) = (next_addr t, i, v) \<or> (a, j, w) \<in> set (cells (root t))"
    for a j w using n(2,3) by auto
  show "\<forall>j a. refs ?t j = Some a \<longleftrightarrow> (\<exists>w. (a, j, w) \<in> set (cells (root ?t)))"
    using inv i cell_mem [of _ i _ "cells (root t)"] by (auto simp: AVL_inv_def mem)
qed

lemma AVL_Insert_ok:
  assumes inv: "AVL_inv t" and i: "i \<notin> set (map fst (AVL_entries t))" and v: "0 \<le> v" "in_i64 v"
  shows "\<exists>t' xs ys. AVL_Insert i v t = Inr t' \<and> AVL_inv t'
    \<and> AVL_entries t = xs @ ys \<and> AVL_entries t' = xs @ (i, v) # ys"
proof -
  have refs: "refs t i = None" and i': "i \<notin> set (node_ids (root t))"
    using AVL_inv_refs [OF inv] i by (auto simp: AVL_entries_def cids_entries)
  show ?thesis
  proof (cases "root t = Nil")
    case True
    then show ?thesis
      using AVL_inv_insert [OF inv i' v(1), of "Node \<lparr>ID = i, node_sum = v, node_count = 1,
          Value = v, bal = 0, h = 0, Parent = None, addr = next_addr t\<rparr> Nil Nil" "[]" "[]"] v refs
      by (auto simp: AVL_Insert_def newNode_cases AVL_entries_def i64_id)
  next
    case False
    obtain n where n: "Node_insert (refs t) (next_addr t) i v (root t) = Inr (n, (refs t)(i \<mapsto> next_addr t))"
      "inserted (next_addr t) i v (root t) n"
      using Node_insert_ok [of "root t" "refs t" i v "next_addr t"] False refs v(2) inv
      by (auto simp: AVL_inv_def)
    then obtain xs ys where "cells (root t) = xs @ ys" "cells n = xs @ (next_addr t, i, v) # ys"
      "\<forall>x \<in> set (cvals xs). x \<le> v" "\<forall>y \<in> set (cvals ys). v \<le> y" "balanced n"
      using inv by (auto simp: inserted_def AVL_inv_def)
    then show ?thesis
      using AVL_inv_insert [OF inv i' v(1), of n xs ys] n(1) False v(1)
      by (intro exI [of _ "t\<lparr>root := n, refs := (refs t)(i \<mapsto> next_addr t), next_addr := next_addr t + 1\<rparr>"]
            exI [of _ "centries xs"] exI [of _ "centries ys"])
         (auto simp: AVL_Insert_def AVL_entries_def simp del: cells.simps split: node.splits)
  qed
qed

lemma AVL_Insert_duplicate:
  assumes "AVL_inv t" "i \<in> set (map fst (AVL_entries t))" "0 \<le> v"
  shows "AVL_Insert i v t = Inl DuplicateID"
proof -
  have "refs t i \<noteq> None" "root t \<noteq> Nil"
    using assms AVL_inv_refs [OF assms(1), of i] by (auto simp: AVL_entries_def)
  then show ?thesis
    using assms(3) Node_insert_duplicate [of "root t" "refs t" i "next_addr t" v]
    by (auto simp: AVL_Insert_def split: node.splits)
qed

lemma AVL_Delete_ok:
  assumes inv: "AVL_inv t"
  shows "\<exists>t'. AVL_Delete i t = Inr t' \<and> AVL_inv t' \<and> next_addr t' = next_addr t
    \<and> AVL_entries t' = filter (\<lambda>e. fst e \<noteq> i) (AVL_entries t)"
proof (cases "refs t i")
  case None
  then have "i \<notin> set (node_ids (root t))"
    using AVL_inv_refs [OF inv] by (auto simp: AVL_entries_def cids_entries)
  then show ?thesis
    using inv None by (auto simp: AVL_Delete_def AVL_entries_def filter_entries_id)
next
  case (Some a)
  then obtain v where c: "(a, i, v) \<in> set (cells (root t))"
    using inv by (auto simp: AVL_inv_def)
  then obtain x where x: "node_at a (root t) = Some x" "Value x = v"
    using node_at_cell inv by (force simp: AVL_inv_def)
  have uniq: "(b, i, w) \<in> set (cells (root t)) \<Longrightarrow> w = v" for b w
    using inv c Some by (auto simp: AVL_inv_def cids_def distinct_map inj_on_def)
  have "removable (refs t) i v (root t)"
    using inv uniq by (auto simp: removable_def AVL_inv_def)
  then obtain n rs where n: "Node_delete (refs t) i v (root t) = Inr (n, rs, True)"
    "removed (refs t) i (root t) rs n"
    using Node_delete_ok c cell_mem by metis
  let ?t = "t\<lparr>root := n, refs := rs(i := None)\<rparr>"
  have ents: "node_entries n = filter (\<lambda>e. fst e \<noteq> i) (node_entries (root t))"
    using n(2) by (simp add: removed_def)
  have "AVL_inv ?t"
    unfolding AVL_inv_def
  proof (intro conjI)
    show "balanced (root ?t)" using n(2) by (simp add: removed_def)
    have "node_values n = map snd (filter (\<lambda>e. fst e \<noteq> i) (node_entries (root t)))"
      using ents by (simp add: cvals_entries)
    then show "sorted (node_values (root ?t))"
      using inv by (simp add: AVL_inv_def cvals_entries sorted_filter)
    show "distinct (node_ids (root ?t))"
      using inv ents by (simp add: AVL_inv_def cids_entries distinct_map_filter)
    show "distinct (node_addrs (root ?t))" using n(2) by (simp add: removed_def)
    show "\<forall>a \<in> set (node_addrs (root ?t)). a < next_addr ?t"
      using inv n(2) by (auto simp: removed_def AVL_inv_def)
    show "\<forall>v \<in> set (node_values (root ?t)). 0 \<le> v"
      using inv ents by (auto simp: AVL_inv_def cvals_entries)
    show "\<forall>j a. refs ?t j = Some a \<longleftrightarrow> (\<exists>w. (a, j, w) \<in> set (cells (root ?t)))"
    proof (intro allI)
      fix j a
      show "refs ?t j = Some a \<longleftrightarrow> (\<exists>w. (a, j, w) \<in> set (cells (root ?t)))"
      proof (cases "j \<in> set (node_ids n)")
        case True
        then obtain b w where "(b, j, w) \<in> set (cells n)" by (auto simp: cids_mem)
        moreover have "j \<noteq> i" using True ents by (auto simp: cids_entries)
        moreover have agree: "refs_agree rs (cells n)" using n(2) by (simp add: removed_def)
        ultimately show ?thesis
          unfolding refs_agree_def by (auto, metis option.inject)
      next
        case False
        then have "j = i \<or> j \<notin> set (node_ids (root t))" using ents by (auto simp: cids_entries)
        then have "j = i \<or> rs j = None"
          using n(2) AVL_inv_refs [OF inv, of j] by (auto simp: removed_def AVL_entries_def cids_entries)
        then show ?thesis using False by (auto dest: cell_mem)
      qed
    qed
  qed
  then show ?thesis
    using n(1) x Some ents c by (auto simp: AVL_Delete_def AVL_entries_def)
qed

lemma AVL_Replace_ok:
  assumes inv: "AVL_inv t" and v: "0 \<le> v" "in_i64 v"
  shows "\<exists>t'. AVL_Replace i v t = Inr t' \<and> AVL_inv t'
    \<and> mset (AVL_entries t') = add_mset (i, v) (mset (filter (\<lambda>e. fst e \<noteq> i) (AVL_entries t)))"
proof -
  obtain d where d: "AVL_Delete i t = Inr d" "AVL_inv d"
    "AVL_entries d = filter (\<lambda>e. fst e \<noteq> i) (AVL_entries t)"
    using AVL_Delete_ok [OF inv] by blast
  then have "i \<notin> set (map fst (AVL_entries d))" by auto
  then obtain t' xs ys where "AVL_Insert i v d = Inr t'" "AVL_inv t'" "AVL_entries d = xs @ ys"
    "AVL_entries t' = xs @ (i, v) # ys"
    using AVL_Insert_ok [OF d(2) _ v] by blast
  then show ?thesis using d by (auto simp: AVL_Replace_def)
qed

section \<open>The fair share\<close>

text \<open>
  The search keeps the settled demands \<open>ls\<close> below and the undecided \<open>hs\<close> above the subtree it
  descends into: only their sum and their number enter the computation.
\<close>

definition fair_level :: "int \<Rightarrow> int list \<Rightarrow> int \<Rightarrow> bool" where
  "fair_level cap ds l \<longleftrightarrow>
     capped l ds \<le> cap \<and> (cap < sum_list ds \<longrightarrow> cap < capped (l + 1) ds)
     \<and> (sum_list ds \<le> cap \<longrightarrow> (\<forall>d \<in> set ds. d \<le> l) \<and> (ds = [] \<or> l \<in> set ds))"

lemma fair_levelI:
  assumes "\<forall>x \<in> set xs. capped x (xs @ ys) \<le> cap" "\<forall>y \<in> set ys. cap \<le> capped y (xs @ ys)"
    "\<forall>x \<in> set xs. \<forall>y \<in> set ys. x \<le> y" "ys \<noteq> []"
    "l = (cap - sum_list xs) div int (length ys)"
  shows "fair_level cap (xs @ ys) l"
proof -
  note lv = capped_level [OF assms]
  have "(\<forall>d \<in> set (xs @ ys). d \<le> l) \<and> l \<in> set (xs @ ys)" if sum: "sum_list (xs @ ys) \<le> cap"
  proof -
    have top: "e \<le> y" if "y \<in> set ys" "e \<in> set (xs @ ys)" for e y
    proof (rule ccontr)
      assume "\<not> e \<le> y"
      then have "capped y (xs @ ys) < capped (y + 1) (xs @ ys)"
        using that(2) by (intro capped_strict [of e]) auto
      also have "\<dots> \<le> sum_list (xs @ ys)" by (rule capped_le_sum)
      finally show False using assms(2) that(1) sum by fastforce
    qed
    obtain y where y: "y \<in> set ys" using assms(4) by fastforce
    have same: "\<forall>z \<in> set ys. z = y" using top y by (auto intro: antisym)
    then have ys: "sum_list ys = int (length ys) * y"
      using capped_below [of ys y] capped_above [of ys y] by auto
    have "cap = sum_list xs + sum_list ys"
      using sum assms(2) y capped_le_sum [of y "xs @ ys"] by (auto intro: antisym order_trans)
    then have "l = y"
      using assms(4,5) ys by simp
    then show ?thesis using top [OF y] y by simp
  qed
  then show ?thesis using lv unfolding fair_level_def by blast
qed

lemma case_tsum: "(case t of Nil \<Rightarrow> 0 | Node y _ _ \<Rightarrow> node_sum y) = tsum t"
  and case_cnt: "(case t of Nil \<Rightarrow> 0 | Node y _ _ \<Rightarrow> node_count y) = cnt t"
  by (cases t; simp)+

lemma settled_le_cap:
  assumes "\<forall>x \<in> set ls. capped x (ls @ ys) \<le> cap" "\<forall>x \<in> set (ls @ ys). 0 \<le> x" "0 \<le> cap"
  shows "sum_list ls \<le> cap"
proof (cases "ls = []")
  case False
  then have M: "Max (set ls) \<in> set ls" by simp
  have "0 \<le> capped (Max (set ls)) ys"
    using assms(2) M unfolding capped_def by (intro sum_list_nonneg_int) auto
  then have "sum_list ls \<le> capped (Max (set ls)) (ls @ ys)"
    by (simp add: capped_above)
  then show ?thesis using assms(1) M by fastforce
qed (use assms in simp)

lemma go_div_level:
  "0 \<le> a \<Longrightarrow> a \<le> cap \<Longrightarrow> in_i64 cap \<Longrightarrow> 0 < m \<Longrightarrow> go_div (i64 (cap - a)) m = (cap - a) div m"
  by (subst i64_id) (auto simp: in_i64_def i64_min_def intro!: go_div_nonneg)

definition share_context :: "int \<Rightarrow> int list \<Rightarrow> int list \<Rightarrow> int list \<Rightarrow> bool" where
  "share_context cap ls vs hs \<longleftrightarrow>
     sorted vs \<and> (\<forall>x \<in> set ls. \<forall>v \<in> set vs. x \<le> v) \<and> (\<forall>y \<in> set hs. \<forall>v \<in> set vs. v \<le> y)
     \<and> (\<forall>x \<in> set (ls @ vs @ hs). 0 \<le> x) \<and> 0 \<le> cap \<and> in_i64 cap
     \<and> sum_list (ls @ vs @ hs) \<le> i64_max
     \<and> (\<forall>x \<in> set ls. capped x (ls @ vs @ hs) \<le> cap)
     \<and> (\<forall>y \<in> set hs. cap \<le> capped y (ls @ vs @ hs))"

lemma share_context_at:
  assumes "share_context cap ls (ws @ v # us) hs"
  shows "capped v (ls @ (ws @ v # us) @ hs) = sum_list (ls @ ws @ [v]) + int (length (us @ hs)) * v"
    and "0 \<le> sum_list (ls @ ws @ [v])" and "sum_list ls \<le> cap"
    and "sum_list (ls @ ws @ [v]) \<le> capped v (ls @ (ws @ v # us) @ hs)"
    and "capped v (ls @ (ws @ v # us) @ hs) \<le> i64_max"
proof -
  have ord: "\<forall>w \<in> set ws. w \<le> v" "\<forall>w \<in> set us. v \<le> w" "\<forall>w \<in> set ls. w \<le> v" "\<forall>w \<in> set hs. v \<le> w"
    and nonneg: "\<forall>w \<in> set (ls @ ws @ [v]). 0 \<le> w" "0 \<le> v"
    using assms by (auto simp: share_context_def sorted_append)
  show at: "capped v (ls @ (ws @ v # us) @ hs) = sum_list (ls @ ws @ [v]) + int (length (us @ hs)) * v"
    using ord by (simp add: capped_above capped_below algebra_simps)
  show "0 \<le> sum_list (ls @ ws @ [v])"
    using nonneg(1) by (rule sum_list_nonneg_int)
  show "sum_list (ls @ ws @ [v]) \<le> capped v (ls @ (ws @ v # us) @ hs)"
    unfolding at using nonneg(2) by simp
  show "sum_list ls \<le> cap"
    using assms by (intro settled_le_cap [of ls "(ws @ v # us) @ hs"]) (auto simp: share_context_def)
  show "capped v (ls @ (ws @ v # us) @ hs) \<le> i64_max"
    using capped_le_sum assms unfolding share_context_def by (meson order_trans)
qed

text \<open>In the search's context no sum wraps: the node compares the capacity with the capped total.\<close>

lemma Node_fairshare_unfold:
  assumes ctx: "share_context cap ls (node_values (Node x l r)) hs" and bal: "balanced (Node x l r)"
  shows "Node_fairshare cap (sum_list ls) (int (length hs)) (Node x l r) =
    (if cap \<le> capped (Value x) (ls @ node_values (Node x l r) @ hs) then
       (case l of
          Nil \<Rightarrow> Inr ((cap - sum_list ls) div int (length (Value x # node_values r @ hs)))
        | Node _ _ _ \<Rightarrow>
            Node_fairshare cap (sum_list ls) (int (length (Value x # node_values r @ hs))) l)
     else
       (case r of
          Nil \<Rightarrow> if hs = [] then Inr (Value x)
                 else Inr ((cap - sum_list (ls @ node_values l @ [Value x])) div int (length hs))
        | Node _ _ _ \<Rightarrow>
            Node_fairshare cap (sum_list (ls @ node_values l @ [Value x])) (int (length hs)) r))"
proof -
  let ?v = "Value x" and ?lo = "ls @ node_values l @ [Value x]"
  let ?all = "ls @ node_values (Node x l r) @ hs"
  note at = share_context_at [of cap ls "node_values l" ?v "node_values r" hs]
  have all: "?all = ls @ (node_values l @ ?v # node_values r) @ hs" by simp
  have facts: "capped ?v ?all = sum_list ?lo + int (length (node_values r @ hs)) * ?v"
    "0 \<le> sum_list ?lo" "sum_list ls \<le> cap" "sum_list ?lo \<le> capped ?v ?all" "capped ?v ?all \<le> i64_max"
    unfolding all using at ctx by (simp_all del: capped_append)
  have sum_v: "i64 (sum_list ls + tsum l + ?v) = sum_list ?lo"
    using tsum_sum [of l] bal facts(2,4,5)
    by (simp add: i64_simps add.assoc) (rule i64_id, simp add: in_i64_def i64_min_def)
  have "sum_list ?lo + (int (length hs) + cnt r) * ?v = capped ?v ?all"
    unfolding facts(1) using bal by (simp add: cnt_length cvals_def algebra_simps)
  then have total: "i64 (sum_list ?lo + (int (length hs) + cnt r) * ?v) = capped ?v ?all"
    using facts(2,4,5) by (simp add: i64_id in_i64_def i64_min_def del: capped_append)
  have len_hi: "1 + (int (length hs) + cnt r) = int (length (?v # node_values r @ hs))"
    using bal by (simp add: cnt_length cvals_def)
  have "0 \<le> sum_list ls" "in_i64 cap"
    using ctx by (auto simp: share_context_def intro!: sum_list_nonneg_int)
  then show ?thesis
    using facts(2-4)
    unfolding Node_fairshare.simps(2) case_tsum case_cnt Let_def sum_v total len_hi
    by (auto simp: go_div_level split: node.splits)
qed

lemma share_context_left:
  assumes ctx: "share_context cap ls (ws @ v # us) hs" and le: "cap \<le> capped v (ls @ (ws @ v # us) @ hs)"
  shows "share_context cap ls ws (v # us @ hs)"
proof -
  have "\<forall>y \<in> set (v # us @ hs). cap \<le> capped y (ls @ (ws @ v # us) @ hs)"
  proof
    fix y assume "y \<in> set (v # us @ hs)"
    then have "v \<le> y" using ctx by (auto simp: share_context_def sorted_append)
    then show "cap \<le> capped y (ls @ (ws @ v # us) @ hs)"
      using le capped_mono order_trans by blast
  qed
  then show ?thesis
    using ctx by (auto simp: share_context_def sorted_append)
qed

lemma share_context_right:
  assumes ctx: "share_context cap ls (ws @ v # us) hs" and gt: "capped v (ls @ (ws @ v # us) @ hs) < cap"
  shows "share_context cap (ls @ ws @ [v]) us hs"
proof -
  have "\<forall>y \<in> set (ls @ ws @ [v]). capped y (ls @ (ws @ v # us) @ hs) \<le> cap"
  proof
    fix y assume "y \<in> set (ls @ ws @ [v])"
    then have "y \<le> v" using ctx by (auto simp: share_context_def sorted_append)
    then show "capped y (ls @ (ws @ v # us) @ hs) \<le> cap"
      using gt capped_mono [of y v] by (meson less_imp_le order_trans)
  qed
  then show ?thesis
    using ctx by (auto simp: share_context_def sorted_append intro: order_trans)
qed

lemma share_context_level:
  assumes "share_context cap xs [] ys" "ys \<noteq> []" "\<forall>x \<in> set xs. \<forall>y \<in> set ys. x \<le> y"
  shows "fair_level cap (xs @ ys) ((cap - sum_list xs) div int (length ys))"
  using assms by (intro fair_levelI) (auto simp: share_context_def)

lemma Node_fairshare_level:
  assumes "balanced t" "t \<noteq> Nil" "share_context cap ls (node_values t) hs"
  shows "\<exists>k. Node_fairshare cap (sum_list ls) (int (length hs)) t = Inr k
    \<and> fair_level cap (ls @ node_values t @ hs) k"
  using assms
proof (induction t arbitrary: ls hs)
  case (Node x l r)
  let ?v = "Value x" and ?lo = "ls @ node_values l @ [Value x]" and ?hi = "Value x # node_values r @ hs"
  let ?all = "ls @ (node_values l @ ?v # node_values r) @ hs"
  note unf = Node_fairshare_unfold [OF Node.prems(3,1)]
  have ctx: "share_context cap ls (node_values l @ ?v # node_values r) hs"
    using Node.prems(3) by simp
  then have ord: "\<forall>x \<in> set ?lo. x \<le> ?v" "\<forall>y \<in> set ?hi. ?v \<le> y"
    by (auto simp: share_context_def sorted_append)
  show ?case
  proof (cases "cap \<le> capped ?v ?all")
    case True
    note left = share_context_left [OF ctx True]
    show ?thesis
    proof (cases "l = Nil")
      case leaf: True
      have "fair_level cap (ls @ ?hi) ((cap - sum_list ls) div int (length ?hi))"
        using left leaf ord by (intro share_context_level) (auto intro: order_trans)
      then show ?thesis using unf True leaf by simp
    next
      case False
      then show ?thesis
        using Node.IH(1) [OF _ False left] Node.prems(1) unf True by (cases l) auto
    qed
  next
    case False
    then have right: "share_context cap ?lo (node_values r) hs"
      using share_context_right [OF ctx] by simp
    show ?thesis
    proof (cases "r = Nil")
      case leaf: True
      have "hs \<noteq> [] \<Longrightarrow> fair_level cap (?lo @ hs) ((cap - sum_list ?lo) div int (length hs))"
        using right leaf ord by (intro share_context_level) (auto intro: order_trans)
      moreover have "hs = [] \<Longrightarrow> fair_level cap ?lo ?v"
        using False leaf ord capped_above [OF ord(1)] by (auto simp: fair_level_def)
      ultimately show ?thesis using unf False leaf by auto
    next
      case sub: False
      then show ?thesis
        using Node.IH(2) [OF _ sub right] Node.prems(1) unf False by (cases r) auto
    qed
  qed
qed simp

section \<open>Range queries\<close>

fun preorder :: "'id node \<Rightarrow> 'id node_info list" where
  "preorder Nil = []"
| "preorder (Node x l r) = x # preorder l @ preorder r"

definition in_range :: "int \<Rightarrow> int \<Rightarrow> 'id node_info \<Rightarrow> bool" where
  "in_range from to x \<longleftrightarrow> (from = Unbounded \<or> from \<le> Value x) \<and> (to = Unbounded \<or> Value x < to)"

text \<open>A consumer run over a list of nodes, stopped by its first false.\<close>

fun visit :: "('s \<Rightarrow> 'n \<Rightarrow> 's \<times> bool) \<Rightarrow> 'n list \<Rightarrow> 's \<Rightarrow> 's \<times> bool" where
  "visit yield [] s = (s, True)"
| "visit yield (x # xs) s = (let (s', c) = yield s x in if c then visit yield xs s' else (s', False))"

lemma visit_append:
  "visit yield (xs @ ys) s = (let (s', c) = visit yield xs s in if c then visit yield ys s' else (s', False))"
  by (induction xs arbitrary: s) (auto simp: Let_def split: prod.splits)

lemma preorder_values: "x \<in> set (preorder t) \<Longrightarrow> Value x \<in> set (node_values t)"
  by (induction t) auto

lemma mset_preorder: "mset (map (\<lambda>x. (ID x, Value x)) (preorder t)) = mset (node_entries t)"
  by (induction t) auto

lemma yieldRange_visit:
  assumes "sorted (node_values t)"
  shows "yieldRange yield from to t s = visit yield (filter (in_range from to) (preorder t)) s"
  using assms
proof (induction t arbitrary: s)
  case (Node x l r)
  note srt = Node.prems [unfolded sorted_Node]
  let ?pre = "\<lambda>t. filter (in_range from to) (preorder t)"
  have IHl: "yieldRange yield from to l = visit yield (?pre l)"
    and IHr: "yieldRange yield from to r = visit yield (?pre r)"
    using Node.IH srt by (auto intro!: ext)
  have cut_l: "?pre l = []" if "\<not> (from = Unbounded \<or> from \<le> Value x)"
    using that srt preorder_values by (force simp: filter_empty_conv in_range_def)
  have cut_r: "?pre r = []" if "\<not> (to = Unbounded \<or> Value x < to)"
    using that srt preorder_values by (force simp: filter_empty_conv in_range_def)
  have pre: "?pre (Node x l r) = (if in_range from to x then [x] else []) @ ?pre l @ ?pre r"
    by simp
  show ?case
    unfolding yieldRange.simps(2) IHl IHr pre visit_append Let_def
    by (cases "from = Unbounded \<or> from \<le> Value x"; cases "to = Unbounded \<or> Value x < to")
       (simp_all add: cut_l cut_r in_range_def split_beta del: not_less not_le)
qed simp

lemma AVL_Range_visit:
  "AVL_inv t \<Longrightarrow>
     AVL_Range yield from to t s = fst (visit yield (filter (in_range from to) (preorder (root t))) s)"
  by (simp add: AVL_Range_def yieldRange_visit AVL_inv_def)

section \<open>The tree as a finite map\<close>

definition AVL_map :: "'id avl \<Rightarrow> 'id \<rightharpoonup> int" where
  "AVL_map t = map_of (AVL_entries t)"

lemma AVL_inv_distinct: "AVL_inv t \<Longrightarrow> distinct (map fst (AVL_entries t))"
  by (simp add: AVL_inv_def AVL_entries_def cids_entries)

lemma AVL_map_dom: "dom (AVL_map t) = fst ` set (AVL_entries t)"
  by (simp add: AVL_map_def dom_map_of_conv_image_fst)

lemma AVL_map_Some: "AVL_inv t \<Longrightarrow> AVL_map t i = Some v \<longleftrightarrow> (i, v) \<in> set (AVL_entries t)"
  by (simp add: AVL_map_def AVL_inv_distinct)

lemma map_of_mset:
  "mset xs = mset ys \<Longrightarrow> distinct (map fst xs) \<Longrightarrow> map_of xs = map_of ys"
  by (metis map_of_inject_set mset_eq_setD mset_eq_imp_distinct_iff mset_map)

lemma AVL_map_filter: "map_of (filter (\<lambda>e. fst e \<noteq> i) xs) = (map_of xs)(i := None)"
  by (induction xs) (auto simp: fun_eq_iff)

lemma AVL_sum_entries:
  assumes "AVL_inv t"
  shows "(\<Sum>i \<in> dom (AVL_map t). f (the (AVL_map t i))) = sum_list (map f (node_values (root t)))"
proof -
  have d: "distinct (map fst (AVL_entries t))" by (rule AVL_inv_distinct [OF assms])
  have "(\<Sum>i \<in> dom (AVL_map t). f (the (AVL_map t i))) = (\<Sum>e \<in> set (AVL_entries t). f (snd e))"
    unfolding AVL_map_dom using d
    by (subst sum.reindex)
       (auto simp: distinct_map AVL_map_Some [OF assms, THEN iffD2] intro!: sum.cong)
  also have "\<dots> = sum_list (map (\<lambda>e. f (snd e)) (AVL_entries t))"
    using d by (simp add: distinct_map sum_list_distinct_conv_sum_set)
  finally show ?thesis by (simp add: AVL_entries_def cvals_entries comp_def)
qed

lemma AVL_Insert_map:
  assumes "AVL_inv t" "AVL_map t i = None" "0 \<le> v" "in_i64 v"
  shows "\<exists>t'. AVL_Insert i v t = Inr t' \<and> AVL_inv t' \<and> AVL_map t' = (AVL_map t)(i \<mapsto> v)"
proof -
  have "i \<notin> set (map fst (AVL_entries t))" using assms(2) AVL_map_dom [of t] by auto
  then obtain t' xs ys where t': "AVL_Insert i v t = Inr t'" "AVL_inv t'"
    "AVL_entries t = xs @ ys" "AVL_entries t' = xs @ (i, v) # ys"
    using AVL_Insert_ok [OF assms(1) _ assms(3,4)] by blast
  have "AVL_map t' = map_of ((i, v) # AVL_entries t)"
    unfolding AVL_map_def using t' AVL_inv_distinct [OF t'(2)] by (intro map_of_mset) auto
  then show ?thesis using t' by (auto simp: AVL_map_def)
qed

lemma AVL_Delete_map:
  assumes "AVL_inv t"
  shows "\<exists>t'. AVL_Delete i t = Inr t' \<and> AVL_inv t' \<and> AVL_map t' = (AVL_map t)(i := None)"
  using AVL_Delete_ok [OF assms, of i] by (auto simp: AVL_map_def AVL_map_filter)

lemma AVL_Replace_map:
  assumes "AVL_inv t" "0 \<le> v" "in_i64 v"
  shows "\<exists>t'. AVL_Replace i v t = Inr t' \<and> AVL_inv t' \<and> AVL_map t' = (AVL_map t)(i \<mapsto> v)"
  using AVL_Delete_map [OF assms(1), of i] AVL_Insert_map [of _ i v] assms(2,3)
  by (fastforce simp: AVL_Replace_def)

lemma AVL_ref_value:
  assumes "AVL_inv t"
  shows "refs t i = None \<longleftrightarrow> AVL_map t i = None"
    and "AVL_map t i = Some v \<Longrightarrow> \<exists>a x. refs t i = Some a \<and> node_at a (root t) = Some x \<and> Value x = v"
proof -
  show "refs t i = None \<longleftrightarrow> AVL_map t i = None"
    using AVL_inv_refs [OF assms, of i] AVL_map_dom [of t] by auto
  assume "AVL_map t i = Some v"
  then obtain a where a: "(a, i, v) \<in> set (cells (root t))"
    using AVL_map_Some [OF assms] by (auto simp: AVL_entries_def centries_def)
  then show "\<exists>a x. refs t i = Some a \<and> node_at a (root t) = Some x \<and> Value x = v"
    using assms node_at_cell [OF _ a] by (auto simp: AVL_inv_def)
qed

lemma AVL_Add_map:
  assumes "AVL_inv t" and s: "s = (case AVL_map t i of None \<Rightarrow> v | Some w \<Rightarrow> w + v)" "0 \<le> s" "in_i64 s"
  shows "\<exists>t'. AVL_Add i v t = Inr t' \<and> AVL_inv t' \<and> AVL_map t' = (AVL_map t)(i \<mapsto> s)"
proof (cases "AVL_map t i")
  case None
  then show ?thesis
    using AVL_ref_value(1) [OF assms(1), of i] AVL_Insert_map [OF assms(1) None, of v] s
    by (auto simp: AVL_Add_def)
next
  case (Some w)
  then show ?thesis
    using AVL_ref_value(2) [OF assms(1) Some] AVL_Replace_map [OF assms(1), of s i] s
    by (auto simp: AVL_Add_def i64_id)
qed

lemma AVL_Fairshare_level:
  assumes "AVL_inv t" "0 \<le> cap" "in_i64 cap" "sum_list (node_values (root t)) \<le> i64_max"
  shows "\<exists>k. AVL_Fairshare cap t = Inr k \<and> fair_level cap (node_values (root t)) k"
proof (cases "root t = Nil")
  case True
  then show ?thesis using assms(2) by (simp add: AVL_Fairshare_def fair_level_def)
next
  case False
  have "share_context cap [] (node_values (root t)) []"
    using assms by (auto simp: share_context_def AVL_inv_def)
  then show ?thesis
    using Node_fairshare_level [of "root t" cap "[]" "[]"] False assms(1)
    by (auto simp: AVL_Fairshare_def AVL_inv_def)
qed

lemma fair_level_nonneg:
  assumes "fair_level cap ds k" "0 \<le> cap" "\<forall>d \<in> set ds. 0 \<le> d"
  shows "ds = [] \<or> 0 \<le> k"
proof (rule ccontr)
  assume "\<not> (ds = [] \<or> 0 \<le> k)"
  then have k: "ds \<noteq> []" "k + 1 \<le> 0" by auto
  then have "capped (k + 1) ds = int (length ds) * (k + 1)"
    using assms(3) by (intro capped_below) auto
  then have "capped (k + 1) ds \<le> 0" using k by (simp add: mult_nonneg_nonpos)
  moreover have "cap < sum_list ds \<or> (\<forall>d \<in> set ds. d \<le> k)"
    using assms(1) by (auto simp: fair_level_def)
  ultimately show False using assms k by (cases ds) (auto simp: fair_level_def)
qed


section \<open>The contract of a fair-share tree\<close>

text \<open>
  What the two clients of the tree, the dispatcher's destination table and the executor's
  rate limiter, rely on: it is a finite map from members to residual demands, and its share
  is the largest level at which the capped demands fit the capacity.
\<close>

locale share_tree =
  fixes empty :: "'t" and replace :: "'id \<Rightarrow> int \<Rightarrow> 't \<Rightarrow> 'e + 't" and delete :: "'id \<Rightarrow> 't \<Rightarrow> 'e + 't"
    and fairshare :: "int \<Rightarrow> 't \<Rightarrow> 'e + int" and members :: "'t \<Rightarrow> ('id \<rightharpoonup> int)" and inv :: "'t \<Rightarrow> bool"
  assumes empty_ok: "inv empty" "members empty = Map.empty"
    and finite_members: "inv t \<Longrightarrow> finite (dom (members t))"
    and members_nonneg: "inv t \<Longrightarrow> members t i = Some v \<Longrightarrow> 0 \<le> v"
    and replace_ok: "inv t \<Longrightarrow> 0 \<le> v \<Longrightarrow> in_i64 v \<Longrightarrow>
      \<exists>t'. replace i v t = Inr t' \<and> inv t' \<and> members t' = (members t)(i \<mapsto> v)"
    and delete_ok: "inv t \<Longrightarrow> \<exists>t'. delete i t = Inr t' \<and> inv t' \<and> members t' = (members t)(i := None)"
    and fairshare_ok: "inv t \<Longrightarrow> 0 \<le> cap \<Longrightarrow> in_i64 cap \<Longrightarrow>
      (\<Sum>i \<in> dom (members t). the (members t i)) \<le> i64_max \<Longrightarrow>
      \<exists>k. fairshare cap t = Inr k \<and> 0 \<le> k
        \<and> (\<Sum>i \<in> dom (members t). min k (the (members t i))) \<le> cap
        \<and> (cap < (\<Sum>i \<in> dom (members t). the (members t i)) \<longrightarrow>
             cap < (\<Sum>i \<in> dom (members t). min (k + 1) (the (members t i))))
        \<and> ((\<Sum>i \<in> dom (members t). the (members t i)) \<le> cap \<longrightarrow> (\<forall>i v. members t i = Some v \<longrightarrow> v \<le> k))
        \<and> (members t = Map.empty \<or> (\<exists>i v. members t i = Some v \<and> k \<le> v))"
begin

text \<open>A member with floor \<open>lo i\<close> and ceiling \<open>hi i\<close> may send at \<open>min (hi i) (lo i + k)\<close>.\<close>

lemma limits_between:
  assumes "inv t" "members t i = Some (hi i - lo i)" "0 \<le> k"
  shows "lo i \<le> min (hi i) (lo i + k)" "min (hi i) (lo i + k) \<le> hi i"
  using members_nonneg [OF assms(1,2)] assms(3) by auto

lemma limits_fit:
  assumes t: "inv t" and res: "\<forall>i \<in> dom (members t). members t i = Some (hi i - lo i)"
    and cap: "0 \<le> cap" "in_i64 cap" and sum: "(\<Sum>i \<in> dom (members t). hi i - lo i) \<le> i64_max"
  shows "\<exists>k. fairshare cap t = Inr k \<and> 0 \<le> k
    \<and> (\<Sum>i \<in> dom (members t). min (hi i) (lo i + k)) \<le> (\<Sum>i \<in> dom (members t). lo i) + cap
    \<and> (members t = Map.empty \<or> (\<exists>i \<in> dom (members t). k \<le> hi i - lo i))
    \<and> ((\<Sum>i \<in> dom (members t). hi i) \<le> (\<Sum>i \<in> dom (members t). lo i) + cap \<longrightarrow>
         (\<forall>i \<in> dom (members t). min (hi i) (lo i + k) = hi i))
    \<and> ((\<Sum>i \<in> dom (members t). lo i) + cap < (\<Sum>i \<in> dom (members t). hi i) \<longrightarrow>
         (\<Sum>i \<in> dom (members t). lo i) + cap < (\<Sum>i \<in> dom (members t). min (hi i) (lo i + (k + 1))))"
proof -
  let ?D = "dom (members t)"
  have res': "the (members t i) = hi i - lo i" if "i \<in> ?D" for i using res that by auto
  have total: "(\<Sum>i \<in> ?D. the (members t i)) = (\<Sum>i \<in> ?D. hi i) - (\<Sum>i \<in> ?D. lo i)"
    by (simp add: res' sum_subtractf cong: sum.cong)
  have split: "(\<Sum>i \<in> ?D. min (hi i) (lo i + k)) = (\<Sum>i \<in> ?D. lo i) + (\<Sum>i \<in> ?D. min k (the (members t i)))"
    for k
    unfolding sum.distrib [symmetric] by (intro sum.cong) (auto simp: res' min_def)
  obtain k where k: "fairshare cap t = Inr k" "0 \<le> k" "(\<Sum>i \<in> ?D. min k (the (members t i))) \<le> cap"
    "cap < (\<Sum>i \<in> ?D. the (members t i)) \<longrightarrow> cap < (\<Sum>i \<in> ?D. min (k + 1) (the (members t i)))"
    "(\<Sum>i \<in> ?D. the (members t i)) \<le> cap \<longrightarrow> (\<forall>i v. members t i = Some v \<longrightarrow> v \<le> k)"
    "members t = Map.empty \<or> (\<exists>i v. members t i = Some v \<and> k \<le> v)"
    using fairshare_ok [OF t cap] sum by (auto simp: res' cong: sum.cong)
  have full: "\<forall>i \<in> ?D. min (hi i) (lo i + k) = hi i" if "(\<Sum>i \<in> ?D. hi i) \<le> (\<Sum>i \<in> ?D. lo i) + cap"
  proof
    fix i assume i: "i \<in> ?D"
    then have "hi i - lo i \<le> k" using k(5) that res total by fastforce
    then show "min (hi i) (lo i + k) = hi i" by simp
  qed
  moreover have "members t = Map.empty \<or> (\<exists>i \<in> ?D. k \<le> hi i - lo i)"
    using k(6) res by (metis domI option.inject)
  ultimately show ?thesis
    using k(1-4) total by (intro exI [of _ k]) (auto simp: split)
qed

end

lemma member_above:
  assumes "AVL_inv t" "fair_level cap (node_values (root t)) k"
  shows "AVL_map t = Map.empty \<or> (\<exists>i v. AVL_map t i = Some v \<and> k \<le> v)"
proof (cases "node_values (root t) = []")
  case True
  then show ?thesis by (simp add: AVL_map_def AVL_entries_def cvals_def centries_def)
next
  case False
  have "\<exists>v \<in> set (node_values (root t)). k \<le> v"
  proof (cases "sum_list (node_values (root t)) \<le> cap")
    case True
    then show ?thesis using assms(2) False unfolding fair_level_def by blast
  next
    case less: False
    show ?thesis
    proof (rule ccontr)
      assume "\<not> ?thesis"
      then have "capped k (node_values (root t)) = sum_list (node_values (root t))"
        by (intro capped_above) auto
      then show False using less assms(2) by (simp add: fair_level_def)
    qed
  qed
  then obtain i v where "(i, v) \<in> set (AVL_entries t)" "k \<le> v"
    by (auto simp: AVL_entries_def cvals_entries)
  then show ?thesis using AVL_map_Some [OF assms(1)] by blast
qed

interpretation avl: share_tree empty_avl AVL_Replace AVL_Delete AVL_Fairshare AVL_map AVL_inv
proof unfold_locales
  show "AVL_inv (empty_avl :: 'a avl)" by (rule AVL_inv_empty)
  show "AVL_map (empty_avl :: 'a avl) = Map.empty"
    by (simp add: AVL_map_def AVL_entries_def empty_avl_def)
next
  fix t :: "'a avl" and i v cap
  assume t: "AVL_inv t"
  show "finite (dom (AVL_map t))" by (simp add: AVL_map_def finite_dom_map_of)
  show "0 \<le> v" if "AVL_map t i = Some v"
    using that t by (auto simp: AVL_map_Some AVL_inv_def AVL_entries_def cvals_entries)
  show "\<exists>t'. AVL_Replace i v t = Inr t' \<and> AVL_inv t' \<and> AVL_map t' = (AVL_map t)(i \<mapsto> v)"
    if "0 \<le> v" "in_i64 v" using AVL_Replace_map [OF t that] .
  show "\<exists>t'. AVL_Delete i t = Inr t' \<and> AVL_inv t' \<and> AVL_map t' = (AVL_map t)(i := None)"
    by (rule AVL_Delete_map [OF t])
  assume cap: "0 \<le> cap" "in_i64 cap" and sum: "(\<Sum>i \<in> dom (AVL_map t). the (AVL_map t i)) \<le> i64_max"
  note sums = AVL_sum_entries [OF t]
  have total: "(\<Sum>i \<in> dom (AVL_map t). the (AVL_map t i)) = sum_list (node_values (root t))"
    and cap_sum: "(\<Sum>i \<in> dom (AVL_map t). min m (the (AVL_map t i))) = capped m (node_values (root t))" for m
    using sums [of "\<lambda>x. x"] sums [of "min m"] by (simp_all add: capped_def)
  obtain k where k: "AVL_Fairshare cap t = Inr k" "fair_level cap (node_values (root t)) k"
    using AVL_Fairshare_level [OF t cap] sum total by auto
  have "0 \<le> k"
  proof (cases "root t = Nil")
    case True then show ?thesis using k(1) by (simp add: AVL_Fairshare_def)
  next
    case False
    then show ?thesis
      using fair_level_nonneg [OF k(2) cap(1)] t by (cases "root t") (auto simp: AVL_inv_def)
  qed
  moreover have "v \<le> k" if "sum_list (node_values (root t)) \<le> cap" "AVL_map t i = Some v" for i v
    using that k(2) t by (fastforce simp: fair_level_def AVL_map_Some AVL_entries_def cvals_entries)
  ultimately show "\<exists>k. AVL_Fairshare cap t = Inr k \<and> 0 \<le> k
        \<and> (\<Sum>i \<in> dom (AVL_map t). min k (the (AVL_map t i))) \<le> cap
        \<and> (cap < (\<Sum>i \<in> dom (AVL_map t). the (AVL_map t i)) \<longrightarrow>
             cap < (\<Sum>i \<in> dom (AVL_map t). min (k + 1) (the (AVL_map t i))))
        \<and> ((\<Sum>i \<in> dom (AVL_map t). the (AVL_map t i)) \<le> cap \<longrightarrow>
             (\<forall>i v. AVL_map t i = Some v \<longrightarrow> v \<le> k))
        \<and> (AVL_map t = Map.empty \<or> (\<exists>i v. AVL_map t i = Some v \<and> k \<le> v))"
    using k member_above [OF t k(2)] unfolding total cap_sum fair_level_def by (intro exI [of _ k]) auto
qed

section \<open>Sequences of operations\<close>

datatype 'id avl_op =
    OpInsert 'id int | OpDelete 'id | OpReplace 'id int | OpAdd 'id int

fun AVL_step :: "'id avl_op \<Rightarrow> 'id avl \<Rightarrow> panic + 'id avl" where
  "AVL_step (OpInsert i v) t = AVL_Insert i v t"
| "AVL_step (OpDelete i) t = AVL_Delete i t"
| "AVL_step (OpReplace i v) t = AVL_Replace i v t"
| "AVL_step (OpAdd i v) t = AVL_Add i v t"

text \<open>The specification of the operations on a finite map, panics included.\<close>

definition put :: "'id \<Rightarrow> int \<Rightarrow> ('id \<rightharpoonup> int) \<Rightarrow> panic + ('id \<rightharpoonup> int)" where
  "put i v m = (if v < 0 then Inl NegativeValue else Inr (m(i \<mapsto> v)))"

fun map_step :: "'id avl_op \<Rightarrow> ('id \<rightharpoonup> int) \<Rightarrow> panic + ('id \<rightharpoonup> int)" where
  "map_step (OpInsert i v) m = (if 0 \<le> v \<and> m i \<noteq> None then Inl DuplicateID else put i v m)"
| "map_step (OpDelete i) m = Inr (m(i := None))"
| "map_step (OpReplace i v) m = put i v m"
| "map_step (OpAdd i v) m = (case m i of None \<Rightarrow> put i v m | Some w \<Rightarrow> put i (i64 (w + v)) m)"

fun op_value :: "'id avl_op \<Rightarrow> int" where
  "op_value (OpInsert i v) = v"
| "op_value (OpDelete i) = 0"
| "op_value (OpReplace i v) = v"
| "op_value (OpAdd i v) = v"

definition simulates :: "panic + 'id avl \<Rightarrow> panic + ('id \<rightharpoonup> int) \<Rightarrow> bool" where
  "simulates r a \<longleftrightarrow>
     (case r of Inl e \<Rightarrow> a = Inl e | Inr t \<Rightarrow> AVL_inv t \<and> a = Inr (AVL_map t))"

lemma Replace_simulates:
  assumes "AVL_inv t" "in_i64 v"
  shows "simulates (AVL_Replace i v t) (put i v (AVL_map t))"
proof (cases "v < 0")
  case True
  then show ?thesis
    using AVL_Delete_map [OF assms(1), of i]
    by (auto simp: AVL_Replace_def AVL_Insert_def put_def simulates_def)
next
  case False
  then show ?thesis
    using AVL_Replace_map [OF assms(1), of v i] assms(2) by (auto simp: put_def simulates_def)
qed

lemma Insert_simulates:
  assumes "AVL_inv t" "in_i64 v"
  shows "simulates (AVL_Insert i v t) (map_step (OpInsert i v) (AVL_map t))"
proof -
  consider "v < 0" | "0 \<le> v" "AVL_map t i = None" | w where "0 \<le> v" "AVL_map t i = Some w"
    by fastforce
  then show ?thesis
  proof cases
    case 1 then show ?thesis by (simp add: AVL_Insert_def put_def simulates_def)
  next
    case 2
    then show ?thesis
      using AVL_Insert_map [OF assms(1) 2(2,1) assms(2)] by (auto simp: put_def simulates_def)
  next
    case 3
    then have "i \<in> set (map fst (AVL_entries t))"
      using AVL_map_Some [OF assms(1)] by force
    then show ?thesis
      using AVL_Insert_duplicate [OF assms(1) _ 3(1)] 3 by (simp add: simulates_def)
  qed
qed

lemma step_simulates:
  assumes "AVL_inv t" "in_i64 (op_value x)"
  shows "simulates (AVL_step x t) (map_step x (AVL_map t))"
proof (cases x)
  case (OpInsert i v)
  then show ?thesis using assms Insert_simulates by fastforce
next
  case (OpDelete i)
  then show ?thesis using AVL_Delete_map [OF assms(1), of i] by (auto simp: simulates_def)
next
  case (OpReplace i v)
  then show ?thesis using assms Replace_simulates by fastforce
next
  case (OpAdd i v)
  show ?thesis
  proof (cases "AVL_map t i")
    case None
    then show ?thesis
      using OpAdd Insert_simulates [OF assms(1), of v i] AVL_ref_value(1) [OF assms(1), of i] assms(2)
      by (simp add: AVL_Add_def)
  next
    case (Some w)
    then show ?thesis
      using OpAdd Replace_simulates [OF assms(1), of "i64 (w + v)" i] AVL_ref_value(2) [OF assms(1) Some]
      by (auto simp: AVL_Add_def)
  qed
qed

lemma run_simulates:
  assumes "AVL_inv t" "\<forall>x \<in> set ops. in_i64 (op_value x)"
  shows "simulates (run_ops AVL_step ops t) (run_ops map_step ops (AVL_map t))"
  using assms
proof (induction ops arbitrary: t)
  case Nil then show ?case by (simp add: simulates_def)
next
  case (Cons x xs)
  have s: "simulates (AVL_step x t) (map_step x (AVL_map t))" using step_simulates Cons.prems by fastforce
  show ?case
  proof (cases "AVL_step x t")
    case (Inl e) then show ?thesis using s by (simp add: simulates_def)
  next
    case (Inr u)
    then show ?thesis using s Cons.IH [of u] Cons.prems(2) by (simp add: simulates_def)
  qed
qed

text \<open>The height of a balanced tree is logarithmic in its size.\<close>

lemma height_size:
  "balanced t \<Longrightarrow> 2 ^ nat (hgt t) \<le> (length (cells t) + 1)\<^sup>2"
proof (induction t)
  case (Node x l r)
  let ?a = "length (cells l) + 1" and ?b = "length (cells r) + 1"
  have half: "2 ^ (m + 2) \<le> (a + b)\<^sup>2" if "2 ^ (m + 1) \<le> a\<^sup>2" "2 ^ m \<le> b\<^sup>2" for m a b :: nat
  proof -
    have "(2 ^ m)\<^sup>2 \<le> (2 ^ (m + 1)) * (2 ^ m :: nat)" by (simp add: power2_eq_square)
    also have "\<dots> \<le> a\<^sup>2 * b\<^sup>2" using that by (intro mult_mono) auto
    finally have "2 ^ m \<le> a * b"
      unfolding power_mult_distrib [symmetric] by (rule power2_le_imp_le) simp
    then show ?thesis using that by (simp add: power2_sum)
  qed
  have pos: "0 \<le> hgt l" "0 \<le> hgt r" using Node.prems hgt_nonneg by auto
  have IH: "2 ^ nat (hgt l) \<le> ?a\<^sup>2" "2 ^ nat (hgt r) \<le> ?b\<^sup>2" using Node by auto
  have step: "2 ^ nat (k + 1) \<le> (a + b)\<^sup>2"
    if "2 ^ nat k \<le> a\<^sup>2" "2 ^ nat j \<le> b\<^sup>2" "0 \<le> j" "k - 1 \<le> j" "j \<le> k" "1 \<le> b" for k j :: int and a b :: nat
  proof (cases "k = 0")
    case True
    have "1 \<le> a" using that(1) by (cases a) auto
    then have "2\<^sup>2 \<le> (a + b)\<^sup>2" using that(6) by (intro power_mono) auto
    then show ?thesis using True by simp
  next
    case False
    define m where "m = nat (k - 1)"
    have k: "nat k = m + 1" "nat (k + 1) = m + 2" using False that by (auto simp: m_def)
    have "(2 :: nat) ^ m \<le> 2 ^ nat j" using that m_def by (intro power_increasing) auto
    then have "2 ^ m \<le> b\<^sup>2" using that(2) by (rule order_trans)
    then show ?thesis using half [of m a b] that(1) k by simp
  qed
  have d: "\<bar>hgt r - hgt l\<bar> \<le> 1" "hgt (Node x l r) = max (hgt l) (hgt r) + 1" using Node.prems by auto
  show ?case
  proof (cases "hgt r \<le> hgt l")
    case True
    then show ?thesis
      using step [OF IH] pos d by (simp add: max_def add.commute add.left_commute)
  next
    case False
    then show ?thesis
      using step [OF IH(2,1)] pos d by (simp add: max_def add.commute add.left_commute)
  qed
qed simp

lemma AVL_Len_cnt: "AVL_Len t = cnt (root t)" and AVL_Sum_tsum: "AVL_Sum t = tsum (root t)"
  by (cases "root t"; simp add: AVL_Len_def AVL_Sum_def)+

lemma AVL_Len_card: "AVL_inv t \<Longrightarrow> AVL_Len t = int (card (dom (AVL_map t)))"
  using distinct_card [OF AVL_inv_distinct, of t]
  by (simp add: AVL_Len_cnt AVL_inv_def cnt_length AVL_map_dom AVL_entries_def)
     (simp add: centries_def)

lemma AVL_Sum_members:
  "AVL_inv t \<Longrightarrow> AVL_Sum t = i64 (\<Sum>i \<in> dom (AVL_map t). the (AVL_map t i))"
  using AVL_sum_entries [of t "\<lambda>x. x"]
  by (simp add: AVL_Sum_tsum AVL_inv_def tsum_sum)

section \<open>Properties\<close>

text \<open>C19: C13: from the empty tree, every sequence of insertions, deletions, replacements and
  additions of 64-bit values behaves as on a finite map from identities to values: it panics
  exactly when the map specification does (a negative value, a duplicate insertion), with the
  same panic, and otherwise ends in a well-formed balanced tree whose members are the map.
\<close>

theorem AVL_run_refines_map:
  assumes "\<forall>x \<in> set ops. in_i64 (op_value x)"
  shows "case run_ops AVL_step ops empty_avl of
           Inl e \<Rightarrow> run_ops map_step ops Map.empty = Inl e
         | Inr t \<Rightarrow> AVL_inv t \<and> run_ops map_step ops Map.empty = Inr (AVL_map t)"
  using run_simulates [OF avl.empty_ok(1) assms] by (simp add: simulates_def avl.empty_ok(2))

theorem AVL_run_refines_map_witness:
  "case run_ops AVL_step [OpInsert (1::nat) 5, OpAdd 2 7, OpInsert 3 9, OpDelete 2, OpAdd 3 1, OpReplace 1 2] empty_avl of
           Inl e \<Rightarrow> run_ops map_step [OpInsert 1 5, OpAdd 2 7, OpInsert 3 9, OpDelete 2, OpAdd 3 1, OpReplace 1 2] (Map.empty :: nat \<rightharpoonup> int) = Inl e
         | Inr t \<Rightarrow> AVL_inv t \<and> run_ops map_step [OpInsert 1 5, OpAdd 2 7, OpInsert 3 9, OpDelete 2, OpAdd 3 1, OpReplace 1 2]
              Map.empty = Inr (AVL_map t)"
  by (rule AVL_run_refines_map) (simp add: in_i64_def i64_min_def i64_max_def)

definition sample_avl :: "nat avl" where
  "sample_avl = projr (run_ops AVL_step [OpInsert 1 50, OpInsert 2 70, OpInsert 3 90] empty_avl)"

lemma sample_avl_inv: "AVL_inv sample_avl"
proof -
  have "\<forall>x \<in> set [OpInsert (1::nat) 50, OpInsert 2 70, OpInsert 3 90]. in_i64 (op_value x)"
    by (simp add: in_i64_def i64_min_def i64_max_def)
  from run_simulates [OF avl.empty_ok(1) this]
  have "simulates (run_ops AVL_step [OpInsert (1::nat) 50, OpInsert 2 70, OpInsert 3 90] empty_avl)
    (run_ops map_step [OpInsert (1::nat) 50, OpInsert 2 70, OpInsert 3 90] Map.empty)"
    by (simp add: avl.empty_ok(2))
  moreover have "run_ops map_step [OpInsert (1::nat) 50, OpInsert 2 70, OpInsert 3 90] Map.empty =
      Inr [1 \<mapsto> 50, 2 \<mapsto> 70, 3 \<mapsto> 90]"
    by (simp add: put_def)
  ultimately show ?thesis
    unfolding sample_avl_def by (auto simp: simulates_def split: sum.splits)
qed

lemma sample_avl_map: "AVL_map sample_avl = [1 \<mapsto> 50, 2 \<mapsto> 70, 3 \<mapsto> 90]"
proof -
  have "AVL_entries sample_avl = [(1, 50), (2, 70), (3, 90)]" by code_simp
  then show ?thesis by (auto simp: AVL_map_def fun_eq_iff)
qed

text \<open>C20: C14: the fair share of a capacity over the members of a well-formed tree is the max-min
  fair level: it is found for every capacity, it is not negative, the demands capped at it
  fit the capacity, and it is the largest such level; when all demands fit it caps none, and
  it never exceeds the largest demand.
\<close>

theorem AVL_Fairshare_max_min:
  assumes "AVL_inv t" "0 \<le> cap" "in_i64 cap" "(\<Sum>i \<in> dom (AVL_map t). the (AVL_map t i)) \<le> i64_max"
  shows "\<exists>k. AVL_Fairshare cap t = Inr k \<and> 0 \<le> k
    \<and> (\<Sum>i \<in> dom (AVL_map t). min k (the (AVL_map t i))) \<le> cap
    \<and> (cap < (\<Sum>i \<in> dom (AVL_map t). the (AVL_map t i)) \<longrightarrow>
         cap < (\<Sum>i \<in> dom (AVL_map t). min (k + 1) (the (AVL_map t i))))
    \<and> ((\<Sum>i \<in> dom (AVL_map t). the (AVL_map t i)) \<le> cap \<longrightarrow> (\<forall>i v. AVL_map t i = Some v \<longrightarrow> v \<le> k))
    \<and> (AVL_map t = Map.empty \<or> (\<exists>i v. AVL_map t i = Some v \<and> k \<le> v))"
  by (rule avl.fairshare_ok [OF assms])

theorem AVL_Fairshare_max_min_witness:
  "(\<Sum>i \<in> dom (AVL_map sample_avl). the (AVL_map sample_avl i)) = 210
   \<and> (\<exists>k. AVL_Fairshare 151 sample_avl = Inr k \<and> 0 \<le> k
    \<and> (\<Sum>i \<in> dom (AVL_map sample_avl). min k (the (AVL_map sample_avl i))) \<le> 151
    \<and> 151 < (\<Sum>i \<in> dom (AVL_map sample_avl). min (k + 1) (the (AVL_map sample_avl i))))"
proof -
  have sum: "(\<Sum>i \<in> dom (AVL_map sample_avl). the (AVL_map sample_avl i)) = 210"
    by (simp add: sample_avl_map)
  then show ?thesis
    using AVL_Fairshare_max_min [OF sample_avl_inv, of 151]
    by (auto simp: in_i64_def i64_min_def i64_max_def)
qed

text \<open>A range query visits exactly the members whose value is in the half-open range, each
  once, in one fixed order that does not depend on the consumer, and stops at the first one
  the consumer refuses.
\<close>

theorem AVL_Range_exact:
  assumes "AVL_inv t"
  shows "\<exists>xs. mset (map (\<lambda>x. (ID x, Value x)) xs) =
      filter_mset (\<lambda>(i, v). (from = Unbounded \<or> from \<le> v) \<and> (to = Unbounded \<or> v < to)) (mset (AVL_entries t))
    \<and> (\<forall>yield s. AVL_Range yield from to t s = fst (visit yield xs s))"
proof (intro exI conjI allI)
  let ?xs = "filter (in_range from to) (preorder (root t))"
  let ?P = "\<lambda>(i, v). (from = Unbounded \<or> from \<le> v) \<and> (to = Unbounded \<or> v < to)"
  have "map (\<lambda>x. (ID x, Value x)) ?xs = filter ?P (map (\<lambda>x. (ID x, Value x)) (preorder (root t)))"
    by (simp add: filter_map comp_def in_range_def [abs_def])
  then show "mset (map (\<lambda>x. (ID x, Value x)) ?xs) = filter_mset ?P (mset (AVL_entries t))"
    by (simp only: mset_filter mset_preorder AVL_entries_def)
  show "AVL_Range yield from to t s = fst (visit yield ?xs s)" for yield :: "'b \<Rightarrow> 'a node_info \<Rightarrow> 'b \<times> bool" and s
    by (rule AVL_Range_visit [OF assms])
qed

theorem AVL_Range_exact_witness:
  "\<exists>xs. mset (map (\<lambda>x. (ID x, Value x)) xs) = {#(2, 70)#}
    \<and> (\<forall>yield (s :: nat). AVL_Range yield 60 90 sample_avl s = fst (visit yield xs s))"
proof -
  have "AVL_entries sample_avl = [(1, 50), (2, 70), (3, 90)]" by code_simp
  then show ?thesis
    using AVL_Range_exact [OF sample_avl_inv, of 60 90]
    by (simp add: Unbounded_def)
qed

text \<open>A well-formed tree answers \<open>Len\<close> with its number of members and \<open>Sum\<close> with the sum of
  their values wrapped at 64 bits, and its height is at most twice the binary logarithm of
  its size plus one.
\<close>

theorem AVL_shape:
  assumes "AVL_inv t"
  shows "AVL_Len t = int (card (dom (AVL_map t)))
    \<and> AVL_Sum t = i64 (\<Sum>i \<in> dom (AVL_map t). the (AVL_map t i))
    \<and> 2 ^ nat (hgt (root t)) \<le> (AVL_Len t + 1)\<^sup>2"
proof -
  have "(2 :: nat) ^ nat (hgt (root t)) \<le> (length (cells (root t)) + 1)\<^sup>2"
    using height_size assms by (auto simp: AVL_inv_def)
  then have "2 ^ nat (hgt (root t)) \<le> (int (length (cells (root t))) + 1)\<^sup>2"
    by (metis (mono_tags, lifting) of_nat_1 of_nat_add of_nat_le_iff of_nat_numeral of_nat_power)
  moreover have "AVL_Len t = int (length (cells (root t)))"
    using assms by (simp add: AVL_Len_cnt AVL_inv_def cnt_length)
  ultimately show ?thesis using AVL_Len_card AVL_Sum_members assms by auto
qed

theorem AVL_shape_witness:
  "AVL_Len sample_avl = 3 \<and> AVL_Sum sample_avl = i64 210 \<and> 2 ^ nat (hgt (root sample_avl)) \<le> (16 :: int)"
  using AVL_shape [OF sample_avl_inv] by (auto simp: sample_avl_map)

end
