(* ===== verification/Bitrate.thy ===== *)
theory Bitrate
  imports Prelude
begin

text \<open>
  \<open>src/internal/bitrate/bitrate.go\<close>: the bandwidth type of both roles, a signed 64-bit
  count of bits per second. The exact-sum addition, the policy range and the conversions
  between bits and bytes are modelled; the textual forms (\<open>String\<close>, \<open>Parse\<close>) go through
  floating point and are not.
\<close>

type_synonym bitrate = int

section \<open>Units and operations\<close>

definition Bit :: bitrate where "Bit = 1"
definition Kilobit :: bitrate where "Kilobit = 1000 * Bit"
definition Megabit :: bitrate where "Megabit = 1000 * Kilobit"
definition Gigabit :: bitrate where "Gigabit = 1000 * Megabit"
definition Terabit :: bitrate where "Terabit = 1000 * Gigabit"
definition Petabit :: bitrate where "Petabit = 1000 * Terabit"

definition bitrate_Max :: bitrate where
  "bitrate_Max = Petabit"

lemmas bitrate_units =
  Bit_def Kilobit_def Megabit_def Gigabit_def Terabit_def Petabit_def bitrate_Max_def

definition InPolicyRange :: "int \<Rightarrow> bool" where
  "InPolicyRange bps \<longleftrightarrow> bps \<ge> 0 \<and> bps \<le> bitrate_Max"

text \<open>\<open>Add\<close> returns the sum and whether it is exact.\<close>

definition bitrate_Add :: "bitrate \<Rightarrow> bitrate \<Rightarrow> bitrate \<times> bool" where
  "bitrate_Add a b =
     (let sum = i64 (a + b) in
      if (b > 0 \<and> sum < a) \<or> (b < 0 \<and> sum > a) then (0, False) else (sum, True))"

definition bitsPerByte :: int where
  "bitsPerByte = 8"

definition MaxByteCount :: int where
  "MaxByteCount = go_div i64_max bitsPerByte"

definition Bitrate_Bytes :: "bitrate \<Rightarrow> int" where
  "Bitrate_Bytes b =
     (if b \<le> 0 then 0
      else let whole = go_div b bitsPerByte in
           if go_rem b bitsPerByte \<noteq> 0 then i64 (whole + 1) else whole)"

definition Bitrate_SignedBytes :: "bitrate \<Rightarrow> int" where
  "Bitrate_SignedBytes b =
     (let whole = go_div b bitsPerByte in
      if go_rem b bitsPerByte \<noteq> 0 \<and> b < 0 then i64 (whole - 1) else whole)"

definition FromBytes :: "int \<Rightarrow> bitrate" where
  "FromBytes bytes =
     (if bytes > MaxByteCount then i64_max
      else if bytes < - MaxByteCount then i64_min
      else i64 (bytes * bitsPerByte))"

section \<open>Correctness\<close>

lemmas i64_bounds = in_i64_def i64_min_def i64_max_def

lemma MaxByteCount_value: "MaxByteCount = 1152921504606846975"
  by (simp add: MaxByteCount_def bitsPerByte_def go_div_def i64_def i64_max_def)

text \<open>A wrapped sum leaves the interval between its operands' directions exactly on overflow.\<close>

lemma i64_add_cases:
  assumes "in_i64 a" "in_i64 b"
  shows "i64 (a + b) = a + b \<and> in_i64 (a + b)
     \<or> i64 (a + b) = a + b - 18446744073709551616 \<and> i64_max < a + b
     \<or> i64 (a + b) = a + b + 18446744073709551616 \<and> a + b < i64_min"
proof -
  consider "in_i64 (a + b)" | "i64_max < a + b" | "a + b < i64_min"
    unfolding in_i64_def by linarith
  then show ?thesis
  proof cases
    case 1
    then show ?thesis by (simp add: i64_id)
  next
    case 2
    have "i64 (a + b) = i64 (a + b - 18446744073709551616)"
      by (simp add: i64_cong_iff mod_diff_right_eq [symmetric])
    also have "\<dots> = a + b - 18446744073709551616"
      using assms 2 by (intro i64_id) (auto simp: i64_bounds)
    finally show ?thesis using 2 by simp
  next
    case 3
    have "i64 (a + b) = i64 (a + b + 18446744073709551616)"
      by (simp add: i64_cong_iff)
    also have "\<dots> = a + b + 18446744073709551616"
      using assms 3 by (intro i64_id) (auto simp: i64_bounds)
    finally show ?thesis using 3 by simp
  qed
qed

lemma bitrate_Add_exact_iff:
  assumes "in_i64 a" "in_i64 b"
  shows "bitrate_Add a b = (if in_i64 (a + b) then (a + b, True) else (0, False))"
  using i64_add_cases [OF assms] assms
  by (auto simp: bitrate_Add_def Let_def i64_bounds)

lemma go_div8:
  "in_i64 b \<Longrightarrow> go_div b bitsPerByte = (if 0 \<le> b then b div 8 else - ((- b) div 8))"
  by (cases "b = 0")
     (auto simp: go_div_def bitsPerByte_def sgn_if i64_bounds intro!: i64_id)

lemma go_rem8: "go_rem b bitsPerByte \<noteq> 0 \<longleftrightarrow> b mod 8 \<noteq> 0"
proof -
  have "(- b) mod 8 = 0 \<longleftrightarrow> b mod 8 = 0"
    by (simp add: mod_eq_0_iff_dvd)
  then show ?thesis
    by (auto simp: go_rem_def bitsPerByte_def sgn_if abs_if)
qed

lemma div8_bounds: "8 * (b div 8) \<le> b \<and> b < 8 * (b div 8) + (8 :: int)"
  using pos_mod_bound [of 8 b] pos_mod_sign [of 8 b] mult_div_mod_eq [of 8 b] by linarith

lemma div8_round_up: "b mod 8 \<noteq> 0 \<Longrightarrow> (b + 7) div 8 = b div 8 + (1 :: int)"
  by presburger

lemma div8_exact: "b mod 8 = 0 \<Longrightarrow> (b + 7) div 8 = b div (8 :: int)"
  by presburger

lemma neg_div8: "- ((- b) div 8) = (b + 7) div (8 :: int)"
  by presburger

lemma in_i64_div8: "in_i64 b \<Longrightarrow> in_i64 (b div 8)"
  using div8_bounds [of b] unfolding i64_bounds by linarith

lemma SignedBytes_floor:
  assumes "in_i64 b"
  shows "Bitrate_SignedBytes b = b div 8"
  using in_i64_div8 [OF assms]
  by (simp add: Bitrate_SignedBytes_def Let_def go_div8 [OF assms] go_rem8 neg_div8 i64_id
      div8_round_up div8_exact)

lemma Bytes_ceil:
  assumes "in_i64 b"
  shows "Bitrate_Bytes b = (if b \<le> 0 then 0 else (b + 7) div 8)"
proof -
  have "in_i64 (b div 8 + 1)"
    using assms div8_bounds [of b] unfolding i64_bounds by linarith
  then show ?thesis
    by (simp add: Bitrate_Bytes_def Let_def go_div8 [OF assms] go_rem8 i64_id div8_round_up div8_exact)
qed

lemma FromBytes_exact: "\<bar>n\<bar> \<le> MaxByteCount \<Longrightarrow> FromBytes n = 8 * n \<and> in_i64 (8 * n)"
proof -
  assume n: "\<bar>n\<bar> \<le> MaxByteCount"
  then have r: "in_i64 (8 * n)"
    by (auto simp: MaxByteCount_value i64_bounds)
  moreover have "FromBytes n = 8 * n"
    using n i64_id [OF r] by (auto simp: FromBytes_def bitsPerByte_def mult.commute)
  ultimately show ?thesis by simp
qed

text \<open>Bandwidth sums never wrap unnoticed: \<open>Add\<close> returns the mathematical sum with \<open>true\<close>
  exactly when it is representable and \<open>(0, false)\<close> otherwise; converting a byte count to
  bits and back is the identity up to \<open>MaxByteCount\<close>, a signed balance converts to whole
  bytes by rounding down (part of a debt is never erased), and a size rounds up to the
  smallest sufficient number of bytes.
\<close>

theorem bitrate_arithmetic_exact:
  assumes "in_i64 a" "in_i64 b" "\<bar>n\<bar> \<le> MaxByteCount"
  shows "bitrate_Add a b = (if in_i64 (a + b) then (a + b, True) else (0, False))
    \<and> Bitrate_SignedBytes a = a div 8
    \<and> (0 \<le> a \<longrightarrow> a \<le> 8 * Bitrate_Bytes a \<and> 8 * Bitrate_Bytes a < a + 8)
    \<and> Bitrate_SignedBytes (FromBytes n) = n
    \<and> (0 \<le> n \<longrightarrow> Bitrate_Bytes (FromBytes n) = n)"
proof -
  have "0 \<le> a \<longrightarrow> a \<le> 8 * Bitrate_Bytes a \<and> 8 * Bitrate_Bytes a < a + 8"
    using Bytes_ceil [OF assms(1)] div8_bounds [of "a + 7"] by auto
  moreover have "0 \<le> n \<longrightarrow> Bitrate_Bytes (FromBytes n) = n"
    using FromBytes_exact [OF assms(3)] by (auto simp: Bytes_ceil)
  ultimately show ?thesis
    using assms FromBytes_exact [OF assms(3)]
    by (simp add: bitrate_Add_exact_iff SignedBytes_floor)
qed

theorem bitrate_arithmetic_exact_witness:
  "bitrate_Add i64_max 1 = (0, False) \<and> Bitrate_SignedBytes (-1) = -1
   \<and> Bitrate_SignedBytes (FromBytes 5) = 5"
proof -
  have r: "in_i64 i64_max" "in_i64 1" "in_i64 (-1)" "\<not> in_i64 (i64_max + 1)"
      "\<bar>5\<bar> \<le> MaxByteCount"
    by (simp_all add: i64_bounds MaxByteCount_value)
  show ?thesis
    using bitrate_arithmetic_exact [OF r(1,2,5)] bitrate_arithmetic_exact [OF r(3,2,5)] r
    by simp
qed

end
