(* ===== verification/Net_Addr.thy ===== *)
theory Net_Addr
  imports Prelude
begin

text \<open>
  \<open>src/internal/netaddr\<close>: the spelling of destinations and ports that dispatcher, executor
  and traffic accounting share. The parts of Go's library the package rests on
  (\<open>netip.ParseAddr\<close>, \<open>Addr.Unmap\<close>, \<open>Addr.WithZone\<close>, \<open>Addr.String\<close>, \<open>net.SplitHostPort\<close>,
  \<open>strconv.Atoi\<close> and the string helpers) are written out first. A string is its bytes; the
  case and white space tables are the ASCII ones, which is what host names use.
\<close>

section \<open>Strings and numbers of the Go library\<close>

definition byte :: "char \<Rightarrow> int" where
  "byte c = of_char c"

definition is_space :: "char \<Rightarrow> bool" where
  "is_space c \<longleftrightarrow> byte c \<in> {9, 10, 11, 12, 13, 32}"

definition TrimSpace :: "string \<Rightarrow> string" where
  "TrimSpace s = rev (dropWhile is_space (rev (dropWhile is_space s)))"

definition lower :: "char \<Rightarrow> char" where
  "lower c = (if 65 \<le> byte c \<and> byte c \<le> 90 then char_of (byte c + 32) else c)"

definition ToLower :: "string \<Rightarrow> string" where
  "ToLower s = map lower s"

definition TrimDot :: "string \<Rightarrow> string" where
  "TrimDot s = (if s \<noteq> [] \<and> last s = CHR ''.'' then butlast s else s)"

text \<open>\<open>strings.Index\<close> and \<open>strings.LastIndex\<close> of one byte.\<close>

definition index_of :: "char \<Rightarrow> string \<Rightarrow> nat option" where
  "index_of c s = (if c \<in> set s then Some (length (takeWhile (\<lambda>x. x \<noteq> c) s)) else None)"

definition last_index_of :: "char \<Rightarrow> string \<Rightarrow> nat option" where
  "last_index_of c s =
     (if c \<in> set s then Some (length s - 1 - length (takeWhile (\<lambda>x. x \<noteq> c) (rev s))) else None)"

fun split_on :: "char \<Rightarrow> string \<Rightarrow> string list" where
  "split_on c [] = [[]]"
| "split_on c (x # xs) =
     (if x = c then [] # split_on c xs
      else case split_on c xs of [] \<Rightarrow> [[x]] | p # ps \<Rightarrow> (x # p) # ps)"

definition is_digit :: "char \<Rightarrow> bool" where
  "is_digit c \<longleftrightarrow> 48 \<le> byte c \<and> byte c \<le> 57"

definition digit_char :: "int \<Rightarrow> char" where
  "digit_char d = (if d < 10 then char_of (48 + d) else char_of (87 + d))"

definition digits_value :: "string \<Rightarrow> int" where
  "digits_value ds = foldl (\<lambda>v c. v * 10 + (byte c - 48)) 0 ds"

definition Atoi :: "string \<Rightarrow> int option" where
  "Atoi s =
     (let neg = (s \<noteq> [] \<and> hd s = CHR ''-'');
          ds = (if s \<noteq> [] \<and> (hd s = CHR ''-'' \<or> hd s = CHR ''+'') then tl s else s) in
      if ds = [] \<or> \<not> list_all is_digit ds then None
      else let v = (if neg then - digits_value ds else digits_value ds) in
           if in_i64 v then Some v else None)"

section \<open>Addresses of the Go library\<close>

text \<open>An address is four bytes, or sixteen bytes and a zone.\<close>

datatype ip_addr = IPv4 "int list" | IPv6 "int list" string

fun parseIPv4Fields ::
  "char option \<Rightarrow> int list \<Rightarrow> int \<Rightarrow> int \<Rightarrow> string \<Rightarrow> int list option" where
  "parseIPv4Fields prev fields val digLen [] =
     (if length fields < 3 then None else Some (fields @ [val]))"
| "parseIPv4Fields prev fields val digLen (c # cs) =
     (if is_digit c then
        if digLen = 1 \<and> val = 0 then None
        else let val' = val * 10 + (byte c - 48) in
             if val' > 255 then None
             else parseIPv4Fields (Some c) fields val' (digLen + 1) cs
      else if c = CHR ''.'' then
        if prev = None \<or> cs = [] \<or> prev = Some CHR ''.'' then None
        else if length fields = 3 then None
        else parseIPv4Fields (Some c) (fields @ [val]) 0 0 cs
      else None)"

definition hex_value :: "char \<Rightarrow> int option" where
  "hex_value c =
     (if is_digit c then Some (byte c - 48)
      else if 97 \<le> byte c \<and> byte c \<le> 102 then Some (byte c - 87)
      else if 65 \<le> byte c \<and> byte c \<le> 70 then Some (byte c - 55)
      else None)"

fun scan_hex :: "nat \<Rightarrow> int \<Rightarrow> string \<Rightarrow> (nat \<times> int) option" where
  "scan_hex off acc [] = Some (off, acc)"
| "scan_hex off acc (c # cs) =
     (case hex_value c of
        None \<Rightarrow> Some (off, acc)
      | Some v \<Rightarrow>
          (let acc' = acc * 16 + v in
           if off > 3 \<or> acc' > 65535 then None else scan_hex (off + 1) acc' cs))"

function parseIPv6Groups ::
  "int list \<Rightarrow> nat option \<Rightarrow> string \<Rightarrow> (int list \<times> nat option \<times> string) option" where
  "parseIPv6Groups ip ellipsis s =
     (if length ip \<ge> 16 then Some (ip, ellipsis, s)
      else case scan_hex 0 0 s of
        None \<Rightarrow> None
      | Some (off, acc) \<Rightarrow>
          if off = 0 then None
          else if off < length s \<and> s ! off = CHR ''.'' then
            if ellipsis = None \<and> length ip \<noteq> 12 then None
            else if length ip + 4 > 16 then None
            else (case parseIPv4Fields None [] 0 0 s of
                    None \<Rightarrow> None | Some fields \<Rightarrow> Some (ip @ fields, ellipsis, []))
          else
            let ip' = ip @ [acc div 256, acc mod 256]; s' = drop off s in
            if s' = [] then Some (ip', ellipsis, [])
            else if hd s' \<noteq> CHR '':'' \<or> length s' = 1 then None
            else if hd (tl s') = CHR '':'' then
              if ellipsis \<noteq> None then None
              else if tl (tl s') = [] then Some (ip', Some (length ip'), [])
              else parseIPv6Groups ip' (Some (length ip')) (tl (tl s'))
            else parseIPv6Groups ip' ellipsis (tl s'))"
  by pat_completeness auto
termination
  by (relation "measure (\<lambda>(ip, _, _). 16 - length ip)") auto

declare parseIPv6Groups.simps [simp del]

definition parseIPv6 :: "string \<Rightarrow> ip_addr option" where
  "parseIPv6 text =
     (let (s, zone) = (case index_of CHR ''%'' text of
                         None \<Rightarrow> (text, Some []) 
                       | Some i \<Rightarrow> (take i text, if drop (i + 1) text = [] then None
                                                 else Some (drop (i + 1) text))) in
      case zone of None \<Rightarrow> None
      | Some z \<Rightarrow>
          (let lead = (take 2 s = ''::''); s' = (if lead then drop 2 s else s) in
           if lead \<and> s' = [] then Some (IPv6 (replicate 16 0) z)
           else case parseIPv6Groups [] (if lead then Some 0 else None) s' of
             None \<Rightarrow> None
           | Some (ip, ellipsis, rest) \<Rightarrow>
               if rest \<noteq> [] then None
               else if length ip < 16 then
                 (case ellipsis of None \<Rightarrow> None
                  | Some e \<Rightarrow> Some (IPv6 (take e ip @ replicate (16 - length ip) 0 @ drop e ip) z))
               else if ellipsis \<noteq> None then None
               else Some (IPv6 ip z)))"

fun first_separator :: "string \<Rightarrow> char option" where
  "first_separator [] = None"
| "first_separator (c # cs) = (if c \<in> {CHR ''.'', CHR '':'', CHR ''%''} then Some c else first_separator cs)"

definition ParseAddr :: "string \<Rightarrow> ip_addr option" where
  "ParseAddr s =
     (case first_separator s of
        None \<Rightarrow> None
      | Some c \<Rightarrow>
          if c = CHR ''.'' then map_option IPv4 (parseIPv4Fields None [] 0 0 s)
          else if c = CHR '':'' then parseIPv6 s
          else None)"

fun Unmap :: "ip_addr \<Rightarrow> ip_addr" where
  "Unmap (IPv6 bs z) = (if take 12 bs = replicate 10 0 @ [255, 255] then IPv4 (drop 12 bs) else IPv6 bs z)"
| "Unmap (IPv4 bs) = IPv4 bs"

fun WithZone :: "string \<Rightarrow> ip_addr \<Rightarrow> ip_addr" where
  "WithZone z (IPv6 bs _) = IPv6 bs z"
| "WithZone z (IPv4 bs) = IPv4 bs"

definition appendDecimal :: "int \<Rightarrow> string" where
  "appendDecimal x =
     (if x \<ge> 100 then [digit_char (x div 100)] else [])
     @ (if x \<ge> 10 then [digit_char (x div 10 mod 10)] else []) @ [digit_char (x mod 10)]"

definition appendHex :: "int \<Rightarrow> string" where
  "appendHex x =
     (if x \<ge> 4096 then [digit_char (x div 4096)] else [])
     @ (if x \<ge> 256 then [digit_char (x div 256 mod 16)] else [])
     @ (if x \<ge> 16 then [digit_char (x div 16 mod 16)] else []) @ [digit_char (x mod 16)]"

fun join_with :: "string \<Rightarrow> string list \<Rightarrow> string" where
  "join_with sep [] = []"
| "join_with sep [s] = s"
| "join_with sep (s # t # ss) = s @ sep @ join_with sep (t # ss)"

definition string4 :: "int list \<Rightarrow> string" where
  "string4 bs = join_with ''.'' (map appendDecimal bs)"

fun groups :: "int list \<Rightarrow> int list" where
  "groups (a # b # bs) = (a * 256 + b) # groups bs"
| "groups _ = []"

text \<open>The longest run of at least two zero groups, the first one on a tie.\<close>

definition zero_run :: "int list \<Rightarrow> (nat \<times> nat) option" where
  "zero_run gs =
     foldl (\<lambda>best i.
        let l = length (takeWhile (\<lambda>g. g = 0) (drop i gs)) in
        if l \<ge> 2 \<and> (case best of None \<Rightarrow> True | Some (s, e) \<Rightarrow> l > e - s) then Some (i, i + l) else best)
       None [0..<8]"

definition string6 :: "int list \<Rightarrow> string" where
  "string6 bs =
     (let gs = groups bs; hex = (\<lambda>xs. join_with '':'' (map appendHex xs)) in
      case zero_run gs of
        None \<Rightarrow> hex gs
      | Some (s, e) \<Rightarrow> hex (take s gs) @ ''::'' @ hex (drop e gs))"

fun Addr_String :: "ip_addr \<Rightarrow> string" where
  "Addr_String (IPv4 bs) = string4 bs"
| "Addr_String (IPv6 bs z) =
     (if take 12 bs = replicate 10 0 @ [255, 255] then ''::ffff:'' @ string4 (drop 12 bs) else string6 bs)
     @ (if z = [] then [] else CHR ''%'' # z)"

section \<open>Destinations\<close>

datatype split_error = MissingPort | TooManyColons | BadBrackets

definition net_SplitHostPort :: "string \<Rightarrow> split_error + string \<times> string" where
  "net_SplitHostPort hostport =
     (case last_index_of CHR '':'' hostport of
        None \<Rightarrow> Inl MissingPort
      | Some i \<Rightarrow>
          let brackets = (\<lambda>host j k.
                if CHR ''['' \<in> set (drop j hostport) then Inl BadBrackets
                else if CHR '']'' \<in> set (drop k hostport) then Inl BadBrackets
                else Inr (host, drop (i + 1) hostport)) in
          if hd hostport = CHR ''['' then
            (case index_of CHR '']'' hostport of
               None \<Rightarrow> Inl BadBrackets
             | Some e \<Rightarrow>
                 if e + 1 = length hostport then Inl MissingPort
                 else if e + 1 = i then brackets (drop 1 (take e hostport)) 1 (e + 1)
                 else if hostport ! (e + 1) = CHR '':'' then Inl TooManyColons
                 else Inl MissingPort)
          else if CHR '':'' \<in> set (take i hostport) then Inl TooManyColons
          else brackets (take i hostport) 0 0)"

definition SplitOptionalPort :: "string \<Rightarrow> split_error + string \<times> string \<times> bool" where
  "SplitOptionalPort address =
     (case net_SplitHostPort address of
        Inl e \<Rightarrow> if e = MissingPort then Inr (address, [], False) else Inl e
      | Inr (host, port) \<Rightarrow> Inr (host, port, True))"

text \<open>\<open>SplitHostPort\<close> reports one of two errors, an invalid address or an invalid port.\<close>

datatype host_error = InvalidAddress | InvalidPort

definition trim_brackets :: "string \<Rightarrow> string" where
  "trim_brackets s =
     (let b = (\<lambda>c. c = CHR ''['' \<or> c = CHR '']'') in rev (dropWhile b (rev (dropWhile b s))))"

definition SplitHostPort :: "string \<Rightarrow> host_error + string \<times> int" where
  "SplitHostPort address =
     (case SplitOptionalPort address of
        Inl _ \<Rightarrow> Inl InvalidAddress
      | Inr (host, port, hasPort) \<Rightarrow>
          if \<not> hasPort then Inr (trim_brackets host, 0)
          else (case Atoi port of
                  None \<Rightarrow> Inl InvalidPort
                | Some number \<Rightarrow>
                    if number < 0 \<or> number > 65535 then Inl InvalidPort else Inr (host, number)))"

definition Normalize :: "ip_addr \<Rightarrow> ip_addr" where
  "Normalize addr = WithZone [] (Unmap addr)"

definition DeclaredHost :: "string \<Rightarrow> string" where
  "DeclaredHost declared =
     (let d = TrimSpace declared;
          d = (case last_index_of CHR '','' d of None \<Rightarrow> d | Some index \<Rightarrow> drop (index + 1) d) in
      if d = [] then []
      else if ParseAddr d \<noteq> None then d
      else case SplitHostPort d of
        Inl _ \<Rightarrow> d
      | Inr (host, _) \<Rightarrow> if host \<noteq> [] then host else d)"

definition DestinationKey :: "string \<Rightarrow> string" where
  "DestinationKey destination =
     (let host = DeclaredHost destination in
      case ParseAddr host of
        Some addr \<Rightarrow> Addr_String (Normalize addr)
      | None \<Rightarrow> ToLower (TrimDot host))"

section \<open>Ports\<close>

datatype port_error = BadNumber string | OutOfRange int | BackwardRange int int

definition parsePort :: "string \<Rightarrow> port_error + int" where
  "parsePort s =
     (case Atoi (TrimSpace s) of
        None \<Rightarrow> Inl (BadNumber s)
      | Some p \<Rightarrow> if p < 1 \<or> p > 65535 then Inl (OutOfRange p) else Inr p)"

definition parseRange :: "string \<Rightarrow> port_error + int \<times> int" where
  "parseRange part =
     (case index_of CHR ''-'' part of
        None \<Rightarrow> res_bind (parsePort part) (\<lambda>lo. Inr (lo, lo))
      | Some i \<Rightarrow>
          res_bind (parsePort (take i part)) (\<lambda>lo.
          res_bind (parsePort (drop (i + 1) part)) (\<lambda>hi.
            if lo > hi then Inl (BackwardRange lo hi) else Inr (lo, hi))))"

definition add_port :: "int set \<times> int list \<Rightarrow> int \<Rightarrow> int set \<times> int list" where
  "add_port = (\<lambda>(seen, ports) p. if p \<in> seen then (seen, ports) else (insert p seen, ports @ [p]))"

fun add_parts :: "string list \<Rightarrow> int set \<times> int list \<Rightarrow> port_error + int set \<times> int list" where
  "add_parts [] st = Inr st"
| "add_parts (part # parts) st =
     (let part = TrimSpace part in
      if part = [] then add_parts parts st
      else res_bind (parseRange part) (\<lambda>(lo, hi). add_parts parts (foldl add_port st [lo..hi])))"

definition ParsePortRanges :: "string \<Rightarrow> port_error + int list" where
  "ParsePortRanges spec =
     (if TrimSpace spec = [] then Inr []
      else res_bind (add_parts (split_on CHR '','' spec) ({}, [])) (\<lambda>(_, ports). Inr (sort ports)))"

section \<open>IPv4 text\<close>

lemma byte_digit: "0 \<le> d \<Longrightarrow> d < 10 \<Longrightarrow> byte (digit_char d) = 48 + d"
  by (simp add: byte_def digit_char_def)

lemma digit_char_facts:
  assumes "0 \<le> d" "d < 10"
  shows "is_digit (digit_char d)" "byte (digit_char d) - 48 = d" "hex_value (digit_char d) = Some d"
    "digit_char d \<notin> {CHR ''.'', CHR '':'', CHR ''%'', CHR '','', CHR ''['', CHR '']''}" "\<not> is_space (digit_char d)"
  using byte_digit [OF assms] assms
  by (auto simp: is_digit_def hex_value_def is_space_def byte_def)

lemma appendDecimal_cases:
  assumes "0 \<le> x" "x \<le> 255"
  obtains d where "x = d" "0 \<le> d" "d < 10" "appendDecimal x = [digit_char d]"
  | d e where "x = 10 * d + e" "0 < d" "d < 10" "0 \<le> e" "e < 10" "appendDecimal x = [digit_char d, digit_char e]"
  | d e f where "x = 100 * d + 10 * e + f" "0 < d" "d < 10" "0 \<le> e" "e < 10" "0 \<le> f" "f < 10"
      "appendDecimal x = [digit_char d, digit_char e, digit_char f]"
proof -
  consider "x < 10" | "10 \<le> x" "x < 100" | "100 \<le> x" by linarith
  then show ?thesis
  proof cases
    case 1 then show ?thesis using assms that(1) [of x] by (simp add: appendDecimal_def)
  next
    case 2
    then have "x div 10 mod 10 = x div 10" "x = 10 * (x div 10) + x mod 10" "0 < x div 10" "x div 10 < 10"
      by presburger+
    then show ?thesis using 2 that(2) [of "x div 10" "x mod 10"] by (simp add: appendDecimal_def)
  next
    case 3
    have "x div 100 = x div 10 div 10" using zdiv_zmult2_eq [of 10 x 10] by simp
    then have "x = 100 * (x div 100) + 10 * (x div 10 mod 10) + x mod 10"
      using mult_div_mod_eq [of 10 x] mult_div_mod_eq [of 10 "x div 10"] by linarith
    moreover have "0 < x div 100" "x div 100 < 10" using 3 assms by auto
    ultimately show ?thesis
      using 3 that(3) [of "x div 100" "x div 10 mod 10" "x mod 10"] by (simp add: appendDecimal_def)
  qed
qed

lemma parse_octet:
  assumes "0 \<le> x" "x \<le> 255"
  shows "\<exists>c n. parseIPv4Fields prev fields 0 0 (appendDecimal x @ rest) = parseIPv4Fields (Some c) fields x n rest
    \<and> c \<noteq> CHR ''.''"
  using assms
proof (cases rule: appendDecimal_cases)
  case (1 d)
  then show ?thesis using digit_char_facts [of d] by (auto simp: Let_def)
next
  case (2 d e)
  then show ?thesis using digit_char_facts [of d] digit_char_facts [of e] assms by (auto simp: Let_def mult.commute)
next
  case (3 d e f)
  then have "10 * (10 * d + e) + f = x" "10 * d + e \<noteq> 0" "10 * d + e < 256" by auto
  then show ?thesis
    using 3 digit_char_facts [of d] digit_char_facts [of e] digit_char_facts [of f] assms
    by (auto simp: Let_def algebra_simps)
qed

lemma parse_string4:
  assumes "\<forall>x \<in> set [a, b, c, d]. 0 \<le> x \<and> x \<le> 255"
  shows "parseIPv4Fields None [] 0 0 (string4 [a, b, c, d]) = Some [a, b, c, d]"
proof -
  have ne: "appendDecimal x \<noteq> []" for x by (simp add: appendDecimal_def)
  have dot: "\<not> is_digit CHR ''.''" by (simp add: is_digit_def byte_def)
  have octet: "parseIPv4Fields prev fields 0 0 (appendDecimal x @ CHR ''.'' # rest) =
      parseIPv4Fields (Some CHR ''.'') (fields @ [x]) 0 0 rest"
    if "0 \<le> x" "x \<le> 255" "rest \<noteq> []" "length fields < 3" for prev fields x rest
    using parse_octet [OF that(1,2), of prev fields "CHR ''.'' # rest"] that dot by auto
  have last: "parseIPv4Fields prev fields 0 0 (appendDecimal x) = Some (fields @ [x])"
    if "0 \<le> x" "x \<le> 255" "length fields = 3" for prev fields x
    using parse_octet [OF that(1,2), of prev fields "[]"] that(3) by auto
  show ?thesis
    unfolding string4_def using assms ne by (simp add: octet last del: parseIPv4Fields.simps)
qed

lemma appendDecimal_digits:
  assumes "0 \<le> x" "x \<le> 255" "c \<in> set (appendDecimal x)"
  shows "\<exists>d. 0 \<le> d \<and> d < 10 \<and> c = digit_char d"
  using assms(1,2)
proof (cases rule: appendDecimal_cases)
  case (1 d) then show ?thesis using assms(3) by auto
next
  case (2 d e) then show ?thesis using assms(3) by (auto intro: less_imp_le)
next
  case (3 d e f) then show ?thesis using assms(3) by (auto intro: less_imp_le)
qed

lemma appendDecimal_chars:
  assumes "0 \<le> x" "x \<le> 255" "c \<in> set (appendDecimal x)"
  shows "c \<notin> {CHR ''.'', CHR '':'', CHR ''%'', CHR '','', CHR ''['', CHR '']''}" "\<not> is_space c"
proof -
  obtain d where "0 \<le> d" "d < 10" "c = digit_char d" using appendDecimal_digits [OF assms] by auto
  then show "c \<notin> {CHR ''.'', CHR '':'', CHR ''%'', CHR '','', CHR ''['', CHR '']''}" "\<not> is_space c"
    using digit_char_facts(4,5) [of d] by simp_all
qed

lemma first_separator_skip:
  "\<forall>c \<in> set xs. c \<notin> {CHR ''.'', CHR '':'', CHR ''%''} \<Longrightarrow> first_separator (xs @ ys) = first_separator ys"
  by (induction xs) auto

lemma scan_octet:
  assumes "0 \<le> x" "x \<le> 255"
  shows "\<exists>acc. scan_hex 0 0 (appendDecimal x @ CHR ''.'' # rest) = Some (length (appendDecimal x), acc)"
proof -
  have dot: "hex_value CHR ''.'' = None" by (simp add: hex_value_def is_digit_def byte_def)
  show ?thesis
    using assms
  proof (cases rule: appendDecimal_cases)
    case (1 d) then show ?thesis by (simp add: digit_char_facts dot Let_def)
  next
    case (2 d e) then show ?thesis by (simp add: digit_char_facts dot Let_def)
  next
    case (3 d e f) then show ?thesis by (simp add: digit_char_facts dot Let_def)
  qed
qed

abbreviation octets :: "int list \<Rightarrow> bool" where
  "octets bs \<equiv> \<forall>x \<in> set bs. 0 \<le> x \<and> x \<le> 255"

lemma TrimSpace_id: "\<forall>c \<in> set s. \<not> is_space c \<Longrightarrow> TrimSpace s = s"
proof -
  have "\<forall>c \<in> set s. \<not> is_space c \<Longrightarrow> dropWhile is_space s = s" for s by (cases s) auto
  from this [of s] this [of "rev s"] show "\<forall>c \<in> set s. \<not> is_space c \<Longrightarrow> TrimSpace s = s"
    by (simp add: TrimSpace_def)
qed

lemma string4_expand:
  "string4 [a, b, c, d] =
     appendDecimal a @ CHR ''.'' # appendDecimal b @ CHR ''.'' # appendDecimal c @ CHR ''.'' # appendDecimal d"
  by (simp add: string4_def)

lemma string4_chars:
  assumes "octets [a, b, c, d]" "x \<in> set (string4 [a, b, c, d])"
  shows "x \<notin> {CHR '':'', CHR ''%'', CHR '','', CHR ''['', CHR '']''} \<and> \<not> is_space x"
proof -
  have "x \<in> set (appendDecimal y) \<Longrightarrow> y \<in> {a, b, c, d} \<Longrightarrow> ?thesis" for y
    using appendDecimal_chars [of y x] assms(1) by auto
  moreover have "x = CHR ''.'' \<Longrightarrow> ?thesis" by (simp add: is_space_def byte_def)
  ultimately show ?thesis using assms(2) by (auto simp: string4_expand)
qed

lemma ParseAddr_string4:
  assumes "octets [a, b, c, d]"
  shows "ParseAddr (string4 [a, b, c, d]) = Some (IPv4 [a, b, c, d])"
proof -
  have "\<forall>y \<in> set (appendDecimal a). y \<notin> {CHR ''.'', CHR '':'', CHR ''%''}"
    using appendDecimal_chars(1) [of a] assms by auto
  then have "first_separator (string4 [a, b, c, d]) = Some CHR ''.''"
    unfolding string4_expand by (simp add: first_separator_skip)
  then show ?thesis using parse_string4 [OF assms] by (simp add: ParseAddr_def)
qed

lemma parseIPv6_mapped:
  assumes "octets [a, b, c, d]"
  shows "ParseAddr (''::ffff:'' @ string4 [a, b, c, d]) =
    Some (IPv6 (replicate 10 0 @ [255, 255, a, b, c, d]) [])"
proof -
  let ?s = "string4 [a, b, c, d]"
  have hex: "hex_value CHR ''f'' = Some 15" "hex_value CHR '':'' = None"
    by (simp_all add: hex_value_def is_digit_def byte_def)
  have "?s \<noteq> []" by (simp add: string4_expand)
  then have hd: "?s \<noteq> []" "hd ?s \<noteq> CHR '':''"
    using string4_chars [OF assms, of "hd ?s"] hd_in_set [of ?s] by auto
  then obtain c1 cs where s: "?s = c1 # cs" "c1 \<noteq> CHR '':''" by (cases ?s) auto
  have scan: "\<exists>acc. scan_hex 0 0 ?s = Some (length (appendDecimal a), acc)"
    unfolding string4_expand using scan_octet assms by simp
  have len: "0 < length (appendDecimal a)" "length (appendDecimal a) < length ?s"
    "?s ! length (appendDecimal a) = CHR ''.''"
    by (simp_all add: string4_expand appendDecimal_def nth_append)
  have tail: "parseIPv6Groups [255, 255] (Some 0) ?s = Some ([255, 255, a, b, c, d], Some 0, [])"
    using scan len parse_string4 [OF assms] by (auto simp: parseIPv6Groups.simps [of _ _ ?s])
  have "parseIPv6Groups [] (Some 0) (''ffff:'' @ ?s) = parseIPv6Groups [255, 255] (Some 0) ?s"
    using s by (subst parseIPv6Groups.simps) (simp add: hex Let_def)
  then have groups: "parseIPv6Groups [] (Some 0) (''ffff:'' @ ?s) = Some ([255, 255, a, b, c, d], Some 0, [])"
    using tail by simp
  have "CHR ''%'' \<notin> set ?s" using string4_chars [OF assms] by auto
  then show ?thesis
    using groups by (simp add: ParseAddr_def parseIPv6_def index_of_def Let_def numeral_eq_Suc)
qed

lemma not_in_string4:
  assumes "octets [a, b, c, d]"
  shows "CHR '':'' \<notin> set (string4 [a, b, c, d])" "CHR '','' \<notin> set (string4 [a, b, c, d])"
    "CHR ''%'' \<notin> set (string4 [a, b, c, d])" "\<forall>c \<in> set (string4 [a, b, c, d]). \<not> is_space c"
  using string4_chars [OF assms] by auto

lemma DeclaredHost_addr:
  assumes "\<forall>c \<in> set s. \<not> is_space c" "CHR '','' \<notin> set s" "ParseAddr s = Some x"
  shows "DeclaredHost s = s"
  using assms by (auto simp: DeclaredHost_def TrimSpace_id last_index_of_def Let_def ParseAddr_def)

lemma DestinationKey_string4:
  assumes "octets [a, b, c, d]"
  shows "DestinationKey (string4 [a, b, c, d]) = string4 [a, b, c, d]"
  using DeclaredHost_addr [OF not_in_string4(4,2) ParseAddr_string4, OF assms assms assms] ParseAddr_string4 [OF assms]
  by (simp add: DestinationKey_def Normalize_def)

lemma DestinationKey_mapped:
  assumes "octets [a, b, c, d]"
  shows "DestinationKey (''::ffff:'' @ string4 [a, b, c, d]) = string4 [a, b, c, d]"
proof -
  have "DeclaredHost (''::ffff:'' @ string4 [a, b, c, d]) = ''::ffff:'' @ string4 [a, b, c, d]"
    using not_in_string4 [OF assms] parseIPv6_mapped [OF assms]
    by (intro DeclaredHost_addr) (auto simp: is_space_def byte_def)
  then show ?thesis
    using parseIPv6_mapped [OF assms] by (simp add: DestinationKey_def Normalize_def numeral_eq_Suc)
qed

section \<open>Host names\<close>

definition host_char :: "char \<Rightarrow> bool" where
  "host_char c \<longleftrightarrow>
     is_digit c \<or> 65 \<le> byte c \<and> byte c \<le> 90 \<or> 97 \<le> byte c \<and> byte c \<le> 122 \<or> c \<in> set ''-_.''"

definition plain_host :: "string \<Rightarrow> bool" where
  "plain_host s \<longleftrightarrow> s \<noteq> [] \<and> list_all host_char s \<and> last s \<noteq> CHR ''.'' \<and> ParseAddr s = None"

lemma byte_CHR [simp]:
  "byte CHR ''.'' = 46" "byte CHR '':'' = 58" "byte CHR ''%'' = 37" "byte CHR '','' = 44"
  "byte CHR ''['' = 91" "byte CHR '']'' = 93" "byte CHR ''-'' = 45" "byte CHR ''_'' = 95"
  by (simp_all add: byte_def)

lemma byte_inj: "byte c = byte d \<longleftrightarrow> c = d"
  by (auto simp: byte_def)

lemma host_char_facts:
  assumes "host_char c"
  shows "c \<notin> {CHR '':'', CHR ''%'', CHR '','', CHR ''['', CHR '']''}" "\<not> is_space c"
  using assms by (auto simp: host_char_def is_digit_def is_space_def)

lemma byte_lower: "byte (lower c) = (if 65 \<le> byte c \<and> byte c \<le> 90 then byte c + 32 else byte c)"
  by (simp add: lower_def byte_def)

lemma lower_idem [simp]: "lower (lower c) = lower c"
  unfolding byte_inj [symmetric] by (simp add: byte_lower)

lemma lower_dot_iff [simp]: "lower c = CHR ''.'' \<longleftrightarrow> c = CHR ''.''"
  unfolding byte_inj [symmetric] by (simp add: byte_lower)

lemma lower_digit: "is_digit c \<Longrightarrow> lower c = c" and is_digit_lower [simp]: "is_digit (lower c) \<longleftrightarrow> is_digit c"
  using byte_lower [of c] by (auto simp: is_digit_def lower_def)

lemma host_char_lower: "host_char c \<Longrightarrow> host_char (lower c)"
  using byte_lower [of c] lower_digit [of c] unfolding host_char_def by (auto simp: lower_def)

lemma parse4_lower:
  "parseIPv4Fields (map_option lower prev) fields val n (map lower s) = parseIPv4Fields prev fields val n s"
proof (induction s arbitrary: prev fields val n)
  case (Cons c cs)
  have dot: "map_option lower prev = Some CHR ''.'' \<longleftrightarrow> prev = Some CHR ''.''" by (cases prev) auto
  have IH: "parseIPv4Fields (Some (lower c)) f v m (map lower cs) = parseIPv4Fields (Some c) f v m cs" for f v m
    using Cons.IH [of "Some c"] by simp
  show ?case
  proof (cases "is_digit c")
    case True then show ?thesis using IH lower_digit [of c] by (simp add: Let_def)
  next
    case False
    then show ?thesis using IH by (cases "c = CHR ''.''") (simp_all add: dot)
  qed
qed simp

lemma parse4_trailing_dot: "parseIPv4Fields prev fields val n (s @ ''.'') = None"
  by (induction s arbitrary: prev fields val n) (auto simp: Let_def is_digit_def)

lemma parse4_colon: "parseIPv4Fields prev fields val n (s @ CHR '':'' # t) = None"
  by (induction s arbitrary: prev fields val n) (auto simp: Let_def is_digit_def)

lemma first_separator_host:
  "list_all host_char s \<Longrightarrow> first_separator s = (if CHR ''.'' \<in> set s then Some CHR ''.'' else None)"
  by (induction s) (auto dest: host_char_facts)

lemma first_separator_append:
  "first_separator (xs @ ys) = (case first_separator xs of None \<Rightarrow> first_separator ys | Some c \<Rightarrow> Some c)"
  by (induction xs) auto

lemma ParseAddr_host:
  "list_all host_char s \<Longrightarrow> ParseAddr s = None \<longleftrightarrow> parseIPv4Fields None [] 0 0 s = None \<or> CHR ''.'' \<notin> set s"
  by (auto simp: ParseAddr_def first_separator_host)

lemma host_no_special:
  assumes "list_all host_char s"
  shows "CHR '':'' \<notin> set s" "CHR ''%'' \<notin> set s" "CHR '','' \<notin> set s" "CHR ''['' \<notin> set s" "CHR '']'' \<notin> set s"
    "\<forall>c \<in> set s. \<not> is_space c"
  using assms host_char_facts by (auto simp: list_all_iff)

lemma dropWhile_none: "\<forall>x \<in> set xs. \<not> P x \<Longrightarrow> dropWhile P xs = xs"
  by (cases xs) auto

lemma trim_brackets_id: "CHR ''['' \<notin> set s \<Longrightarrow> CHR '']'' \<notin> set s \<Longrightarrow> trim_brackets s = s"
proof -
  let ?b = "\<lambda>c. c = CHR ''['' \<or> c = CHR '']''"
  assume "CHR ''['' \<notin> set s" "CHR '']'' \<notin> set s"
  then have "dropWhile ?b s = s" "dropWhile ?b (rev s) = rev s"
    by (auto intro!: dropWhile_none)
  then show ?thesis by (simp add: trim_brackets_def Let_def)
qed

lemma DeclaredHost_host:
  assumes "list_all host_char s" "s \<noteq> []" "ParseAddr s = None"
  shows "DeclaredHost s = s"
proof -
  have "SplitHostPort s = Inr (s, 0)"
    using host_no_special [OF assms(1)]
    by (simp add: SplitHostPort_def SplitOptionalPort_def net_SplitHostPort_def last_index_of_def trim_brackets_id)
  then show ?thesis
    using host_no_special [OF assms(1)] assms
    by (simp add: DeclaredHost_def TrimSpace_id last_index_of_def Let_def)
qed

lemma plain_host_lower: "plain_host s \<Longrightarrow> plain_host (ToLower s)"
proof -
  assume s: "plain_host s"
  then have "list_all host_char (map lower s)"
    by (simp add: plain_host_def list_all_iff host_char_lower)
  moreover have "CHR ''.'' \<in> set (map lower s) \<longleftrightarrow> CHR ''.'' \<in> set s" by (auto simp: image_iff) (metis lower_dot_iff)+
  moreover have "parseIPv4Fields None [] 0 0 s = None \<or> CHR ''.'' \<notin> set s"
    using s ParseAddr_host [of s] by (simp add: plain_host_def)
  ultimately show ?thesis
    using s parse4_lower [of None "[]" 0 0 s] by (simp add: plain_host_def ToLower_def ParseAddr_host last_map)
qed

lemma TrimDot_host: "plain_host s \<Longrightarrow> TrimDot s = s" "TrimDot (s @ ''.'') = s"
  by (simp_all add: plain_host_def TrimDot_def)

lemma DestinationKey_host: "plain_host s \<Longrightarrow> DestinationKey s = ToLower s"
  by (simp add: DestinationKey_def plain_host_def [of s] DeclaredHost_host TrimDot_def)

lemma DestinationKey_dot: "plain_host s \<Longrightarrow> DestinationKey (s @ ''.'') = ToLower s"
proof -
  assume s: "plain_host s"
  then have "list_all host_char (s @ ''.'')" by (simp add: plain_host_def host_char_def)
  then have "ParseAddr (s @ ''.'') = None" "DeclaredHost (s @ ''.'') = s @ ''.''"
    using parse4_trailing_dot [of None "[]" 0 0 s] by (simp_all add: ParseAddr_host DeclaredHost_host)
  then show ?thesis by (simp add: DestinationKey_def TrimDot_host(2))
qed

lemma DestinationKey_port:
  assumes s: "plain_host s" "CHR ''.'' \<in> set s"
    and p: "list_all is_digit p" "Atoi p = Some n" "n \<le> 65535" "0 \<le> n"
  shows "DestinationKey (s @ CHR '':'' # p) = ToLower s"
proof -
  let ?d = "s @ CHR '':'' # p"
  have sp: "s \<noteq> []" "\<forall>c \<in> set s. \<not> is_space c" using s host_no_special by (auto simp: plain_host_def)
  have "list_all host_char p" using p(1) by (simp add: list_all_iff host_char_def)
  note ps = host_no_special [OF this]
  have none: "CHR '','' \<notin> set ?d" "CHR ''['' \<notin> set ?d" "CHR '']'' \<notin> set ?d" "CHR '':'' \<notin> set s"
    using ps host_no_special [of s] s(1) by (simp_all add: plain_host_def)
  have trim: "TrimSpace ?d = ?d"
    using sp ps by (intro TrimSpace_id) (auto simp: is_space_def)
  have "first_separator ?d = Some CHR ''.''"
    using first_separator_host [of s] s by (simp add: plain_host_def first_separator_append)
  then have addr: "ParseAddr ?d = None" using parse4_colon by (simp add: ParseAddr_def)
  have li: "last_index_of CHR '':'' ?d = Some (length s)"
    using ps(1) by (simp add: last_index_of_def takeWhile_append)
  have "hd ?d \<noteq> CHR ''[''" using none(2) sp(1) by (cases s) auto
  then have "net_SplitHostPort ?d = Inr (s, p)"
    using none li by (simp add: net_SplitHostPort_def Let_def)
  then have "SplitHostPort ?d = Inr (s, n)" using p by (simp add: SplitHostPort_def SplitOptionalPort_def)
  then have "DeclaredHost ?d = s"
    using trim none(1) addr sp(1) by (simp add: DeclaredHost_def last_index_of_def Let_def)
  then show ?thesis
    using s(1) TrimDot_host(1) [OF s(1)] by (simp add: DestinationKey_def plain_host_def)
qed

section \<open>Port lists\<close>

definition part_range :: "string \<Rightarrow> int \<Rightarrow> int \<Rightarrow> bool" where
  "part_range part lo hi \<longleftrightarrow> TrimSpace part \<noteq> [] \<and> parseRange (TrimSpace part) = Inr (lo, hi)"

lemma add_port_cases:
  "add_port (set ports, ports) p = (set (if p \<in> set ports then ports else ports @ [p]),
     if p \<in> set ports then ports else ports @ [p])"
  by (simp add: add_port_def insert_absorb)

lemma add_port_fold:
  "distinct ports \<Longrightarrow> \<exists>ports'. foldl add_port (set ports, ports) ps = (set ports', ports')
     \<and> distinct ports' \<and> set ports' = set ports \<union> set ps"
proof (induction ps arbitrary: ports)
  case (Cons p ps)
  show ?case
    using Cons.IH [of "if p \<in> set ports then ports else ports @ [p]"] Cons.prems
    by (cases "p \<in> set ports") (auto simp: add_port_cases)
qed simp

lemma add_parts_ok:
  assumes "add_parts parts (set ports, ports) = Inr (seen', ports')" "distinct ports"
  shows "distinct ports' \<and> set ports' = set ports \<union> {p. \<exists>part \<in> set parts. \<exists>lo hi. part_range part lo hi \<and> lo \<le> p \<and> p \<le> hi}"
  using assms
proof (induction parts arbitrary: ports)
  case (Cons part parts)
  show ?case
  proof (cases "TrimSpace part = []")
    case True
    then show ?thesis using Cons by (auto simp: part_range_def)
  next
    case False
    then obtain lo hi where r: "parseRange (TrimSpace part) = Inr (lo, hi)"
      using Cons.prems(1) by (auto simp: Let_def res_bind_Inr_iff)
    obtain ports1 where f: "foldl add_port (set ports, ports) [lo..hi] = (set ports1, ports1)"
      and inv: "distinct ports1" "set ports1 = set ports \<union> {lo..hi}"
      using add_port_fold [OF Cons.prems(2), of "[lo..hi]"] by auto
    have "part_range part lo' hi' \<longleftrightarrow> lo' = lo \<and> hi' = hi" for lo' hi'
      using False r by (auto simp: part_range_def)
    moreover have "add_parts parts (set ports1, ports1) = Inr (seen', ports')"
      using Cons.prems(1) False r f by (simp add: Let_def)
    ultimately show ?thesis
      using Cons.IH [OF _ inv(1)] inv(2) by auto
  qed
qed auto

lemma add_parts_step:
  "add_parts (part # parts) st =
     (if TrimSpace part = [] then add_parts parts st
      else case parseRange (TrimSpace part) of
        Inl e \<Rightarrow> Inl e | Inr (lo, hi) \<Rightarrow> add_parts parts (foldl add_port st [lo..hi]))"
  by (simp add: Let_def split: sum.splits)

lemma add_parts_cases:
  obtains "TrimSpace part = []" "add_parts (part # parts) st = add_parts parts st"
  | e where "TrimSpace part \<noteq> []" "parseRange (TrimSpace part) = Inl e" "add_parts (part # parts) st = Inl e"
  | lo hi st1 where "part_range part lo hi" "add_parts (part # parts) st = add_parts parts st1"
proof (cases "TrimSpace part = []")
  case True then show ?thesis using that(1) add_parts_step by simp
next
  case False
  show ?thesis
  proof (cases "parseRange (TrimSpace part)")
    case (Inl e) then show ?thesis using that(2) [OF False Inl] False add_parts_step by simp
  next
    case (Inr r)
    then obtain lo hi where "parseRange (TrimSpace part) = Inr (lo, hi)" by (cases r) auto
    then show ?thesis
      using that(3) [of lo hi "foldl add_port st [lo..hi]"] False add_parts_step by (simp add: part_range_def)
  qed
qed

lemma add_parts_error:
  "add_parts parts st = Inl e \<Longrightarrow> \<exists>part \<in> set parts. TrimSpace part \<noteq> [] \<and> parseRange (TrimSpace part) = Inl e"
proof (induction parts arbitrary: st)
  case (Cons part parts)
  show ?case
    by (rule add_parts_cases [of part parts st]) (use Cons in fastforce)+
qed simp

lemma add_parts_valid:
  "add_parts parts st = Inr st' \<Longrightarrow> part \<in> set parts \<Longrightarrow> TrimSpace part \<noteq> [] \<Longrightarrow> \<exists>lo hi. part_range part lo hi"
proof (induction parts arbitrary: st)
  case (Cons p parts)
  show ?case
    by (rule add_parts_cases [of p parts st]) (use Cons in fastforce)+
qed simp

lemma part_range_bounds: "part_range part lo hi \<Longrightarrow> 1 \<le> lo \<and> lo \<le> hi \<and> hi \<le> 65535"
  by (auto simp: part_range_def parseRange_def parsePort_def res_bind_Inr_iff split: option.splits if_splits)

lemma split_on_absent: "c \<notin> set s \<Longrightarrow> split_on c s = [s]"
  by (induction s) auto

lemma TrimSpace_Nil: "TrimSpace s = [] \<Longrightarrow> \<forall>c \<in> set s. is_space c"
  unfolding TrimSpace_def rev_is_Nil_conv dropWhile_eq_Nil_conv set_rev
  by (metis Un_iff set_append set_takeWhileD takeWhile_dropWhile_id)

section \<open>Properties\<close>

text \<open>An IPv4 address parses back from its dotted text, that text is its own destination
  key, and the IPv4-mapped IPv6 spelling of the address has the same key, so that two
  spellings of one address are accounted together.
\<close>

theorem DestinationKey_ipv4:
  assumes "\<forall>x \<in> set [a, b, c, d]. 0 \<le> x \<and> x \<le> 255"
  shows "ParseAddr (Addr_String (IPv4 [a, b, c, d])) = Some (IPv4 [a, b, c, d])
    \<and> DestinationKey (Addr_String (IPv4 [a, b, c, d])) = Addr_String (IPv4 [a, b, c, d])
    \<and> DestinationKey (Addr_String (IPv6 (replicate 10 0 @ [255, 255, a, b, c, d]) [])) = Addr_String (IPv4 [a, b, c, d])"
  using ParseAddr_string4 [OF assms] DestinationKey_string4 [OF assms] DestinationKey_mapped [OF assms]
  by (simp add: numeral_eq_Suc)

theorem DestinationKey_ipv4_witness:
  "ParseAddr (Addr_String (IPv4 [192, 0, 2, 33])) = Some (IPv4 [192, 0, 2, 33])
    \<and> DestinationKey (Addr_String (IPv4 [192, 0, 2, 33])) = ''192.0.2.33''
    \<and> DestinationKey (Addr_String (IPv6 (replicate 10 0 @ [255, 255, 192, 0, 2, 33]) [])) = ''192.0.2.33''"
proof -
  have "Addr_String (IPv4 [192, 0, 2, 33]) = ''192.0.2.33''" by code_simp
  then show ?thesis using DestinationKey_ipv4 [of 192 0 2 33] by simp
qed

text \<open>A host name is keyed by its lower-case spelling: the key is stable, one trailing dot
  and, for a dotted name, a valid port do not change it.
\<close>

theorem DestinationKey_name:
  assumes "plain_host s" "CHR ''.'' \<in> set s" "list_all is_digit p" "Atoi p = Some n" "0 \<le> n" "n \<le> 65535"
  shows "DestinationKey s = ToLower s \<and> DestinationKey (DestinationKey s) = DestinationKey s
    \<and> DestinationKey (s @ ''.'') = DestinationKey s \<and> DestinationKey (s @ CHR '':'' # p) = DestinationKey s"
proof -
  have "ToLower (ToLower s) = ToLower s" by (simp add: ToLower_def comp_def)
  then show ?thesis
    using DestinationKey_host [OF assms(1)] DestinationKey_host [OF plain_host_lower [OF assms(1)]]
      DestinationKey_dot [OF assms(1)] DestinationKey_port [OF assms(1-4,6,5)] by simp
qed

theorem DestinationKey_name_witness:
  "DestinationKey ''Probe.Example.ORG'' = ''probe.example.org''
    \<and> DestinationKey ''Probe.Example.ORG.'' = ''probe.example.org'' \<and> DestinationKey ''Probe.Example.ORG:443'' = ''probe.example.org''"
proof -
  have h: "plain_host ''Probe.Example.ORG''" "CHR ''.'' \<in> set ''Probe.Example.ORG''" by code_simp+
  have p: "list_all is_digit ''443''" "Atoi ''443'' = Some 443" by code_simp+
  have k: "ToLower ''Probe.Example.ORG'' = ''probe.example.org''" by code_simp
  show ?thesis using DestinationKey_name [OF h p] k by simp
qed

text \<open>The key of a name that ends in two dots is not stable: taking it twice gives another
  key than taking it once.
\<close>

theorem DestinationKey_not_idempotent:
  "DestinationKey ''probe..'' = ''probe.'' \<and> DestinationKey (DestinationKey ''probe..'') = ''probe''"
  by code_simp

text \<open>A port list is either rejected with the error of one of its non-empty parts, or it
  expands to the strictly ordered list of exactly the ports of its ranges, all of them
  between 1 and 65535, every non-empty part being a range.
\<close>

theorem ParsePortRanges_exact:
  "case ParsePortRanges spec of
     Inl e \<Rightarrow> \<exists>part \<in> set (split_on CHR '','' spec). TrimSpace part \<noteq> [] \<and> parseRange (TrimSpace part) = Inl e
   | Inr ports \<Rightarrow> sorted ports \<and> distinct ports \<and> (\<forall>p \<in> set ports. 1 \<le> p \<and> p \<le> 65535)
       \<and> (\<forall>part \<in> set (split_on CHR '','' spec). TrimSpace part \<noteq> [] \<longrightarrow> (\<exists>lo hi. part_range part lo hi))
       \<and> set ports = {p. \<exists>part \<in> set (split_on CHR '','' spec). \<exists>lo hi. part_range part lo hi \<and> lo \<le> p \<and> p \<le> hi}"
proof (cases "TrimSpace spec = []")
  case True
  then have "CHR '','' \<notin> set spec" using TrimSpace_Nil [OF True] by (auto simp: is_space_def)
  then show ?thesis using True by (simp add: ParsePortRanges_def split_on_absent part_range_def)
next
  case False
  show ?thesis
  proof (cases "add_parts (split_on CHR '','' spec) ({}, [])")
    case (Inl e)
    then show ?thesis using False add_parts_error [OF Inl] by (simp add: ParsePortRanges_def)
  next
    case (Inr st)
    obtain seen ports where st: "st = (seen, ports)" by fastforce
    have "distinct ports" "set ports = {p. \<exists>part \<in> set (split_on CHR '','' spec). \<exists>lo hi. part_range part lo hi \<and> lo \<le> p \<and> p \<le> hi}"
      using add_parts_ok [of "split_on CHR '','' spec" "[]" seen ports] Inr st by auto
    then show ?thesis
      using False Inr st add_parts_valid [OF Inr] part_range_bounds
      by (fastforce simp: ParsePortRanges_def)
  qed
qed

theorem ParsePortRanges_exact_witness:
  "\<exists>ports. ParsePortRanges ''22, 25-27,26'' = Inr ports \<and> sorted ports \<and> distinct ports \<and> ports = [22, 25, 26, 27]"
proof -
  have "ParsePortRanges ''22, 25-27,26'' = Inr [22, 25, 26, 27]" by code_simp
  then show ?thesis using ParsePortRanges_exact [of "''22, 25-27,26''"] by simp
qed

end
