(* ===== verification/Destinations.thy ===== *)
theory Destinations
  imports Avl Bitrate Net_Addr
begin

text \<open>
  \<open>src/internal/dispatcher/resource/destinations.go\<close>: the dispatcher's accounting of the
  bandwidth that runs hold on destinations. Allocations are recorded per run and
  destination; floors are charged against the destination's capacity, the rest of each
  executor's demand is a residual in the destination's fair-share tree. An operation returns
  the error it reports together with the state it leaves, because a failed allocation has
  charged and released in between; a panic of the tree is the left summand.
\<close>

section \<open>State\<close>

record allocation =
  executorID :: string
  alloc_minimum :: bitrate
  alloc_maximum :: bitrate

record storeValue =
  minimum :: bitrate
  maximum :: bitrate
  runs :: int

record DestinationsUsage =
  trees :: "string \<rightharpoonup> string avl"
  capacities :: "string \<rightharpoonup> bitrate"
  usedCapacities :: "string \<rightharpoonup> bitrate"
  store :: "string \<times> string \<rightharpoonup> storeValue"
  activeDebuglets :: "uuid \<times> string \<rightharpoonup> allocation"
  defaultCap :: bitrate
  denied :: "string set"

datatype dest_error =
    ErrMinGreater
  | ErrCapacityFull string
  | ErrPolicyConflict string
  | ErrDenied string

definition NewDestinations :: "bitrate \<Rightarrow> DestinationsUsage" where
  "NewDestinations cap =
     \<lparr>trees = Map.empty, capacities = Map.empty, usedCapacities = Map.empty, store = Map.empty,
      activeDebuglets = Map.empty, defaultCap = cap, denied = {}\<rparr>"

section \<open>Queries and limits\<close>

definition Denied :: "string \<Rightarrow> DestinationsUsage \<Rightarrow> bool" where
  "Denied destination d \<longleftrightarrow> DestinationKey destination \<in> denied d"

definition Cap :: "string \<Rightarrow> DestinationsUsage \<Rightarrow> bitrate" where
  "Cap destination d =
     (case capacities d (DestinationKey destination) of None \<Rightarrow> defaultCap d | Some c \<Rightarrow> c)"

definition CheckCapacity :: "string \<Rightarrow> bitrate \<Rightarrow> DestinationsUsage \<Rightarrow> dest_error option" where
  "CheckCapacity destination minv d =
     (let destination = DestinationKey destination in
      if Denied destination d then Some (ErrDenied destination)
      else if i64 (zero_at (usedCapacities d) destination + minv) > Cap destination d
      then Some (ErrCapacityFull destination) else None)"

definition getTreeCap :: "string \<Rightarrow> DestinationsUsage \<Rightarrow> string avl \<times> bitrate \<times> DestinationsUsage" where
  "getTreeCap destination d =
     (let destination = DestinationKey destination in
      case trees d destination of
        Some t \<Rightarrow> (t, Cap destination d, d)
      | None \<Rightarrow> (let d' = d\<lparr>trees := (trees d)(destination \<mapsto> empty_avl)\<rparr> in
                 (empty_avl, Cap destination d', d')))"

definition CheckLimit :: "string \<Rightarrow> bitrate \<Rightarrow> DestinationsUsage \<Rightarrow> dest_error option" where
  "CheckLimit destination limit d =
     (let destination = DestinationKey destination in
      if limit < zero_at (usedCapacities d) destination then Some (ErrCapacityFull destination) else None)"

definition SetLimit :: "string \<Rightarrow> bitrate \<Rightarrow> DestinationsUsage \<Rightarrow> dest_error option \<times> DestinationsUsage" where
  "SetLimit destination limit d =
     (let destination = DestinationKey destination in
      case CheckLimit destination limit d of
        Some e \<Rightarrow> (Some e, d)
      | None \<Rightarrow> (None, d\<lparr>capacities := (capacities d)(destination \<mapsto> limit)\<rparr>))"

definition ResetLimit :: "string \<Rightarrow> DestinationsUsage \<Rightarrow> DestinationsUsage" where
  "ResetLimit destination d = d\<lparr>capacities := (capacities d)(DestinationKey destination := None)\<rparr>"

definition Deny :: "string \<Rightarrow> DestinationsUsage \<Rightarrow> DestinationsUsage" where
  "Deny destination d = d\<lparr>denied := insert (DestinationKey destination) (denied d)\<rparr>"

definition Allow :: "string \<Rightarrow> DestinationsUsage \<Rightarrow> DestinationsUsage" where
  "Allow destination d = d\<lparr>denied := denied d - {DestinationKey destination}\<rparr>"

section \<open>Allocation and release\<close>

definition store_zero :: storeValue where
  "store_zero = \<lparr>minimum = 0, maximum = 0, runs = 0\<rparr>"

definition charge ::
  "uuid \<Rightarrow> string \<Rightarrow> allocation \<Rightarrow> DestinationsUsage \<Rightarrow> panic + dest_error option \<times> DestinationsUsage" where
  "charge debugletID destination decision d =
     (if Denied destination d then Inr (Some (ErrDenied destination), d)
      else
        let used = zero_at (usedCapacities d) destination in
        if i64 (used + alloc_minimum decision) > Cap destination d
        then Inr (Some (ErrCapacityFull destination), d)
        else
          let (tree, _, d) = getTreeCap destination d;
              jk = (executorID decision, destination);
              tot = (case store d jk of None \<Rightarrow> store_zero | Some v \<Rightarrow> v);
              tot = \<lparr>minimum = i64 (minimum tot + alloc_minimum decision),
                       maximum = i64 (maximum tot + alloc_maximum decision),
                       runs = runs tot + 1\<rparr>;
              d = d\<lparr>activeDebuglets := (activeDebuglets d)((debugletID, destination) \<mapsto> decision),
                    usedCapacities := (usedCapacities d)(destination \<mapsto> i64 (used + alloc_minimum decision)),
                    store := (store d)(jk \<mapsto> tot)\<rparr> in
          res_bind (AVL_Replace (executorID decision) (i64 (maximum tot - minimum tot)) tree)
            (\<lambda>tree. Inr (None, d\<lparr>trees := (trees d)(DestinationKey destination \<mapsto> tree)\<rparr>)))"

definition Remove :: "uuid \<Rightarrow> string \<Rightarrow> DestinationsUsage \<Rightarrow> panic + DestinationsUsage" where
  "Remove debugletID destination d =
     (let destination = DestinationKey destination; key = (debugletID, destination) in
      case activeDebuglets d key of
        None \<Rightarrow> Inr d
      | Some recorded \<Rightarrow>
          (let jk = (executorID recorded, destination) in
           case store d jk of
             None \<Rightarrow> Inr d
           | Some tot \<Rightarrow>
               let used = i64 (zero_at (usedCapacities d) destination - alloc_minimum recorded);
                   d = d\<lparr>activeDebuglets := (activeDebuglets d)(key := None),
                         usedCapacities := (usedCapacities d)(destination := (if used \<le> 0 then None else Some used))\<rparr>;
                   tot = \<lparr>minimum = i64 (minimum tot - alloc_minimum recorded),
                            maximum = i64 (maximum tot - alloc_maximum recorded),
                            runs = runs tot - 1\<rparr> in
               if runs tot > 0 then
                 let d = d\<lparr>store := (store d)(jk \<mapsto> tot)\<rparr> in
                 (case trees d destination of
                    None \<Rightarrow> Inr d
                  | Some tree \<Rightarrow>
                      res_bind (AVL_Replace (executorID recorded) (i64 (maximum tot - minimum tot)) tree)
                        (\<lambda>tree. Inr (d\<lparr>trees := (trees d)(destination \<mapsto> tree)\<rparr>)))
               else
                 let d = d\<lparr>store := (store d)(jk := None)\<rparr> in
                 (case trees d destination of
                    None \<Rightarrow> Inr d
                  | Some tree \<Rightarrow>
                      res_bind (AVL_Delete (executorID recorded) tree)
                        (\<lambda>tree. Inr (d\<lparr>trees := (trees d)(destination :=
                                        (if AVL_Len tree = 0 then None else Some tree))\<rparr>)))))"

text \<open>The destinations still to be charged, or the conflict with a recorded decision.\<close>

fun pending_loop ::
  "uuid \<Rightarrow> allocation \<Rightarrow> DestinationsUsage \<Rightarrow> string set \<Rightarrow> string list \<Rightarrow> string list \<Rightarrow> dest_error + string list" where
  "pending_loop debugletID decision d seen pending [] = Inr pending"
| "pending_loop debugletID decision d seen pending (destination # rest) =
     (let destination = DestinationKey destination in
      if destination \<in> seen then pending_loop debugletID decision d seen pending rest
      else
        let seen = insert destination seen in
        case activeDebuglets d (debugletID, destination) of
          Some recorded \<Rightarrow>
            if recorded \<noteq> decision then Inl (ErrPolicyConflict destination)
            else pending_loop debugletID decision d seen pending rest
        | None \<Rightarrow> pending_loop debugletID decision d seen (pending @ [destination]) rest)"

fun release_loop :: "uuid \<Rightarrow> string list \<Rightarrow> DestinationsUsage \<Rightarrow> panic + DestinationsUsage" where
  "release_loop debugletID [] d = Inr d"
| "release_loop debugletID (charged # rest) d =
     res_bind (Remove debugletID charged d) (release_loop debugletID rest)"

fun charge_loop ::
  "uuid \<Rightarrow> allocation \<Rightarrow> string list \<Rightarrow> string list \<Rightarrow> DestinationsUsage \<Rightarrow> panic + dest_error option \<times> DestinationsUsage" where
  "charge_loop debugletID decision done [] d = Inr (None, d)"
| "charge_loop debugletID decision done (destination # rest) d =
     res_bind (charge debugletID destination decision d) (\<lambda>(err, d).
       case err of
         Some e \<Rightarrow> res_bind (release_loop debugletID done d) (\<lambda>d. Inr (Some e, d))
       | None \<Rightarrow> charge_loop debugletID decision (done @ [destination]) rest d)"

definition Allocate ::
  "uuid \<Rightarrow> string \<Rightarrow> string list \<Rightarrow> bitrate \<Rightarrow> bitrate \<Rightarrow> DestinationsUsage \<Rightarrow> panic + dest_error option \<times> DestinationsUsage" where
  "Allocate debugletID exec destinations minv maxv d =
     (if minv > maxv then Inr (Some ErrMinGreater, d)
      else
        let decision = \<lparr>executorID = exec, alloc_minimum = minv, alloc_maximum = maxv\<rparr> in
        case pending_loop debugletID decision d {} [] destinations of
          Inl e \<Rightarrow> Inr (Some e, d)
        | Inr pending \<Rightarrow> charge_loop debugletID decision [] pending d)"

definition Destinations_Insert ::
  "uuid \<Rightarrow> string \<Rightarrow> string \<Rightarrow> bitrate \<Rightarrow> bitrate \<Rightarrow> DestinationsUsage \<Rightarrow> panic + dest_error option \<times> DestinationsUsage" where
  "Destinations_Insert debugletID destination exec minv maxv d =
     Allocate debugletID exec [destination] minv maxv d"

definition Destinations_Len :: "DestinationsUsage \<Rightarrow> nat" where
  "Destinations_Len d = card (dom (store d))"

section \<open>Shares\<close>

text \<open>
  The iterators call a consumer on each pair; the consumer works on its own state and stops
  the iteration by returning false. A node without totals is a nil dereference. The order in
  which Go ranges over the map of totals is the argument \<open>order\<close>.
\<close>

definition Fairshare ::
  "('s \<Rightarrow> string \<times> bitrate \<Rightarrow> 's \<times> bool) \<Rightarrow> string \<Rightarrow> DestinationsUsage \<Rightarrow> 's \<Rightarrow> panic + 's \<times> DestinationsUsage" where
  "Fairshare yield destination d s =
     (let destination = DestinationKey destination;
          (tree, cap, d) = getTreeCap destination d;
          usage = zero_at (usedCapacities d) destination;
          shareable = i64 (cap - usage);
          shareable = (if shareable < 0 then 0 else shareable) in
      res_bind (AVL_Fairshare shareable tree) (\<lambda>fairshare.
      res_bind
        (AVL_Range (\<lambda>r n.
           case r of Inl e \<Rightarrow> (Inl e, False)
           | Inr s \<Rightarrow>
               (case store d (ID n, destination) of
                  None \<Rightarrow> (Inl NilDereference, False)
                | Some v \<Rightarrow>
                    let actualLimit = min (maximum v) (i64 (fairshare + minimum v));
                        actualLimit = (if destination \<in> denied d then 0 else actualLimit);
                        (s', c) = yield s (ID n, actualLimit) in
                    (Inr s', c)))
          Unbounded Unbounded tree (Inr s))
        (\<lambda>s. Inr (s, d))))"

fun ForExecutor_loop ::
  "('s \<Rightarrow> string \<times> bitrate \<Rightarrow> 's \<times> bool) \<Rightarrow> string \<Rightarrow> (string \<times> string) list \<Rightarrow> DestinationsUsage \<Rightarrow> 's \<Rightarrow>
     panic + 's \<times> DestinationsUsage" where
  "ForExecutor_loop yield exec [] d s = Inr (s, d)"
| "ForExecutor_loop yield exec (key # order) d s =
     (if fst key \<noteq> exec then ForExecutor_loop yield exec order d s
      else
        res_bind
          (Fairshare (\<lambda>(s, _) (i, limit).
             if i = exec then let (s', c) = yield s (snd key, limit) in ((s', c), c) else ((s, True), True))
             (snd key) d (s, True))
          (\<lambda>((s, continue), d). if continue then ForExecutor_loop yield exec order d s else Inr (s, d)))"

definition ForExecutor ::
  "('s \<Rightarrow> string \<times> bitrate \<Rightarrow> 's \<times> bool) \<Rightarrow> string \<Rightarrow> (string \<times> string) list \<Rightarrow> DestinationsUsage \<Rightarrow> 's \<Rightarrow>
     panic + 's \<times> DestinationsUsage" where
  "ForExecutor yield exec order d s = ForExecutor_loop yield exec order d s"

section \<open>The recorded allocations determine the accounting\<close>

type_synonym active = "uuid \<times> string \<rightharpoonup> allocation"

definition asum :: "(allocation \<Rightarrow> int) \<Rightarrow> active \<Rightarrow> string \<Rightarrow> int" where
  "asum f act dest = (\<Sum>k \<in> {k \<in> dom act. snd k = dest}. f (the (act k)))"

definition held :: "(allocation \<Rightarrow> int) \<Rightarrow> string \<Rightarrow> allocation \<Rightarrow> int" where
  "held f e a = (if executorID a = e then f a else 0)"

definition demand :: "active \<Rightarrow> int" where
  "demand act = (\<Sum>k \<in> dom act. alloc_maximum (the (act k)))"

definition totals :: "active \<Rightarrow> string \<times> string \<rightharpoonup> storeValue" where
  "totals act = (\<lambda>(e, dest).
     if asum (held (\<lambda>_. 1) e) act dest = 0 then None
     else Some \<lparr>minimum = asum (held alloc_minimum e) act dest, maximum = asum (held alloc_maximum e) act dest,
                runs = asum (held (\<lambda>_. 1) e) act dest\<rparr>)"

definition residuals :: "active \<Rightarrow> string \<Rightarrow> (string \<rightharpoonup> int)" where
  "residuals act dest = (\<lambda>e. map_option (\<lambda>v. maximum v - minimum v) (totals act (e, dest)))"

definition well_recorded :: "active \<Rightarrow> bool" where
  "well_recorded act \<longleftrightarrow> finite (dom act) \<and> demand act \<le> i64_max
     \<and> (\<forall>k a. act k = Some a \<longrightarrow> DestinationKey (snd k) = snd k \<and> 0 \<le> alloc_minimum a \<and> alloc_minimum a \<le> alloc_maximum a)"

definition tree_ok :: "active \<Rightarrow> string \<Rightarrow> string avl option \<Rightarrow> bool" where
  "tree_ok act dest tree \<longleftrightarrow>
     (case tree of
        None \<Rightarrow> residuals act dest = Map.empty
      | Some t \<Rightarrow> AVL_inv t \<and> AVL_map t = residuals act dest)"

definition Destinations_inv :: "DestinationsUsage \<Rightarrow> bool" where
  "Destinations_inv d \<longleftrightarrow>
     well_recorded (activeDebuglets d)
     \<and> (\<forall>dest. zero_at (usedCapacities d) dest = asum alloc_minimum (activeDebuglets d) dest)
     \<and> store d = totals (activeDebuglets d) \<and> (\<forall>dest. tree_ok (activeDebuglets d) dest (trees d dest))"

lemma well_recordedD:
  assumes "well_recorded act" "act k = Some a"
  shows "DestinationKey (snd k) = snd k" "0 \<le> alloc_minimum a" "alloc_minimum a \<le> alloc_maximum a"
    "0 \<le> alloc_maximum a"
proof -
  have "DestinationKey (snd k) = snd k \<and> 0 \<le> alloc_minimum a \<and> alloc_minimum a \<le> alloc_maximum a"
    using assms unfolding well_recorded_def by blast
  then show "DestinationKey (snd k) = snd k" "0 \<le> alloc_minimum a" "alloc_minimum a \<le> alloc_maximum a"
    "0 \<le> alloc_maximum a" by auto
qed

lemma well_recorded_finite: "well_recorded act \<Longrightarrow> finite (dom act)"
  by (simp add: well_recorded_def)

lemma asum_upd:
  assumes "finite (dom act)" "act k = None"
  shows "asum f (act(k \<mapsto> a)) dest = asum f act dest + (if snd k = dest then f a else 0)"
proof -
  have k: "k \<notin> dom act" using assms(2) by auto
  have "{j \<in> dom (act(k \<mapsto> a)). snd j = dest} =
      (if snd k = dest then insert k {j \<in> dom act. snd j = dest} else {j \<in> dom act. snd j = dest})"
    by auto
  moreover have "(\<Sum>j \<in> {j \<in> dom act. snd j = dest}. f (the ((act(k \<mapsto> a)) j))) = asum f act dest"
    unfolding asum_def using k by (intro sum.cong) auto
  ultimately show ?thesis
    using assms(1) k by (auto simp: asum_def)
qed

lemma asum_del:
  assumes "finite (dom act)" "act k = Some a"
  shows "asum f (act(k := None)) dest = asum f act dest - (if snd k = dest then f a else 0)"
proof -
  have "act = (act(k := None))(k \<mapsto> a)" using assms(2) by auto
  then have "asum f act dest = asum f (act(k := None)) dest + (if snd k = dest then f a else 0)"
    using asum_upd [of "act(k := None)" k f a dest] assms(1) by simp
  then show ?thesis by simp
qed

lemma asum_empty [simp]: "asum f Map.empty dest = 0"
  by (simp add: asum_def)

lemma asum_mono:
  "(\<And>k a. act k = Some a \<Longrightarrow> f a \<le> g a) \<Longrightarrow> asum f act dest \<le> asum g act dest"
  unfolding asum_def by (intro sum_mono) auto

lemma asum_nonneg: "(\<And>k a. act k = Some a \<Longrightarrow> 0 \<le> f a) \<Longrightarrow> 0 \<le> asum f act dest"
  unfolding asum_def by (intro sum_nonneg) auto

lemma asum_le_demand:
  assumes "well_recorded act"
  shows "asum alloc_maximum act dest \<le> demand act"
  unfolding asum_def demand_def using well_recorded_finite [OF assms] well_recordedD(4) [OF assms]
  by (intro sum_mono2) fastforce+

lemma runs_zero:
  assumes "well_recorded act" "asum (held (\<lambda>_. 1) e) act dest = 0" "act (i, dest) = Some a"
  shows "executorID a \<noteq> e"
proof
  assume "executorID a = e"
  then have "held (\<lambda>_. 1) e a = 1" by (simp add: held_def)
  moreover have "held (\<lambda>_. 1) e a \<le> asum (held (\<lambda>_. 1) e) act dest"
  proof -
    have "(i, dest) \<in> {k \<in> dom act. snd k = dest}" using assms(3) by auto
    then have "held (\<lambda>_. 1) e (the (act (i, dest))) \<le> asum (held (\<lambda>_. 1) e) act dest"
      unfolding asum_def using well_recorded_finite [OF assms(1)]
      by (intro member_le_sum [of "(i, dest)" _ "\<lambda>k. held (\<lambda>_. 1) e (the (act k))"]) (auto simp: held_def)
    then show ?thesis using assms(3) by simp
  qed
  ultimately show False using assms(2) by simp
qed

lemma held_zero:
  assumes "well_recorded act" "asum (held (\<lambda>_. 1) e) act dest = 0"
  shows "asum (held f e) act dest = 0"
proof -
  have "held f e (the (act k)) = 0" if "k \<in> dom act" "snd k = dest" for k
    using runs_zero [OF assms, of "fst k"] that by (cases k) (auto simp: held_def)
  then show ?thesis by (simp add: asum_def)
qed

lemma totals_bounds:
  assumes "well_recorded act"
  shows "0 \<le> asum (held alloc_minimum e) act dest"
    and "asum (held alloc_minimum e) act dest \<le> asum (held alloc_maximum e) act dest"
    and "asum (held alloc_maximum e) act dest \<le> demand act"
    and "0 \<le> asum (held (\<lambda>_. 1) e) act dest"
    and "0 \<le> asum alloc_minimum act dest" and "asum alloc_minimum act dest \<le> demand act"
proof -
  have rec: "0 \<le> alloc_minimum a" "alloc_minimum a \<le> alloc_maximum a" "0 \<le> alloc_maximum a"
    if "act k = Some a" for k a
    using well_recordedD [OF assms that] by auto
  show "0 \<le> asum (held alloc_minimum e) act dest" "0 \<le> asum (held (\<lambda>_. 1) e) act dest"
    "0 \<le> asum alloc_minimum act dest"
    using rec by (auto intro!: asum_nonneg simp: held_def)
  show "asum (held alloc_minimum e) act dest \<le> asum (held alloc_maximum e) act dest"
    using rec by (auto intro!: asum_mono simp: held_def)
  have "asum (held alloc_maximum e) act dest \<le> asum alloc_maximum act dest"
    using rec by (auto intro!: asum_mono simp: held_def)
  then show "asum (held alloc_maximum e) act dest \<le> demand act"
    using asum_le_demand [OF assms] order_trans by blast
  have "asum alloc_minimum act dest \<le> asum alloc_maximum act dest"
    using rec by (auto intro!: asum_mono)
  then show "asum alloc_minimum act dest \<le> demand act"
    using asum_le_demand [OF assms] order_trans by blast
qed

lemma totals_upd:
  assumes "well_recorded act" "act (i, dest) = None"
  shows "totals (act((i, dest) \<mapsto> a)) =
    (totals act)((executorID a, dest) \<mapsto>
       \<lparr>minimum = asum (held alloc_minimum (executorID a)) act dest + alloc_minimum a,
        maximum = asum (held alloc_maximum (executorID a)) act dest + alloc_maximum a,
        runs = asum (held (\<lambda>_. 1) (executorID a)) act dest + 1\<rparr>)"
proof -
  have fin: "finite (dom act)" using assms(1) by (simp add: well_recorded_def)
  show ?thesis
    using totals_bounds(4) [OF assms(1), of "executorID a" dest]
    by (auto simp: totals_def fun_eq_iff asum_upd [OF fin assms(2)] held_def)
qed

lemma totals_del:
  assumes "well_recorded act" "act (i, dest) = Some a"
  shows "totals (act((i, dest) := None)) =
    (totals act)((executorID a, dest) :=
       (if asum (held (\<lambda>_. 1) (executorID a)) act dest = 1 then None
        else Some \<lparr>minimum = asum (held alloc_minimum (executorID a)) act dest - alloc_minimum a,
                   maximum = asum (held alloc_maximum (executorID a)) act dest - alloc_maximum a,
                   runs = asum (held (\<lambda>_. 1) (executorID a)) act dest - 1\<rparr>))"
proof -
  have fin: "finite (dom act)" using assms(1) by (simp add: well_recorded_def)
  show ?thesis
    by (auto simp: totals_def fun_eq_iff asum_del [OF fin assms(2)] held_def)
qed

lemma well_recorded_upd:
  assumes "well_recorded act" "act (i, dest) = None" "DestinationKey dest = dest"
    and "0 \<le> alloc_minimum a" "alloc_minimum a \<le> alloc_maximum a" "demand act + alloc_maximum a \<le> i64_max"
  shows "well_recorded (act((i, dest) \<mapsto> a))" "demand (act((i, dest) \<mapsto> a)) = demand act + alloc_maximum a"
proof -
  have nk: "(i, dest) \<notin> dom act" using assms(2) by auto
  have "(\<Sum>k \<in> dom act. alloc_maximum (the ((act((i, dest) \<mapsto> a)) k))) = demand act"
    unfolding demand_def using nk by (intro sum.cong) auto
  then show dem: "demand (act((i, dest) \<mapsto> a)) = demand act + alloc_maximum a"
    using assms(1) nk by (simp add: demand_def well_recorded_def)
  show "well_recorded (act((i, dest) \<mapsto> a))"
    using assms dem by (auto simp: well_recorded_def)
qed

lemma well_recorded_del:
  assumes "well_recorded act"
  shows "well_recorded (act(k := None))" "demand (act(k := None)) \<le> demand act"
proof -
  have nonneg: "0 \<le> alloc_maximum (the (act j))" if "j \<in> dom act" for j
    using well_recordedD(4) [OF assms] that by fastforce
  have "demand (act(k := None)) = (\<Sum>j \<in> dom act - {k}. alloc_maximum (the (act j)))"
    unfolding demand_def by (intro sum.cong) auto
  also have "\<dots> \<le> demand act"
    unfolding demand_def using assms nonneg by (intro sum_mono2) (auto simp: well_recorded_def)
  finally show le: "demand (act(k := None)) \<le> demand act" .
  show "well_recorded (act(k := None))"
    using assms le by (auto simp: well_recorded_def split: if_splits)
qed

definition same_policy :: "DestinationsUsage \<Rightarrow> DestinationsUsage \<Rightarrow> bool" where
  "same_policy d' d \<longleftrightarrow> capacities d' = capacities d \<and> defaultCap d' = defaultCap d \<and> denied d' = denied d"

lemma same_policy_refl [simp]: "same_policy d d"
  by (simp add: same_policy_def)

lemma same_policy_trans: "same_policy d'' d' \<Longrightarrow> same_policy d' d \<Longrightarrow> same_policy d'' d"
  by (simp add: same_policy_def)

lemma same_policy_Cap: "same_policy d' d \<Longrightarrow> Cap dest d' = Cap dest d"
  by (simp add: same_policy_def Cap_def split: option.splits)

lemma demand_i64: "well_recorded act \<Longrightarrow> 0 \<le> x \<Longrightarrow> x \<le> demand act \<Longrightarrow> in_i64 x"
  by (auto simp: well_recorded_def in_i64_def i64_min_def)

lemma totals_minimum:
  assumes "well_recorded act"
  shows "(case totals act (e, dest) of None \<Rightarrow> store_zero | Some v \<Rightarrow> v) =
    \<lparr>minimum = asum (held alloc_minimum e) act dest, maximum = asum (held alloc_maximum e) act dest,
     runs = asum (held (\<lambda>_. 1) e) act dest\<rparr>"
  using held_zero [OF assms, of e dest] by (auto simp: totals_def store_zero_def)

lemma tree_of:
  assumes "Destinations_inv d" "DestinationKey dest = dest"
  obtains t d' where "getTreeCap dest d = (t, Cap dest d, d')" "AVL_inv t"
    "AVL_map t = residuals (activeDebuglets d) dest" "d' = d\<lparr>trees := (trees d)(dest \<mapsto> t)\<rparr>"
proof (cases "trees d dest")
  case None
  moreover have "tree_ok (activeDebuglets d) dest (trees d dest)" using assms(1) by (simp add: Destinations_inv_def)
  ultimately have "residuals (activeDebuglets d) dest = Map.empty"
    by (simp add: tree_ok_def)
  then show ?thesis
    using that [of empty_avl "d\<lparr>trees := (trees d)(dest \<mapsto> empty_avl)\<rparr>"] None assms(2) avl.empty_ok
      same_policy_Cap [of "d\<lparr>trees := (trees d)(dest \<mapsto> empty_avl)\<rparr>" d dest]
    by (simp add: getTreeCap_def Let_def same_policy_def)
next
  case (Some t)
  have "tree_ok (activeDebuglets d) dest (trees d dest)" using assms(1) by (simp add: Destinations_inv_def)
  then have "AVL_inv t" "AVL_map t = residuals (activeDebuglets d) dest"
    using Some by (auto simp: tree_ok_def)
  then show ?thesis
    using that [of t d] Some assms(2) by (simp add: getTreeCap_def Let_def fun_upd_idem)
qed

lemma residuals_other: "dest' \<noteq> dest \<Longrightarrow> well_recorded act \<Longrightarrow> act (i, dest) = None \<Longrightarrow>
    residuals (act((i, dest) \<mapsto> a)) dest' = residuals act dest'"
  by (simp add: residuals_def totals_upd fun_eq_iff)

lemma residuals_other_del: "dest' \<noteq> dest \<Longrightarrow> well_recorded act \<Longrightarrow> act (i, dest) = Some a \<Longrightarrow>
    residuals (act((i, dest) := None)) dest' = residuals act dest'"
  by (simp add: residuals_def totals_del fun_eq_iff)

lemma tree_ok_cong: "residuals act dest = residuals act' dest \<Longrightarrow> tree_ok act dest t = tree_ok act' dest t"
  by (simp add: tree_ok_def split: option.splits)

lemma charge_ok:
  assumes inv: "Destinations_inv d" and fresh: "activeDebuglets d (i, dest) = None"
    and key: "DestinationKey dest = dest" and a: "0 \<le> alloc_minimum a" "alloc_minimum a \<le> alloc_maximum a"
    and dem: "demand (activeDebuglets d) + alloc_maximum a \<le> i64_max"
    and ok: "dest \<notin> denied d" "asum alloc_minimum (activeDebuglets d) dest + alloc_minimum a \<le> Cap dest d"
  shows "\<exists>d'. charge i dest a d = Inr (None, d') \<and> Destinations_inv d' \<and> same_policy d' d
    \<and> activeDebuglets d' = (activeDebuglets d)((i, dest) \<mapsto> a)"
proof -
  let ?act = "activeDebuglets d" and ?e = "executorID a"
  let ?act' = "?act((i, dest) \<mapsto> a)"
  have rec: "well_recorded ?act" using inv by (simp add: Destinations_inv_def)
  note rec' = well_recorded_upd [OF rec fresh key a dem]
  let ?mn = "asum (held alloc_minimum ?e) ?act dest + alloc_minimum a"
  let ?mx = "asum (held alloc_maximum ?e) ?act dest + alloc_maximum a"
  have bnd: "0 \<le> ?mn" "?mn \<le> ?mx" "?mx \<le> demand ?act'"
    using totals_bounds(1-3) [OF rec, of ?e dest] a rec'(2) by auto
  then have wrap: "i64 ?mn = ?mn" "i64 ?mx = ?mx" "in_i64 (?mx - ?mn)" "i64 (?mx - ?mn) = ?mx - ?mn"
    using demand_i64 [OF rec'(1)] by (auto simp: i64_id)
  have used: "zero_at (usedCapacities d) dest = asum alloc_minimum ?act dest"
    using inv by (simp add: Destinations_inv_def)
  have used': "i64 (asum alloc_minimum ?act dest + alloc_minimum a) = asum alloc_minimum ?act' dest"
    using demand_i64 [OF rec'(1) totals_bounds(5,6) [OF rec'(1)], of dest]
    by (simp add: i64_id asum_upd [OF well_recorded_finite [OF rec] fresh])
  have fits: "asum alloc_minimum ?act' dest \<le> Cap dest d"
    using ok(2) by (simp add: asum_upd [OF well_recorded_finite [OF rec] fresh])
  obtain t d1 where t: "getTreeCap dest d = (t, Cap dest d, d1)" "AVL_inv t"
    "AVL_map t = residuals ?act dest" "d1 = d\<lparr>trees := (trees d)(dest \<mapsto> t)\<rparr>"
    using tree_of [OF inv key] by blast
  obtain t' where t': "AVL_Replace ?e (?mx - ?mn) t = Inr t'" "AVL_inv t'" "AVL_map t' = (AVL_map t)(?e \<mapsto> ?mx - ?mn)"
    using avl.replace_ok [OF t(2) _ wrap(3)] bnd by fastforce
  let ?tot = "\<lparr>minimum = ?mn, maximum = ?mx, runs = asum (held (\<lambda>_. 1) ?e) ?act dest + 1\<rparr>"
  let ?d = "d\<lparr>trees := (trees d)(dest \<mapsto> t'), activeDebuglets := ?act',
     usedCapacities := (usedCapacities d)(dest \<mapsto> asum alloc_minimum ?act' dest), store := (store d)((?e, dest) \<mapsto> ?tot)\<rparr>"
  have st: "store d = totals ?act" using inv by (simp add: Destinations_inv_def)
  have run: "charge i dest a d = Inr (None, ?d)"
    using ok(1) fits key t(1,4) t'(1)
    by (simp add: charge_def Denied_def used used' Let_def st totals_minimum [OF rec] wrap)
  have tot: "totals ?act' = (totals ?act)((?e, dest) \<mapsto> ?tot)" by (rule totals_upd [OF rec fresh])
  have "residuals ?act' dest = (residuals ?act dest)(?e \<mapsto> ?mx - ?mn)"
    by (auto simp: residuals_def tot)
  then have "tree_ok ?act' dest (trees ?d dest)" using t' t(3) by (simp add: tree_ok_def)
  moreover have "tree_ok ?act' dest' (trees ?d dest')" if "dest' \<noteq> dest" for dest'
    using inv that tree_ok_cong [OF residuals_other [OF that rec fresh, of a]] by (simp add: Destinations_inv_def)
  ultimately have "\<forall>dest'. tree_ok ?act' dest' (trees ?d dest')" by metis
  moreover have "\<forall>dest'. zero_at (usedCapacities ?d) dest' = asum alloc_minimum ?act' dest'"
    using inv by (simp add: Destinations_inv_def asum_upd [OF well_recorded_finite [OF rec] fresh])
  ultimately have "Destinations_inv ?d"
    using rec'(1) tot st by (simp add: Destinations_inv_def)
  then show ?thesis using run by (auto simp: same_policy_def)
qed


lemma charge_refused:
  assumes "Destinations_inv d" "DestinationKey dest = dest" "0 \<le> alloc_minimum a"
    and "alloc_minimum a \<le> alloc_maximum a" "demand (activeDebuglets d) + alloc_maximum a \<le> i64_max"
    and "dest \<in> denied d \<or> Cap dest d < asum alloc_minimum (activeDebuglets d) dest + alloc_minimum a"
  shows "charge i dest a d = Inr (Some (if dest \<in> denied d then ErrDenied dest else ErrCapacityFull dest), d)"
proof -
  have rec: "well_recorded (activeDebuglets d)" using assms(1) by (simp add: Destinations_inv_def)
  have "in_i64 (asum alloc_minimum (activeDebuglets d) dest + alloc_minimum a)"
    using totals_bounds(5,6) [OF rec, of dest] assms(3-5) by (auto simp: in_i64_def i64_min_def)
  moreover have "zero_at (usedCapacities d) dest = asum alloc_minimum (activeDebuglets d) dest"
    using assms(1) by (simp add: Destinations_inv_def)
  ultimately show ?thesis
    using assms(2,6) by (auto simp: charge_def Denied_def i64_id Let_def)
qed

lemma runs_positive:
  assumes "well_recorded act" "act (i, dest) = Some a"
  shows "1 \<le> asum (held (\<lambda>_. 1) (executorID a)) act dest"
  using runs_zero [OF assms(1) _ assms(2)] totals_bounds(4) [OF assms(1), of "executorID a" dest] by force

lemma Remove_ok:
  assumes inv: "Destinations_inv d"
  shows "\<exists>d'. Remove i dest0 d = Inr d' \<and> Destinations_inv d' \<and> same_policy d' d
    \<and> activeDebuglets d' = (activeDebuglets d)((i, DestinationKey dest0) := None)"
proof (cases "activeDebuglets d (i, DestinationKey dest0)")
  case None
  then have "activeDebuglets d = (activeDebuglets d)((i, DestinationKey dest0) := None)" by auto
  then show ?thesis using None inv by (simp add: Remove_def Let_def)
next
  case (Some a)
  let ?act = "activeDebuglets d" and ?e = "executorID a" and ?dest = "DestinationKey dest0"
  let ?act' = "?act((i, ?dest) := None)"
  have rec: "well_recorded ?act" using inv by (simp add: Destinations_inv_def)
  note rec' = well_recorded_del [OF rec, of "(i, ?dest)"]
  note del = asum_del [OF well_recorded_finite [OF rec] Some]
  let ?mn = "asum (held alloc_minimum ?e) ?act ?dest - alloc_minimum a"
  let ?mx = "asum (held alloc_maximum ?e) ?act ?dest - alloc_maximum a"
  let ?runs = "asum (held (\<lambda>_. 1) ?e) ?act ?dest"
  have eqs: "asum (held alloc_minimum ?e) ?act' ?dest = ?mn" "asum (held alloc_maximum ?e) ?act' ?dest = ?mx"
    by (simp_all add: del held_def)
  have bnd: "0 \<le> ?mn" "?mn \<le> ?mx" "?mx \<le> demand ?act'"
    using totals_bounds(1-3) [OF rec'(1), of ?e ?dest] unfolding eqs .
  then have wrap: "i64 ?mn = ?mn" "i64 ?mx = ?mx" "in_i64 (?mx - ?mn)" "i64 (?mx - ?mn) = ?mx - ?mn"
    using demand_i64 [OF rec'(1)] by (auto simp: i64_id)
  have used: "i64 (zero_at (usedCapacities d) ?dest - alloc_minimum a) = asum alloc_minimum ?act' ?dest"
    using demand_i64 [OF rec'(1) totals_bounds(5,6) [OF rec'(1)], of ?dest] inv
    by (simp add: i64_id del Destinations_inv_def)
  have st: "store d = totals ?act" using inv by (simp add: Destinations_inv_def)
  have lk: "totals ?act (?e, ?dest) = Some \<lparr>minimum = asum (held alloc_minimum ?e) ?act ?dest,
      maximum = asum (held alloc_maximum ?e) ?act ?dest, runs = ?runs\<rparr>"
    using runs_positive [OF rec Some] by (simp add: totals_def)
  have "tree_ok ?act ?dest (trees d ?dest)" using inv by (simp add: Destinations_inv_def)
  then obtain t where t: "trees d ?dest = Some t" "AVL_inv t" "AVL_map t = residuals ?act ?dest"
    using lk by (auto simp: tree_ok_def residuals_def fun_eq_iff split: option.splits)
  note tot = totals_del [OF rec Some]
  let ?used = "(usedCapacities d)(?dest := (if asum alloc_minimum ?act' ?dest \<le> 0 then None else Some (asum alloc_minimum ?act' ?dest)))"
  have used_ok: "\<forall>dest'. zero_at ?used dest' = asum alloc_minimum ?act' dest'"
  proof
    fix dest'
    show "zero_at ?used dest' = asum alloc_minimum ?act' dest'"
      using inv totals_bounds(5) [OF rec'(1), of ?dest]
      by (cases "dest' = ?dest") (auto simp: Destinations_inv_def zero_at_def del)
  qed
  have others: "tree_ok ?act' dest' (((trees d)(?dest := tr)) dest')" if "dest' \<noteq> ?dest" for dest' tr
    using inv that tree_ok_cong [OF residuals_other_del [OF that rec Some]] by (simp add: Destinations_inv_def)
  show ?thesis
  proof (cases "?runs = 1")
    case True
    obtain t' where t': "AVL_Delete ?e t = Inr t'" "AVL_inv t'" "AVL_map t' = (AVL_map t)(?e := None)"
      using avl.delete_ok [OF t(2)] by blast
    let ?d = "\<lparr>trees = (trees d)(?dest := (if AVL_Len t' = 0 then None else Some t')), capacities = capacities d,
      usedCapacities = ?used, store = (store d)((?e, ?dest) := None), activeDebuglets = ?act',
      defaultCap = defaultCap d, denied = denied d\<rparr>"
    have run: "Remove i dest0 d = Inr ?d"
      using Some st lk t(1) t'(1) True by (simp add: Remove_def Let_def used)
    have res: "residuals ?act' ?dest = AVL_map t'"
      using tot True t' t(3) by (auto simp: residuals_def fun_eq_iff)
    have "AVL_Len t' = 0 \<Longrightarrow> AVL_map t' = Map.empty"
      using AVL_Len_card [OF t'(2)] avl.finite_members [OF t'(2)] by simp
    then have "tree_ok ?act' ?dest (trees ?d ?dest)" using res t'(2) by (simp add: tree_ok_def)
    then have "\<forall>dest'. tree_ok ?act' dest' (trees ?d dest')" using others by (metis DestinationsUsage.select_convs(1))
    then have "Destinations_inv ?d" using rec'(1) used_ok tot True st by (simp add: Destinations_inv_def)
    then show ?thesis using run by (auto simp: same_policy_def)
  next
    case False
    obtain t' where t': "AVL_Replace ?e (?mx - ?mn) t = Inr t'" "AVL_inv t'" "AVL_map t' = (AVL_map t)(?e \<mapsto> ?mx - ?mn)"
      using avl.replace_ok [OF t(2) _ wrap(3)] bnd by fastforce
    let ?d = "\<lparr>trees = (trees d)(?dest := Some t'), capacities = capacities d,
      usedCapacities = ?used, store = (store d)((?e, ?dest) \<mapsto> \<lparr>minimum = ?mn, maximum = ?mx, runs = ?runs - 1\<rparr>),
      activeDebuglets = ?act', defaultCap = defaultCap d, denied = denied d\<rparr>"
    have run: "Remove i dest0 d = Inr ?d"
      using Some st lk t(1) t'(1) False runs_positive [OF rec Some] by (simp add: Remove_def Let_def used wrap)
    have "residuals ?act' ?dest = AVL_map t'"
      using tot False t' t(3) by (auto simp: residuals_def fun_eq_iff)
    then have "tree_ok ?act' ?dest (trees ?d ?dest)" using t'(2) by (simp add: tree_ok_def)
    then have "\<forall>dest'. tree_ok ?act' dest' (trees ?d dest')" using others by (metis DestinationsUsage.select_convs(1))
    then have "Destinations_inv ?d" using rec'(1) used_ok tot False st by (simp add: Destinations_inv_def)
    then show ?thesis using run by (auto simp: same_policy_def)
  qed
qed

definition fits :: "allocation \<Rightarrow> DestinationsUsage \<Rightarrow> string \<Rightarrow> bool" where
  "fits a d dest \<longleftrightarrow> dest \<notin> denied d \<and> asum alloc_minimum (activeDebuglets d) dest + alloc_minimum a \<le> Cap dest d"

definition record_on :: "uuid \<Rightarrow> allocation option \<Rightarrow> string set \<Rightarrow> active \<Rightarrow> active" where
  "record_on i a ks act = (\<lambda>k. if fst k = i \<and> snd k \<in> ks then a else act k)"

lemma record_on_empty [simp]: "record_on i a {} act = act"
  by (simp add: record_on_def)

lemma record_on_insert: "record_on i a (insert x ks) act = record_on i a ks (act((i, x) := a))"
  by (auto simp: record_on_def fun_eq_iff)

lemma pending_loop_ok:
  "case pending_loop i a d seen pend dests of
     Inl e \<Rightarrow> \<exists>k \<in> DestinationKey ` set dests - seen. e = ErrPolicyConflict k
        \<and> activeDebuglets d (i, k) \<notin> {None, Some a}
   | Inr pend' \<Rightarrow> \<exists>new. pend' = pend @ new \<and> distinct new
        \<and> set new = {k \<in> DestinationKey ` set dests - seen. activeDebuglets d (i, k) = None}
        \<and> (\<forall>k \<in> DestinationKey ` set dests - seen. activeDebuglets d (i, k) \<in> {None, Some a})
        \<and> length new \<le> length dests"
proof (induction dests arbitrary: seen pend)
  case (Cons x xs)
  let ?k = "DestinationKey x"
  show ?case
  proof (cases "?k \<in> seen")
    case True
    then have "DestinationKey ` set (x # xs) - seen = DestinationKey ` set xs - seen" by auto
    then show ?thesis
      using Cons.IH [of seen pend] True by (auto simp: Let_def le_SucI split: sum.splits)
  next
    case False
    then have keys: "DestinationKey ` set (x # xs) - seen = insert ?k (DestinationKey ` set xs - insert ?k seen)" by auto
    consider "activeDebuglets d (i, ?k) = None" | "activeDebuglets d (i, ?k) = Some a"
      | b where "activeDebuglets d (i, ?k) = Some b" "b \<noteq> a" by fastforce
    then show ?thesis
    proof cases
      case 1
      then show ?thesis
        using Cons.IH [of "insert ?k seen" "pend @ [?k]"] False unfolding keys
        by (auto simp: Let_def split: sum.splits)
    next
      case 2
      then show ?thesis
        using Cons.IH [of "insert ?k seen" pend] False unfolding keys
        by (auto simp: Let_def le_SucI split: sum.splits)
    next
      case 3
      then show ?thesis using False unfolding keys by (auto simp: Let_def)
    qed
  qed
qed simp

lemma release_loop_ok:
  assumes "Destinations_inv d" "\<forall>k \<in> set ks. DestinationKey k = k"
  shows "\<exists>d'. release_loop i ks d = Inr d' \<and> Destinations_inv d' \<and> same_policy d' d
    \<and> activeDebuglets d' = record_on i None (set ks) (activeDebuglets d)"
  using assms
proof (induction ks arbitrary: d)
  case (Cons k ks)
  obtain d1 where d1: "Remove i k d = Inr d1" "Destinations_inv d1" "same_policy d1 d"
    "activeDebuglets d1 = (activeDebuglets d)((i, k) := None)"
    using Remove_ok [OF Cons.prems(1), of i k] Cons.prems(2) by auto
  obtain d' where d': "release_loop i ks d1 = Inr d'" "Destinations_inv d'" "same_policy d' d1"
    "activeDebuglets d' = record_on i None (set ks) (activeDebuglets d1)"
    using Cons.IH [OF d1(2)] Cons.prems(2) by auto
  have "activeDebuglets d' = record_on i None (set (k # ks)) (activeDebuglets d)"
    unfolding d'(4) d1(4) list.set record_on_insert ..
  then show ?case using d1(1) d'(1,2) same_policy_trans [OF d'(3) d1(3)] by simp
qed simp

lemma charge_loop_ok:
  assumes "Destinations_inv d" "distinct (done @ rest)" "\<forall>k \<in> set (done @ rest). DestinationKey k = k"
    and "\<forall>k \<in> set rest. activeDebuglets d (i, k) = None"
    and "0 \<le> alloc_minimum a" "alloc_minimum a \<le> alloc_maximum a"
    and "demand (activeDebuglets d) + int (length rest) * alloc_maximum a \<le> i64_max"
  shows "\<exists>r d'. charge_loop i a done rest d = Inr (r, d') \<and> Destinations_inv d' \<and> same_policy d' d
    \<and> (r = None \<longleftrightarrow> (\<forall>k \<in> set rest. fits a d k))
    \<and> activeDebuglets d' = (if r = None then record_on i (Some a) (set rest) (activeDebuglets d)
        else record_on i None (set done \<union> set rest) (activeDebuglets d))"
  using assms
proof (induction rest arbitrary: "done" d)
  case Nil
  then show ?case by simp
next
  case (Cons k ks)
  have mul: "0 \<le> int (length ks) * alloc_maximum a" using Cons.prems(5,6) by simp
  then have dem: "demand (activeDebuglets d) + alloc_maximum a \<le> i64_max"
    using Cons.prems(7) by (simp add: algebra_simps)
  have k: "activeDebuglets d (i, k) = None" "DestinationKey k = k" using Cons.prems(3,4) by auto
  have rec: "well_recorded (activeDebuglets d)" using Cons.prems(1) by (simp add: Destinations_inv_def)
  show ?case
  proof (cases "fits a d k")
    case True
    then obtain d1 where d1: "charge i k a d = Inr (None, d1)" "Destinations_inv d1" "same_policy d1 d"
      "activeDebuglets d1 = (activeDebuglets d)((i, k) \<mapsto> a)"
      using charge_ok [OF Cons.prems(1) k Cons.prems(5,6) dem] by (auto simp: fits_def)
    have dem1: "demand (activeDebuglets d1) = demand (activeDebuglets d) + alloc_maximum a"
      using well_recorded_upd(2) [OF rec k Cons.prems(5,6) dem] d1(4) by simp
    have fits1: "fits a d1 j \<longleftrightarrow> fits a d j" if "j \<in> set ks" for j
      using that Cons.prems(2) d1(3) k(1) same_policy_Cap [OF d1(3)]
      by (auto simp: fits_def d1(4) asum_upd [OF well_recorded_finite [OF rec] k(1)] same_policy_def)
    have dist: "distinct ((done @ [k]) @ ks)" and stable: "\<forall>j \<in> set ((done @ [k]) @ ks). DestinationKey j = j"
      using Cons.prems(2,3) by auto
    have fresh1: "\<forall>j \<in> set ks. activeDebuglets d1 (i, j) = None"
      using Cons.prems(2,4) by (auto simp: d1(4))
    have dem2: "demand (activeDebuglets d1) + int (length ks) * alloc_maximum a \<le> i64_max"
      using Cons.prems(7) dem1 by (simp add: algebra_simps)
    obtain r d' where r: "charge_loop i a (done @ [k]) ks d1 = Inr (r, d')" "Destinations_inv d'" "same_policy d' d1"
      "r = None \<longleftrightarrow> (\<forall>j \<in> set ks. fits a d1 j)"
      "activeDebuglets d' = (if r = None then record_on i (Some a) (set ks) (activeDebuglets d1)
        else record_on i None (set (done @ [k]) \<union> set ks) (activeDebuglets d1))"
      using Cons.IH [OF d1(2) dist stable fresh1 Cons.prems(5,6) dem2] by blast
    have "record_on i None (set (done @ [k]) \<union> set ks) (activeDebuglets d1) =
        record_on i None (set done \<union> set (k # ks)) (activeDebuglets d)"
      by (auto simp: d1(4) record_on_def fun_eq_iff)
    moreover have "record_on i (Some a) (set ks) (activeDebuglets d1) = record_on i (Some a) (set (k # ks)) (activeDebuglets d)"
      unfolding d1(4) list.set record_on_insert ..
    ultimately show ?thesis
      using r(1,2,4,5) d1(1) True fits1 same_policy_trans [OF r(3) d1(3)] by auto
  next
    case False
    then have ch: "charge i k a d = Inr (Some (if k \<in> denied d then ErrDenied k else ErrCapacityFull k), d)"
      using charge_refused [OF Cons.prems(1) k(2) Cons.prems(5,6) dem] by (auto simp: fits_def)
    obtain d' where d': "release_loop i done d = Inr d'" "Destinations_inv d'" "same_policy d' d"
      "activeDebuglets d' = record_on i None (set done) (activeDebuglets d)"
      using release_loop_ok [OF Cons.prems(1)] Cons.prems(3) by fastforce
    moreover have "record_on i None (set done \<union> set (k # ks)) (activeDebuglets d) = record_on i None (set done) (activeDebuglets d)"
      using Cons.prems(4) by (auto simp: record_on_def fun_eq_iff)
    ultimately show ?thesis
      using ch False by auto
  qed
qed

lemma Allocate_ok:
  assumes inv: "Destinations_inv d" and keys: "\<forall>x \<in> set dests. DestinationKey (DestinationKey x) = DestinationKey x"
    and mn: "0 \<le> minv" and dem: "demand (activeDebuglets d) + int (length dests) * maxv \<le> i64_max"
    and a: "a = \<lparr>executorID = exec, alloc_minimum = minv, alloc_maximum = maxv\<rparr>"
  shows "\<exists>r d'. Allocate i exec dests minv maxv d = Inr (r, d') \<and> Destinations_inv d' \<and> same_policy d' d
    \<and> (r = None \<longleftrightarrow> minv \<le> maxv \<and> (\<forall>k \<in> DestinationKey ` set dests.
         activeDebuglets d (i, k) = Some a \<or> activeDebuglets d (i, k) = None \<and> fits a d k))
    \<and> activeDebuglets d' = (if r = None then record_on i (Some a) (DestinationKey ` set dests) (activeDebuglets d)
        else activeDebuglets d)"
proof (cases "minv \<le> maxv")
  case False
  then show ?thesis using inv by (simp add: Allocate_def)
next
  case True
  note pl = pending_loop_ok [where i = i and a = a and d = d and seen = "{}" and pend = "[]" and dests = dests]
  show ?thesis
  proof (cases "pending_loop i a d {} [] dests")
    case (Inl e)
    then show ?thesis using pl True inv a by (fastforce simp: Allocate_def)
  next
    case (Inr ks)
    then have ks: "distinct ks" "set ks = {k \<in> DestinationKey ` set dests. activeDebuglets d (i, k) = None}"
      "\<forall>k \<in> DestinationKey ` set dests. activeDebuglets d (i, k) \<in> {None, Some a}" "length ks \<le> length dests"
      using pl by auto
    have "int (length ks) * maxv \<le> int (length dests) * maxv"
      using ks(4) True mn by (intro mult_right_mono) auto
    then have dem': "demand (activeDebuglets d) + int (length ks) * alloc_maximum a \<le> i64_max"
      using dem a by simp
    have pre: "distinct ([] @ ks)" "\<forall>k \<in> set ([] @ ks). DestinationKey k = k"
      "\<forall>k \<in> set ks. activeDebuglets d (i, k) = None" "0 \<le> alloc_minimum a" "alloc_minimum a \<le> alloc_maximum a"
      using ks(1,2) keys mn True a by auto
    obtain r d' where r: "charge_loop i a [] ks d = Inr (r, d')" "Destinations_inv d'" "same_policy d' d"
      "r = None \<longleftrightarrow> (\<forall>k \<in> set ks. fits a d k)"
      "activeDebuglets d' = (if r = None then record_on i (Some a) (set ks) (activeDebuglets d)
         else record_on i None (set [] \<union> set ks) (activeDebuglets d))"
      using charge_loop_ok [OF inv pre dem'] by blast
    have rec: "record_on i None (set [] \<union> set ks) (activeDebuglets d) = activeDebuglets d"
      "record_on i (Some a) (set ks) (activeDebuglets d) = record_on i (Some a) (DestinationKey ` set dests) (activeDebuglets d)"
      using ks(2,3) by (auto simp: record_on_def fun_eq_iff)
    have run: "Allocate i exec dests minv maxv d = Inr (r, d')"
      using r(1) Inr True a by (simp add: Allocate_def)
    have iff: "r = None \<longleftrightarrow> minv \<le> maxv \<and> (\<forall>k \<in> DestinationKey ` set dests.
         activeDebuglets d (i, k) = Some a \<or> activeDebuglets d (i, k) = None \<and> fits a d k)"
      unfolding r(4) ks(2) using ks(3) True by force
    show ?thesis
      by (intro exI [of _ r] exI [of _ d'] conjI run r(2,3) iff r(5) [unfolded rec])
  qed
qed

section \<open>Shares respect floors, ceilings and the capacity\<close>

lemma totals_Some:
  "totals act (e, dest) = Some v \<longleftrightarrow> asum (held (\<lambda>_. 1) e) act dest \<noteq> 0
     \<and> v = \<lparr>minimum = asum (held alloc_minimum e) act dest, maximum = asum (held alloc_maximum e) act dest,
            runs = asum (held (\<lambda>_. 1) e) act dest\<rparr>"
  by (auto simp: totals_def)

lemma residuals_Some:
  "residuals act dest e = Some v \<longleftrightarrow> asum (held (\<lambda>_. 1) e) act dest \<noteq> 0
     \<and> v = asum (held alloc_maximum e) act dest - asum (held alloc_minimum e) act dest"
  by (auto simp: residuals_def totals_def)

lemma asum_split:
  assumes "well_recorded act" "finite E" "\<forall>e. e \<notin> E \<longrightarrow> asum (held (\<lambda>_. 1) e) act dest = 0"
  shows "(\<Sum>e \<in> E. asum (held f e) act dest) = asum f act dest"
proof -
  have "(\<Sum>e \<in> E. held f e (the (act k))) = f (the (act k))" if k: "k \<in> dom act" "snd k = dest" for k
  proof -
    obtain a where a: "act (fst k, dest) = Some a" using k by (cases k) auto
    then have "executorID a \<in> E" using runs_zero [OF assms(1) _ a] assms(3) by blast
    moreover have "the (act k) = a" using a k by (cases k) auto
    ultimately show ?thesis using assms(2) by (simp add: held_def)
  qed
  then show ?thesis
    unfolding asum_def by (subst sum.swap) (auto intro!: sum.cong)
qed

lemma residuals_finite: "well_recorded act \<Longrightarrow> finite (dom (residuals act dest))"
proof -
  assume rec: "well_recorded act"
  have "dom (residuals act dest) \<subseteq> (\<lambda>k. executorID (the (act k))) ` dom act"
  proof
    fix e assume "e \<in> dom (residuals act dest)"
    then have "asum (held (\<lambda>_. 1) e) act dest \<noteq> 0" by (auto simp: residuals_Some)
    then obtain k where "k \<in> dom act" "held (\<lambda>_. 1) e (the (act k)) \<noteq> 0"
      unfolding asum_def by (metis (no_types, lifting) sum.neutral mem_Collect_eq)
    then show "e \<in> (\<lambda>k. executorID (the (act k))) ` dom act" by (auto simp: held_def split: if_splits)
  qed
  then show ?thesis using well_recorded_finite [OF rec] finite_subset by blast
qed

lemma residual_sums:
  assumes "well_recorded act"
  shows "(\<Sum>e \<in> dom (residuals act dest). asum (held f e) act dest) = asum f act dest"
  by (rule asum_split [OF assms residuals_finite [OF assms]]) (auto simp: residuals_Some domIff)

text \<open>What a share at level \<open>k\<close> gives an executor.\<close>

definition limit_at :: "active \<Rightarrow> string \<Rightarrow> int \<Rightarrow> string \<Rightarrow> int" where
  "limit_at act dest k e =
     min (asum (held alloc_maximum e) act dest) (k + asum (held alloc_minimum e) act dest)"

lemma share_level:
  assumes rec: "well_recorded act" and t: "AVL_inv t" "AVL_map t = residuals act dest"
    and cap: "0 \<le> cap" "in_i64 cap"
  shows "\<exists>k. AVL_Fairshare cap t = Inr k \<and> 0 \<le> k
    \<and> (\<forall>e \<in> dom (residuals act dest). in_i64 (k + asum (held alloc_minimum e) act dest))
    \<and> (\<Sum>e \<in> dom (residuals act dest). limit_at act dest k e) \<le> asum alloc_minimum act dest + cap
    \<and> (asum alloc_maximum act dest \<le> asum alloc_minimum act dest + cap \<longrightarrow>
         (\<forall>e \<in> dom (residuals act dest). limit_at act dest k e = asum (held alloc_maximum e) act dest))"
proof -
  let ?D = "dom (residuals act dest)"
  let ?hi = "\<lambda>e. asum (held alloc_maximum e) act dest" and ?lo = "\<lambda>e. asum (held alloc_minimum e) act dest"
  have res: "\<forall>e \<in> dom (AVL_map t). AVL_map t e = Some (?hi e - ?lo e)"
    by (auto simp: t(2) residuals_Some)
  have hi: "(\<Sum>e \<in> ?D. ?hi e) = asum alloc_maximum act dest" and lo: "(\<Sum>e \<in> ?D. ?lo e) = asum alloc_minimum act dest"
    by (rule residual_sums [OF rec])+
  have dem: "asum alloc_maximum act dest \<le> i64_max"
    using asum_le_demand [OF rec, of dest] rec by (simp add: well_recorded_def)
  then have "(\<Sum>e \<in> dom (AVL_map t). ?hi e - ?lo e) \<le> i64_max"
    unfolding t(2) sum_subtractf hi lo using totals_bounds(5) [OF rec, of dest] by linarith
  from avl.limits_fit [OF t(1) res cap this]
  obtain k where k: "AVL_Fairshare cap t = Inr k" "0 \<le> k"
    "(\<Sum>e \<in> ?D. min (?hi e) (?lo e + k)) \<le> asum alloc_minimum act dest + cap"
    "residuals act dest = Map.empty \<or> (\<exists>e \<in> ?D. k \<le> ?hi e - ?lo e)"
    "asum alloc_maximum act dest \<le> asum alloc_minimum act dest + cap \<longrightarrow> (\<forall>e \<in> ?D. min (?hi e) (?lo e + k) = ?hi e)"
    unfolding t(2) hi lo by blast
  have rng: "in_i64 (k + ?lo e)" if e: "e \<in> ?D" for e
  proof -
    obtain j where j: "j \<in> ?D" "k \<le> ?hi j - ?lo j" using k(4) e by auto
    have le: "?hi j \<le> asum alloc_maximum act dest" "?hi j + ?hi e \<le> asum alloc_maximum act dest" if "j \<noteq> e"
    proof -
      have nn: "0 \<le> ?hi x" for x using totals_bounds(1,2) [OF rec, of x dest] by linarith
      have "(\<Sum>x \<in> {j, e}. ?hi x) \<le> (\<Sum>x \<in> ?D. ?hi x)"
        using j(1) e residuals_finite [OF rec] nn by (intro sum_mono2) auto
      then show "?hi j + ?hi e \<le> asum alloc_maximum act dest" using that hi by simp
      then show "?hi j \<le> asum alloc_maximum act dest" using nn [of e] by linarith
    qed
    have b: "0 \<le> ?lo e" "?lo e \<le> ?hi e" "?hi e \<le> demand act" "0 \<le> ?lo j"
      using totals_bounds [OF rec] by blast+
    have "k + ?lo e \<le> i64_max"
    proof (cases "j = e")
      case True then show ?thesis using j b rec by (simp add: well_recorded_def)
    next
      case False then show ?thesis using le(2) j(2) b dem by linarith
    qed
    then show ?thesis using k(2) b by (auto simp: in_i64_def i64_min_def)
  qed
  show ?thesis
    using k(1,2,3,5) rng unfolding limit_at_def by (intro exI [of _ k]) (auto simp: add.commute)
qed


text \<open>The consumer that \<open>Fairshare\<close> hands to the tree, run over the nodes it visits.\<close>

lemma visit_wrapped:
  assumes "\<forall>n \<in> set ns. \<exists>v. st n = Some v"
  shows "fst (visit (\<lambda>r n. case r of Inl e \<Rightarrow> (Inl e, False)
      | Inr s \<Rightarrow> (case st n of None \<Rightarrow> (Inl err, False)
         | Some v \<Rightarrow> let (s', c) = yield s (f n v) in (Inr s', c))) ns (Inr s)) =
    Inr (fst (visit yield (map (\<lambda>n. f n (the (st n))) ns) s))"
  using assms by (induction ns arbitrary: s) (auto simp: Let_def split: prod.splits)

lemma AVL_Range_all:
  assumes "AVL_inv t"
  shows "\<exists>ns. distinct (map ID ns) \<and> set (map ID ns) = dom (AVL_map t)
    \<and> (\<forall>yield s. AVL_Range yield Unbounded Unbounded t s = fst (visit yield ns s))"
proof (intro exI conjI allI)
  let ?ns = "preorder (root t)"
  have "image_mset fst (mset (map (\<lambda>x. (ID x, Value x)) ?ns)) = image_mset fst (mset (AVL_entries t))"
    by (simp only: mset_preorder AVL_entries_def)
  then have m: "mset (map ID ?ns) = mset (map fst (AVL_entries t))"
    by (simp add: multiset.map_comp comp_def)
  show "distinct (map ID ?ns)"
    using mset_eq_imp_distinct_iff [OF m] AVL_inv_distinct [OF assms] by simp
  show "set (map ID ?ns) = dom (AVL_map t)"
    using mset_eq_setD [OF m] by (simp add: AVL_map_dom)
  have "filter (in_range Unbounded Unbounded) ?ns = ?ns" by (simp add: in_range_def)
  then show "AVL_Range yield Unbounded Unbounded t s = fst (visit yield ?ns s)" for yield :: "'b \<Rightarrow> 'a node_info \<Rightarrow> 'b \<times> bool" and s
    using AVL_Range_visit [OF assms] by metis
qed

definition share_of :: "DestinationsUsage \<Rightarrow> string \<Rightarrow> int \<Rightarrow> string \<Rightarrow> int" where
  "share_of d dest k e = (if dest \<in> denied d then 0 else limit_at (activeDebuglets d) dest k e)"

lemma Fairshare_ok:
  assumes inv: "Destinations_inv d" and key: "dest = DestinationKey dest0" "DestinationKey dest = dest"
    and cap: "0 \<le> Cap dest d" "in_i64 (Cap dest d)"
  shows "\<exists>k ids d'. (\<forall>yield (s :: 's). Fairshare yield dest0 d s = Inr (fst (visit yield (map (\<lambda>e. (e, share_of d dest k e)) ids) s), d'))
    \<and> Destinations_inv d' \<and> same_policy d' d \<and> activeDebuglets d' = activeDebuglets d
    \<and> distinct ids \<and> set ids = dom (residuals (activeDebuglets d) dest) \<and> 0 \<le> k
    \<and> (\<Sum>e \<in> set ids. limit_at (activeDebuglets d) dest k e) \<le> max (Cap dest d) (asum alloc_minimum (activeDebuglets d) dest)
    \<and> (asum alloc_maximum (activeDebuglets d) dest \<le> Cap dest d \<longrightarrow>
         (\<forall>e \<in> set ids. limit_at (activeDebuglets d) dest k e = asum (held alloc_maximum e) (activeDebuglets d) dest))"
proof -
  let ?act = "activeDebuglets d"
  let ?used = "asum alloc_minimum ?act dest"
  have rec: "well_recorded ?act" and used: "zero_at (usedCapacities d) dest = ?used" and st: "store d = totals ?act"
    using inv by (simp_all add: Destinations_inv_def)
  obtain t d' where t: "getTreeCap dest d = (t, Cap dest d, d')" "AVL_inv t" "AVL_map t = residuals ?act dest"
    "d' = d\<lparr>trees := (trees d)(dest \<mapsto> t)\<rparr>"
    using tree_of [OF inv key(2)] by blast
  have inv': "Destinations_inv d'"
    using inv t by (auto simp: Destinations_inv_def tree_ok_def)
  let ?sh = "max 0 (Cap dest d - ?used)"
  have bu: "0 \<le> ?used" "?used \<le> i64_max"
    using totals_bounds(5,6) [OF rec, of dest] rec by (auto simp: well_recorded_def)
  then have "i64 (Cap dest d - ?used) = Cap dest d - ?used"
    using cap by (intro i64_id) (auto simp: in_i64_def i64_min_def i64_max_def)
  then have sh: "(if i64 (Cap dest d - ?used) < 0 then 0 else i64 (Cap dest d - ?used)) = ?sh" by simp
  have rng: "0 \<le> ?sh" "in_i64 ?sh" using cap bu by (auto simp: in_i64_def i64_min_def i64_max_def)
  obtain k where k: "AVL_Fairshare ?sh t = Inr k" "0 \<le> k"
    "\<forall>e \<in> dom (residuals ?act dest). in_i64 (k + asum (held alloc_minimum e) ?act dest)"
    "(\<Sum>e \<in> dom (residuals ?act dest). limit_at ?act dest k e) \<le> ?used + ?sh"
    "asum alloc_maximum ?act dest \<le> ?used + ?sh \<longrightarrow>
       (\<forall>e \<in> dom (residuals ?act dest). limit_at ?act dest k e = asum (held alloc_maximum e) ?act dest)"
    using share_level [OF rec t(2,3) rng] by blast
  obtain ns where ns: "distinct (map ID ns)" "set (map ID ns) = dom (residuals ?act dest)"
    "\<forall>yield s. AVL_Range yield Unbounded Unbounded t s =
       fst (visit (yield :: panic + 's \<Rightarrow> string node_info \<Rightarrow> (panic + 's) \<times> bool) ns s)"
    using AVL_Range_all [OF t(2)] t(3) by metis
  let ?f = "\<lambda>n v. (ID n, if dest \<in> denied d then 0 else min (maximum v) (i64 (k + minimum v)))"
  have tot: "\<forall>n \<in> set ns. \<exists>v. totals ?act (ID n, dest) = Some v"
    using ns(2) by (force simp: residuals_Some totals_Some)
  have each: "?f n (the (totals ?act (ID n, dest))) = (ID n, share_of d dest k (ID n))" if "n \<in> set ns" for n
  proof -
    have "ID n \<in> dom (residuals ?act dest)" using ns(2) that by auto
    then show ?thesis
      using k(3) by (auto simp: totals_def residuals_Some share_of_def limit_at_def i64_id)
  qed
  have run: "Fairshare yield dest0 d s = Inr (fst (visit yield (map (\<lambda>e. (e, share_of d dest k e)) (map ID ns)) s), d')"
    for yield :: "'s \<Rightarrow> string \<times> bitrate \<Rightarrow> 's \<times> bool" and s
  proof -
    have "map (\<lambda>n. ?f n (the (totals ?act (ID n, dest)))) ns = map (\<lambda>e. (e, share_of d dest k e)) (map ID ns)"
      using each by simp
    moreover note visit_wrapped [OF tot, of NilDereference yield ?f s, unfolded Let_def]
    moreover have "store d' = totals ?act" "denied d' = denied d" "zero_at (usedCapacities d') dest = ?used"
      using t(4) st used by simp_all
    ultimately show ?thesis
      unfolding Fairshare_def key(1) [symmetric] Let_def t(1) prod.case
      by (simp only: sh k(1) res_bind_Inr ns(3) [rule_format])
  qed
  have top: "?used + ?sh = max (Cap dest d) ?used" by simp
  have full: "asum alloc_maximum ?act dest \<le> Cap dest d \<longrightarrow>
      (\<forall>e \<in> set (map ID ns). limit_at ?act dest k e = asum (held alloc_maximum e) ?act dest)"
    using k(5) unfolding ns(2) by linarith
  have "same_policy d' d" "activeDebuglets d' = ?act" using t(4) by (simp_all add: same_policy_def)
  then show ?thesis
    using run inv' ns(1,2) k(2) k(4) [unfolded top] full
    by (intro exI [of _ k] exI [of _ "map ID ns"] exI [of _ d'] conjI allI) auto
qed

lemma visit_one:
  assumes "distinct es" "e \<in> set es"
  shows "fst (visit (\<lambda>(s, _) (i, limit). if i = e then let (s', c) = yield s (dest, limit) in ((s', c), c) else ((s, True), True))
      (map (\<lambda>i. (i, f i)) es) (s, True)) = yield s (dest, f e)"
proof -
  let ?y = "\<lambda>(s, _) (i, limit). if i = e then let (s', c) = yield s (dest, limit) in ((s', c), c) else ((s, True), True)"
  have skip: "visit ?y (map (\<lambda>i. (i, f i)) xs) (s, True) = ((s, True), True)" if "e \<notin> set xs" for xs s
    using that by (induction xs) auto
  obtain xs ys where es: "es = xs @ e # ys" using assms(2) split_list by fast
  then have no: "e \<notin> set xs" "e \<notin> set ys" using assms(1) by auto
  obtain s' c where y: "yield s (dest, f e) = (s', c)" by fastforce
  show ?thesis
    unfolding es map_append list.map visit_append skip [OF no(1)]
    using skip [OF no(2), of s'] by (simp add: y)
qed

lemma share_bounds:
  assumes "well_recorded act" "0 \<le> k"
  shows "asum (held alloc_minimum e) act dest \<le> limit_at act dest k e"
    and "limit_at act dest k e \<le> asum (held alloc_maximum e) act dest"
  using totals_bounds(2) [OF assms(1), of e dest] assms(2) by (auto simp: limit_at_def)

definition limit_ok :: "DestinationsUsage \<Rightarrow> string \<Rightarrow> string \<Rightarrow> int \<Rightarrow> bool" where
  "limit_ok d e dest l \<longleftrightarrow>
     (if dest \<in> denied d then l = 0
      else case store d (e, dest) of None \<Rightarrow> False | Some v \<Rightarrow> minimum v \<le> l \<and> l \<le> maximum v)"

lemma share_limit_ok:
  assumes "Destinations_inv d" "0 \<le> k" "e \<in> dom (residuals (activeDebuglets d) dest)"
  shows "limit_ok d e dest (share_of d dest k e)"
proof -
  have "well_recorded (activeDebuglets d)" "store d = totals (activeDebuglets d)"
    using assms(1) by (simp_all add: Destinations_inv_def)
  moreover have "\<exists>v. totals (activeDebuglets d) (e, dest) = Some v"
    using assms(3) by (auto simp: residuals_Some totals_Some)
  ultimately show ?thesis
    using share_bounds(1) [OF _ assms(2), of "activeDebuglets d" e dest]
      share_bounds(2) [OF _ assms(2), of "activeDebuglets d" dest e]
    by (auto simp: limit_ok_def share_of_def totals_def)
qed

definition caps_ok :: "DestinationsUsage \<Rightarrow> bool" where
  "caps_ok d \<longleftrightarrow> (\<forall>dest. 0 \<le> Cap dest d \<and> in_i64 (Cap dest d))"

lemma inv_key: "Destinations_inv d \<Longrightarrow> store d (e, dest) \<noteq> None \<Longrightarrow> DestinationKey dest = dest"
proof -
  assume inv: "Destinations_inv d" and "store d (e, dest) \<noteq> None"
  then have "asum (held (\<lambda>_. 1) e) (activeDebuglets d) dest \<noteq> 0"
    by (auto simp: Destinations_inv_def totals_Some)
  then obtain k where "k \<in> dom (activeDebuglets d)" "snd k = dest"
    unfolding asum_def by (auto elim!: sum.not_neutral_contains_not_neutral)
  then show ?thesis
    using inv well_recordedD(1) by (fastforce simp: Destinations_inv_def)
qed

lemma ForExecutor_ok:
  fixes yield :: "'s \<Rightarrow> string \<times> bitrate \<Rightarrow> 's \<times> bool"
  assumes "Destinations_inv d" "caps_ok d" "set order \<subseteq> dom (store d)"
  shows "\<exists>xs d'. ForExecutor yield e order d s = Inr (fst (visit yield xs s), d')
    \<and> Destinations_inv d' \<and> same_policy d' d \<and> activeDebuglets d' = activeDebuglets d
    \<and> map fst xs = map snd (filter (\<lambda>key. fst key = e) order) \<and> (\<forall>(dest, l) \<in> set xs. limit_ok d e dest l)"
  unfolding ForExecutor_def using assms
proof (induction order arbitrary: d s)
  case (Cons key order)
  obtain e' dest where key: "key = (e', dest)" by fastforce
  show ?case
  proof (cases "e' = e")
    case False
    then show ?thesis using Cons key by auto
  next
    case True
    have lk: "store d (e, dest) \<noteq> None" using Cons.prems(3) key True by auto
    have stable: "DestinationKey dest = dest" by (rule inv_key [OF Cons.prems(1) lk])
    let ?y = "\<lambda>(s, _) (i, limit). if i = e then let (s', c) = yield s (dest, limit) in ((s', c), c) else ((s, True), True)"
    have cap: "0 \<le> Cap dest d" "in_i64 (Cap dest d)" using Cons.prems(2) by (auto simp: caps_ok_def)
    obtain k es d1 where sh: "\<forall>y (s :: 's \<times> bool). Fairshare y dest d s =
        Inr (fst (visit y (map (\<lambda>i. (i, share_of d dest k i)) es) s), d1)"
      "Destinations_inv d1" "same_policy d1 d" "activeDebuglets d1 = activeDebuglets d"
      "distinct es" "set es = dom (residuals (activeDebuglets d) dest)" "0 \<le> k"
      using Fairshare_ok [OF Cons.prems(1) stable [symmetric] stable cap] by blast
    have st: "store d = totals (activeDebuglets d)" "store d1 = store d"
      using Cons.prems(1) sh(2,4) by (simp_all add: Destinations_inv_def)
    have mem: "e \<in> dom (residuals (activeDebuglets d) dest)"
      using lk st(1) by (auto simp: residuals_Some totals_Some)
    let ?l = "share_of d dest k e"
    have ok: "limit_ok d e dest ?l" by (rule share_limit_ok [OF Cons.prems(1) sh(7) mem])
    obtain s1 c where y: "yield s (dest, ?l) = (s1, c)" by fastforce
    have run: "Fairshare ?y dest d (s, True) = Inr ((s1, c), d1)"
      using sh(1) visit_one [OF sh(5), of e yield dest "share_of d dest k" s] mem sh(6) y by simp
    have step: "ForExecutor_loop yield e (key # order) d s = (if c then ForExecutor_loop yield e order d1 s1 else Inr (s1, d1))"
      unfolding ForExecutor_loop.simps key fst_conv snd_conv run using True by simp
    have same: "limit_ok d1 = limit_ok d"
      using sh(3) st(2) by (auto simp: limit_ok_def same_policy_def fun_eq_iff)
    show ?thesis
    proof (cases c)
      case False
      let ?rest = "map (\<lambda>key. (snd key, share_of d (snd key) 0 e)) (filter (\<lambda>key. fst key = e) order)"
      have "\<forall>(dest, l) \<in> set ?rest. limit_ok d e dest l"
      proof clarify
        fix dest' l assume "(dest', l) \<in> set ?rest"
        then have "store d (e, dest') \<noteq> None" "l = share_of d dest' 0 e" using Cons.prems(3) by auto
        moreover have "e \<in> dom (residuals (activeDebuglets d) dest')"
          using calculation(1) st(1) by (auto simp: residuals_def)
        ultimately show "limit_ok d e dest' l"
          using share_limit_ok [OF Cons.prems(1), of 0 e dest'] by simp
      qed
      then show ?thesis
        unfolding step using key True False y ok sh(2,3,4)
        by (intro exI [of _ "(dest, ?l) # ?rest"] exI [of _ d1]) (simp add: comp_def)
    next
      case True2: True
      have "caps_ok d1" using Cons.prems(2) same_policy_Cap [OF sh(3)] by (simp add: caps_ok_def)
      moreover have "set order \<subseteq> dom (store d1)" using Cons.prems(3) st(2) by simp
      ultimately obtain xs d' where xs: "ForExecutor_loop yield e order d1 s1 = Inr (fst (visit yield xs s1), d')"
        "Destinations_inv d'" "same_policy d' d1" "activeDebuglets d' = activeDebuglets d1"
        "map fst xs = map snd (filter (\<lambda>key. fst key = e) order)" "\<forall>(dest, l) \<in> set xs. limit_ok d1 e dest l"
        using Cons.IH [OF sh(2)] by blast
      then show ?thesis
        unfolding step using key True True2 y ok sh(4) same same_policy_trans [OF xs(3) sh(3)]
        by (intro exI [of _ "(dest, ?l) # xs"] exI [of _ d']) simp
    qed
  qed
qed auto

lemma NewDestinations_inv: "Destinations_inv (NewDestinations c)"
  by (auto simp: Destinations_inv_def NewDestinations_def well_recorded_def demand_def totals_def fun_eq_iff
      tree_ok_def residuals_def i64_max_def)

lemma sample_key: "DestinationKey ''probe.example'' = ''probe.example''"
  by code_simp

section \<open>Properties\<close>

text \<open>C2: C2: an allocation over several destinations is one decision. It is accepted exactly when
  the floor is at most the ceiling and every destination either already carries this very
  decision for the run or is not denied and has room for the floor; then the decision is
  recorded on every destination. Otherwise the error leaves the recorded allocations, and
  with them all charged floors, totals and trees, as they were. It never panics.
\<close>

theorem Allocate_atomic:
  assumes "Destinations_inv d" "\<forall>x \<in> set dests. DestinationKey (DestinationKey x) = DestinationKey x"
    and "0 \<le> minv" "demand (activeDebuglets d) + int (length dests) * maxv \<le> i64_max"
    and "a = \<lparr>executorID = exec, alloc_minimum = minv, alloc_maximum = maxv\<rparr>"
  shows "\<exists>r d'. Allocate i exec dests minv maxv d = Inr (r, d') \<and> Destinations_inv d' \<and> same_policy d' d
    \<and> (r = None \<longleftrightarrow> minv \<le> maxv \<and> (\<forall>k \<in> DestinationKey ` set dests.
         activeDebuglets d (i, k) = Some a \<or> activeDebuglets d (i, k) = None \<and> fits a d k))
    \<and> activeDebuglets d' = (if r = None then record_on i (Some a) (DestinationKey ` set dests) (activeDebuglets d)
        else activeDebuglets d)"
  by (rule Allocate_ok [OF assms])

theorem Allocate_atomic_witness:
  "\<exists>r d'. Allocate 7 ''exec'' [''probe.example''] 40 90 (NewDestinations 100) = Inr (r, d')
     \<and> Destinations_inv d' \<and> r = None
     \<and> activeDebuglets d' (7, ''probe.example'') = Some \<lparr>executorID = ''exec'', alloc_minimum = 40, alloc_maximum = 90\<rparr>"
proof -
  let ?a = "\<lparr>executorID = ''exec'', alloc_minimum = 40, alloc_maximum = 90\<rparr>"
  have "fits ?a (NewDestinations 100) ''probe.example''"
    by (simp add: fits_def NewDestinations_def Cap_def)
  moreover have "activeDebuglets (NewDestinations 100) = Map.empty" by (simp add: NewDestinations_def)
  ultimately show ?thesis
    using Allocate_atomic [OF NewDestinations_inv, of "[''probe.example'']" 40 100 90 ?a "''exec''" 7]
    by (auto simp: sample_key demand_def i64_max_def record_on_def)
qed

text \<open>
  C39: admission never overcommits. If on every destination the recorded floors fit the
  capacity, they still do after any allocation, accepted or not.
\<close>

theorem Allocate_within_capacity:
  assumes "Destinations_inv d" "\<forall>x \<in> set dests. DestinationKey (DestinationKey x) = DestinationKey x"
    and "0 \<le> minv" "demand (activeDebuglets d) + int (length dests) * maxv \<le> i64_max"
    and "\<forall>dest. zero_at (usedCapacities d) dest \<le> Cap dest d"
  shows "\<exists>r d'. Allocate i exec dests minv maxv d = Inr (r, d') \<and> (\<forall>dest. zero_at (usedCapacities d') dest \<le> Cap dest d')"
proof -
  let ?a = "\<lparr>executorID = exec, alloc_minimum = minv, alloc_maximum = maxv\<rparr>" and ?act = "activeDebuglets d"
  obtain r d' where r: "Allocate i exec dests minv maxv d = Inr (r, d')" "Destinations_inv d'" "same_policy d' d"
    "r = None \<longleftrightarrow> minv \<le> maxv \<and> (\<forall>k \<in> DestinationKey ` set dests.
       ?act (i, k) = Some ?a \<or> ?act (i, k) = None \<and> fits ?a d k)"
    "activeDebuglets d' = (if r = None then record_on i (Some ?a) (DestinationKey ` set dests) ?act else ?act)"
    using Allocate_ok [OF assms(1-4) refl, of i exec] by (elim exE conjE) (rule that)
  have used: "asum alloc_minimum ?act dest \<le> Cap dest d" for dest
    using assms(1,5) by (simp add: Destinations_inv_def)
  have "asum alloc_minimum (activeDebuglets d') dest \<le> Cap dest d" for dest
  proof (cases "r = None \<and> dest \<in> DestinationKey ` set dests \<and> ?act (i, dest) = None")
    case True
    have fin: "finite (dom ?act)" using assms(1) by (simp add: Destinations_inv_def well_recorded_def)
    have "asum alloc_minimum (activeDebuglets d') dest = asum alloc_minimum (?act((i, dest) \<mapsto> ?a)) dest"
      unfolding asum_def using True r(5)
      by (intro sum.cong) (auto simp: record_on_def split: if_splits)
    then show ?thesis using True r(4) asum_upd [OF fin, of "(i, dest)" alloc_minimum ?a dest] by (auto simp: fits_def)
  next
    case False
    have "activeDebuglets d' k = ?act k" if "snd k = dest" for k
    proof (cases "r = None \<and> fst k = i \<and> snd k \<in> DestinationKey ` set dests")
      case True
      then have "?act (i, dest) = Some ?a" using r(4) False that by auto
      then show ?thesis using r(5) True that by (cases k) (simp add: record_on_def)
    next
      case no: False
      then show ?thesis using r(5) by (auto simp: record_on_def)
    qed
    then have "asum alloc_minimum (activeDebuglets d') dest = asum alloc_minimum ?act dest"
      unfolding asum_def by (intro sum.cong) (auto simp: domIff)
    then show ?thesis using used by simp
  qed
  moreover have "zero_at (usedCapacities d') dest = asum alloc_minimum (activeDebuglets d') dest" for dest
    using r(2) by (simp add: Destinations_inv_def)
  ultimately show ?thesis using r(1) same_policy_Cap [OF r(3)] by auto
qed

theorem Allocate_within_capacity_witness:
  "\<exists>r d'. Allocate 7 ''exec'' [''probe.example''] 40 90 (NewDestinations 100) = Inr (r, d')
     \<and> (\<forall>dest. zero_at (usedCapacities d') dest \<le> Cap dest d')"
proof -
  have "activeDebuglets (NewDestinations 100) = Map.empty" "usedCapacities (NewDestinations 100) = Map.empty"
    "Cap dest (NewDestinations 100) = 100" for dest by (simp_all add: NewDestinations_def Cap_def)
  then show ?thesis
    using Allocate_within_capacity [OF NewDestinations_inv, of "[''probe.example'']" 40 100 90 7 "''exec''"]
    by (simp add: sample_key demand_def i64_max_def)
qed

text \<open>A release takes back exactly the recorded allocation of the run on the destination
  and nothing else: afterwards the floors, totals and trees are those of the remaining
  allocations. Releasing what is not recorded changes nothing, and no release panics.
\<close>

theorem Remove_exact:
  assumes "Destinations_inv d"
  shows "\<exists>d'. Remove i dest0 d = Inr d' \<and> Destinations_inv d' \<and> same_policy d' d
    \<and> activeDebuglets d' = (activeDebuglets d)((i, DestinationKey dest0) := None)
    \<and> (activeDebuglets d (i, DestinationKey dest0) = None \<longrightarrow> d' = d)"
  using Remove_ok [OF assms, of i dest0] by (auto simp: Remove_def Let_def)

theorem Remove_exact_witness:
  "\<exists>r d1 d'. Allocate 7 ''exec'' [''probe.example''] 40 90 (NewDestinations 100) = Inr (r, d1)
     \<and> activeDebuglets d1 (7, ''probe.example'') \<noteq> None
     \<and> Remove 7 ''probe.example'' d1 = Inr d' \<and> zero_at (usedCapacities d') ''probe.example'' = 0"
proof -
  let ?a = "\<lparr>executorID = ''exec'', alloc_minimum = 40, alloc_maximum = 90\<rparr>"
  have "fits ?a (NewDestinations 100) ''probe.example''" "activeDebuglets (NewDestinations 100) = Map.empty"
    by (simp_all add: fits_def NewDestinations_def Cap_def)
  then obtain r d1 where d1: "Allocate 7 ''exec'' [''probe.example''] 40 90 (NewDestinations 100) = Inr (r, d1)"
    "Destinations_inv d1" "activeDebuglets d1 = [(7, ''probe.example'') \<mapsto> ?a]"
    using Allocate_ok [OF NewDestinations_inv, of "[''probe.example'']" 40 100 90 ?a "''exec''" 7]
    by (auto simp: sample_key demand_def i64_max_def record_on_insert)
  from Remove_exact [OF d1(2), of 7 "''probe.example''"]
  obtain d' where d': "Remove 7 ''probe.example'' d1 = Inr d'" "Destinations_inv d'" "activeDebuglets d' = Map.empty"
    using d1(3) sample_key by auto
  then have "zero_at (usedCapacities d') ''probe.example'' = 0" by (simp add: Destinations_inv_def)
  then show ?thesis using d1(1,3) d'(1) by auto
qed

text \<open>C11: C6: the shares of a destination are found without panic and are offered to the consumer
  one executor at a time, each executor holding totals there exactly once. No executor is
  given less than its floors or more than its ceilings, a denied destination gives every
  executor zero, all shares together stay within the capacity (or within the charged floors,
  were the capacity below them), and when the ceilings fit the capacity every executor gets
  its ceiling.
\<close>

theorem Fairshare_within_limits:
  assumes "Destinations_inv d" "dest = DestinationKey dest0" "DestinationKey dest = dest"
    and "0 \<le> Cap dest d" "in_i64 (Cap dest d)"
  shows "\<exists>shares d'. (\<forall>yield s. Fairshare yield dest0 d s = Inr (fst (visit yield shares s), d'))
    \<and> Destinations_inv d' \<and> activeDebuglets d' = activeDebuglets d
    \<and> distinct (map fst shares) \<and> set (map fst shares) = {e. store d (e, dest) \<noteq> None}
    \<and> (\<forall>(e, l) \<in> set shares. limit_ok d e dest l)
    \<and> sum_list (map snd shares) \<le> max (Cap dest d) (zero_at (usedCapacities d) dest)
    \<and> (dest \<notin> denied d \<and> asum alloc_maximum (activeDebuglets d) dest \<le> Cap dest d \<longrightarrow>
         (\<forall>(e, l) \<in> set shares. l = maximum (the (store d (e, dest)))))"
proof -
  let ?act = "activeDebuglets d"
  have rec: "well_recorded ?act" and used: "zero_at (usedCapacities d) dest = asum alloc_minimum ?act dest"
    and st: "store d = totals ?act"
    using assms(1) by (simp_all add: Destinations_inv_def)
  obtain k es d' where k: "\<forall>yield (s :: 'a). Fairshare yield dest0 d s = Inr (fst (visit yield (map (\<lambda>e. (e, share_of d dest k e)) es) s), d')"
    "Destinations_inv d'" "activeDebuglets d' = ?act" "distinct es" "set es = dom (residuals ?act dest)" "0 \<le> k"
    "(\<Sum>e \<in> set es. limit_at ?act dest k e) \<le> max (Cap dest d) (asum alloc_minimum ?act dest)"
    "asum alloc_maximum ?act dest \<le> Cap dest d \<longrightarrow>
       (\<forall>e \<in> set es. limit_at ?act dest k e = asum (held alloc_maximum e) ?act dest)"
    using Fairshare_ok [OF assms] by blast
  let ?sh = "map (\<lambda>e. (e, share_of d dest k e)) es"
  have dom: "dom (residuals ?act dest) = {e. store d (e, dest) \<noteq> None}"
    by (auto simp: st residuals_def)
  have "limit_ok d e dest (share_of d dest k e)" if "e \<in> set es" for e
    using share_limit_ok [OF assms(1) k(6)] that k(5) by auto
  then have lim: "\<forall>(e, l) \<in> set ?sh. limit_ok d e dest l" by auto
  have sum: "sum_list (map snd ?sh) \<le> max (Cap dest d) (zero_at (usedCapacities d) dest)"
  proof (cases "dest \<in> denied d")
    case True
    then have "sum_list (map snd ?sh) = 0" by (simp add: comp_def share_of_def)
    then show ?thesis using assms(4) by simp
  next
    case False
    then have "sum_list (map snd ?sh) = (\<Sum>e \<in> set es. limit_at ?act dest k e)"
      using k(4) by (simp add: comp_def share_of_def sum_list_distinct_conv_sum_set)
    then show ?thesis using k(7) used by simp
  qed
  have full: "dest \<notin> denied d \<and> asum alloc_maximum ?act dest \<le> Cap dest d \<longrightarrow>
      (\<forall>(e, l) \<in> set ?sh. l = maximum (the (store d (e, dest))))"
    using k(5,8) by (auto simp: share_of_def st residuals_Some totals_def)
  have ids: "distinct (map fst ?sh)" "set (map fst ?sh) = {e. store d (e, dest) \<noteq> None}"
    using k(4,5) dom by (simp_all add: comp_def image_image)
  show ?thesis
    by (intro exI [of _ ?sh] exI [of _ d'] conjI k(1-3) ids lim sum full)
qed

theorem Fairshare_within_limits_witness:
  "\<exists>r d1 shares d'. Allocate 7 ''exec'' [''probe.example''] 40 90 (NewDestinations 100) = Inr (r, d1)
     \<and> (\<forall>yield (s :: nat). Fairshare yield ''probe.example'' d1 s = Inr (fst (visit yield shares s), d'))
     \<and> set (map fst shares) = {e. store d1 (e, ''probe.example'') \<noteq> None} \<and> sum_list (map snd shares) \<le> 100"
proof -
  let ?a = "\<lparr>executorID = ''exec'', alloc_minimum = 40, alloc_maximum = 90\<rparr>" and ?d = "NewDestinations 100"
  have "fits ?a ?d ''probe.example''" "activeDebuglets ?d = Map.empty" and cap: "Cap x ?d = 100" for x
    by (simp_all add: fits_def NewDestinations_def Cap_def)
  then obtain r d1 where d1: "Allocate 7 ''exec'' [''probe.example''] 40 90 ?d = Inr (r, d1)"
    "Destinations_inv d1" "same_policy d1 ?d" "activeDebuglets d1 = [(7, ''probe.example'') \<mapsto> ?a]"
    using Allocate_ok [OF NewDestinations_inv, of "[''probe.example'']" 40 100 90 ?a "''exec''" 7]
    by (auto simp: sample_key demand_def i64_max_def record_on_insert)
  have cap1: "Cap ''probe.example'' d1 = 100" using same_policy_Cap [OF d1(3)] cap by simp
  have "zero_at (usedCapacities d1) ''probe.example'' = 40"
    using d1(2,4) asum_upd [of Map.empty "(7, ''probe.example'')" alloc_minimum ?a "''probe.example''"]
    by (simp add: Destinations_inv_def)
  then have top: "max (Cap ''probe.example'' d1) (zero_at (usedCapacities d1) ''probe.example'') = 100"
    by (simp add: cap1)
  have "0 \<le> Cap ''probe.example'' d1" "in_i64 (Cap ''probe.example'' d1)"
    by (simp_all add: cap1 in_i64_def i64_min_def i64_max_def)
  from Fairshare_within_limits [OF d1(2) sample_key [symmetric] sample_key this, unfolded top]
  show ?thesis using d1(1) by (elim exE conjE) (intro exI conjI)
qed

text \<open>The shares of one executor are offered for each of the destinations it holds totals
  on, in the order in which the map is ranged over, within its floors and ceilings there and
  zero on a denied destination, without panic, and without changing the allocations.
\<close>

theorem ForExecutor_within_limits:
  assumes "Destinations_inv d" "caps_ok d" "set order \<subseteq> dom (store d)"
  shows "\<exists>xs d'. ForExecutor yield e order d s = Inr (fst (visit yield xs s), d')
    \<and> Destinations_inv d' \<and> same_policy d' d \<and> activeDebuglets d' = activeDebuglets d
    \<and> map fst xs = map snd (filter (\<lambda>key. fst key = e) order) \<and> (\<forall>(dest, l) \<in> set xs. limit_ok d e dest l)"
  by (rule ForExecutor_ok [OF assms])

theorem ForExecutor_within_limits_witness:
  "\<exists>r d1 xs d'. Allocate 7 ''exec'' [''probe.example''] 40 90 (NewDestinations 100) = Inr (r, d1)
     \<and> ForExecutor (\<lambda>s x. (s @ [x], True)) ''exec'' [(''exec'', ''probe.example'')] d1 [] = Inr (xs, d')"
proof -
  let ?a = "\<lparr>executorID = ''exec'', alloc_minimum = 40, alloc_maximum = 90\<rparr>" and ?d = "NewDestinations 100"
  have "fits ?a ?d ''probe.example''" "activeDebuglets ?d = Map.empty" and cap: "Cap x ?d = 100" for x
    by (simp_all add: fits_def NewDestinations_def Cap_def)
  then obtain r d1 where d1: "Allocate 7 ''exec'' [''probe.example''] 40 90 ?d = Inr (r, d1)"
    "Destinations_inv d1" "same_policy d1 ?d" "activeDebuglets d1 = [(7, ''probe.example'') \<mapsto> ?a]"
    using Allocate_ok [OF NewDestinations_inv, of "[''probe.example'']" 40 100 90 ?a "''exec''" 7]
    by (auto simp: sample_key demand_def i64_max_def record_on_insert)
  have "store d1 (''exec'', ''probe.example'') \<noteq> None"
    using d1(2,4) by (simp add: Destinations_inv_def totals_def asum_upd held_def)
  then have "set [(''exec'', ''probe.example'')] \<subseteq> dom (store d1)" by auto
  moreover have "caps_ok d1"
    using same_policy_Cap [OF d1(3)] cap by (simp add: caps_ok_def in_i64_def i64_min_def i64_max_def)
  ultimately show ?thesis
    using ForExecutor_within_limits [OF d1(2), where e = "''exec''" and yield = "\<lambda>s x. (s @ [x], True)" and s = "[]"] d1(1)
    by blast
qed

text \<open>A limit below the floors charged on its destination is refused and changes nothing;
  any other limit becomes the capacity of exactly that destination and touches neither the
  allocations nor another destination. Removing the limit restores the default capacity.
\<close>

theorem SetLimit_guards_floors:
  assumes "Destinations_inv d" "DestinationKey (DestinationKey x) = DestinationKey x"
  shows "(if limit < asum alloc_minimum (activeDebuglets d) (DestinationKey x)
          then SetLimit x limit d = (Some (ErrCapacityFull (DestinationKey x)), d)
          else \<exists>d'. SetLimit x limit d = (None, d') \<and> Destinations_inv d' \<and> activeDebuglets d' = activeDebuglets d
             \<and> Cap x d' = limit \<and> (\<forall>y. DestinationKey y \<noteq> DestinationKey x \<longrightarrow> Cap y d' = Cap y d)
             \<and> zero_at (usedCapacities d') (DestinationKey x) \<le> Cap x d')
    \<and> Cap x (ResetLimit x d) = defaultCap d \<and> Destinations_inv (ResetLimit x d)"
proof -
  have used: "zero_at (usedCapacities d) (DestinationKey x) = asum alloc_minimum (activeDebuglets d) (DestinationKey x)"
    using assms(1) by (simp add: Destinations_inv_def)
  let ?d = "d\<lparr>capacities := (capacities d)(DestinationKey x \<mapsto> limit)\<rparr>"
  have "Destinations_inv ?d" "Destinations_inv (ResetLimit x d)"
    using assms(1) by (simp_all add: Destinations_inv_def ResetLimit_def)
  moreover have "SetLimit x limit d = (if limit < asum alloc_minimum (activeDebuglets d) (DestinationKey x)
      then (Some (ErrCapacityFull (DestinationKey x)), d) else (None, ?d))"
    by (simp add: SetLimit_def CheckLimit_def Let_def assms(2) used)
  moreover have "Cap y ?d = Cap y d" if "DestinationKey y \<noteq> DestinationKey x" for y
    using that by (simp add: Cap_def split: option.splits)
  ultimately show ?thesis
    by (auto simp: Cap_def [of x] ResetLimit_def used)
qed

theorem SetLimit_guards_floors_witness:
  "\<exists>d'. SetLimit ''probe.example'' 500 (NewDestinations 100) = (None, d') \<and> Cap ''probe.example'' d' = 500"
  using SetLimit_guards_floors [OF NewDestinations_inv, of "''probe.example''" 500 100]
  by (auto simp: sample_key NewDestinations_def)


end
