(* ===== verification/Limiter.thy ===== *)
theory Limiter
  imports Avl Bitrate Net_Addr
begin

text \<open>
  \<open>src/internal/executor/ratelimit/app\<close>: the executor's rate limiter. \<open>limiter.go\<close> shares the
  executor's capacity and each destination's capacity among the runs, caching every share
  with the version of the dimension it was computed from; \<open>tracker.go\<close> turns the shares into
  token-bucket waits. The token bucket itself (\<open>golang.org/x/time/rate\<close>) is a record of
  operations passed as an argument. Version counters are unbounded: 64 bits do not run out.
  A method runs under the limiter's lock and is one function on the state; \<open>Wait\<close>, which
  releases the lock between its steps, is their composition without interference.
\<close>

section \<open>The usage tracker\<close>

text \<open>
  The operations of \<open>rate.Limiter\<close> and \<open>rate.Reservation\<close> the tracker calls; \<open>'r\<close> is a limiter,
  \<open>'v\<close> a reservation made from it.
\<close>

record ('r, 'v) rate_ops =
  rate_NewLimiter :: "int \<Rightarrow> int \<Rightarrow> 'r"
  rate_Limit :: "'r \<Rightarrow> int"
  rate_Burst :: "'r \<Rightarrow> int"
  rate_SetLimit :: "int \<Rightarrow> 'r \<Rightarrow> 'r"
  rate_SetBurst :: "int \<Rightarrow> 'r \<Rightarrow> 'r"
  rate_SetBurstAt :: "int \<Rightarrow> int \<Rightarrow> 'r \<Rightarrow> 'r"
  rate_ReserveN :: "int \<Rightarrow> int \<Rightarrow> 'r \<Rightarrow> 'v \<times> 'r"
  rate_OK :: "'v \<Rightarrow> bool"
  rate_DelayFrom :: "int \<Rightarrow> 'v \<Rightarrow> int"
  rate_CancelAt :: "int \<Rightarrow> 'v \<Rightarrow> 'r \<Rightarrow> 'r"

datatype direction = TransferIn | TransferOut

record 'r UsageTracker =
  usageIn :: "string \<rightharpoonup> 'r"
  usageOut :: "string \<rightharpoonup> 'r"

definition NewUsageTracker :: "'r UsageTracker" where
  "NewUsageTracker = \<lparr>usageIn = Map.empty, usageOut = Map.empty\<rparr>"

record UsageLimits =
  ExecutorRatelimit :: bitrate
  ExecutorBurst :: bitrate
  DestinationRatelimit :: bitrate
  DestinationBurst :: bitrate

definition adjust :: "('r, 'v) rate_ops \<Rightarrow> int \<Rightarrow> int \<Rightarrow> 'r option \<Rightarrow> 'r" where
  "adjust ops limit burst old =
     (case old of
        None \<Rightarrow> rate_NewLimiter ops limit burst
      | Some r \<Rightarrow>
          let r = (if rate_Limit ops r \<noteq> limit then rate_SetLimit ops limit r else r) in
          if rate_Burst ops r \<noteq> burst then rate_SetBurst ops burst r else r)"

text \<open>The executor's limiter is looked up before the destination's is stored, as in the code.\<close>

definition upsert :: "('r, 'v) rate_ops \<Rightarrow> string \<Rightarrow> UsageLimits \<Rightarrow> (string \<rightharpoonup> 'r) \<Rightarrow> (string \<rightharpoonup> 'r)" where
  "upsert ops destination limits usage =
     (let destinationUsage = usage destination;
          executorUsage = usage [];
          usage = usage(destination \<mapsto> adjust ops (DestinationRatelimit limits) (DestinationBurst limits) destinationUsage);
          executorUsage = (if destination = [] \<and> executorUsage \<noteq> None then usage [] else executorUsage) in
      usage([] \<mapsto> adjust ops (ExecutorRatelimit limits) (ExecutorBurst limits) executorUsage))"

definition Upsert :: "('r, 'v) rate_ops \<Rightarrow> string \<Rightarrow> UsageLimits \<Rightarrow> 'r UsageTracker \<Rightarrow> 'r UsageTracker" where
  "Upsert ops destination limits u =
     \<lparr>usageIn = upsert ops destination limits (usageIn u),
      usageOut = upsert ops destination limits (usageOut u)\<rparr>"

datatype limit_error = ErrNotRegistered | ErrNotInPolicy

datatype wait_error =
    ContextDone
  | UnregisteredDestination
  | UnregisteredExecutor
  | ZeroBandwidth
  | CannotReserve bitrate
  | WaitNotInserted
  | WaitFailed limit_error

text \<open>One limiter's turn: raise the burst to the packet, reserve, restore the burst.\<close>

definition reserve_one :: "('r, 'v) rate_ops \<Rightarrow> int \<Rightarrow> bitrate \<Rightarrow> 'r \<Rightarrow> 'v \<times> 'r" where
  "reserve_one ops now sz limiter =
     (let burst = rate_Burst ops limiter;
          limiter = rate_SetBurstAt ops now (max burst sz) limiter;
          (reservation, limiter) = rate_ReserveN ops now sz limiter in
      (reservation, rate_SetBurstAt ops now burst limiter))"

text \<open>
  The critical section of \<open>Wait\<close>: the wait and the two reservations, destination first. The
  destination and the executor are different limiters (their names differ).
\<close>

definition reserve_both ::
  "('r, 'v) rate_ops \<Rightarrow> int \<Rightarrow> string \<Rightarrow> bitrate \<Rightarrow> (string \<rightharpoonup> 'r) \<Rightarrow>
     (wait_error + int \<times> ('v \<times> 'v) option) \<times> (string \<rightharpoonup> 'r)" where
  "reserve_both ops now destination sz usage =
     (case usage destination of
        None \<Rightarrow> (Inl UnregisteredDestination, usage)
      | Some limiterDestination \<Rightarrow>
          (case usage [] of
             None \<Rightarrow> (Inl UnregisteredExecutor, usage)
           | Some limiterExecutor \<Rightarrow>
               if sz \<le> 0 then (Inr (0, None), usage)
               else if rate_Burst ops limiterDestination \<le> 0 \<or> rate_Burst ops limiterExecutor \<le> 0
               then (Inl ZeroBandwidth, usage)
               else
                 let (v1, r1) = reserve_one ops now sz limiterDestination;
                     usage1 = usage(destination \<mapsto> r1) in
                 if \<not> rate_OK ops v1 then (Inl (CannotReserve sz), usage1)
                 else
                   let (v2, r2) = reserve_one ops now sz limiterExecutor;
                       usage2 = usage1([] \<mapsto> r2) in
                   if \<not> rate_OK ops v2
                   then (Inl (CannotReserve sz), usage2(destination \<mapsto> rate_CancelAt ops now v1 r1))
                   else (Inr (max (max 0 (rate_DelayFrom ops now v1)) (rate_DelayFrom ops now v2), Some (v1, v2)), usage2)))"

text \<open>
  What the caller's context does is an argument: \<open>ctx_done\<close> before the call, and \<open>outcome\<close> of
  the final select (None: the timer fired; Some t: the context ended first, and the
  reservations are cancelled at time t).
\<close>

definition Tracker_Wait ::
  "('r, 'v) rate_ops \<Rightarrow> int \<Rightarrow> bool \<Rightarrow> int option \<Rightarrow> direction \<Rightarrow> string \<Rightarrow> bitrate \<Rightarrow> 'r UsageTracker \<Rightarrow>
     (wait_error + int) \<times> 'r UsageTracker" where
  "Tracker_Wait ops now ctx_done outcome dir destination sz u =
     (if ctx_done then (Inl ContextDone, u)
      else
        let usage = (if dir = TransferIn then usageIn u else usageOut u);
            put_usage = (\<lambda>usage. if dir = TransferIn then u\<lparr>usageIn := usage\<rparr> else u\<lparr>usageOut := usage\<rparr>);
            (r, usage) = reserve_both ops now destination sz usage in
        case r of
          Inl e \<Rightarrow> (Inl e, put_usage usage)
        | Inr (waitFor, reservations) \<Rightarrow>
            (case outcome of
               None \<Rightarrow> (Inr waitFor, put_usage usage)
             | Some t \<Rightarrow>
                 (case reservations of
                    None \<Rightarrow> (Inl ContextDone, put_usage usage)
                  | Some (v1, v2) \<Rightarrow>
                      let usage = usage(destination := map_option (rate_CancelAt ops t v1) (usage destination));
                          usage = usage([] := map_option (rate_CancelAt ops t v2) (usage [])) in
                      (Inl ContextDone, put_usage usage))))"

section \<open>The limiter\<close>

definition defaultDestinationCapacity :: bitrate where
  "defaultDestinationCapacity = Gigabit"

definition executorDimension :: string where
  "executorDimension = []"

record Limit =
  Executor :: bitrate
  Address :: bitrate
  Updated :: bool

record 'r run_store =
  run_minimum :: bitrate
  run_maximum :: bitrate
  lastExecLimit :: bitrate
  lastExecVersion :: int
  lastAddrLimit :: "string \<rightharpoonup> bitrate"
  lastAddrVersion :: "string \<rightharpoonup> int"
  tracker :: "'r UsageTracker"

record 'r Limiter =
  execCapacity :: bitrate
  addrCapacity :: "string \<rightharpoonup> bitrate"
  execUsed :: bitrate
  addrUsed :: "string \<rightharpoonup> bitrate"
  execT :: "uuid avl"
  addrT :: "string \<rightharpoonup> uuid avl"
  stores :: "uuid \<rightharpoonup> 'r run_store"
  version :: "string \<rightharpoonup> int"

definition NewLimiter :: "'r Limiter" where
  "NewLimiter = \<lparr>execCapacity = 0, addrCapacity = Map.empty, execUsed = 0, addrUsed = Map.empty,
     execT = empty_avl, addrT = Map.empty, stores = Map.empty, version = Map.empty\<rparr>"

definition invalidateLocked :: "string \<Rightarrow> 'r Limiter \<Rightarrow> 'r Limiter" where
  "invalidateLocked dimension l = l\<lparr>version := (version l)(dimension \<mapsto> zero_at (version l) dimension + 1)\<rparr>"

definition shareableCapacity :: "bitrate \<Rightarrow> bitrate \<Rightarrow> bitrate" where
  "shareableCapacity capacity used = (if used \<ge> capacity then 0 else i64 (capacity - used))"

definition SetExecutorCapacity :: "bitrate \<Rightarrow> 'r Limiter \<Rightarrow> 'r Limiter" where
  "SetExecutorCapacity c l =
     (if execCapacity l = c then l else invalidateLocked executorDimension (l\<lparr>execCapacity := c\<rparr>))"

definition ExecutorCapacity :: "'r Limiter \<Rightarrow> bitrate" where
  "ExecutorCapacity l = execCapacity l"

definition SetAddrCapacity :: "string \<Rightarrow> bitrate \<Rightarrow> 'r Limiter \<Rightarrow> 'r Limiter" where
  "SetAddrCapacity a c l =
     (let a = DestinationKey a in
      if addrCapacity l a = Some c then l
      else invalidateLocked a (l\<lparr>addrCapacity := (addrCapacity l)(a \<mapsto> c)\<rparr>))"

datatype insert_error = MinGreaterMax | NegativeMin

definition put_limit :: "uuid \<Rightarrow> string \<Rightarrow> 'r Limiter \<Rightarrow> 'r Limiter" where
  "put_limit i a l =
     (case stores l i of
        None \<Rightarrow> l
      | Some s \<Rightarrow> l\<lparr>stores := (stores l)(i \<mapsto> s\<lparr>lastAddrLimit := (lastAddrLimit s)(a \<mapsto> -1)\<rparr>)\<rparr>)"

text \<open>
  The loop over the policy's addresses. \<open>addrLimit\<close> is the map shared with the stored run, so
  the duplicate test reads it back from the store.
\<close>

fun insert_addrs :: "uuid \<Rightarrow> bitrate \<Rightarrow> int \<Rightarrow> string list \<Rightarrow> 'r Limiter \<Rightarrow> panic + 'r Limiter" where
  "insert_addrs i minv residual [] l = Inr l"
| "insert_addrs i minv residual (a # rest) l =
     (let a = DestinationKey a in
      if (case stores l i of None \<Rightarrow> False | Some s \<Rightarrow> lastAddrLimit s a \<noteq> None)
      then insert_addrs i minv residual rest l
      else
        let l = put_limit i a l;
            tree = (case addrT l a of None \<Rightarrow> empty_avl | Some t \<Rightarrow> t) in
        res_bind (AVL_Insert i residual tree) (\<lambda>tree.
          let l = l\<lparr>addrT := (addrT l)(a \<mapsto> tree),
                    addrUsed := (addrUsed l)(a \<mapsto> i64 (zero_at (addrUsed l) a + minv))\<rparr> in
          insert_addrs i minv residual rest (invalidateLocked a l)))"

definition InsertDebuglet ::
  "uuid \<Rightarrow> bitrate \<Rightarrow> bitrate \<Rightarrow> string list \<Rightarrow> 'r Limiter \<Rightarrow> panic + insert_error option \<times> 'r Limiter" where
  "InsertDebuglet i minv maxv addrs l =
     (if minv > maxv then Inr (Some MinGreaterMax, l)
      else if minv < 0 then Inr (Some NegativeMin, l)
      else
        let residual = i64 (maxv - minv) in
        res_bind (AVL_Insert i residual (execT l)) (\<lambda>tree.
          let l = l\<lparr>execT := tree, execUsed := i64 (execUsed l + minv),
                    stores := (stores l)(i \<mapsto>
                      \<lparr>run_minimum = minv, run_maximum = maxv, lastExecLimit = -1, lastExecVersion = 0,
                       lastAddrLimit = Map.empty, lastAddrVersion = Map.empty, tracker = NewUsageTracker\<rparr>)\<rparr> in
          res_bind (insert_addrs i minv residual addrs (invalidateLocked executorDimension l))
            (\<lambda>l. Inr (None, l))))"

text \<open>The order in which Go ranges over the run's addresses is the argument \<open>order\<close>.\<close>

fun remove_addrs :: "uuid \<Rightarrow> bitrate \<Rightarrow> string list \<Rightarrow> 'r Limiter \<Rightarrow> panic + 'r Limiter" where
  "remove_addrs i minv [] l = Inr l"
| "remove_addrs i minv (a # order) l =
     (case addrT l a of
        None \<Rightarrow> remove_addrs i minv order l
      | Some aTree \<Rightarrow>
          res_bind (AVL_Delete i aTree) (\<lambda>aTree.
            let l = l\<lparr>addrT := (addrT l)(a \<mapsto> aTree),
                      addrUsed := (addrUsed l)(a \<mapsto> i64 (zero_at (addrUsed l) a - minv))\<rparr> in
            if AVL_Len aTree = 0 then
              remove_addrs i minv order
                (l\<lparr>addrT := (addrT l)(a := None), addrUsed := (addrUsed l)(a := None), version := (version l)(a := None)\<rparr>)
            else remove_addrs i minv order (invalidateLocked a l)))"

definition RemoveDebuglet :: "uuid \<Rightarrow> string list \<Rightarrow> 'r Limiter \<Rightarrow> panic + 'r Limiter" where
  "RemoveDebuglet i order l =
     (case stores l i of
        None \<Rightarrow> Inr l
      | Some s \<Rightarrow>
          res_bind (AVL_Delete i (execT l)) (\<lambda>tree.
            let l = l\<lparr>execT := tree, execUsed := i64 (execUsed l - run_minimum s)\<rparr> in
            res_bind (remove_addrs i (run_minimum s) order (invalidateLocked executorDimension l))
              (\<lambda>l. Inr (l\<lparr>stores := (stores l)(i := None)\<rparr>))))"

definition GetExecLimit :: "uuid \<Rightarrow> 'r Limiter \<Rightarrow> panic + (limit_error + bitrate \<times> bool) \<times> 'r Limiter" where
  "GetExecLimit i l =
     (case stores l i of
        None \<Rightarrow> Inr (Inl ErrNotRegistered, l)
      | Some s \<Rightarrow>
          let ver = zero_at (version l) executorDimension;
              shareable = shareableCapacity (execCapacity l) (execUsed l) in
          if lastExecLimit s = -1 \<or> lastExecVersion s \<noteq> ver then
            res_bind (AVL_Fairshare shareable (execT l)) (\<lambda>maxExecFairshare.
              let execLimit = min (run_maximum s) (i64 (run_minimum s + maxExecFairshare)) in
              Inr (Inr (execLimit, True),
                l\<lparr>stores := (stores l)(i \<mapsto> s\<lparr>lastExecVersion := ver, lastExecLimit := execLimit\<rparr>)\<rparr>))
          else Inr (Inr (lastExecLimit s, False), l))"

definition GetAddrLimit :: "uuid \<Rightarrow> string \<Rightarrow> 'r Limiter \<Rightarrow> panic + (limit_error + bitrate \<times> bool) \<times> 'r Limiter" where
  "GetAddrLimit i a l =
     (let a = DestinationKey a in
      case stores l i of
        None \<Rightarrow> Inr (Inl ErrNotRegistered, l)
      | Some s \<Rightarrow>
          (case addrT l a of
             None \<Rightarrow> Inr (Inl ErrNotInPolicy, l)
           | Some tree \<Rightarrow>
               if AVL_Get i tree = None then Inr (Inl ErrNotInPolicy, l)
               else
                 let addrCap = (case addrCapacity l a of None \<Rightarrow> defaultDestinationCapacity | Some c \<Rightarrow> c);
                     ver = zero_at (version l) a;
                     shareable = shareableCapacity addrCap (zero_at (addrUsed l) a) in
                 if lastAddrLimit s a = None \<or> lastAddrLimit s a = Some (-1) \<or> zero_at (lastAddrVersion s) a \<noteq> ver then
                   res_bind (AVL_Fairshare shareable tree) (\<lambda>maxAddrFairshare.
                     let addrLimit = min (run_maximum s) (i64 (run_minimum s + maxAddrFairshare)) in
                     Inr (Inr (addrLimit, True),
                       l\<lparr>stores := (stores l)(i \<mapsto> s\<lparr>lastAddrVersion := (lastAddrVersion s)(a \<mapsto> ver),
                                                   lastAddrLimit := (lastAddrLimit s)(a \<mapsto> addrLimit)\<rparr>)\<rparr>))
                 else Inr (Inr (the (lastAddrLimit s a), False), l)))"

definition GetLimit :: "uuid \<Rightarrow> string \<Rightarrow> 'r Limiter \<Rightarrow> panic + (limit_error + Limit) \<times> 'r Limiter" where
  "GetLimit i a l =
     res_bind (GetExecLimit i l) (\<lambda>(r, l).
       case r of
         Inl e \<Rightarrow> Inr (Inl e, l)
       | Inr (execLimit, execUpdated) \<Rightarrow>
           res_bind (GetAddrLimit i a l) (\<lambda>(r, l).
             case r of
               Inl e \<Rightarrow> Inr (Inl e, l)
             | Inr (addrLimit, addrUpdated) \<Rightarrow>
                 Inr (Inr \<lparr>Executor = execLimit, Address = addrLimit, Updated = (execUpdated \<or> addrUpdated)\<rparr>, l)))"

definition Limiter_Wait ::
  "('r, 'v) rate_ops \<Rightarrow> int \<Rightarrow> bool \<Rightarrow> int option \<Rightarrow> direction \<Rightarrow> uuid \<Rightarrow> string \<Rightarrow> bitrate \<Rightarrow> 'r Limiter \<Rightarrow>
     panic + (wait_error + int) \<times> 'r Limiter" where
  "Limiter_Wait ops now ctx_done outcome dir i a sz l =
     (let a = DestinationKey a in
      case stores l i of
        None \<Rightarrow> Inr (Inl WaitNotInserted, l)
      | Some _ \<Rightarrow>
          res_bind (GetLimit i a l) (\<lambda>(r, l).
            case r of
              Inl e \<Rightarrow> Inr (Inl (WaitFailed e), l)
            | Inr limit \<Rightarrow>
                (case stores l i of
                   None \<Rightarrow> Inl NilDereference
                 | Some s \<Rightarrow>
                     let u = Upsert ops a \<lparr>ExecutorRatelimit = Executor limit, ExecutorBurst = Executor limit,
                               DestinationRatelimit = Address limit, DestinationBurst = Address limit\<rparr> (tracker s);
                         (r, u) = Tracker_Wait ops now ctx_done outcome dir a sz u in
                     Inr (r, l\<lparr>stores := (stores l)(i \<mapsto> s\<lparr>tracker := u\<rparr>)\<rparr>))))"

section \<open>Dimensions and their members\<close>

text \<open>
  A dimension is shared by a set \<open>S\<close> of runs with floors \<open>mn\<close> and ceilings \<open>mx\<close>: its tree holds
  their residuals, its used capacity is the sum of their floors.
\<close>

definition tree_has :: "uuid avl \<Rightarrow> uuid set \<Rightarrow> (uuid \<Rightarrow> int) \<Rightarrow> bool" where
  "tree_has t S res \<longleftrightarrow> AVL_inv t \<and> AVL_map t = (\<lambda>i. if i \<in> S then Some (res i) else None)"

definition slot_has :: "uuid avl option \<Rightarrow> uuid set \<Rightarrow> (uuid \<Rightarrow> int) \<Rightarrow> bool" where
  "slot_has slot S res \<longleftrightarrow> (case slot of None \<Rightarrow> S = {} | Some t \<Rightarrow> tree_has t S res)"

definition mn_of :: "(uuid \<rightharpoonup> 'r run_store) \<Rightarrow> uuid \<Rightarrow> int" where
  "mn_of st i = (case st i of None \<Rightarrow> 0 | Some s \<Rightarrow> run_minimum s)"

definition mx_of :: "(uuid \<rightharpoonup> 'r run_store) \<Rightarrow> uuid \<Rightarrow> int" where
  "mx_of st i = (case st i of None \<Rightarrow> 0 | Some s \<Rightarrow> run_maximum s)"

definition res_of :: "(uuid \<rightharpoonup> 'r run_store) \<Rightarrow> uuid \<Rightarrow> int" where
  "res_of st i = mx_of st i - mn_of st i"

definition runs_ok :: "(uuid \<rightharpoonup> 'r run_store) \<Rightarrow> bool" where
  "runs_ok st \<longleftrightarrow> finite (dom st) \<and> (\<Sum>i \<in> dom st. mx_of st i) \<le> i64_max
     \<and> (\<forall>i s. st i = Some s \<longrightarrow> 0 \<le> run_minimum s \<and> run_minimum s \<le> run_maximum s \<and> [] \<notin> dom (lastAddrLimit s))"

definition dims_ok :: "'r Limiter \<Rightarrow> uuid set \<Rightarrow> (string \<Rightarrow> uuid set) \<Rightarrow> bool" where
  "dims_ok l E M \<longleftrightarrow>
     tree_has (execT l) E (res_of (stores l)) \<and> execUsed l = (\<Sum>i \<in> E. mn_of (stores l) i)
     \<and> (\<forall>a. zero_at (addrUsed l) a = (\<Sum>i \<in> M a. mn_of (stores l) i)
          \<and> slot_has (addrT l a) (M a) (res_of (stores l)))
     \<and> E \<subseteq> dom (stores l) \<and> (\<forall>a. M a \<subseteq> dom (stores l))"

definition in_policy :: "'r Limiter \<Rightarrow> string \<Rightarrow> uuid set" where
  "in_policy l a = {i. \<exists>s. stores l i = Some s \<and> lastAddrLimit s a \<noteq> None}"

text \<open>The shares that a computation from the current state yields.\<close>

definition share_from :: "bitrate \<Rightarrow> bitrate \<Rightarrow> uuid avl \<Rightarrow> 'r run_store \<Rightarrow> bitrate" where
  "share_from cap used t s =
     (case AVL_Fairshare (shareableCapacity cap used) t of
        Inl _ \<Rightarrow> 0 | Inr k \<Rightarrow> min (run_maximum s) (i64 (run_minimum s + k)))"

definition addr_cap :: "'r Limiter \<Rightarrow> string \<Rightarrow> bitrate" where
  "addr_cap l a = (case addrCapacity l a of None \<Rightarrow> defaultDestinationCapacity | Some c \<Rightarrow> c)"

definition exec_value :: "'r Limiter \<Rightarrow> 'r run_store \<Rightarrow> bitrate" where
  "exec_value l s = share_from (execCapacity l) (execUsed l) (execT l) s"

definition addr_value :: "'r Limiter \<Rightarrow> string \<Rightarrow> 'r run_store \<Rightarrow> bitrate" where
  "addr_value l a s =
     share_from (addr_cap l a) (zero_at (addrUsed l) a) (case addrT l a of None \<Rightarrow> empty_avl | Some t \<Rightarrow> t) s"

definition exec_cache_ok :: "'r Limiter \<Rightarrow> uuid set \<Rightarrow> bool" where
  "exec_cache_ok l J \<longleftrightarrow> (\<forall>i \<in> J. \<forall>s. stores l i = Some s \<longrightarrow>
     lastExecVersion s \<le> zero_at (version l) []
     \<and> (lastExecLimit s \<noteq> -1 \<and> lastExecVersion s = zero_at (version l) [] \<longrightarrow> lastExecLimit s = exec_value l s))"

definition addr_cache_ok :: "'r Limiter \<Rightarrow> uuid set \<Rightarrow> bool" where
  "addr_cache_ok l J \<longleftrightarrow> (\<forall>i \<in> J. \<forall>s a v. stores l i = Some s \<longrightarrow> lastAddrLimit s a = Some v \<longrightarrow>
     zero_at (lastAddrVersion s) a \<le> zero_at (version l) a
     \<and> (v \<noteq> -1 \<and> zero_at (lastAddrVersion s) a = zero_at (version l) a \<longrightarrow> v = addr_value l a s))"

definition Limiter_inv :: "'r Limiter \<Rightarrow> bool" where
  "Limiter_inv l \<longleftrightarrow> runs_ok (stores l) \<and> dims_ok l (dom (stores l)) (in_policy l)
     \<and> exec_cache_ok l (dom (stores l)) \<and> addr_cache_ok l (dom (stores l)) \<and> (\<forall>a. 0 \<le> zero_at (version l) a)"

lemma tree_has_empty: "tree_has empty_avl {} res"
  using avl.empty_ok by (simp add: tree_has_def)

lemma tree_has_insert:
  assumes "tree_has t S res" "i \<notin> S" "0 \<le> res i" "in_i64 (res i)"
  shows "\<exists>t'. AVL_Insert i (res i) t = Inr t' \<and> tree_has t' (insert i S) res"
proof -
  obtain t' where "AVL_Insert i (res i) t = Inr t'" "AVL_inv t'" "AVL_map t' = (AVL_map t)(i \<mapsto> res i)"
    using AVL_Insert_map [of t i "res i"] assms by (auto simp: tree_has_def)
  then show ?thesis using assms(1) by (auto simp: tree_has_def fun_eq_iff)
qed

lemma tree_has_delete:
  assumes "tree_has t S res"
  shows "\<exists>t'. AVL_Delete i t = Inr t' \<and> tree_has t' (S - {i}) res"
  using avl.delete_ok [of t i] assms by (auto simp: tree_has_def fun_eq_iff)

lemma tree_has_Len: "tree_has t S res \<Longrightarrow> finite S \<Longrightarrow> AVL_Len t = 0 \<longleftrightarrow> S = {}"
  using AVL_Len_card [of t] by (auto simp: tree_has_def dom_def)

lemma tree_has_Get: "tree_has t S res \<Longrightarrow> AVL_Get i t = None \<longleftrightarrow> i \<notin> S"
proof -
  assume t: "tree_has t S res"
  then have "refs t i = None \<longleftrightarrow> i \<notin> S" using AVL_ref_value(1) [of t i] by (auto simp: tree_has_def)
  moreover have "root t = Nil \<Longrightarrow> refs t i = None"
    using t AVL_inv_refs [of t i] by (simp add: tree_has_def AVL_entries_def)
  ultimately show ?thesis by (auto simp: AVL_Get_def)
qed

lemma runs_okD:
  assumes "runs_ok st"
  shows "0 \<le> mn_of st i" "mn_of st i \<le> mx_of st i" "0 \<le> res_of st i" "mx_of st i \<le> i64_max" "in_i64 (res_of st i)"
proof -
  have b: "0 \<le> mn_of st j \<and> mn_of st j \<le> mx_of st j" for j
    using assms by (cases "st j") (auto simp: runs_ok_def mn_of_def mx_of_def)
  then show bi: "0 \<le> mn_of st i" "mn_of st i \<le> mx_of st i" by auto
  have "mx_of st i \<le> (\<Sum>j \<in> dom st. mx_of st j)" if "i \<in> dom st"
    using that assms b by (intro member_le_sum) (auto simp: runs_ok_def intro: order_trans)
  moreover have "mx_of st i = 0" if "i \<notin> dom st" using that by (auto simp: mx_of_def split: option.splits)
  ultimately show "mx_of st i \<le> i64_max" using assms by (force simp: runs_ok_def i64_max_def)
  then show "0 \<le> res_of st i" "in_i64 (res_of st i)"
    using bi by (auto simp: res_of_def in_i64_def i64_min_def)
qed

lemma sum_mn_bounds:
  assumes "runs_ok st" "S \<subseteq> dom st"
  shows "0 \<le> (\<Sum>i \<in> S. mn_of st i)" "(\<Sum>i \<in> S. mn_of st i) \<le> i64_max" "in_i64 (\<Sum>i \<in> S. mn_of st i)"
    "(\<Sum>i \<in> S. mx_of st i) \<le> i64_max"
proof -
  have nn: "0 \<le> mx_of st i" for i using runs_okD(1,2) [OF assms(1), of i] by linarith
  show "0 \<le> (\<Sum>i \<in> S. mn_of st i)" using runs_okD(1) [OF assms(1)] by (intro sum_nonneg) auto
  have "(\<Sum>i \<in> S. mn_of st i) \<le> (\<Sum>i \<in> S. mx_of st i)" using runs_okD(2) [OF assms(1)] by (intro sum_mono) auto
  moreover show "(\<Sum>i \<in> S. mx_of st i) \<le> i64_max"
  proof -
    have "(\<Sum>i \<in> S. mx_of st i) \<le> (\<Sum>i \<in> dom st. mx_of st i)"
      using assms nn by (intro sum_mono2) (auto simp: runs_ok_def)
    then show ?thesis using assms(1) by (simp add: runs_ok_def)
  qed
  ultimately show "(\<Sum>i \<in> S. mn_of st i) \<le> i64_max" by linarith
  then show "in_i64 (\<Sum>i \<in> S. mn_of st i)"
    using \<open>0 \<le> (\<Sum>i \<in> S. mn_of st i)\<close> by (auto simp: in_i64_def i64_min_def)
qed

text \<open>A computed share: it never panics, lies between floor and ceiling, and all fit the capacity.\<close>

lemma share_from_ok:
  assumes st: "runs_ok st" and S: "S \<subseteq> dom st" and t: "tree_has t S (res_of st)"
    and cap: "0 \<le> cap" "in_i64 cap" and used: "used = (\<Sum>i \<in> S. mn_of st i)"
  shows "\<exists>k. AVL_Fairshare (shareableCapacity cap used) t = Inr k \<and> 0 \<le> k
    \<and> (\<forall>i \<in> S. share_from cap used t (the (st i)) = min (mx_of st i) (mn_of st i + k))
    \<and> (\<Sum>i \<in> S. share_from cap used t (the (st i))) \<le> max cap used
    \<and> ((\<Sum>i \<in> S. mx_of st i) \<le> cap \<longrightarrow> (\<forall>i \<in> S. share_from cap used t (the (st i)) = mx_of st i))"
proof -
  have u: "0 \<le> used" "used \<le> i64_max" using sum_mn_bounds(1,2) [OF st S] used by auto
  have sh: "shareableCapacity cap used = max 0 (cap - used)"
  proof -
    have "in_i64 (cap - used)" using cap u by (auto simp: in_i64_def i64_min_def i64_max_def)
    then show ?thesis by (simp add: shareableCapacity_def i64_id)
  qed
  have rng: "0 \<le> max 0 (cap - used)" "in_i64 (max 0 (cap - used))"
    using cap u by (auto simp: in_i64_def i64_min_def i64_max_def)
  have dom: "dom (AVL_map t) = S" using t by (auto simp: tree_has_def dom_def)
  have res: "\<forall>i \<in> dom (AVL_map t). AVL_map t i = Some (mx_of st i - mn_of st i)"
    using t by (auto simp: tree_has_def res_of_def split: if_splits)
  have fin: "finite S" using S st finite_subset by (auto simp: runs_ok_def)
  have "(\<Sum>i \<in> dom (AVL_map t). mx_of st i - mn_of st i) \<le> i64_max"
    using sum_mn_bounds(1,4) [OF st S] unfolding dom sum_subtractf by linarith
  from avl.limits_fit [OF _ res rng this] t
  obtain k where k: "AVL_Fairshare (max 0 (cap - used)) t = Inr k" "0 \<le> k"
    "(\<Sum>i \<in> S. min (mx_of st i) (mn_of st i + k)) \<le> used + max 0 (cap - used)"
    "AVL_map t = Map.empty \<or> (\<exists>i \<in> S. k \<le> mx_of st i - mn_of st i)"
    "(\<Sum>i \<in> S. mx_of st i) \<le> used + max 0 (cap - used) \<longrightarrow> (\<forall>i \<in> S. min (mx_of st i) (mn_of st i + k) = mx_of st i)"
    unfolding dom used [symmetric] by (auto simp: tree_has_def)
  have rng_k: "in_i64 (mn_of st i + k)" if i: "i \<in> S" for i
  proof -
    have "AVL_map t \<noteq> Map.empty" using dom i by auto
    then obtain j where j: "j \<in> S" "k \<le> mx_of st j - mn_of st j" using k(4) by auto
    have nn: "0 \<le> mx_of st x" for x using runs_okD(1,2) [OF st, of x] by linarith
    have "mn_of st i + k \<le> i64_max"
    proof (cases "j = i")
      case True then show ?thesis using j runs_okD(4) [OF st, of i] by simp
    next
      case False
      have "(\<Sum>x \<in> {i, j}. mx_of st x) \<le> (\<Sum>x \<in> S. mx_of st x)"
        using i j(1) fin nn by (intro sum_mono2) auto
      then have "mx_of st i + mx_of st j \<le> i64_max"
        using False sum_mn_bounds(4) [OF st S] by simp
      then show ?thesis using j(2) runs_okD(1,2) [OF st, of i] runs_okD(1) [OF st, of j] by linarith
    qed
    then show ?thesis using k(2) runs_okD(1) [OF st, of i] by (auto simp: in_i64_def i64_min_def)
  qed
  have share: "share_from cap used t (the (st i)) = min (mx_of st i) (mn_of st i + k)" if i: "i \<in> S" for i
  proof -
    obtain s where "st i = Some s" using i S by auto
    then show ?thesis
      using rng_k [OF i] k(1) by (simp add: share_from_def sh mx_of_def mn_of_def i64_id)
  qed
  then have "(\<Sum>i \<in> S. share_from cap used t (the (st i))) = (\<Sum>i \<in> S. min (mx_of st i) (mn_of st i + k))" by simp
  then show ?thesis
    using k share unfolding sh by (intro exI [of _ k]) auto
qed

section \<open>Every operation keeps the invariant\<close>

lemma NewLimiter_inv: "Limiter_inv NewLimiter"
  using tree_has_empty
  by (simp add: Limiter_inv_def NewLimiter_def runs_ok_def dims_ok_def in_policy_def exec_cache_ok_def
      addr_cache_ok_def i64_max_def slot_has_def)

text \<open>What a read of a cached value relies on, and what an invalidation gives.\<close>

lemma exec_cache_bump:
  assumes "\<forall>i \<in> J. \<forall>s. stores l i = Some s \<longrightarrow> lastExecVersion s \<le> zero_at (version l) []"
  shows "exec_cache_ok (invalidateLocked executorDimension l) J"
  using assms by (auto simp: exec_cache_ok_def invalidateLocked_def executorDimension_def)

lemma addr_value_cong:
  "addrCapacity l a = addrCapacity l' a \<Longrightarrow> addrT l a = addrT l' a \<Longrightarrow>
     zero_at (addrUsed l) a = zero_at (addrUsed l') a \<Longrightarrow> addr_value l a s = addr_value l' a s"
  by (simp add: addr_value_def addr_cap_def)

lemma SetExecutorCapacity_inv:
  assumes "Limiter_inv l"
  shows "Limiter_inv (SetExecutorCapacity c l)"
proof (cases "execCapacity l = c")
  case False
  let ?l = "invalidateLocked executorDimension (l\<lparr>execCapacity := c\<rparr>)"
  have run: "SetExecutorCapacity c l = ?l" using False by (simp add: SetExecutorCapacity_def)
  have ver: "zero_at (version ?l) a = (if a = [] then zero_at (version l) [] + 1 else zero_at (version l) a)" for a
    by (simp add: invalidateLocked_def executorDimension_def)
  have "exec_cache_ok ?l (dom (stores l))"
    using assms by (intro exec_cache_bump) (auto simp: Limiter_inv_def exec_cache_ok_def)
  moreover have "addr_cache_ok ?l (dom (stores l))"
  proof -
    have no: "a \<noteq> []" if "stores l i = Some s" "lastAddrLimit s a = Some v" for i s a v
      using that assms by (force simp: Limiter_inv_def runs_ok_def)
    have val: "addr_value ?l a s = addr_value l a s" for a s
      by (rule addr_value_cong) (simp_all add: invalidateLocked_def)
    show ?thesis
      using assms no unfolding addr_cache_ok_def val ver
      by (auto simp: Limiter_inv_def addr_cache_ok_def invalidateLocked_def)
  qed
  moreover have "dims_ok ?l (dom (stores l)) (in_policy l)"
    using assms by (simp add: Limiter_inv_def dims_ok_def invalidateLocked_def)
  moreover have "in_policy ?l = in_policy l" "stores ?l = stores l"
    by (auto simp: in_policy_def invalidateLocked_def fun_eq_iff)
  moreover have "\<forall>a. 0 \<le> zero_at (version ?l) a" using assms by (simp add: ver Limiter_inv_def)
  ultimately show ?thesis using assms unfolding run by (simp add: Limiter_inv_def)
qed (use assms in \<open>simp add: SetExecutorCapacity_def\<close>)


lemma SetAddrCapacity_inv:
  assumes "Limiter_inv l" and a: "DestinationKey a0 \<noteq> []"
  shows "Limiter_inv (SetAddrCapacity a0 c l)"
proof (cases "addrCapacity l (DestinationKey a0) = Some c")
  case False
  let ?a = "DestinationKey a0"
  let ?l = "invalidateLocked ?a (l\<lparr>addrCapacity := (addrCapacity l)(?a \<mapsto> c)\<rparr>)"
  have run: "SetAddrCapacity a0 c l = ?l" using False by (simp add: SetAddrCapacity_def Let_def)
  have ver: "zero_at (version ?l) b = (if b = ?a then zero_at (version l) b + 1 else zero_at (version l) b)" for b
    by (simp add: invalidateLocked_def)
  have "exec_value ?l s = exec_value l s" for s by (simp add: exec_value_def invalidateLocked_def)
  then have "exec_cache_ok ?l (dom (stores l))"
    using assms by (simp add: Limiter_inv_def exec_cache_ok_def ver) (simp add: invalidateLocked_def)
  moreover have "addr_cache_ok ?l (dom (stores l))"
    unfolding addr_cache_ok_def
  proof (intro ballI allI impI)
    fix i s b v
    assume s: "stores ?l i = Some s" "lastAddrLimit s b = Some v"
    then have old: "zero_at (lastAddrVersion s) b \<le> zero_at (version l) b"
      "v \<noteq> -1 \<and> zero_at (lastAddrVersion s) b = zero_at (version l) b \<longrightarrow> v = addr_value l b s"
      using assms(1) by (auto simp: Limiter_inv_def addr_cache_ok_def invalidateLocked_def)
    have "b \<noteq> ?a \<Longrightarrow> addr_value ?l b s = addr_value l b s"
      by (rule addr_value_cong) (simp_all add: invalidateLocked_def)
    then show "zero_at (lastAddrVersion s) b \<le> zero_at (version ?l) b
      \<and> (v \<noteq> -1 \<and> zero_at (lastAddrVersion s) b = zero_at (version ?l) b \<longrightarrow> v = addr_value ?l b s)"
      using old unfolding ver by auto
  qed
  moreover have "dims_ok ?l (dom (stores l)) (in_policy l)"
    using assms by (simp add: Limiter_inv_def dims_ok_def invalidateLocked_def)
  moreover have "in_policy ?l = in_policy l" "stores ?l = stores l"
    by (auto simp: in_policy_def invalidateLocked_def fun_eq_iff)
  moreover have "\<forall>a. 0 \<le> zero_at (version ?l) a" using assms by (simp add: ver Limiter_inv_def)
  ultimately show ?thesis using assms unfolding run by (simp add: Limiter_inv_def)
qed (use assms in \<open>simp add: SetAddrCapacity_def Let_def\<close>)

text \<open>Writing a cache of one run changes no dimension.\<close>

definition same_run :: "'r run_store \<Rightarrow> 'r run_store \<Rightarrow> bool" where
  "same_run s' s \<longleftrightarrow> run_minimum s' = run_minimum s \<and> run_maximum s' = run_maximum s
     \<and> dom (lastAddrLimit s') = dom (lastAddrLimit s)"

definition put_store :: "uuid \<Rightarrow> 'r run_store \<Rightarrow> 'r Limiter \<Rightarrow> 'r Limiter" where
  "put_store i s l = l\<lparr>stores := (stores l)(i \<mapsto> s)\<rparr>"

lemma put_store_simps [simp]:
  "stores (put_store i s l) = (stores l)(i \<mapsto> s)" "version (put_store i s l) = version l"
  "execT (put_store i s l) = execT l" "addrT (put_store i s l) = addrT l"
  "execUsed (put_store i s l) = execUsed l" "addrUsed (put_store i s l) = addrUsed l"
  "execCapacity (put_store i s l) = execCapacity l" "addrCapacity (put_store i s l) = addrCapacity l"
  "exec_value (put_store i s l) = exec_value l" "addr_value (put_store i s l) = addr_value l"
  by (auto simp: put_store_def exec_value_def addr_value_def addr_cap_def fun_eq_iff)

lemma same_run_values:
  "same_run s' s \<Longrightarrow> exec_value l s' = exec_value l s" "same_run s' s \<Longrightarrow> addr_value l a s' = addr_value l a s"
  by (auto simp: same_run_def exec_value_def addr_value_def share_from_def split: sum.splits)

lemma same_run_dims:
  assumes "stores l i = Some s" "same_run s' s"
  shows "mn_of ((stores l)(i \<mapsto> s')) = mn_of (stores l)" "mx_of ((stores l)(i \<mapsto> s')) = mx_of (stores l)"
    "res_of ((stores l)(i \<mapsto> s')) = res_of (stores l)" "in_policy (put_store i s' l) = in_policy l"
    "dom ((stores l)(i \<mapsto> s')) = dom (stores l)"
proof -
  show mn: "mn_of ((stores l)(i \<mapsto> s')) = mn_of (stores l)" "mx_of ((stores l)(i \<mapsto> s')) = mx_of (stores l)"
    using assms by (auto simp: mn_of_def mx_of_def same_run_def fun_eq_iff)
  then show "res_of ((stores l)(i \<mapsto> s')) = res_of (stores l)" by (simp add: res_of_def fun_eq_iff)
  have "lastAddrLimit s' a \<noteq> None \<longleftrightarrow> lastAddrLimit s a \<noteq> None" for a
    using assms(2) unfolding same_run_def by blast
  then show "in_policy (put_store i s' l) = in_policy l"
    using assms(1) by (auto simp: in_policy_def fun_eq_iff split: if_splits)
  show "dom ((stores l)(i \<mapsto> s')) = dom (stores l)" using assms(1) by auto
qed

lemma runs_ok_put:
  fixes l :: "'r Limiter"
  assumes "runs_ok (stores l)" "stores l i = Some s" "same_run s' s"
  shows "runs_ok ((stores l)(i \<mapsto> s'))"
proof -
  note d = same_run_dims [OF assms(2,3)]
  have "[] \<notin> dom (lastAddrLimit s)" using assms(1,2) by (auto simp: runs_ok_def)
  then show ?thesis
    using assms unfolding runs_ok_def d(2,5) same_run_def by auto
qed

lemma put_store_inv:
  assumes inv: "Limiter_inv l" and s: "stores l i = Some s" and same: "same_run s' s"
    and ex: "lastExecVersion s' \<le> zero_at (version l) []"
      "lastExecLimit s' \<noteq> -1 \<and> lastExecVersion s' = zero_at (version l) [] \<longrightarrow> lastExecLimit s' = exec_value l s"
    and ad: "\<And>a v. lastAddrLimit s' a = Some v \<Longrightarrow> zero_at (lastAddrVersion s') a \<le> zero_at (version l) a
      \<and> (v \<noteq> -1 \<and> zero_at (lastAddrVersion s') a = zero_at (version l) a \<longrightarrow> v = addr_value l a s)"
  shows "Limiter_inv (put_store i s' l)"
proof -
  note d = same_run_dims [OF s same]
  have "dims_ok (put_store i s' l) (dom (stores l)) (in_policy l)"
    using inv by (auto simp: Limiter_inv_def dims_ok_def d)
  moreover have "exec_cache_ok (put_store i s' l) (dom (stores l))"
    using inv ex same_run_values(1) [OF same] by (auto simp: Limiter_inv_def exec_cache_ok_def)
  moreover have "addr_cache_ok (put_store i s' l) (dom (stores l))"
    using inv ad same_run_values(2) [OF same] by (auto simp: Limiter_inv_def addr_cache_ok_def)
  ultimately show ?thesis
    using inv runs_ok_put [OF _ s same] d by (simp add: Limiter_inv_def)
qed

lemma addr_cacheD:
  assumes "Limiter_inv l" "stores l i = Some s" "lastAddrLimit s a = Some v"
  shows "zero_at (lastAddrVersion s) a \<le> zero_at (version l) a
    \<and> (v \<noteq> -1 \<and> zero_at (lastAddrVersion s) a = zero_at (version l) a \<longrightarrow> v = addr_value l a s)"
  using assms unfolding Limiter_inv_def addr_cache_ok_def by blast

lemma exec_cacheD:
  assumes "Limiter_inv l" "stores l i = Some s"
  shows "lastExecVersion s \<le> zero_at (version l) []"
    "lastExecLimit s \<noteq> -1 \<and> lastExecVersion s = zero_at (version l) [] \<longrightarrow> lastExecLimit s = exec_value l s"
  using assms unfolding Limiter_inv_def exec_cache_ok_def by blast+

definition same_shares :: "'r Limiter \<Rightarrow> 'r Limiter \<Rightarrow> bool" where
  "same_shares l' l \<longleftrightarrow> dom (stores l') = dom (stores l) \<and> exec_value l' = exec_value l \<and> addr_value l' = addr_value l
     \<and> (\<forall>i s. stores l i = Some s \<longrightarrow> (\<exists>s'. stores l' i = Some s' \<and> same_run s' s \<and> tracker s' = tracker s))"

lemma same_shares_refl: "same_shares l l"
  by (simp add: same_shares_def same_run_def)

lemma same_shares_put:
  "stores l i = Some s \<Longrightarrow> same_run s' s \<Longrightarrow> tracker s' = tracker s \<Longrightarrow> same_shares (put_store i s' l) l"
  by (auto simp: same_shares_def same_run_def)

lemma exec_fairshare:
  assumes "Limiter_inv l" "0 \<le> execCapacity l" "in_i64 (execCapacity l)"
  shows "\<exists>k. AVL_Fairshare (shareableCapacity (execCapacity l) (execUsed l)) (execT l) = Inr k
    \<and> exec_value l s = min (run_maximum s) (i64 (run_minimum s + k))"
  using share_from_ok [of "stores l" "dom (stores l)" "execT l" "execCapacity l" "execUsed l"] assms
  by (auto simp: Limiter_inv_def dims_ok_def exec_value_def share_from_def)

lemma GetExecLimit_ok:
  assumes inv: "Limiter_inv l" and s: "stores l i = Some s" and cap: "0 \<le> execCapacity l" "in_i64 (execCapacity l)"
  shows "\<exists>upd l'. GetExecLimit i l = Inr (Inr (exec_value l s, upd), l') \<and> Limiter_inv l' \<and> same_shares l' l"
proof (cases "lastExecLimit s = -1 \<or> lastExecVersion s \<noteq> zero_at (version l) []")
  case True
  obtain k where k: "AVL_Fairshare (shareableCapacity (execCapacity l) (execUsed l)) (execT l) = Inr k"
    "exec_value l s = min (run_maximum s) (i64 (run_minimum s + k))"
    using exec_fairshare [OF inv cap] by blast
  let ?s = "s\<lparr>lastExecVersion := zero_at (version l) [], lastExecLimit := exec_value l s\<rparr>"
  have run: "GetExecLimit i l = Inr (Inr (exec_value l s, True), put_store i ?s l)"
    using s True k by (auto simp: GetExecLimit_def Let_def executorDimension_def put_store_def)
  have same: "same_run ?s s" by (simp add: same_run_def)
  have "Limiter_inv (put_store i ?s l)"
    using addr_cacheD [OF inv s] by (intro put_store_inv [OF inv s same]) auto
  then show ?thesis using run same_shares_put [OF s same] by auto
next
  case False
  then have "lastExecLimit s = exec_value l s"
    using inv s by (auto simp: Limiter_inv_def exec_cache_ok_def)
  then show ?thesis
    using s False inv same_shares_refl by (auto simp: GetExecLimit_def Let_def executorDimension_def)
qed

lemma addr_fairshare:
  assumes "Limiter_inv l" "addrT l a = Some t" "0 \<le> addr_cap l a" "in_i64 (addr_cap l a)"
  shows "\<exists>k. AVL_Fairshare (shareableCapacity (addr_cap l a) (zero_at (addrUsed l) a)) t = Inr k
    \<and> addr_value l a s = min (run_maximum s) (i64 (run_minimum s + k))"
proof -
  have d: "tree_has t (in_policy l a) (res_of (stores l))" "in_policy l a \<subseteq> dom (stores l)"
    "zero_at (addrUsed l) a = (\<Sum>i \<in> in_policy l a. mn_of (stores l) i)" "runs_ok (stores l)"
    using assms(1,2) by (auto simp: Limiter_inv_def dims_ok_def slot_has_def split: option.splits)
  show ?thesis
    using share_from_ok [OF d(4,2,1) assms(3,4) d(3)] assms(2)
    by (auto simp: addr_value_def share_from_def)
qed

lemma GetAddrLimit_ok:
  assumes inv: "Limiter_inv l" and s: "stores l i = Some s" and a: "a = DestinationKey a0"
    and cap: "0 \<le> addr_cap l a" "in_i64 (addr_cap l a)" and mem: "i \<in> in_policy l a"
  shows "\<exists>upd l'. GetAddrLimit i a0 l = Inr (Inr (addr_value l a s, upd), l') \<and> Limiter_inv l' \<and> same_shares l' l"
proof -
  have slot: "slot_has (addrT l a) (in_policy l a) (res_of (stores l))"
    using inv by (simp add: Limiter_inv_def dims_ok_def)
  then obtain t where t: "addrT l a = Some t" "tree_has t (in_policy l a) (res_of (stores l))"
    using mem by (auto simp: slot_has_def split: option.splits)
  have get: "AVL_Get i t \<noteq> None" using tree_has_Get [OF t(2)] mem by simp
  obtain v where v: "lastAddrLimit s a = Some v" using mem s by (auto simp: in_policy_def)
  obtain k where k: "AVL_Fairshare (shareableCapacity (addr_cap l a) (zero_at (addrUsed l) a)) t = Inr k"
    "addr_value l a s = min (run_maximum s) (i64 (run_minimum s + k))"
    using addr_fairshare [OF inv t(1) cap] by blast
  show ?thesis
  proof (cases "v = -1 \<or> zero_at (lastAddrVersion s) a \<noteq> zero_at (version l) a")
    case True
    let ?s = "s\<lparr>lastAddrVersion := (lastAddrVersion s)(a \<mapsto> zero_at (version l) a),
                lastAddrLimit := (lastAddrLimit s)(a \<mapsto> addr_value l a s)\<rparr>"
    have run: "GetAddrLimit i a0 l = Inr (Inr (addr_value l a s, True), put_store i ?s l)"
      using s True k v t(1) get a [symmetric]
      by (auto simp: GetAddrLimit_def Let_def addr_cap_def [symmetric] put_store_def)
    have same: "same_run ?s s" using v by (auto simp: same_run_def)
    have "Limiter_inv (put_store i ?s l)"
      using exec_cacheD [OF inv s] addr_cacheD [OF inv s]
      by (intro put_store_inv [OF inv s same]) (auto split: if_splits)
    then show ?thesis using run same_shares_put [OF s same] by auto
  next
    case False
    then have "v = addr_value l a s"
      using inv s v by (auto simp: Limiter_inv_def addr_cache_ok_def)
    then show ?thesis
      using s False inv v t(1) get a [symmetric] same_shares_refl by (auto simp: GetAddrLimit_def Let_def)
  qed
qed

lemma GetAddrLimit_outside:
  assumes inv: "Limiter_inv l" and "stores l i = Some s" "i \<notin> in_policy l (DestinationKey a0)"
  shows "GetAddrLimit i a0 l = Inr (Inl ErrNotInPolicy, l)"
proof (cases "addrT l (DestinationKey a0)")
  case (Some t)
  have "slot_has (addrT l (DestinationKey a0)) (in_policy l (DestinationKey a0)) (res_of (stores l))"
    using inv by (simp add: Limiter_inv_def dims_ok_def)
  then have "AVL_Get i t = None"
    using Some assms(3) tree_has_Get [of t "in_policy l (DestinationKey a0)"] by (auto simp: slot_has_def)
  then show ?thesis using assms(2) Some by (simp add: GetAddrLimit_def Let_def)
qed (use assms in \<open>simp add: GetAddrLimit_def Let_def\<close>)

lemma tree_has_cong: "\<forall>i \<in> S. res i = res' i \<Longrightarrow> tree_has t S res \<Longrightarrow> tree_has t S res'"
  by (auto simp: tree_has_def fun_eq_iff)

lemma slot_has_cong: "\<forall>i \<in> S. res i = res' i \<Longrightarrow> slot_has t S res \<Longrightarrow> slot_has t S res'"
  using tree_has_cong by (cases t) (auto simp: slot_has_def)

lemma run_of_other: "i \<noteq> j \<Longrightarrow> mn_of (st(j := x)) i = mn_of st i \<and> mx_of (st(j := x)) i = mx_of st i \<and> res_of (st(j := x)) i = res_of st i"
  by (simp add: mn_of_def mx_of_def res_of_def)

definition fresh_run :: "bitrate \<Rightarrow> bitrate \<Rightarrow> 'r run_store" where
  "fresh_run minv maxv = \<lparr>run_minimum = minv, run_maximum = maxv, lastExecLimit = -1, lastExecVersion = 0,
     lastAddrLimit = Map.empty, lastAddrVersion = Map.empty, tracker = NewUsageTracker\<rparr>"

lemma fresh_run_simps [simp]:
  "run_minimum (fresh_run a b) = a" "run_maximum (fresh_run a b) = b" "lastAddrLimit (fresh_run a b) = Map.empty"
  "lastAddrVersion (fresh_run a b) = Map.empty" "lastExecVersion (fresh_run a b) = 0" "lastExecLimit (fresh_run a b) = -1"
  by (simp_all add: fresh_run_def)

lemma insert_exec:
  fixes l :: "'r Limiter"
  assumes inv: "Limiter_inv l" and i: "stores l i = None" and b: "0 \<le> minv" "minv \<le> maxv"
    and dem: "(\<Sum>j \<in> dom (stores l). mx_of (stores l) j) + maxv \<le> i64_max"
  shows "\<exists>t. AVL_Insert i (i64 (maxv - minv)) (execT l) = Inr t
    \<and> Limiter_inv (invalidateLocked executorDimension
        (l\<lparr>execT := t, execUsed := i64 (execUsed l + minv), stores := (stores l)(i \<mapsto> fresh_run minv maxv)\<rparr>))"
proof -
  let ?st = "(stores l)(i \<mapsto> fresh_run minv maxv)"
  have nd: "i \<notin> dom (stores l)" using i by auto
  have old: "mn_of ?st j = mn_of (stores l) j" "mx_of ?st j = mx_of (stores l) j" "res_of ?st j = res_of (stores l) j"
    if "j \<in> dom (stores l)" for j using that nd run_of_other [of j i] by auto
  have new: "mn_of ?st i = minv" "mx_of ?st i = maxv" "res_of ?st i = maxv - minv"
    by (simp_all add: mn_of_def mx_of_def res_of_def)
  have fin: "finite (dom (stores l))" using inv by (simp add: Limiter_inv_def runs_ok_def)
  have "(\<Sum>j \<in> dom ?st. mx_of ?st j) = (\<Sum>j \<in> dom (stores l). mx_of (stores l) j) + maxv"
    using fin nd new old by (simp add: add.commute)
  then have runs: "runs_ok ?st"
    using inv dem b by (auto simp: Limiter_inv_def runs_ok_def)
  have d: "dims_ok l (dom (stores l)) (in_policy l)" using inv by (simp add: Limiter_inv_def)
  have pol: "i \<notin> in_policy l a" for a using i by (simp add: in_policy_def)
  have sub: "in_policy l a \<subseteq> dom (stores l)" for a by (auto simp: in_policy_def)
  have tree: "tree_has (execT l) (dom (stores l)) (res_of ?st)"
  proof (rule tree_has_cong)
    show "\<forall>j \<in> dom (stores l). res_of (stores l) j = res_of ?st j" using old(3) by simp
    show "tree_has (execT l) (dom (stores l)) (res_of (stores l))" using d by (simp add: dims_ok_def)
  qed
  have wrap: "i64 (maxv - minv) = res_of ?st i" "i64 (execUsed l + minv) = (\<Sum>j \<in> dom ?st. mn_of ?st j)"
  proof -
    show "i64 (maxv - minv) = res_of ?st i" using runs_okD(5) [OF runs, of i] new by (simp add: i64_id)
    have "(\<Sum>j \<in> dom ?st. mn_of ?st j) = execUsed l + minv"
      using d fin nd new old by (simp add: dims_ok_def add.commute)
    then show "i64 (execUsed l + minv) = (\<Sum>j \<in> dom ?st. mn_of ?st j)"
      using sum_mn_bounds(3) [OF runs order_refl] by (simp add: i64_id)
  qed
  obtain t where t: "AVL_Insert i (res_of ?st i) (execT l) = Inr t" "tree_has t (insert i (dom (stores l))) (res_of ?st)"
    using tree_has_insert [OF tree nd] runs_okD(3,5) [OF runs, of i] by blast
  let ?l = "invalidateLocked executorDimension
     (l\<lparr>execT := t, execUsed := i64 (execUsed l + minv), stores := ?st\<rparr>)"
  have flds: "stores ?l = ?st" "execT ?l = t" "execUsed ?l = (\<Sum>j \<in> dom ?st. mn_of ?st j)" "addrT ?l = addrT l"
    "addrUsed ?l = addrUsed l" "addrCapacity ?l = addrCapacity l"
    "zero_at (version ?l) a = (if a = [] then zero_at (version l) [] + 1 else zero_at (version l) a)" for a
    by (simp_all add: invalidateLocked_def executorDimension_def wrap)
  have pol': "in_policy ?l = in_policy l"
    unfolding in_policy_def flds(1) using i by (auto simp: fun_eq_iff split: if_splits)
  have "dims_ok ?l (dom ?st) (in_policy l)"
    unfolding dims_ok_def flds
  proof (intro conjI allI)
    show "tree_has t (dom ?st) (res_of ?st)" using t(2) by simp
    fix a
    show "zero_at (addrUsed l) a = (\<Sum>j \<in> in_policy l a. mn_of ?st j)"
    proof -
      have "(\<Sum>j \<in> in_policy l a. mn_of ?st j) = (\<Sum>j \<in> in_policy l a. mn_of (stores l) j)"
        using old(1) subsetD [OF sub] by (intro sum.cong) auto
      then show ?thesis using d by (simp add: dims_ok_def)
    qed
    show "slot_has (addrT l a) (in_policy l a) (res_of ?st)"
    proof (rule slot_has_cong)
      show "\<forall>j \<in> in_policy l a. res_of (stores l) j = res_of ?st j" using old(3) sub by fastforce
      show "slot_has (addrT l a) (in_policy l a) (res_of (stores l))" using d by (simp add: dims_ok_def)
    qed
    show "in_policy l a \<subseteq> dom ?st" using sub by auto
  qed auto
  moreover have "exec_cache_ok ?l (dom ?st)"
    using inv exec_cacheD(1) [OF inv] by (intro exec_cache_bump) (auto simp: Limiter_inv_def)
  moreover have "addr_cache_ok ?l (dom ?st)"
    unfolding addr_cache_ok_def flds
  proof (intro ballI allI impI)
    fix j s a v assume s: "?st j = Some s" "lastAddrLimit s a = Some v"
    then have j: "stores l j = Some s" by (auto split: if_splits)
    have "a \<noteq> []" using inv j s(2) by (force simp: Limiter_inv_def runs_ok_def)
    moreover have "addr_value ?l a s = addr_value l a s" by (rule addr_value_cong) (simp_all add: flds)
    ultimately show "zero_at (lastAddrVersion s) a \<le> (if a = [] then zero_at (version l) [] + 1 else zero_at (version l) a)
      \<and> (v \<noteq> -1 \<and> zero_at (lastAddrVersion s) a = (if a = [] then zero_at (version l) [] + 1 else zero_at (version l) a) \<longrightarrow>
           v = addr_value ?l a s)"
      using addr_cacheD [OF inv j s(2)] by simp
  qed
  moreover have "\<forall>a. 0 \<le> zero_at (version ?l) a" using inv by (simp add: flds Limiter_inv_def)
  ultimately have "Limiter_inv ?l" using runs pol' by (simp add: Limiter_inv_def flds(1))
  then show ?thesis using t(1) wrap(1) by auto
qed


text \<open>One address of an inserted run.\<close>

lemma insert_one:
  fixes l :: "'r Limiter"
  assumes inv: "Limiter_inv l" and s: "stores l i = Some s" and a: "lastAddrLimit s a = None" "a \<noteq> []"
    and v: "lastAddrVersion s = Map.empty"
  shows "\<exists>t l'. AVL_Insert i (i64 (run_maximum s - run_minimum s)) (case addrT l a of None \<Rightarrow> empty_avl | Some t \<Rightarrow> t) = Inr t
    \<and> l' = invalidateLocked a ((put_limit i a l)\<lparr>addrT := (addrT l)(a \<mapsto> t),
        addrUsed := (addrUsed l)(a \<mapsto> i64 (zero_at (addrUsed l) a + run_minimum s))\<rparr>)
    \<and> Limiter_inv l' \<and> stores l' = (stores l)(i \<mapsto> s\<lparr>lastAddrLimit := (lastAddrLimit s)(a \<mapsto> -1)\<rparr>)"
proof -
  let ?s = "s\<lparr>lastAddrLimit := (lastAddrLimit s)(a \<mapsto> -1)\<rparr>"
  let ?st = "(stores l)(i \<mapsto> ?s)"
  have runs0: "runs_ok (stores l)" and d: "dims_ok l (dom (stores l)) (in_policy l)" using inv by (simp_all add: Limiter_inv_def)
  have same: "mn_of ?st = mn_of (stores l)" "mx_of ?st = mx_of (stores l)" "res_of ?st = res_of (stores l)" "dom ?st = dom (stores l)"
    using s by (auto simp: mn_of_def mx_of_def res_of_def fun_eq_iff)
  have runs: "runs_ok ?st" using runs0 s a(2) unfolding runs_ok_def same by auto
  have pol: "i \<notin> in_policy l a" using s a(1) by (simp add: in_policy_def)
  have sub: "insert i (in_policy l a) \<subseteq> dom (stores l)" using s by (auto simp: in_policy_def)
  have fin: "finite (in_policy l a)" using runs0 sub finite_subset by (auto simp: runs_ok_def)
  have tree: "tree_has (case addrT l a of None \<Rightarrow> empty_avl | Some t \<Rightarrow> t) (in_policy l a) (res_of (stores l))"
  proof -
    have "slot_has (addrT l a) (in_policy l a) (res_of (stores l))" using d by (simp add: dims_ok_def)
    then show ?thesis using tree_has_empty by (auto simp: slot_has_def split: option.splits)
  qed
  have res: "i64 (run_maximum s - run_minimum s) = res_of (stores l) i"
    using runs_okD(5) [OF runs0, of i] s by (simp add: res_of_def mx_of_def mn_of_def i64_id)
  obtain t where t: "AVL_Insert i (res_of (stores l) i) (case addrT l a of None \<Rightarrow> empty_avl | Some t \<Rightarrow> t) = Inr t"
    "tree_has t (insert i (in_policy l a)) (res_of (stores l))"
    using tree_has_insert [OF tree pol runs_okD(3,5) [OF runs0]] by blast
  have used: "i64 (zero_at (addrUsed l) a + run_minimum s) = (\<Sum>j \<in> insert i (in_policy l a). mn_of (stores l) j)"
  proof -
    have "(\<Sum>j \<in> insert i (in_policy l a). mn_of (stores l) j) = zero_at (addrUsed l) a + run_minimum s"
      using d fin pol s by (simp add: dims_ok_def mn_of_def)
    then show ?thesis using sum_mn_bounds(3) [OF runs0 sub] by (simp add: i64_id)
  qed
  define l' where "l' = invalidateLocked a ((put_limit i a l)\<lparr>addrT := (addrT l)(a \<mapsto> t),
      addrUsed := (addrUsed l)(a \<mapsto> i64 (zero_at (addrUsed l) a + run_minimum s))\<rparr>)"
  have flds: "stores l' = ?st" "execT l' = execT l" "execUsed l' = execUsed l" "addrT l' = (addrT l)(a \<mapsto> t)"
    "zero_at (addrUsed l') b = (if b = a then \<Sum>j \<in> insert i (in_policy l a). mn_of (stores l) j else zero_at (addrUsed l) b)"
    "addrCapacity l' = addrCapacity l" "execCapacity l' = execCapacity l"
    "zero_at (version l') b = (if b = a then zero_at (version l) a + 1 else zero_at (version l) b)" for b
    using s by (simp_all add: l'_def invalidateLocked_def put_limit_def used)
  have pol': "in_policy l' b = (if b = a then insert i (in_policy l a) else in_policy l b)" for b
    unfolding in_policy_def flds(1) using s by (auto split: if_splits)
  have "dims_ok l' (dom (stores l)) (in_policy l')"
    unfolding dims_ok_def flds same
  proof (intro conjI allI)
    fix b
    show "(if b = a then \<Sum>j \<in> insert i (in_policy l a). mn_of (stores l) j else zero_at (addrUsed l) b) =
        (\<Sum>j \<in> in_policy l' b. mn_of (stores l) j)"
      using d by (simp add: dims_ok_def pol')
    show "slot_has (((addrT l)(a \<mapsto> t)) b) (in_policy l' b) (res_of (stores l))"
      using d t(2) by (simp add: dims_ok_def pol') (simp add: slot_has_def)
    show "in_policy l' b \<subseteq> dom (stores l)" using d sub by (simp add: dims_ok_def pol')
  qed (use d in \<open>auto simp: dims_ok_def\<close>)
  moreover have "exec_cache_ok l' (dom (stores l))"
    unfolding exec_cache_ok_def flds
  proof (intro ballI allI impI)
    fix j s' assume "?st j = Some s'"
    then obtain s0 where s0: "stores l j = Some s0" "lastExecVersion s' = lastExecVersion s0" "lastExecLimit s' = lastExecLimit s0"
      "run_minimum s' = run_minimum s0" "run_maximum s' = run_maximum s0"
      using s by (auto split: if_splits)
    have "exec_value l' s' = exec_value l s0" using s0(4,5) by (simp add: exec_value_def flds share_from_def split: sum.splits)
    then show "lastExecVersion s' \<le> (if [] = a then zero_at (version l) a + 1 else zero_at (version l) [])
      \<and> (lastExecLimit s' \<noteq> -1 \<and> lastExecVersion s' = (if [] = a then zero_at (version l) a + 1 else zero_at (version l) []) \<longrightarrow>
           lastExecLimit s' = exec_value l' s')"
      using exec_cacheD [OF inv s0(1)] s0(2,3) a(2) by auto
  qed
  moreover have "addr_cache_ok l' (dom (stores l))"
    unfolding addr_cache_ok_def flds
  proof (intro ballI allI impI)
    fix j s' b w assume j: "?st j = Some s'" "lastAddrLimit s' b = Some w"
    show "zero_at (lastAddrVersion s') b \<le> (if b = a then zero_at (version l) a + 1 else zero_at (version l) b)
      \<and> (w \<noteq> -1 \<and> zero_at (lastAddrVersion s') b = (if b = a then zero_at (version l) a + 1 else zero_at (version l) b) \<longrightarrow>
           w = addr_value l' b s')"
    proof (cases "j = i \<and> b = a")
      case True
      then have "w = -1" "zero_at (lastAddrVersion s') b = 0" using j v by auto
      moreover have "0 \<le> zero_at (version l) a" using inv by (simp add: Limiter_inv_def)
      ultimately show ?thesis using True by simp
    next
      case False
      then obtain s0 where s0: "stores l j = Some s0" "lastAddrLimit s0 b = Some w" "lastAddrVersion s' = lastAddrVersion s0"
        "run_minimum s' = run_minimum s0" "run_maximum s' = run_maximum s0"
        using s j by (auto split: if_splits)
      have "b \<noteq> a \<Longrightarrow> addr_value l' b s' = addr_value l b s0"
        using s0(4,5) by (simp add: addr_value_def addr_cap_def flds share_from_def split: sum.splits)
      then show ?thesis using addr_cacheD [OF inv s0(1,2)] s0(3) by auto
    qed
  qed
  moreover have "\<forall>b. 0 \<le> zero_at (version l') b" using inv by (simp add: flds Limiter_inv_def)
  ultimately have "Limiter_inv l'" using runs unfolding Limiter_inv_def flds(1) same(4) by simp
  then show ?thesis using t(1) res flds(1) l'_def by auto
qed


lemma insert_addrs_ok:
  fixes l :: "'r Limiter"
  assumes "Limiter_inv l" "stores l i = Some s" "lastAddrVersion s = Map.empty"
    and "\<forall>x \<in> set xs. DestinationKey x \<noteq> []"
  shows "\<exists>l' s'. insert_addrs i (run_minimum s) (i64 (run_maximum s - run_minimum s)) xs l = Inr l' \<and> Limiter_inv l'
    \<and> stores l' = (stores l)(i \<mapsto> s') \<and> run_minimum s' = run_minimum s \<and> run_maximum s' = run_maximum s
    \<and> dom (lastAddrLimit s') = dom (lastAddrLimit s) \<union> DestinationKey ` set xs
    \<and> execCapacity l' = execCapacity l \<and> addrCapacity l' = addrCapacity l"
  using assms
proof (induction xs arbitrary: l s)
  case Nil
  then show ?case by (intro exI [of _ l] exI [of _ s]) (simp add: fun_upd_idem)
next
  case (Cons x xs)
  let ?a = "DestinationKey x"
  show ?case
  proof (cases "lastAddrLimit s ?a = None")
    case False
    then have "dom (lastAddrLimit s) \<union> DestinationKey ` set (x # xs) = dom (lastAddrLimit s) \<union> DestinationKey ` set xs" by auto
    then show ?thesis using False Cons by (simp add: Let_def)
  next
    case True
    obtain t l1 where t: "AVL_Insert i (i64 (run_maximum s - run_minimum s)) (case addrT l ?a of None \<Rightarrow> empty_avl | Some t \<Rightarrow> t) = Inr t"
      and l1: "l1 = invalidateLocked ?a ((put_limit i ?a l)\<lparr>addrT := (addrT l)(?a \<mapsto> t),
        addrUsed := (addrUsed l)(?a \<mapsto> i64 (zero_at (addrUsed l) ?a + run_minimum s))\<rparr>)"
      and inv1: "Limiter_inv l1" and st1: "stores l1 = (stores l)(i \<mapsto> s\<lparr>lastAddrLimit := (lastAddrLimit s)(?a \<mapsto> -1)\<rparr>)"
      using insert_one [OF Cons.prems(1,2) True _ Cons.prems(3)] Cons.prems(4) by auto
    let ?s = "s\<lparr>lastAddrLimit := (lastAddrLimit s)(?a \<mapsto> -1)\<rparr>"
    have step: "insert_addrs i (run_minimum s) (i64 (run_maximum s - run_minimum s)) (x # xs) l =
        insert_addrs i (run_minimum s) (i64 (run_maximum s - run_minimum s)) xs l1"
      using True Cons.prems(2) t by (simp add: Let_def put_limit_def l1)
    have s1: "stores l1 i = Some ?s" "lastAddrVersion ?s = Map.empty" using st1 Cons.prems(3) by simp_all
    have caps: "execCapacity l1 = execCapacity l" "addrCapacity l1 = addrCapacity l"
      using Cons.prems(2) by (simp_all add: l1 invalidateLocked_def put_limit_def)
    have keys: "\<forall>x \<in> set xs. DestinationKey x \<noteq> []" using Cons.prems(4) by simp
    have sel: "run_minimum ?s = run_minimum s" "run_maximum ?s = run_maximum s" by simp_all
    obtain l' s' where l': "insert_addrs i (run_minimum s) (i64 (run_maximum s - run_minimum s)) xs l1 = Inr l'" "Limiter_inv l'"
      "stores l' = (stores l1)(i \<mapsto> s')" "run_minimum s' = run_minimum s" "run_maximum s' = run_maximum s"
      "dom (lastAddrLimit s') = dom (lastAddrLimit ?s) \<union> DestinationKey ` set xs"
      "execCapacity l' = execCapacity l1" "addrCapacity l' = addrCapacity l1"
      using Cons.IH [OF inv1 s1 keys, unfolded sel] by (elim exE conjE) (rule that)
    have "stores l' = (stores l)(i \<mapsto> s')" using l'(3) st1 by simp
    moreover have "dom (lastAddrLimit s') = dom (lastAddrLimit s) \<union> DestinationKey ` set (x # xs)" using l'(6) by auto
    ultimately show ?thesis
      unfolding step using l'(1,2,4,5,7,8) caps by (intro exI [of _ l'] exI [of _ s']) simp
  qed
qed

lemma InsertDebuglet_ok:
  fixes l :: "'r Limiter"
  assumes inv: "Limiter_inv l" and i: "stores l i = None" and b: "0 \<le> minv" "minv \<le> maxv"
    and dem: "(\<Sum>j \<in> dom (stores l). mx_of (stores l) j) + maxv \<le> i64_max"
    and keys: "\<forall>x \<in> set xs. DestinationKey x \<noteq> []"
  shows "\<exists>l' s'. InsertDebuglet i minv maxv xs l = Inr (None, l') \<and> Limiter_inv l'
    \<and> stores l' = (stores l)(i \<mapsto> s') \<and> run_minimum s' = minv \<and> run_maximum s' = maxv
    \<and> dom (lastAddrLimit s') = DestinationKey ` set xs
    \<and> execCapacity l' = execCapacity l \<and> addrCapacity l' = addrCapacity l"
proof -
  obtain t where t: "AVL_Insert i (i64 (maxv - minv)) (execT l) = Inr t"
    "Limiter_inv (invalidateLocked executorDimension
        (l\<lparr>execT := t, execUsed := i64 (execUsed l + minv), stores := (stores l)(i \<mapsto> fresh_run minv maxv)\<rparr>))"
    (is "Limiter_inv ?l")
    using insert_exec [OF inv i b dem] by blast
  have flds: "stores ?l = (stores l)(i \<mapsto> fresh_run minv maxv)" "execCapacity ?l = execCapacity l" "addrCapacity ?l = addrCapacity l"
    by (simp_all add: invalidateLocked_def)
  have run: "InsertDebuglet i minv maxv xs l =
      res_bind (insert_addrs i minv (i64 (maxv - minv)) xs ?l) (\<lambda>l. Inr (None, l))"
    using b t(1) by (simp add: InsertDebuglet_def Let_def fresh_run_def)
  show ?thesis
    using insert_addrs_ok [OF t(2), of i "fresh_run minv maxv" xs] keys unfolding run flds by auto
qed

text \<open>
  While a run is being removed its memberships shrink one address at a time: \<open>M\<close> is the
  membership that the trees hold, and only the other runs' caches count.
\<close>

definition removing :: "uuid \<Rightarrow> (string \<Rightarrow> uuid set) \<Rightarrow> 'r Limiter \<Rightarrow> bool" where
  "removing i M l \<longleftrightarrow> runs_ok (stores l) \<and> dims_ok l (dom (stores l) - {i}) M
     \<and> (\<forall>a. M a - {i} = in_policy l a - {i})
     \<and> exec_cache_ok l (dom (stores l) - {i}) \<and> addr_cache_ok l (dom (stores l) - {i}) \<and> (\<forall>a. 0 \<le> zero_at (version l) a)"

lemma remove_one:
  fixes l :: "'r Limiter"
  assumes rem: "removing i M l" and s: "stores l i = Some s" and a: "i \<in> M a" "a \<noteq> []"
  shows "\<exists>t t' l'. addrT l a = Some t \<and> AVL_Delete i t = Inr t'
    \<and> l' = (let l1 = l\<lparr>addrT := (addrT l)(a \<mapsto> t'), addrUsed := (addrUsed l)(a \<mapsto> i64 (zero_at (addrUsed l) a - run_minimum s))\<rparr> in
         if AVL_Len t' = 0 then l1\<lparr>addrT := (addrT l1)(a := None), addrUsed := (addrUsed l1)(a := None), version := (version l1)(a := None)\<rparr>
         else invalidateLocked a l1)
    \<and> removing i (M(a := M a - {i})) l' \<and> stores l' = stores l \<and> execCapacity l' = execCapacity l \<and> addrCapacity l' = addrCapacity l"
proof -
  have d: "dims_ok l (dom (stores l) - {i}) M" and runs: "runs_ok (stores l)" and M: "\<forall>a. M a - {i} = in_policy l a - {i}"
    using rem by (simp_all add: removing_def)
  have "slot_has (addrT l a) (M a) (res_of (stores l))" using d by (simp add: dims_ok_def)
  then obtain t where t: "addrT l a = Some t" "tree_has t (M a) (res_of (stores l))"
    using a(1) by (auto simp: slot_has_def split: option.splits)
  obtain t' where t': "AVL_Delete i t = Inr t'" "tree_has t' (M a - {i}) (res_of (stores l))"
    using tree_has_delete [OF t(2)] by blast
  have sub: "M a \<subseteq> dom (stores l)" using d by (simp add: dims_ok_def)
  then have fin: "finite (M a)" using runs finite_subset by (auto simp: runs_ok_def)
  have used: "i64 (zero_at (addrUsed l) a - run_minimum s) = (\<Sum>j \<in> M a - {i}. mn_of (stores l) j)"
  proof -
    have "zero_at (addrUsed l) a = (\<Sum>j \<in> M a. mn_of (stores l) j)" "mn_of (stores l) i = run_minimum s"
      using d s by (simp_all add: dims_ok_def mn_of_def)
    then have "(\<Sum>j \<in> M a - {i}. mn_of (stores l) j) = zero_at (addrUsed l) a - run_minimum s"
      using fin a(1) by (simp add: sum_diff1)
    then show ?thesis using sum_mn_bounds(3) [OF runs, of "M a - {i}"] sub by (simp add: i64_id subset_iff)
  qed
  have len: "AVL_Len t' = 0 \<longleftrightarrow> M a - {i} = {}" using tree_has_Len [OF t'(2)] fin by simp
  have empty: "M a \<subseteq> {i} \<Longrightarrow> (\<Sum>j \<in> M a - {i}. mn_of (stores l) j) = 0"
    by (metis Diff_eq_empty_iff sum.empty)
  define l1 where "l1 = l\<lparr>addrT := (addrT l)(a \<mapsto> t'), addrUsed := (addrUsed l)(a \<mapsto> i64 (zero_at (addrUsed l) a - run_minimum s))\<rparr>"
  define l' where "l' = (if AVL_Len t' = 0 then l1\<lparr>addrT := (addrT l1)(a := None), addrUsed := (addrUsed l1)(a := None),
      version := (version l1)(a := None)\<rparr> else invalidateLocked a l1)"
  have flds: "stores l' = stores l" "execT l' = execT l" "execUsed l' = execUsed l"
    "execCapacity l' = execCapacity l" "addrCapacity l' = addrCapacity l"
    "addrT l' b = (if b = a then if M a - {i} = {} then None else Some t' else addrT l b)"
    "zero_at (addrUsed l') b = (if b = a then \<Sum>j \<in> M a - {i}. mn_of (stores l) j else zero_at (addrUsed l) b)"
    "zero_at (version l') b = (if b = a then if M a - {i} = {} then 0 else zero_at (version l) a + 1 else zero_at (version l) b)" for b
    using used empty unfolding l'_def len l1_def by (simp_all add: invalidateLocked_def)
  let ?M = "M(a := M a - {i})"
  have "dims_ok l' (dom (stores l) - {i}) ?M"
    unfolding dims_ok_def flds
  proof (intro conjI allI)
    fix b
    show "(if b = a then \<Sum>j \<in> M a - {i}. mn_of (stores l) j else zero_at (addrUsed l) b) = (\<Sum>j \<in> ?M b. mn_of (stores l) j)"
      using d by (simp add: dims_ok_def)
    show "slot_has (if b = a then if M a - {i} = {} then None else Some t' else addrT l b) (?M b) (res_of (stores l))"
    proof (cases "b = a")
      case True then show ?thesis using t'(2) by (simp add: slot_has_def)
    next
      case False then show ?thesis using d by (simp add: dims_ok_def)
    qed
    show "?M b \<subseteq> dom (stores l)" using d sub by (auto simp: dims_ok_def)
  qed (use d in \<open>auto simp: dims_ok_def\<close>)
  moreover have "in_policy l' = in_policy l" by (simp add: in_policy_def flds fun_eq_iff)
  moreover have "exec_cache_ok l' (dom (stores l) - {i})"
  proof -
    have "exec_value l' s = exec_value l s" for s by (simp add: exec_value_def flds)
    then show ?thesis using rem a(2) by (auto simp: removing_def exec_cache_ok_def flds)
  qed
  moreover have "addr_cache_ok l' (dom (stores l) - {i})"
    unfolding addr_cache_ok_def flds
  proof (intro ballI allI impI)
    fix j s' b w assume j: "j \<in> dom (stores l) - {i}" "stores l j = Some s'" "lastAddrLimit s' b = Some w"
    have old: "zero_at (lastAddrVersion s') b \<le> zero_at (version l) b"
      "w \<noteq> -1 \<and> zero_at (lastAddrVersion s') b = zero_at (version l) b \<longrightarrow> w = addr_value l b s'"
      using rem j unfolding removing_def addr_cache_ok_def by blast+
    have "b \<noteq> a \<Longrightarrow> addr_value l' b s' = addr_value l b s'" by (rule addr_value_cong) (simp_all add: flds)
    moreover have "j \<in> in_policy l b - {i}" using j by (simp add: in_policy_def)
    then have "b = a \<Longrightarrow> M a - {i} \<noteq> {}" using M by blast
    ultimately show "zero_at (lastAddrVersion s') b
        \<le> (if b = a then if M a - {i} = {} then 0 else zero_at (version l) a + 1 else zero_at (version l) b)
      \<and> (w \<noteq> -1 \<and> zero_at (lastAddrVersion s') b =
           (if b = a then if M a - {i} = {} then 0 else zero_at (version l) a + 1 else zero_at (version l) b) \<longrightarrow>
           w = addr_value l' b s')"
      using old by (cases "b = a") auto
  qed
  moreover have "\<forall>b. 0 \<le> zero_at (version l') b" using rem by (simp add: flds removing_def)
  ultimately have "removing i ?M l'" using runs M by (auto simp: removing_def flds(1))
  then show ?thesis using t(1) t'(1) flds l'_def l1_def by (auto simp: Let_def)
qed

lemma remove_addrs_ok:
  fixes l :: "'r Limiter"
  assumes "removing i M l" "stores l i = Some s" "distinct order" "\<forall>a \<in> set order. i \<in> M a \<and> a \<noteq> []"
  shows "\<exists>l'. remove_addrs i (run_minimum s) order l = Inr l' \<and> removing i (\<lambda>a. if a \<in> set order then M a - {i} else M a) l'
    \<and> stores l' = stores l \<and> execCapacity l' = execCapacity l \<and> addrCapacity l' = addrCapacity l"
  using assms
proof (induction order arbitrary: l M)
  case (Cons a order)
  have ia: "i \<in> M a" "a \<noteq> []" using Cons.prems(4) by auto
  obtain t t' l1 where l1: "addrT l a = Some t" "AVL_Delete i t = Inr t'"
    "l1 = (let l1 = l\<lparr>addrT := (addrT l)(a \<mapsto> t'), addrUsed := (addrUsed l)(a \<mapsto> i64 (zero_at (addrUsed l) a - run_minimum s))\<rparr> in
         if AVL_Len t' = 0 then l1\<lparr>addrT := (addrT l1)(a := None), addrUsed := (addrUsed l1)(a := None), version := (version l1)(a := None)\<rparr>
         else invalidateLocked a l1)"
    "removing i (M(a := M a - {i})) l1" "stores l1 = stores l" "execCapacity l1 = execCapacity l" "addrCapacity l1 = addrCapacity l"
    using remove_one [OF Cons.prems(1,2) ia] by blast
  have step: "remove_addrs i (run_minimum s) (a # order) l = remove_addrs i (run_minimum s) order l1"
    using l1(1,2,3) by (simp add: Let_def)
  have s1: "stores l1 i = Some s" using l1(5) Cons.prems(2) by simp
  have mem: "\<forall>b \<in> set order. i \<in> (M(a := M a - {i})) b \<and> b \<noteq> []" using Cons.prems(3,4) by auto
  obtain l' where l': "remove_addrs i (run_minimum s) order l1 = Inr l'"
    "removing i (\<lambda>b. if b \<in> set order then (M(a := M a - {i})) b - {i} else (M(a := M a - {i})) b) l'"
    "stores l' = stores l1" "execCapacity l' = execCapacity l1" "addrCapacity l' = addrCapacity l1"
    using Cons.IH [OF l1(4) s1 _ mem] Cons.prems(3) by auto
  have "(\<lambda>b. if b \<in> set order then (M(a := M a - {i})) b - {i} else (M(a := M a - {i})) b) =
      (\<lambda>b. if b \<in> set (a # order) then M b - {i} else M b)"
    using Cons.prems(3) by (auto simp: fun_eq_iff)
  then show ?case using l' l1(5-7) step by simp
qed simp


text \<open>Once no tree holds the run, forgetting it restores the invariant.\<close>

lemma removing_done:
  fixes l :: "'r Limiter"
  assumes rem: "removing i M l" and out: "\<forall>a. i \<notin> M a" and i: "stores l i \<noteq> None"
  shows "Limiter_inv (l\<lparr>stores := (stores l)(i := None)\<rparr>)"
proof -
  let ?l = "l\<lparr>stores := (stores l)(i := None)\<rparr>" and ?st = "(stores l)(i := None)"
  have runs: "runs_ok (stores l)" and d: "dims_ok l (dom (stores l) - {i}) M" and M: "\<forall>a. M a - {i} = in_policy l a - {i}"
    using rem by (simp_all add: removing_def)
  have same: "mn_of ?st j = mn_of (stores l) j" "mx_of ?st j = mx_of (stores l) j" "res_of ?st j = res_of (stores l) j" if "j \<noteq> i" for j
    using run_of_other [OF that] by blast+
  have dom: "dom ?st = dom (stores l) - {i}" by auto
  have pol: "in_policy ?l a = M a" for a
  proof -
    have "in_policy ?l a = in_policy l a - {i}" by (auto simp: in_policy_def)
    then show ?thesis using M out by blast
  qed
  have nn: "0 \<le> mx_of (stores l) j" for j using runs_okD(1,2) [OF runs, of j] by linarith
  have "(\<Sum>j \<in> dom ?st. mx_of ?st j) = (\<Sum>j \<in> dom (stores l) - {i}. mx_of (stores l) j)"
    unfolding dom by (intro sum.cong) (auto simp: same)
  also have "\<dots> \<le> (\<Sum>j \<in> dom (stores l). mx_of (stores l) j)"
    using runs nn by (intro sum_mono2) (auto simp: runs_ok_def)
  finally have runs': "runs_ok ?st" using runs by (auto simp: runs_ok_def split: if_splits)
  have "dims_ok ?l (dom ?st) M"
    unfolding dims_ok_def dom
  proof (intro conjI allI)
    show "tree_has (execT ?l) (dom (stores l) - {i}) (res_of (stores ?l))"
    proof -
      have "\<forall>j \<in> dom (stores l) - {i}. res_of (stores l) j = res_of ?st j" using same(3) by simp
      then show ?thesis using tree_has_cong d by (fastforce simp: dims_ok_def)
    qed
    show "execUsed ?l = (\<Sum>j \<in> dom (stores l) - {i}. mn_of (stores ?l) j)"
      using d same(1) by (auto simp: dims_ok_def intro!: sum.cong)
    fix a
    show "zero_at (addrUsed ?l) a = (\<Sum>j \<in> M a. mn_of (stores ?l) j)"
    proof -
      have "(\<Sum>j \<in> M a. mn_of ?st j) = (\<Sum>j \<in> M a. mn_of (stores l) j)"
        using out by (intro sum.cong refl same(1)) auto
      then show ?thesis using d by (simp add: dims_ok_def)
    qed
    show "slot_has (addrT ?l a) (M a) (res_of (stores ?l))"
    proof -
      have "\<forall>j \<in> M a. res_of (stores l) j = res_of ?st j" using out same(3) by metis
      then show ?thesis using slot_has_cong d by (fastforce simp: dims_ok_def)
    qed
    show "M a \<subseteq> dom (stores ?l)" using d out by (auto simp: dims_ok_def)
  qed auto
  moreover have "exec_cache_ok ?l (dom ?st)" "addr_cache_ok ?l (dom ?st)"
    using rem by (auto simp: removing_def exec_cache_ok_def addr_cache_ok_def exec_value_def addr_value_def addr_cap_def)
  moreover have "in_policy ?l = M" using pol by (simp add: fun_eq_iff)
  ultimately show ?thesis using runs' rem by (simp add: Limiter_inv_def removing_def)
qed

lemma RemoveDebuglet_ok:
  fixes l :: "'r Limiter"
  assumes inv: "Limiter_inv l" and order: "\<And>s. stores l i = Some s \<Longrightarrow> distinct order \<and> set order = dom (lastAddrLimit s)"
  shows "\<exists>l'. RemoveDebuglet i order l = Inr l' \<and> Limiter_inv l' \<and> stores l' = (stores l)(i := None)
    \<and> execCapacity l' = execCapacity l \<and> addrCapacity l' = addrCapacity l"
proof (cases "stores l i")
  case None
  then show ?thesis using inv by (auto simp: RemoveDebuglet_def fun_upd_idem)
next
  case (Some s)
  have runs: "runs_ok (stores l)" and d: "dims_ok l (dom (stores l)) (in_policy l)" using inv by (simp_all add: Limiter_inv_def)
  have fin: "finite (dom (stores l))" using runs by (simp add: runs_ok_def)
  obtain t where t: "AVL_Delete i (execT l) = Inr t" "tree_has t (dom (stores l) - {i}) (res_of (stores l))"
    using tree_has_delete [of "execT l"] d unfolding dims_ok_def by blast
  have used: "i64 (execUsed l - run_minimum s) = (\<Sum>j \<in> dom (stores l) - {i}. mn_of (stores l) j)"
  proof -
    have "mn_of (stores l) i = run_minimum s" "i \<in> dom (stores l)" using Some by (auto simp: mn_of_def)
    then have "(\<Sum>j \<in> dom (stores l) - {i}. mn_of (stores l) j) = execUsed l - run_minimum s"
      using d fin by (simp add: dims_ok_def sum_diff1)
    then show ?thesis using sum_mn_bounds(3) [OF runs, of "dom (stores l) - {i}"] by (simp add: i64_id)
  qed
  define l1 where "l1 = invalidateLocked executorDimension (l\<lparr>execT := t, execUsed := i64 (execUsed l - run_minimum s)\<rparr>)"
  have flds: "stores l1 = stores l" "execT l1 = t" "execUsed l1 = (\<Sum>j \<in> dom (stores l) - {i}. mn_of (stores l) j)"
    "addrT l1 = addrT l" "addrUsed l1 = addrUsed l" "addrCapacity l1 = addrCapacity l" "execCapacity l1 = execCapacity l"
    "zero_at (version l1) a = (if a = [] then zero_at (version l) [] + 1 else zero_at (version l) a)" for a
    by (simp_all add: l1_def invalidateLocked_def executorDimension_def used)
  have pol: "in_policy l1 = in_policy l" by (simp add: in_policy_def flds fun_eq_iff)
  have "dims_ok l1 (dom (stores l) - {i}) (in_policy l)" using d t(2) by (auto simp: dims_ok_def flds)
  moreover have "exec_cache_ok l1 (dom (stores l) - {i})"
    unfolding l1_def using exec_cacheD(1) [OF inv] by (intro exec_cache_bump) auto
  moreover have "addr_cache_ok l1 (dom (stores l) - {i})"
    unfolding addr_cache_ok_def flds
  proof (intro ballI allI impI)
    fix j s' a w assume j: "stores l j = Some s'" "lastAddrLimit s' a = Some w"
    have "a \<noteq> []" using runs j by (force simp: runs_ok_def)
    moreover have "addr_value l1 a s' = addr_value l a s'" by (rule addr_value_cong) (simp_all add: flds)
    ultimately show "zero_at (lastAddrVersion s') a \<le> (if a = [] then zero_at (version l) [] + 1 else zero_at (version l) a)
      \<and> (w \<noteq> -1 \<and> zero_at (lastAddrVersion s') a = (if a = [] then zero_at (version l) [] + 1 else zero_at (version l) a) \<longrightarrow>
           w = addr_value l1 a s')"
      using addr_cacheD [OF inv j] by simp
  qed
  moreover have "\<forall>a. 0 \<le> zero_at (version l1) a" using inv by (simp add: flds Limiter_inv_def)
  ultimately have rem: "removing i (in_policy l) l1" using runs pol by (simp add: removing_def flds(1))
  have ord: "distinct order" "set order = dom (lastAddrLimit s)" using order [OF Some] by auto
  have mem: "\<forall>a \<in> set order. i \<in> in_policy l a \<and> a \<noteq> []"
  proof
    fix a assume "a \<in> set order"
    then have "lastAddrLimit s a \<noteq> None" using ord by auto
    moreover have "[] \<notin> dom (lastAddrLimit s)" using runs Some by (auto simp: runs_ok_def)
    ultimately show "i \<in> in_policy l a \<and> a \<noteq> []" using Some by (auto simp: in_policy_def)
  qed
  have s1: "stores l1 i = Some s" using Some flds(1) by simp
  obtain l2 where l2: "remove_addrs i (run_minimum s) order l1 = Inr l2"
    "removing i (\<lambda>a. if a \<in> set order then in_policy l a - {i} else in_policy l a) l2"
    "stores l2 = stores l1" "execCapacity l2 = execCapacity l1" "addrCapacity l2 = addrCapacity l1"
    using remove_addrs_ok [OF rem s1 ord(1) mem] by blast
  define l3 where "l3 = l2\<lparr>stores := (stores l2)(i := None)\<rparr>"
  have run: "RemoveDebuglet i order l = Inr l3"
    using Some t(1) l2(1) by (simp add: RemoveDebuglet_def l1_def l3_def Let_def)
  have "\<forall>a. i \<notin> (if a \<in> set order then in_policy l a - {i} else in_policy l a)"
    using Some ord(2) by (auto simp: in_policy_def)
  then have "Limiter_inv l3"
    unfolding l3_def using removing_done [OF l2(2)] l2(3) Some flds(1) by simp
  then show ?thesis using run l2(3-5) flds by (auto simp: l3_def)
qed

lemma sample_dest: "DestinationKey ''probe.example'' = ''probe.example''"
  by code_simp

text \<open>A limiter with one registered run, reached by its own operations.\<close>

lemma sample_limiter:
  obtains l :: "'r Limiter" and s where
    "InsertDebuglet 7 40 90 [''probe.example''] (SetExecutorCapacity 100 NewLimiter) = Inr (None, l)"
    "Limiter_inv l" "stores l = [7 \<mapsto> s]" "run_minimum s = 40" "run_maximum s = 90"
    "in_policy l ''probe.example'' = {7}" "execCapacity l = 100" "addr_cap l ''probe.example'' = 1000000000"
proof -
  let ?l = "SetExecutorCapacity 100 NewLimiter :: 'r Limiter"
  have st: "stores ?l = Map.empty" "execCapacity ?l = 100" "addrCapacity ?l = Map.empty"
    by (simp_all add: SetExecutorCapacity_def NewLimiter_def invalidateLocked_def)
  obtain l s where l: "InsertDebuglet 7 40 90 [''probe.example''] ?l = Inr (None, l)" "Limiter_inv l" "stores l = (stores ?l)(7 \<mapsto> s)"
    "run_minimum s = 40" "run_maximum s = 90" "dom (lastAddrLimit s) = DestinationKey ` set [''probe.example'']"
    "execCapacity l = execCapacity ?l" "addrCapacity l = addrCapacity ?l"
    using InsertDebuglet_ok [of ?l 7 40 90 "[''probe.example'']"] SetExecutorCapacity_inv [OF NewLimiter_inv, of 100]
    by (auto simp: st sample_dest i64_max_def)
  have "lastAddrLimit s ''probe.example'' \<noteq> None" using l(6) by (auto simp: sample_dest)
  then have "in_policy l ''probe.example'' = {7}" using l(3) st by (auto simp: in_policy_def split: if_splits)
  moreover have "addr_cap l ''probe.example'' = 1000000000"
    using l(8) st by (simp add: addr_cap_def defaultDestinationCapacity_def bitrate_units)
  ultimately show ?thesis using l st by (intro that [of l s]) simp_all
qed

section \<open>Properties\<close>






text \<open>Registering and removing runs. A run with a floor of at least zero and at most its
  ceiling is registered with exactly the destinations its policy names, repetitions once;
  other runs are untouched. Removing it again forgets it, and removing an unknown run
  changes nothing. No step panics and every step keeps the limiter well-formed.
\<close>

theorem InsertDebuglet_RemoveDebuglet:
  fixes l :: "'r Limiter"
  assumes inv: "Limiter_inv l" and i: "stores l i = None" and b: "0 \<le> minv" "minv \<le> maxv"
    and dem: "(\<Sum>j \<in> dom (stores l). mx_of (stores l) j) + maxv \<le> i64_max"
    and keys: "\<forall>x \<in> set xs. DestinationKey x \<noteq> []"
  shows "\<exists>l1 s. InsertDebuglet i minv maxv xs l = Inr (None, l1) \<and> Limiter_inv l1
    \<and> stores l1 = (stores l)(i \<mapsto> s) \<and> run_minimum s = minv \<and> run_maximum s = maxv
    \<and> dom (lastAddrLimit s) = DestinationKey ` set xs
    \<and> (\<forall>order. distinct order \<and> set order = dom (lastAddrLimit s) \<longrightarrow>
         (\<exists>l2. RemoveDebuglet i order l1 = Inr l2 \<and> Limiter_inv l2 \<and> stores l2 = stores l))
    \<and> (\<forall>order. RemoveDebuglet i order l = Inr l)"
proof -
  obtain l1 s where l1: "InsertDebuglet i minv maxv xs l = Inr (None, l1)" "Limiter_inv l1" "stores l1 = (stores l)(i \<mapsto> s)"
    "run_minimum s = minv" "run_maximum s = maxv" "dom (lastAddrLimit s) = DestinationKey ` set xs"
    using InsertDebuglet_ok [OF inv i b dem keys] by blast
  have "\<exists>l2. RemoveDebuglet i order l1 = Inr l2 \<and> Limiter_inv l2 \<and> stores l2 = stores l"
    if "distinct order \<and> set order = dom (lastAddrLimit s)" for order
    using RemoveDebuglet_ok [OF l1(2), of i order] that i unfolding l1(3) by (auto simp: fun_upd_idem)
  moreover have "RemoveDebuglet i order l = Inr l" for order using i by (simp add: RemoveDebuglet_def)
  ultimately show ?thesis using l1 by blast
qed

theorem InsertDebuglet_RemoveDebuglet_witness:
  "\<exists>(l1 :: nat Limiter) l2. InsertDebuglet 7 40 90 [''probe.example'', ''PROBE.example''] NewLimiter = Inr (None, l1)
     \<and> RemoveDebuglet 7 [''probe.example''] l1 = Inr l2 \<and> stores l2 = Map.empty"
proof -
  have k: "DestinationKey ''PROBE.example'' = ''probe.example''" by code_simp
  have st: "stores (NewLimiter :: nat Limiter) = Map.empty" by (simp add: NewLimiter_def)
  let ?xs = "[''probe.example'', ''PROBE.example'']"
  have keys: "\<forall>x \<in> set ?xs. DestinationKey x \<noteq> []" by (simp add: k sample_dest)
  have zero: "0 \<le> (40 :: int)" and forty: "40 \<le> (90 :: int)" by simp_all
  have none: "stores (NewLimiter :: nat Limiter) 7 = None" by (simp add: st)
  have dem: "(\<Sum>j \<in> dom (stores (NewLimiter :: nat Limiter)). mx_of (stores (NewLimiter :: nat Limiter)) j) + 90 \<le> i64_max"
    by (simp add: st i64_max_def)
  obtain l1 :: "nat Limiter" and s :: "nat run_store" where l1:
    "InsertDebuglet 7 40 90 ?xs NewLimiter = Inr (None, l1)"
    "dom (lastAddrLimit s) = DestinationKey ` set ?xs"
    "\<forall>order. distinct order \<and> set order = dom (lastAddrLimit s) \<longrightarrow>
       (\<exists>l2. RemoveDebuglet 7 order l1 = Inr l2 \<and> Limiter_inv l2 \<and> stores l2 = stores (NewLimiter :: nat Limiter))"
    using InsertDebuglet_RemoveDebuglet [OF NewLimiter_inv none zero forty dem keys]
    by (elim exE conjE) (rule that, assumption+)
  have "distinct [''probe.example''] \<and> set [''probe.example''] = dom (lastAddrLimit s)"
    unfolding l1(2) by (simp add: k sample_dest)
  then obtain l2 where "RemoveDebuglet 7 [''probe.example''] l1 = Inr l2" "stores l2 = stores (NewLimiter :: nat Limiter)"
    using l1(3) by blast
  then show ?thesis using l1(1) st by (intro exI [of _ l1] exI [of _ l2]) simp
qed

text \<open>Accounting a packet never leaves half a reservation. With a token bucket whose setters
  set what they name, an update gives the destination and the executor their limits in both
  directions; a wait on a registered destination with no bandwidth is refused without a
  reservation, and when the executor's reservation fails the destination's is cancelled.
\<close>

theorem Tracker_reservations:
  fixes ops :: "('r, 'v) rate_ops"
  assumes new: "\<And>l b. rate_Limit ops (rate_NewLimiter ops l b) = l \<and> rate_Burst ops (rate_NewLimiter ops l b) = b"
    and set_limit: "\<And>l r. rate_Limit ops (rate_SetLimit ops l r) = l"
    and set_burst: "\<And>b r. rate_Burst ops (rate_SetBurst ops b r) = b \<and> rate_Limit ops (rate_SetBurst ops b r) = rate_Limit ops r"
    and d: "destination \<noteq> []"
  shows "\<exists>rd re. usageOut (Upsert ops destination limits u) destination = Some rd \<and> usageOut (Upsert ops destination limits u) [] = Some re
      \<and> rate_Limit ops rd = DestinationRatelimit limits \<and> rate_Burst ops rd = DestinationBurst limits
      \<and> rate_Limit ops re = ExecutorRatelimit limits \<and> rate_Burst ops re = ExecutorBurst limits
      \<and> (0 < sz \<and> (rate_Burst ops rd \<le> 0 \<or> rate_Burst ops re \<le> 0) \<longrightarrow>
           Tracker_Wait ops now False outcome TransferOut destination sz (Upsert ops destination limits u) =
             (Inl ZeroBandwidth, Upsert ops destination limits u))
      \<and> (\<forall>v1 r1 v2 r2. 0 < sz \<and> 0 < rate_Burst ops rd \<and> 0 < rate_Burst ops re
           \<and> reserve_one ops now sz rd = (v1, r1) \<and> rate_OK ops v1 \<and> reserve_one ops now sz re = (v2, r2) \<and> \<not> rate_OK ops v2 \<longrightarrow>
           (\<exists>u'. Tracker_Wait ops now False outcome TransferOut destination sz (Upsert ops destination limits u) = (Inl (CannotReserve sz), u')
              \<and> usageOut u' destination = Some (rate_CancelAt ops now v1 r1)))"
proof -
  have adj: "rate_Limit ops (adjust ops lim b old) = lim \<and> rate_Burst ops (adjust ops lim b old) = b" for lim b old
  proof (cases old)
    case None then show ?thesis using new by (simp add: adjust_def)
  next
    case (Some r) then show ?thesis using set_limit set_burst by (simp add: adjust_def Let_def)
  qed
  let ?u = "Upsert ops destination limits u"
  let ?rd = "adjust ops (DestinationRatelimit limits) (DestinationBurst limits) (usageOut u destination)"
  let ?re = "adjust ops (ExecutorRatelimit limits) (ExecutorBurst limits) (usageOut u [])"
  have look: "usageOut ?u destination = Some ?rd" "usageOut ?u [] = Some ?re"
    using d by (simp_all add: Upsert_def upsert_def Let_def)
  show ?thesis
    by (intro exI [of _ ?rd] exI [of _ ?re])
       (auto simp: look adj Tracker_Wait_def reserve_both_def Let_def d)
qed

definition plain_bucket :: "(int \<times> int, bool) rate_ops" where
  "plain_bucket = \<lparr>rate_NewLimiter = Pair, rate_Limit = fst, rate_Burst = snd, rate_SetLimit = (\<lambda>l r. (l, snd r)),
     rate_SetBurst = (\<lambda>b r. (fst r, b)), rate_SetBurstAt = (\<lambda>_ b r. (fst r, b)), rate_ReserveN = (\<lambda>_ n r. (n \<le> snd r, r)),
     rate_OK = (\<lambda>v. v), rate_DelayFrom = (\<lambda>_ _. 0), rate_CancelAt = (\<lambda>_ _ r. r)\<rparr>"

theorem Tracker_reservations_witness:
  "\<exists>rd. usageOut (Upsert plain_bucket ''d'' \<lparr>ExecutorRatelimit = 5, ExecutorBurst = 5, DestinationRatelimit = 3, DestinationBurst = 3\<rparr> NewUsageTracker) ''d'' = Some rd
     \<and> rate_Limit plain_bucket rd = 3"
  using Tracker_reservations [of plain_bucket "''d''" "\<lparr>ExecutorRatelimit = 5, ExecutorBurst = 5, DestinationRatelimit = 3, DestinationBurst = 3\<rparr>" NewUsageTracker]
  by (auto simp: plain_bucket_def)

end
