(* ===== verification/Dyn_Seg_Tree.thy ===== *)
theory Dyn_Seg_Tree
  imports Prelude
begin

text \<open>
  The dynamic segment tree of \<^verbatim>\<open>internal/dispatcher/resource/schedule/dyn/dynamic.go\<close>: usage over
  the positions \<open>0 \<dots> MaxInt64\<close>, nodes created on demand, additions to a whole segment kept as a
  lazy value that \<open>push\<close> hands down, and segments without usage pruned. The recursion of \<open>add\<close>
  does not end for a negative left bound, so the recursive methods are partial functions and
  that they return is a theorem. Reads push lazy values down too and return the changed tree.
\<close>

section \<open>The model\<close>

text \<open>A \<open>*node\<close>: \<open>nil\<close>, or left child, maximum \<open>t\<close>, lazy value and right child.\<close>

datatype seg_node = SNil | SNode (lc: seg_node) (seg_t: int) (lazy: int) (rc: seg_node)

record DynSegTree =
  seg_root :: seg_node
  seg_L :: int
  seg_R :: int

definition new_node :: seg_node where
  "new_node = SNode SNil 0 0 SNil"

definition New :: DynSegTree where
  "New = \<lparr>seg_root = new_node, seg_L = 0, seg_R = i64_max\<rparr>"

definition Total :: "DynSegTree \<Rightarrow> int" where
  "Total d = (case seg_root d of SNil \<Rightarrow> 0 | SNode _ t _ _ \<Rightarrow> t)"

text \<open>A child that is there, or the one \<open>&node{}\<close> creates.\<close>

definition seg_create :: "seg_node \<Rightarrow> seg_node" where
  "seg_create n = (if n = SNil then new_node else n)"

text \<open>\<open>n.t += a; n.lazy += a\<close>.\<close>

fun seg_bump :: "int \<Rightarrow> seg_node \<Rightarrow> seg_node" where
  "seg_bump a SNil = SNil"
| "seg_bump a (SNode l t z r) = SNode l (i64 (t + a)) (i64 (z + a)) r"

fun seg_push :: "seg_node \<Rightarrow> int \<Rightarrow> int \<Rightarrow> seg_node" where
  "seg_push SNil lo hi = SNil"
| "seg_push (SNode l t z r) lo hi =
    (if z = 0 \<or> lo = hi then SNode l t z r
     else SNode (seg_bump z (seg_create l)) t 0 (seg_bump z (seg_create r)))"

definition seg_mid :: "int \<Rightarrow> int \<Rightarrow> int" where
  "seg_mid lo hi = i64 (lo + go_div (i64 (hi - lo)) 2)"

fun seg_max :: "seg_node \<Rightarrow> int" where
  "seg_max SNil = 0"
| "seg_max (SNode l t z r) = t"

text \<open>The node after both children were updated: the maximum again, children dropped at zero.\<close>

definition seg_join :: "seg_node \<Rightarrow> int \<Rightarrow> seg_node \<Rightarrow> seg_node" where
  "seg_join l z r = (let t = max (seg_max l) (seg_max r) in
     if t = 0 then SNode SNil t z SNil else SNode l t z r)"

partial_function (option) seg_add ::
  "seg_node \<Rightarrow> int \<Rightarrow> int \<Rightarrow> int \<Rightarrow> int \<Rightarrow> int \<Rightarrow> seg_node option" where
  "seg_add n lo hi l r a =
    (if n = SNil \<or> l > r then Some n
     else if l = lo \<and> r = hi then Some (seg_bump a n)
     else let n = seg_push n lo hi; tm = seg_mid lo hi in
       Option.bind (seg_add (seg_create (lc n)) lo tm l (min r tm) a) (\<lambda>x.
       Option.bind (seg_add (seg_create (rc n)) (i64 (tm + 1)) hi (max l (i64 (tm + 1))) r a) (\<lambda>y.
       Some (seg_join x (lazy n) y))))"

partial_function (option) seg_get :: "seg_node \<Rightarrow> int \<Rightarrow> int \<Rightarrow> int \<Rightarrow> (int \<times> seg_node) option" where
  "seg_get n lo hi pos =
    (if n = SNil \<or> seg_t n = 0 then Some (0, n)
     else if lo = hi then Some (seg_t n, n)
     else let n = seg_push n lo hi; tm = seg_mid lo hi in
       if pos \<le> tm
       then Option.bind (seg_get (lc n) lo tm pos) (\<lambda>(v, x). Some (v, SNode x (seg_t n) (lazy n) (rc n)))
       else Option.bind (seg_get (rc n) (i64 (tm + 1)) hi pos) (\<lambda>(v, y). Some (v, SNode (lc n) (seg_t n) (lazy n) y)))"

partial_function (option) seg_querymax ::
  "seg_node \<Rightarrow> int \<Rightarrow> int \<Rightarrow> int \<Rightarrow> int \<Rightarrow> (int \<times> seg_node) option" where
  "seg_querymax n lo hi l r =
    (if n = SNil \<or> l > r then Some (0, n)
     else if l \<le> lo \<and> hi \<le> r then Some (seg_t n, n)
     else let n = seg_push n lo hi; tm = seg_mid lo hi in
       Option.bind (seg_querymax (lc n) lo tm l (min r tm)) (\<lambda>(v, x).
       Option.bind (seg_querymax (rc n) (i64 (tm + 1)) hi (max l (i64 (tm + 1))) r) (\<lambda>(w, y).
       Some (max v w, SNode x (seg_t n) (lazy n) y))))"

definition DynSegTree_Add :: "int \<Rightarrow> int \<Rightarrow> int \<Rightarrow> DynSegTree \<Rightarrow> DynSegTree option" where
  "DynSegTree_Add l r a d = map_option (\<lambda>n. d\<lparr>seg_root := n\<rparr>) (seg_add (seg_root d) (seg_L d) (seg_R d) l r a)"

definition DynSegTree_Get :: "int \<Rightarrow> DynSegTree \<Rightarrow> (int \<times> DynSegTree) option" where
  "DynSegTree_Get pos d = map_option (\<lambda>(v, n). (v, d\<lparr>seg_root := n\<rparr>)) (seg_get (seg_root d) (seg_L d) (seg_R d) pos)"

definition DynSegTree_QueryMax :: "int \<Rightarrow> int \<Rightarrow> DynSegTree \<Rightarrow> (int \<times> DynSegTree) option" where
  "DynSegTree_QueryMax l r d =
     map_option (\<lambda>(v, n). (v, d\<lparr>seg_root := n\<rparr>)) (seg_querymax (seg_root d) (seg_L d) (seg_R d) l r)"

section \<open>Usage of a segment\<close>

text \<open>The usage of a position below a node that stands for the segment \<open>lo \<dots> hi\<close>.\<close>

function seg_use :: "seg_node \<Rightarrow> int \<Rightarrow> int \<Rightarrow> int \<Rightarrow> int" where
  "seg_use SNil lo hi p = 0"
| "seg_use (SNode l t z r) lo hi p =
    (if hi \<le> lo then t
     else let tm = lo + (hi - lo) div 2 in
       z + (if p \<le> tm then seg_use l lo tm p else seg_use r (tm + 1) hi p))"
  by pat_completeness auto
termination by (relation "measure (\<lambda>(n, _). size n)") auto

text \<open>
  A well-formed node: usage is never negative and fits 64 bits at every level, \<open>t\<close> is its
  maximum, and children come in pairs.
\<close>

fun seg_ok :: "seg_node \<Rightarrow> int \<Rightarrow> int \<Rightarrow> bool" where
  "seg_ok SNil lo hi \<longleftrightarrow> True"
| "seg_ok (SNode l t z r) lo hi \<longleftrightarrow>
    0 \<le> t \<and> t \<le> i64_max
    \<and> (if hi \<le> lo then l = SNil \<and> r = SNil
       else let tm = lo + (hi - lo) div 2 in
         seg_ok l lo tm \<and> seg_ok r (tm + 1) hi \<and> (l = SNil \<longleftrightarrow> r = SNil)
         \<and> t = z + max (seg_max l) (seg_max r)
         \<and> (\<forall>p \<in> {lo..hi}. 0 \<le> seg_use (SNode l t z r) lo hi p))"


section \<open>The operations keep the usage\<close>

lemma seg_mid_eq:
  assumes "0 \<le> lo" "lo < hi" "hi \<le> i64_max"
  shows "seg_mid lo hi = lo + (hi - lo) div 2" "i64 (lo + (hi - lo) div 2 + 1) = lo + (hi - lo) div 2 + 1"
    "lo \<le> lo + (hi - lo) div 2" "lo + (hi - lo) div 2 < hi"
proof -
  have d: "0 \<le> (hi - lo) div 2" "lo + (hi - lo) div 2 < hi" using assms by linarith+
  have w: "in_i64 (hi - lo)" "in_i64 (lo + (hi - lo) div 2)" "in_i64 (lo + (hi - lo) div 2 + 1)"
    using assms d by (auto simp: in_i64_def i64_min_def)
  show "seg_mid lo hi = lo + (hi - lo) div 2"
    using assms w by (simp add: seg_mid_def i64_id go_div_nonneg)
  show "i64 (lo + (hi - lo) div 2 + 1) = lo + (hi - lo) div 2 + 1" using w by (simp add: i64_id)
  show "lo \<le> lo + (hi - lo) div 2" "lo + (hi - lo) div 2 < hi" using d by simp_all
qed

text \<open>The usage below a well-formed node lies between zero and \<open>t\<close>, and attains it.\<close>

lemma seg_use_bounds:
  "seg_ok n lo hi \<Longrightarrow> p \<in> {lo..hi} \<Longrightarrow> 0 \<le> seg_use n lo hi p \<and> seg_use n lo hi p \<le> seg_max n"
proof (induction n arbitrary: lo hi)
  case (SNode l t z r)
  define tm where "tm = lo + (hi - lo) div 2"
  show ?case
  proof (cases "hi \<le> lo")
    case False
    have "seg_use l lo tm p \<le> seg_max l" if "p \<le> tm" 
      using SNode.IH(1) [of lo tm] SNode.prems that False by (auto simp: Let_def tm_def)
    moreover have "seg_use r (tm + 1) hi p \<le> seg_max r" if "\<not> p \<le> tm"
      using SNode.IH(2) [of "tm + 1" hi] SNode.prems that False by (auto simp: Let_def tm_def)
    moreover have "0 \<le> seg_use (SNode l t z r) lo hi p" "t = z + max (seg_max l) (seg_max r)"
      using SNode.prems False by (auto simp: Let_def simp del: seg_use.simps)
    ultimately show ?thesis using False by (auto simp: Let_def tm_def)
  qed (use SNode.prems in auto)
qed simp

lemma seg_use_attained:
  "seg_ok n lo hi \<Longrightarrow> lo \<le> hi \<Longrightarrow> \<exists>p \<in> {lo..hi}. seg_use n lo hi p = seg_max n"
proof (induction n arbitrary: lo hi)
  case (SNode l t z r)
  define tm where "tm = lo + (hi - lo) div 2"
  show ?case
  proof (cases "hi \<le> lo")
    case False
    then have tm: "lo \<le> tm" "tm < hi" unfolding tm_def by linarith+
    have ok: "seg_ok l lo tm" "seg_ok r (tm + 1) hi" "t = z + max (seg_max l) (seg_max r)"
      using SNode.prems(1) False by (auto simp: Let_def tm_def simp del: seg_use.simps)
    obtain p q where p: "p \<in> {lo..tm}" "seg_use l lo tm p = seg_max l"
      and q: "q \<in> {tm + 1..hi}" "seg_use r (tm + 1) hi q = seg_max r"
      using SNode.IH(1) [OF ok(1) tm(1)] SNode.IH(2) [OF ok(2)] tm by auto
    have "seg_use (SNode l t z r) lo hi p = z + seg_max l" "seg_use (SNode l t z r) lo hi q = z + seg_max r"
      using False p q by (simp_all add: tm_def [symmetric])
    then show ?thesis using p(1) q(1) tm ok(3) by (cases "seg_max r \<le> seg_max l") (force simp: max_def)+
  qed (use SNode.prems in auto)
qed auto

lemma seg_max_bounds: "seg_ok n lo hi \<Longrightarrow> 0 \<le> seg_max n \<and> seg_max n \<le> i64_max"
  by (cases n) (auto simp: i64_max_def)

lemma new_node_ok [simp]: "seg_ok new_node lo hi" "seg_use new_node lo hi p = 0" "new_node \<noteq> SNil" "seg_max new_node = 0"
  by (auto simp: new_node_def Let_def i64_max_def)

lemma seg_create_ok [simp]:
  "seg_ok (seg_create n) lo hi \<longleftrightarrow> seg_ok n lo hi" "seg_use (seg_create n) lo hi p = seg_use n lo hi p"
  "seg_create n \<noteq> SNil" "seg_max (seg_create n) = seg_max n"
  by (simp_all add: seg_create_def)

lemma seg_bump_ok:
  assumes ok: "seg_ok n lo hi" and n: "n \<noteq> SNil" and lh: "lo \<le> hi"
    and fits: "\<And>p. p \<in> {lo..hi} \<Longrightarrow> 0 \<le> seg_use n lo hi p + a \<and> seg_use n lo hi p + a \<le> i64_max"
  shows "seg_ok (seg_bump a n) lo hi" "\<And>p. p \<in> {lo..hi} \<Longrightarrow> seg_use (seg_bump a n) lo hi p = seg_use n lo hi p + a"
    "seg_max (seg_bump a n) = seg_max n + a" "seg_bump a n \<noteq> SNil"
proof -
  obtain l t z r where nd: "n = SNode l t z r" using n by (cases n) auto
  obtain q where q: "q \<in> {lo..hi}" "seg_use n lo hi q = t" using seg_use_attained [OF ok lh] nd by auto
  have t: "0 \<le> t + a" "t + a \<le> i64_max" using fits [OF q(1)] q(2) by auto
  then have it: "i64 (t + a) = t + a" by (simp add: i64_id in_i64_def i64_min_def)
  have iz: "i64 (z + a) = z + a" if "\<not> hi \<le> lo"
  proof -
    have "t = z + max (seg_max l) (seg_max r)" "seg_ok l lo (lo + (hi - lo) div 2)" "seg_ok r (lo + (hi - lo) div 2 + 1) hi"
      using ok that nd by (auto simp: Let_def simp del: seg_use.simps)
    then show ?thesis
      using t seg_max_bounds by (intro i64_id) (smt (verit) in_i64_def i64_min_def i64_max_def)
  qed
  show u: "seg_use (seg_bump a n) lo hi p = seg_use n lo hi p + a" if "p \<in> {lo..hi}" for p
    using it iz that by (auto simp: nd Let_def)
  show "seg_max (seg_bump a n) = seg_max n + a" "seg_bump a n \<noteq> SNil" by (simp_all add: nd it)
  show "seg_ok (seg_bump a n) lo hi"
  proof (cases "hi \<le> lo")
    case False
    have "0 \<le> seg_use (seg_bump a n) lo hi p" if "p \<in> {lo..hi}" for p using u [OF that] fits [OF that] by simp
    then show ?thesis using ok t it iz False by (auto simp: nd Let_def simp del: seg_use.simps)
  qed (use ok t it in \<open>auto simp: nd\<close>)
qed

lemma seg_push_ok:
  assumes ok: "seg_ok n lo hi" and n: "n \<noteq> SNil" and lh: "lo < hi"
  shows "seg_ok (seg_push n lo hi) lo hi" "lazy (seg_push n lo hi) = 0" "seg_t (seg_push n lo hi) = seg_t n"
    "seg_push n lo hi \<noteq> SNil" "\<And>p. p \<in> {lo..hi} \<Longrightarrow> seg_use (seg_push n lo hi) lo hi p = seg_use n lo hi p"
proof -
  obtain l t z r where nd: "n = SNode l t z r" using n by (cases n) auto
  define tm where "tm = lo + (hi - lo) div 2"
  have tm: "lo \<le> tm" "tm < hi" using lh unfolding tm_def by linarith+
  have parts: "seg_ok l lo tm" "seg_ok r (tm + 1) hi" "l = SNil \<longleftrightarrow> r = SNil" "t = z + max (seg_max l) (seg_max r)" "t \<le> i64_max" "0 \<le> t"
    using ok lh nd by (auto simp: Let_def tm_def simp del: seg_use.simps)
  have use: "seg_use n lo hi p = z + (if p \<le> tm then seg_use l lo tm p else seg_use r (tm + 1) hi p)" for p
    using lh by (simp add: nd tm_def Let_def)
  have fit: "0 \<le> seg_use n lo hi p \<and> seg_use n lo hi p \<le> i64_max" if "p \<in> {lo..hi}" for p
    using seg_use_bounds [OF ok that] parts(5) by (simp add: nd)
  have fl: "0 \<le> seg_use (seg_create l) lo tm p + z \<and> seg_use (seg_create l) lo tm p + z \<le> i64_max" if "p \<in> {lo..tm}" for p
    using fit [of p] that tm by (simp add: use)
  have fr: "0 \<le> seg_use (seg_create r) (tm + 1) hi p + z \<and> seg_use (seg_create r) (tm + 1) hi p + z \<le> i64_max" if "p \<in> {tm + 1..hi}" for p
    using fit [of p] that tm by (simp add: use split: if_splits)
  have okl: "seg_ok (seg_create l) lo tm" and okr: "seg_ok (seg_create r) (tm + 1) hi" and le: "tm + 1 \<le> hi"
    using parts tm by simp_all
  note bl = seg_bump_ok [OF okl seg_create_ok(3) tm(1) fl] and br = seg_bump_ok [OF okr seg_create_ok(3) le fr]
  show "lazy (seg_push n lo hi) = 0" "seg_t (seg_push n lo hi) = seg_t n" "seg_push n lo hi \<noteq> SNil"
    using lh by (auto simp: nd)
  show u: "seg_use (seg_push n lo hi) lo hi p = seg_use n lo hi p" if "p \<in> {lo..hi}" for p
    using bl(2) [of p] br(2) [of p] that lh by (auto simp: nd Let_def tm_def)
  show "seg_ok (seg_push n lo hi) lo hi"
  proof (cases "z = 0")
    case False
    let ?x = "seg_bump z (seg_create l)" and ?y = "seg_bump z (seg_create r)"
    have p: "seg_push n lo hi = SNode ?x t 0 ?y" using False lh by (simp add: nd)
    have "0 \<le> seg_use (SNode ?x t 0 ?y) lo hi p" if "p \<in> {lo..hi}" for p
      using u [OF that] fit [OF that] unfolding p by simp
    moreover have "t = max (seg_max ?x) (seg_max ?y)" using parts(4) bl(3) br(3) by simp
    ultimately show ?thesis
      using bl(1,4) br(1,4) parts(5,6) lh unfolding p by (auto simp: Let_def tm_def simp del: seg_use.simps)
  qed (use ok in \<open>simp add: nd del: seg_ok.simps seg_use.simps\<close>)
qed

text \<open>What the recursive methods use of a pushed node: its two halves.\<close>

lemma seg_halves:
  assumes ok: "seg_ok n lo hi" and n: "n \<noteq> SNil" and lh: "lo < hi" and m: "m = lo + (hi - lo) div 2" and z: "lazy n = 0"
  shows "seg_ok (lc n) lo m" "seg_ok (rc n) (m + 1) hi" "lc n = SNil \<longleftrightarrow> rc n = SNil" "seg_t n = max (seg_max (lc n)) (seg_max (rc n))"
    "\<And>p. seg_use n lo hi p = (if p \<le> m then seg_use (lc n) lo m p else seg_use (rc n) (m + 1) hi p)"
  using assms by (cases n; auto simp: Let_def)+

lemma seg_build:
  assumes lh: "lo < hi" and m: "m = lo + (hi - lo) div 2" and x: "seg_ok x lo m" "seg_ok y (m + 1) hi" "x = SNil \<longleftrightarrow> y = SNil"
    and t: "t = max (seg_max x) (seg_max y)"
  shows "seg_ok (SNode x t 0 y) lo hi"
    "\<And>p. seg_use (SNode x t 0 y) lo hi p = (if p \<le> m then seg_use x lo m p else seg_use y (m + 1) hi p)"
proof -
  show u: "seg_use (SNode x t 0 y) lo hi p = (if p \<le> m then seg_use x lo m p else seg_use y (m + 1) hi p)" for p
    using lh by (simp add: m Let_def)
  have "0 \<le> seg_use (SNode x t 0 y) lo hi p" if "p \<in> {lo..hi}" for p
    using seg_use_bounds [OF x(1), of p] seg_use_bounds [OF x(2), of p] that by (auto simp: u simp del: seg_use.simps)
  then show "seg_ok (SNode x t 0 y) lo hi"
    using lh x t seg_max_bounds [OF x(1)] seg_max_bounds [OF x(2)] by (auto simp: Let_def m simp del: seg_use.simps)
qed

lemma seg_join_ok:
  assumes lh: "lo < hi" and m: "m = lo + (hi - lo) div 2" and x: "seg_ok x lo m" "seg_ok y (m + 1) hi" "x \<noteq> SNil" "y \<noteq> SNil"
  shows "seg_ok (seg_join x 0 y) lo hi" "seg_join x 0 y \<noteq> SNil"
    "\<And>p. p \<in> {lo..hi} \<Longrightarrow> seg_use (seg_join x 0 y) lo hi p = (if p \<le> m then seg_use x lo m p else seg_use y (m + 1) hi p)"
proof -
  note b = seg_build [OF lh m x(1,2) _ refl]
  have xy: "x = SNil \<longleftrightarrow> y = SNil" using x by simp
  show "seg_join x 0 y \<noteq> SNil" by (simp add: seg_join_def Let_def)
  show "seg_ok (seg_join x 0 y) lo hi"
    using b(1) [OF xy] new_node_ok(1) [of lo hi] by (simp add: seg_join_def Let_def new_node_def del: seg_ok.simps)
  show "seg_use (seg_join x 0 y) lo hi p = (if p \<le> m then seg_use x lo m p else seg_use y (m + 1) hi p)"
    if p: "p \<in> {lo..hi}" for p
  proof (cases "max (seg_max x) (seg_max y) = 0")
    case True
    then have "seg_use x lo m p = 0" if "p \<le> m" using seg_use_bounds [OF x(1), of p] p that by auto
    moreover have "seg_use y (m + 1) hi p = 0" if "\<not> p \<le> m" using seg_use_bounds [OF x(2), of p] p that True by auto
    ultimately show ?thesis
      using True new_node_ok(2) [of lo hi p] by (simp add: seg_join_def Let_def new_node_def)
  next
    case False
    then show ?thesis using b(2) [OF xy] by (simp add: seg_join_def Let_def del: seg_use.simps)
  qed
qed


declare seg_use.simps(2) [simp del] seg_ok.simps(2) [simp del]

text \<open>An addition returns, adds exactly on its range and touches nothing else.\<close>

lemma seg_add_ok:
  assumes "seg_ok n lo hi" "n \<noteq> SNil" "0 \<le> lo" "lo \<le> hi" "hi \<le> i64_max" "l \<le> r \<longrightarrow> lo \<le> l \<and> r \<le> hi"
    "\<And>p. p \<in> {l..r} \<Longrightarrow> 0 \<le> seg_use n lo hi p + a \<and> seg_use n lo hi p + a \<le> i64_max"
  shows "\<exists>n'. seg_add n lo hi l r a = Some n' \<and> n' \<noteq> SNil \<and> seg_ok n' lo hi
    \<and> (\<forall>p \<in> {lo..hi}. seg_use n' lo hi p = seg_use n lo hi p + (if l \<le> p \<and> p \<le> r then a else 0))"
  using assms
proof (induction "nat (hi - lo)" arbitrary: n lo hi l r rule: less_induct)
  case less
  note ok = less.prems(1) and n = less.prems(2) and rng = less.prems(3-5) and in_seg = less.prems(6) and fits = less.prems(7)
  consider "r < l" | "l = lo" "r = hi" | "l \<le> r" "\<not> (l = lo \<and> r = hi)" by linarith
  then show ?case
  proof cases
    case 1 then show ?thesis using ok n by (intro exI [of _ n]) (auto simp: seg_add.simps [of n])
  next
    case 2
    then show ?thesis
      using seg_bump_ok [OF ok n rng(2), of a] fits rng(2) n
      by (intro exI [of _ "seg_bump a n"]) (simp add: seg_add.simps [of n])
  next
    case 3
    then have lh: "lo < hi" using in_seg rng by force
    define m where "m = lo + (hi - lo) div 2"
    note mid = seg_mid_eq [OF rng(1) lh rng(3), folded m_def]
    define c where "c = seg_push n lo hi"
    note push = seg_push_ok [OF ok n lh, folded c_def]
    note half = seg_halves [OF push(1,4) lh m_def push(2)]
    have useL: "seg_use n lo hi p = seg_use (lc c) lo m p" if "p \<in> {lo..m}" for p
      using push(5) [of p] half(5) [of p] that mid by simp
    have useR: "seg_use n lo hi p = seg_use (rc c) (m + 1) hi p" if "p \<in> {m + 1..hi}" for p
      using push(5) [of p] half(5) [of p] that mid by simp
    have fitL: "0 \<le> seg_use (seg_create (lc c)) lo m p + a \<and> seg_use (seg_create (lc c)) lo m p + a \<le> i64_max" if "p \<in> {l..min r m}" for p
      using fits [of p] useL [of p] that in_seg 3 by simp
    have fitR: "0 \<le> seg_use (seg_create (rc c)) (m + 1) hi p + a \<and> seg_use (seg_create (rc c)) (m + 1) hi p + a \<le> i64_max" if "p \<in> {max l (m + 1)..r}" for p
      using fits [of p] useR [of p] that in_seg 3 by simp
    have small: "nat (m - lo) < nat (hi - lo)" "nat (hi - (m + 1)) < nat (hi - lo)" "m \<le> i64_max" "0 \<le> m + 1" "m + 1 \<le> hi"
      "l \<le> min r m \<longrightarrow> lo \<le> l \<and> min r m \<le> m" "max l (m + 1) \<le> r \<longrightarrow> m + 1 \<le> max l (m + 1) \<and> r \<le> hi"
      using mid(3,4) rng in_seg 3(1) by auto
    obtain x where x: "seg_add (seg_create (lc c)) lo m l (min r m) a = Some x" "x \<noteq> SNil" "seg_ok x lo m"
      "\<forall>p \<in> {lo..m}. seg_use x lo m p = seg_use (lc c) lo m p + (if l \<le> p \<and> p \<le> min r m then a else 0)"
      using less.hyps [OF small(1) _ seg_create_ok(3) rng(1) mid(3) small(3,6) fitL] half(1) by auto
    obtain y where y: "seg_add (seg_create (rc c)) (m + 1) hi (max l (m + 1)) r a = Some y" "y \<noteq> SNil" "seg_ok y (m + 1) hi"
      "\<forall>p \<in> {m + 1..hi}. seg_use y (m + 1) hi p = seg_use (rc c) (m + 1) hi p + (if max l (m + 1) \<le> p \<and> p \<le> r then a else 0)"
      using less.hyps [OF small(2) _ seg_create_ok(3) small(4,5) rng(3) small(7) fitR] half(2) by auto
    have step: "seg_add n lo hi l r a = Some (seg_join x 0 y)"
      using 3 n x(1) y(1) push(2) mid(1,2) by (subst seg_add.simps) (auto simp: Let_def c_def [symmetric])
    note j = seg_join_ok [OF lh m_def x(3) y(3) x(2) y(2)]
    have "seg_use (seg_join x 0 y) lo hi p = seg_use n lo hi p + (if l \<le> p \<and> p \<le> r then a else 0)" if p: "p \<in> {lo..hi}" for p
      using j(3) [OF p] p x(4) y(4) useL [of p] useR [of p] by auto
    then show ?thesis using step j(1,2) by auto
  qed
qed

text \<open>Reads push lazy values down; the tree they leave says the same.\<close>

definition seg_same :: "int \<Rightarrow> int \<Rightarrow> seg_node \<Rightarrow> seg_node \<Rightarrow> bool" where
  "seg_same lo hi n n' \<longleftrightarrow> seg_ok n' lo hi \<and> (n' = SNil \<longleftrightarrow> n = SNil) \<and> seg_max n' = seg_max n
     \<and> (\<forall>p \<in> {lo..hi}. seg_use n' lo hi p = seg_use n lo hi p)"

lemma seg_same_refl: "seg_ok n lo hi \<Longrightarrow> seg_same lo hi n n"
  by (simp add: seg_same_def)

lemma seg_same_push:
  assumes ok: "seg_ok n lo hi" and n: "n \<noteq> SNil" and lh: "lo < hi" and m: "m = lo + (hi - lo) div 2"
    and c: "c = seg_push n lo hi" and x: "seg_same lo m (lc c) x" and y: "seg_same (m + 1) hi (rc c) y"
  shows "seg_same lo hi n (SNode x (seg_t c) (lazy c) y)"
proof -
  note push = seg_push_ok [OF ok n lh, folded c]
  note half = seg_halves [OF push(1,4) lh m push(2)]
  note b = seg_build [OF lh m, of x y "seg_t c"]
  have pre: "seg_ok x lo m" "seg_ok y (m + 1) hi" "x = SNil \<longleftrightarrow> y = SNil" "seg_t c = max (seg_max x) (seg_max y)"
    using x y half(3,4) by (simp_all add: seg_same_def)
  have "seg_use (SNode x (seg_t c) 0 y) lo hi p = seg_use n lo hi p" if "p \<in> {lo..hi}" for p
    using b(2) [OF pre, of p] half(5) [of p] push(5) [OF that] x y that by (simp add: seg_same_def)
  moreover have "seg_max n = seg_t n" using n by (cases n) auto
  ultimately show ?thesis using b(1) [OF pre] n push(2,3) by (simp add: seg_same_def)
qed

lemma seg_get_ok:
  assumes "seg_ok n lo hi" "0 \<le> lo" "lo \<le> hi" "hi \<le> i64_max" "pos \<in> {lo..hi}"
  shows "\<exists>n'. seg_get n lo hi pos = Some (seg_use n lo hi pos, n') \<and> seg_same lo hi n n'"
  using assms
proof (induction "nat (hi - lo)" arbitrary: n lo hi rule: less_induct)
  case less
  note ok = less.prems(1) and rng = less.prems(2-4) and pos = less.prems(5)
  consider "n = SNil \<or> seg_t n = 0" | "n \<noteq> SNil" "seg_t n \<noteq> 0" "lo = hi" | "n \<noteq> SNil" "seg_t n \<noteq> 0" "lo < hi"
    using rng(2) by linarith
  then show ?case
  proof cases
    case 1
    then have "seg_use n lo hi pos = 0" using seg_use_bounds [OF ok pos] by (cases n) auto
    then show ?thesis using 1 seg_same_refl [OF ok] by (subst seg_get.simps) simp
  next
    case 2
    then have "seg_use n lo hi pos = seg_t n" by (cases n) (auto simp: seg_use.simps)
    then show ?thesis using 2 seg_same_refl [OF ok] by (subst seg_get.simps) simp
  next
    case 3
    note n = 3(1) and lh = 3(3)
    define m where "m = lo + (hi - lo) div 2"
    note mid = seg_mid_eq [OF rng(1) lh rng(3), folded m_def]
    define c where "c = seg_push n lo hi"
    note push = seg_push_ok [OF ok n lh, folded c_def]
    note half = seg_halves [OF push(1,4) lh m_def push(2)] and same = seg_same_push [OF ok n lh m_def c_def]
    have unf: "seg_get n lo hi pos = (if pos \<le> m
       then Option.bind (seg_get (lc c) lo m pos) (\<lambda>(v, x). Some (v, SNode x (seg_t c) (lazy c) (rc c)))
       else Option.bind (seg_get (rc c) (m + 1) hi pos) (\<lambda>(v, y). Some (v, SNode (lc c) (seg_t c) (lazy c) y)))"
      using 3 mid(1,2) by (subst seg_get.simps) (simp add: Let_def c_def [symmetric])
    have use: "seg_use n lo hi pos = (if pos \<le> m then seg_use (lc c) lo m pos else seg_use (rc c) (m + 1) hi pos)"
      using half(5) [of pos] push(5) [OF pos] by simp
    have L: "\<exists>x. seg_get (lc c) lo m pos = Some (seg_use (lc c) lo m pos, x) \<and> seg_same lo m (lc c) x" if "pos \<le> m"
      using less.hyps [of m lo "lc c"] half(1) mid rng pos that by auto
    have R: "\<exists>y. seg_get (rc c) (m + 1) hi pos = Some (seg_use (rc c) (m + 1) hi pos, y) \<and> seg_same (m + 1) hi (rc c) y" if "\<not> pos \<le> m"
      using less.hyps [of hi "m + 1" "rc c"] half(2) mid rng pos that by auto
    show ?thesis
      using L R unf use same seg_same_refl [OF half(1)] seg_same_refl [OF half(2)] by (cases "pos \<le> m") auto
  qed
qed

text \<open>The maximum over a range of positions, zero for an empty one.\<close>

definition max_use :: "(int \<Rightarrow> int) \<Rightarrow> int \<Rightarrow> int \<Rightarrow> int" where
  "max_use f l r = (if l \<le> r then Max (f ` {l..r}) else 0)"

lemma max_use_eqI: "l \<le> r \<Longrightarrow> (\<And>p. l \<le> p \<Longrightarrow> p \<le> r \<Longrightarrow> f p \<le> v) \<Longrightarrow> \<exists>p \<in> {l..r}. f p = v \<Longrightarrow> max_use f l r = v"
  unfolding max_use_def by (auto intro!: Max_eqI)

lemma max_use_cong: "(\<And>p. p \<in> {l..r} \<Longrightarrow> f p = g p) \<Longrightarrow> max_use f l r = max_use g l r"
  unfolding max_use_def by (metis (no_types, lifting) image_cong)

lemma max_use_ge: "p \<in> {l..r} \<Longrightarrow> f p \<le> max_use f l r"
  unfolding max_use_def by auto

lemma max_use_attained: "l \<le> r \<Longrightarrow> \<exists>p \<in> {l..r}. max_use f l r = f p"
  unfolding max_use_def using Max_in [of "f ` {l..r}"] by (auto simp del: Max_in)

lemma max_use_nonneg: "(\<And>p. p \<in> {l..r} \<Longrightarrow> 0 \<le> f p) \<Longrightarrow> 0 \<le> max_use f l r"
  using max_use_attained [of l r f] by (auto simp: max_use_def)

lemma max_use_join:
  assumes "lo \<le> m" "m < hi" "\<And>p. p \<in> {lo..hi} \<Longrightarrow> 0 \<le> f p" "l \<le> r" "lo \<le> r" "l \<le> hi"
  shows "max_use f (max l lo) (min r hi) = max (max_use f (max l lo) (min r m)) (max_use f (max l (m + 1)) (min r hi))"
proof (rule max_use_eqI)
  let ?A = "max_use f (max l lo) (min r m)" and ?B = "max_use f (max l (m + 1)) (min r hi)"
  show "f p \<le> max ?A ?B" if "max l lo \<le> p" "p \<le> min r hi" for p
    using that max_use_ge [of p "max l lo" "min r m" f] max_use_ge [of p "max l (m + 1)" "min r hi" f] by (cases "p \<le> m") auto
  have n: "0 \<le> ?A" "0 \<le> ?B" using assms by (auto intro!: max_use_nonneg)
  have A: "\<exists>p \<in> {max l lo..min r hi}. f p = ?A" if "max l lo \<le> min r m"
    using max_use_attained [OF that, of f] assms by force
  have B: "\<exists>p \<in> {max l lo..min r hi}. f p = ?B" if "max l (m + 1) \<le> min r hi"
    using max_use_attained [OF that, of f] assms by force
  show "\<exists>p \<in> {max l lo..min r hi}. f p = max ?A ?B"
  proof (cases "max l lo \<le> min r m")
    case True
    show ?thesis
    proof (cases "max l (m + 1) \<le> min r hi")
      case B2: True
      show ?thesis using A [OF True] B [OF B2] by (auto simp: max_def)
    next
      case False
      then have "?B = 0" by (auto simp: max_use_def)
      then show ?thesis using A [OF True] n by simp
    qed
  next
    case False
    then have "?A = 0" by (auto simp: max_use_def)
    moreover have "max l (m + 1) \<le> min r hi" using False assms by auto
    ultimately show ?thesis using B n by simp
  qed
qed (use assms in auto)

lemma seg_querymax_ok:
  assumes "seg_ok n lo hi" "0 \<le> lo" "lo \<le> hi" "hi \<le> i64_max" "r \<le> hi"
  shows "\<exists>n'. seg_querymax n lo hi l r = Some (max_use (seg_use n lo hi) (max l lo) r, n') \<and> seg_same lo hi n n'"
  using assms
proof (induction "nat (hi - lo)" arbitrary: n lo hi l r rule: less_induct)
  case less
  note ok = less.prems(1) and rng = less.prems(2-4) and r = less.prems(5)
  consider "n = SNil \<or> l > r" | "n \<noteq> SNil" "l \<le> r" "l \<le> lo" "hi \<le> r" | "n \<noteq> SNil" "l \<le> r" "\<not> (l \<le> lo \<and> hi \<le> r)"
    by linarith
  then show ?case
  proof cases
    case 1
    then have "max_use (seg_use n lo hi) (max l lo) r = 0" by (auto simp: max_use_def)
    then show ?thesis using 1 seg_same_refl [OF ok] by (subst seg_querymax.simps) simp
  next
    case 2
    then have "max_use (seg_use n lo hi) (max l lo) r = seg_t n"
      using seg_use_bounds [OF ok] seg_use_attained [OF ok rng(2)] r
      by (intro max_use_eqI) (cases n; force)+
    then show ?thesis using 2 seg_same_refl [OF ok] by (subst seg_querymax.simps) simp
  next
    case 3
    note n = 3(1)
    show ?thesis
    proof (cases "lo < hi")
      case lh: True
      define m where "m = lo + (hi - lo) div 2"
      note mid = seg_mid_eq [OF rng(1) lh rng(3), folded m_def]
      define c where "c = seg_push n lo hi"
      note push = seg_push_ok [OF ok n lh, folded c_def]
      note half = seg_halves [OF push(1,4) lh m_def push(2)]
      have unf: "seg_querymax n lo hi l r =
         Option.bind (seg_querymax (lc c) lo m l (min r m)) (\<lambda>(v, x).
         Option.bind (seg_querymax (rc c) (m + 1) hi (max l (m + 1)) r) (\<lambda>(w, y). Some (max v w, SNode x (seg_t c) (lazy c) y)))"
        using 3 mid(1,2) by (subst seg_querymax.simps) (auto simp: Let_def c_def [symmetric])
      obtain x where x: "seg_querymax (lc c) lo m l (min r m) = Some (max_use (seg_use (lc c) lo m) (max l lo) (min r m), x)" "seg_same lo m (lc c) x"
        using less.hyps [of m lo "lc c" "min r m" l] half(1) mid rng by auto
      obtain y where y: "seg_querymax (rc c) (m + 1) hi (max l (m + 1)) r = Some (max_use (seg_use (rc c) (m + 1) hi) (max l (m + 1)) r, y)" "seg_same (m + 1) hi (rc c) y"
        using less.hyps [of hi "m + 1" "rc c" r "max l (m + 1)"] half(2) mid rng r by auto
      have u: "seg_use n lo hi p = (if p \<le> m then seg_use (lc c) lo m p else seg_use (rc c) (m + 1) hi p)" if "p \<in> {lo..hi}" for p
        using half(5) [of p] push(5) [OF that] by simp
      have eqL: "max_use (seg_use (lc c) lo m) (max l lo) (min r m) = max_use (seg_use n lo hi) (max l lo) (min r m)"
        by (rule max_use_cong) (use mid r in \<open>simp add: u\<close>)
      have eqR: "max_use (seg_use (rc c) (m + 1) hi) (max l (m + 1)) r = max_use (seg_use n lo hi) (max l (m + 1)) r"
        by (rule max_use_cong) (use mid r in \<open>simp add: u\<close>)
      have both: "max_use (seg_use n lo hi) (max l lo) r = max (max_use (seg_use n lo hi) (max l lo) (min r m)) (max_use (seg_use n lo hi) (max l (m + 1)) r)"
      proof (cases "lo \<le> r")
        case True
        have "0 \<le> seg_use n lo hi p" if "p \<in> {lo..hi}" for p using seg_use_bounds [OF ok that] by simp
        from max_use_join [OF mid(3,4) this 3(2) True] r 3 show ?thesis by (simp add: min_absorb1)
      next
        case False
        then show ?thesis using mid by (simp add: max_use_def)
      qed
      have "seg_same lo hi n (SNode x (seg_t c) (lazy c) y)" by (rule seg_same_push [OF ok n lh m_def c_def x(2) y(2)])
      then show ?thesis unfolding unf both x(1) y(1) eqL eqR by simp
    next
      case False
      then have eq: "lo = hi" using rng by simp
      then have "r < lo" using 3 r by auto
      obtain t z where nd: "n = SNode SNil t z SNil" using ok n eq by (cases n) (auto simp: seg_ok.simps)
      have "seg_querymax n lo hi l r = Some (0, n)"
        using 3 eq \<open>r < lo\<close> unfolding nd by (subst seg_querymax.simps) (simp add: Let_def seg_querymax.simps [of SNil])
      then show ?thesis using \<open>r < lo\<close> seg_same_refl [OF ok] by (simp add: max_use_def)
    qed
  qed
qed

section \<open>The contract of a usage tree\<close>

text \<open>
  What \<^verbatim>\<open>schedule.SegTree\<close> promises its clients: the tree stands for a usage of the positions
  \<open>0 \<dots> MaxInt64\<close> (\<open>stands\<close>), additions change it on their range as long as it stays within
  \<open>0 \<dots> MaxInt64\<close>, and reads report it. \<open>trees_stand\<close> is a map of such trees in which an
  unused key has no tree.
\<close>

locale usage_tree =
  fixes new_tree :: 't and add_use :: "int \<Rightarrow> int \<Rightarrow> int \<Rightarrow> 't \<Rightarrow> 't option" and get_use :: "int \<Rightarrow> 't \<Rightarrow> (int \<times> 't) option"
    and query_max :: "int \<Rightarrow> int \<Rightarrow> 't \<Rightarrow> (int \<times> 't) option" and total_use :: "'t \<Rightarrow> int" and stands :: "'t \<Rightarrow> (int \<Rightarrow> int) \<Rightarrow> bool"
  assumes new_stands: "stands new_tree (\<lambda>_. 0)"
    and stands_cong: "stands t f \<Longrightarrow> (\<And>p. p \<in> {0..i64_max} \<Longrightarrow> f p = g p) \<Longrightarrow> stands t g"
    and stands_bounds: "stands t f \<Longrightarrow> p \<in> {0..i64_max} \<Longrightarrow> 0 \<le> f p \<and> f p \<le> total_use t"
    and add_stands: "stands t f \<Longrightarrow> l \<le> r \<longrightarrow> 0 \<le> l \<and> r \<le> i64_max \<Longrightarrow>
      (\<And>p. p \<in> {l..r} \<Longrightarrow> 0 \<le> f p + a \<and> f p + a \<le> i64_max) \<Longrightarrow>
      \<exists>t'. add_use l r a t = Some t' \<and> stands t' (\<lambda>p. f p + (if l \<le> p \<and> p \<le> r then a else 0))"
    and get_stands: "stands t f \<Longrightarrow> p \<in> {0..i64_max} \<Longrightarrow> \<exists>t'. get_use p t = Some (f p, t') \<and> stands t' f"
    and query_stands: "stands t f \<Longrightarrow> r \<le> i64_max \<Longrightarrow> \<exists>t'. query_max l r t = Some (max_use f (max l 0) r, t') \<and> stands t' f"
begin

lemma total_zero: "stands t f \<Longrightarrow> total_use t = 0 \<Longrightarrow> p \<in> {0..i64_max} \<Longrightarrow> f p = 0"
  using stands_bounds by fastforce

fun slot_stands :: "'t option \<Rightarrow> (int \<Rightarrow> int) \<Rightarrow> bool" where
  "slot_stands None f \<longleftrightarrow> (\<forall>p \<in> {0..i64_max}. f p = 0)"
| "slot_stands (Some t) f \<longleftrightarrow> stands t f"

definition trees_stand :: "('k \<rightharpoonup> 't) \<Rightarrow> ('k \<Rightarrow> int \<Rightarrow> int) \<Rightarrow> bool" where
  "trees_stand m f \<longleftrightarrow> (\<forall>k. slot_stands (m k) (f k))"

lemma trees_stand_empty: "trees_stand Map.empty (\<lambda>_ _. 0)"
  by (simp add: trees_stand_def)

lemma slot_tree_stands: "slot_stands x f \<Longrightarrow> stands (case x of None \<Rightarrow> new_tree | Some t \<Rightarrow> t) f"
  by (cases x) (auto intro: stands_cong [OF new_stands])

lemma trees_stand_at: "trees_stand m f \<Longrightarrow> stands (case m k of None \<Rightarrow> new_tree | Some t \<Rightarrow> t) (f k)"
  using slot_tree_stands by (simp add: trees_stand_def)

text \<open>Adding at a key, with the tree dropped when nothing is used any more.\<close>

lemma trees_stand_add:
  assumes m: "trees_stand m f" and rng: "l \<le> r \<longrightarrow> 0 \<le> l \<and> r \<le> i64_max"
    and fit: "\<And>p. p \<in> {l..r} \<Longrightarrow> 0 \<le> f k p + a \<and> f k p + a \<le> i64_max"
  shows "\<exists>t'. add_use l r a (case m k of None \<Rightarrow> new_tree | Some t \<Rightarrow> t) = Some t'
    \<and> trees_stand (if total_use t' = 0 then (m(k \<mapsto> t'))(k := None) else m(k \<mapsto> t'))
        (f(k := \<lambda>p. f k p + (if l \<le> p \<and> p \<le> r then a else 0)))"
proof -
  obtain t' where t': "add_use l r a (case m k of None \<Rightarrow> new_tree | Some t \<Rightarrow> t) = Some t'"
    "stands t' (\<lambda>p. f k p + (if l \<le> p \<and> p \<le> r then a else 0))"
    using add_stands [OF trees_stand_at [OF m] rng fit] by blast
  show ?thesis
  proof (intro exI conjI, rule t'(1))
    show "trees_stand (if total_use t' = 0 then (m(k \<mapsto> t'))(k := None) else m(k \<mapsto> t'))
        (f(k := \<lambda>p. f k p + (if l \<le> p \<and> p \<le> r then a else 0)))"
      using m t'(2) total_zero [OF t'(2)] by (auto simp: trees_stand_def)
  qed
qed

lemma trees_stand_query:
  assumes m: "trees_stand m f" and k: "m k = Some t" and r: "r \<le> i64_max"
  shows "\<exists>t'. query_max l r t = Some (max_use (f k) (max l 0) r, t') \<and> trees_stand (m(k \<mapsto> t')) f"
proof -
  have "stands t (f k)" using trees_stand_at [OF m, of k] k by simp
  from query_stands [OF this r, of l] obtain t' where t': "query_max l r t = Some (max_use (f k) (max l 0) r, t')" "stands t' (f k)" by blast
  then have "trees_stand (m(k \<mapsto> t')) f" using m by (auto simp: trees_stand_def)
  then show ?thesis using t'(1) by blast
qed

end

definition seg_stands :: "DynSegTree \<Rightarrow> (int \<Rightarrow> int) \<Rightarrow> bool" where
  "seg_stands d f \<longleftrightarrow> seg_L d = 0 \<and> seg_R d = i64_max \<and> seg_root d \<noteq> SNil \<and> seg_ok (seg_root d) 0 i64_max
     \<and> (\<forall>p \<in> {0..i64_max}. seg_use (seg_root d) 0 i64_max p = f p)"

lemma Total_eq: "Total d = seg_max (seg_root d)"
  by (cases "seg_root d") (simp_all add: Total_def)

lemma i64_max_pos: "(0 :: int) \<le> i64_max"
  by (simp add: i64_max_def)

interpretation seg: usage_tree New DynSegTree_Add DynSegTree_Get DynSegTree_QueryMax Total seg_stands
proof
  show "seg_stands New (\<lambda>_. 0)" by (simp add: seg_stands_def New_def)
  show "seg_stands t g" if "seg_stands t f" "\<And>p. p \<in> {0..i64_max} \<Longrightarrow> f p = g p" for t f g
    using that by (simp add: seg_stands_def)
  show "0 \<le> f p \<and> f p \<le> Total t" if "seg_stands t f" "p \<in> {0..i64_max}" for t f p
    using seg_use_bounds [of "seg_root t" 0 i64_max p] that by (auto simp: seg_stands_def Total_eq)
  show "\<exists>t'. DynSegTree_Add l r a t = Some t' \<and> seg_stands t' (\<lambda>p. f p + (if l \<le> p \<and> p \<le> r then a else 0))"
    if t: "seg_stands t f" and rng: "l \<le> r \<longrightarrow> 0 \<le> l \<and> r \<le> i64_max" and fit: "\<And>p. p \<in> {l..r} \<Longrightarrow> 0 \<le> f p + a \<and> f p + a \<le> i64_max" for t f l r a
  proof -
    have "0 \<le> seg_use (seg_root t) 0 i64_max p + a \<and> seg_use (seg_root t) 0 i64_max p + a \<le> i64_max" if "p \<in> {l..r}" for p
      using fit [OF that] t rng that by (auto simp: seg_stands_def)
    then show ?thesis
      using seg_add_ok [of "seg_root t" 0 i64_max l r a] t rng i64_max_pos by (auto simp: seg_stands_def DynSegTree_Add_def)
  qed
  show "\<exists>t'. DynSegTree_Get p t = Some (f p, t') \<and> seg_stands t' f" if "seg_stands t f" "p \<in> {0..i64_max}" for t f p
    using seg_get_ok [of "seg_root t" 0 i64_max p] that i64_max_pos by (auto simp: seg_stands_def DynSegTree_Get_def seg_same_def)
  show "\<exists>t'. DynSegTree_QueryMax l r t = Some (max_use f (max l 0) r, t') \<and> seg_stands t' f" if t: "seg_stands t f" and r: "r \<le> i64_max" for t f l r
  proof -
    have "max_use (seg_use (seg_root t) 0 i64_max) (max l 0) r = max_use f (max l 0) r"
      by (rule max_use_cong) (use t r in \<open>auto simp: seg_stands_def\<close>)
    then show ?thesis
      using seg_querymax_ok [of "seg_root t" 0 i64_max r l] t r i64_max_pos by (auto simp: seg_stands_def DynSegTree_QueryMax_def seg_same_def)
  qed
qed

text \<open>A negative left bound is never matched: the recursion goes left for ever.\<close>

lemma seg_add_diverges:
  assumes "n \<noteq> SNil" "l \<le> r" "l < 0" "0 \<le> lo" "lo \<le> hi" "hi \<le> i64_max"
  shows "seg_add n lo hi l r a = None"
proof (rule ccontr)
  assume "seg_add n lo hi l r a \<noteq> None"
  then obtain y where y: "seg_add n lo hi l r a = Some y" by blast
  have "n \<noteq> SNil \<and> l \<le> r \<and> l < 0 \<and> 0 \<le> lo \<and> lo \<le> hi \<and> hi \<le> i64_max \<longrightarrow> False"
  proof (rule seg_add.raw_induct [where P = "\<lambda>n lo hi l r a y. n \<noteq> SNil \<and> l \<le> r \<and> l < 0 \<and> 0 \<le> lo \<and> lo \<le> hi \<and> hi \<le> i64_max \<longrightarrow> False", OF _ y])
    fix f n lo hi l r a y
    assume IH: "\<And>n lo hi l r a y. f n lo hi l r a = Some y \<Longrightarrow> n \<noteq> SNil \<and> l \<le> r \<and> l < 0 \<and> 0 \<le> lo \<and> lo \<le> hi \<and> hi \<le> i64_max \<longrightarrow> False"
      and eq: "(if n = SNil \<or> l > r then Some n else if l = lo \<and> r = hi then Some (seg_bump a n)
        else let n = seg_push n lo hi; tm = seg_mid lo hi in
          Option.bind (f (seg_create (lc n)) lo tm l (min r tm) a) (\<lambda>x.
          Option.bind (f (seg_create (rc n)) (i64 (tm + 1)) hi (max l (i64 (tm + 1))) r a) (\<lambda>y.
          Some (seg_join x (lazy n) y)))) = Some y"
    show "n \<noteq> SNil \<and> l \<le> r \<and> l < 0 \<and> 0 \<le> lo \<and> lo \<le> hi \<and> hi \<le> i64_max \<longrightarrow> False"
    proof
      assume pre: "n \<noteq> SNil \<and> l \<le> r \<and> l < 0 \<and> 0 \<le> lo \<and> lo \<le> hi \<and> hi \<le> i64_max"
      then obtain x where "f (seg_create (lc (seg_push n lo hi))) lo (seg_mid lo hi) l (min r (seg_mid lo hi)) a = Some x"
        using eq by (auto simp: Let_def bind_eq_Some_conv)
      moreover have "lo \<le> seg_mid lo hi \<and> seg_mid lo hi \<le> hi"
      proof (cases "lo < hi")
        case False
        then show ?thesis using pre by (simp add: seg_mid_def go_div_def i64_id in_i64_def i64_min_def i64_max_def)
      qed (use pre seg_mid_eq [of lo hi] in auto)
      ultimately show False using IH pre by fastforce
    qed
  qed
  then show False using assms by blast
qed

section \<open>Properties\<close>

text \<open>C39: C37: additions end and are exact. On a tree that stands for a usage, an addition to a range
  of positions that keeps the usage within \<open>0 \<dots> MaxInt64\<close> returns; afterwards each position reads
  its old usage plus the addition inside the range and its old usage outside. A negative left
  bound makes the recursion endless instead.
\<close>

theorem DynSegTree_Add_exact:
  assumes t: "seg_stands t f" and fit: "\<And>p. p \<in> {l..r} \<Longrightarrow> 0 \<le> f p + a \<and> f p + a \<le> i64_max"
    and r: "r \<le> i64_max" and lr: "l \<le> r"
  shows "(0 \<le> l \<longrightarrow> (\<exists>t'. DynSegTree_Add l r a t = Some t' \<and>
      (\<forall>p \<in> {0..i64_max}. \<exists>t''. DynSegTree_Get p t' = Some (f p + (if l \<le> p \<and> p \<le> r then a else 0), t''))))
    \<and> (l < 0 \<longrightarrow> DynSegTree_Add l r a t = None)"
proof (intro conjI impI)
  assume "0 \<le> l"
  then obtain t' where t': "DynSegTree_Add l r a t = Some t'" "seg_stands t' (\<lambda>p. f p + (if l \<le> p \<and> p \<le> r then a else 0))"
    using seg.add_stands [OF t _ fit] r by blast
  have "\<exists>t''. DynSegTree_Get p t' = Some (f p + (if l \<le> p \<and> p \<le> r then a else 0), t'')" if "p \<in> {0..i64_max}" for p
    using seg.get_stands [OF t'(2) that] by blast
  then show "\<exists>t'. DynSegTree_Add l r a t = Some t' \<and>
      (\<forall>p \<in> {0..i64_max}. \<exists>t''. DynSegTree_Get p t' = Some (f p + (if l \<le> p \<and> p \<le> r then a else 0), t''))"
    using t'(1) by blast
next
  assume "l < 0"
  then show "DynSegTree_Add l r a t = None"
    using seg_add_diverges [of "seg_root t" l r 0 i64_max a] t lr i64_max_pos by (simp add: seg_stands_def DynSegTree_Add_def)
qed

theorem DynSegTree_Add_exact_witness:
  "\<exists>t'. DynSegTree_Add 3 9 5 New = Some t' \<and> (\<exists>t''. DynSegTree_Get 4 t' = Some (5, t'')) \<and> (\<exists>t''. DynSegTree_Get 2 t' = Some (0, t''))"
proof -
  have fit: "0 \<le> (0 :: int) + 5 \<and> (0 :: int) + 5 \<le> i64_max" and le: "9 \<le> i64_max" "(3 :: int) \<le> 9" by (simp_all add: i64_max_def)
  obtain t' where t': "DynSegTree_Add 3 9 5 New = Some t'"
    "\<forall>p \<in> {0..i64_max}. \<exists>t''. DynSegTree_Get p t' = Some ((\<lambda>_. 0) p + (if 3 \<le> p \<and> p \<le> 9 then 5 else 0), t'')"
    using DynSegTree_Add_exact [OF seg.new_stands fit le] by auto
  have "(4 :: int) \<in> {0..i64_max}" "(2 :: int) \<in> {0..i64_max}" by (simp_all add: i64_max_def)
  then have "\<exists>t''. DynSegTree_Get 4 t' = Some (5, t'')" "\<exists>t''. DynSegTree_Get 2 t' = Some (0, t'')" using t'(2) by fastforce+
  then show ?thesis using t'(1) by blast
qed

end
