(* ===== verification/Job_Scheduler.thy ===== *)
theory Job_Scheduler
  imports Dyn_Seg_Tree Net_Addr
begin

text \<open>
  The dispatcher's bandwidth schedule, \<^verbatim>\<open>internal/dispatcher/resource/schedule/schedule.go\<close>: one
  usage tree per executor and per destination, positions being multiples of the granularity.
  Times are their \<open>UnixNano\<close> values. An operation yields \<open>None\<close> if it does not return, \<open>Inl\<close> if
  it panics. The trees enter only through the contract \<open>usage_tree\<close>.
\<close>

section \<open>The model\<close>

record Request =
  req_Executor :: string
  req_Destination :: "string list"
  req_From :: int
  req_To :: int
  req_Use :: int

record JobScheduler =
  execTrees :: "string \<rightharpoonup> DynSegTree"
  destTrees :: "string \<rightharpoonup> DynSegTree"
  granularity :: int

datatype sched_panic = GranularityNotPositive | NegativeFromTo

definition JobScheduler_New :: "int \<Rightarrow> sched_panic + JobScheduler" where
  "JobScheduler_New g = (if g \<le> 0 then Inl GranularityNotPositive
     else Inr \<lparr>execTrees = Map.empty, destTrees = Map.empty, granularity = g\<rparr>)"

definition ceil :: "int \<Rightarrow> int \<Rightarrow> int" where
  "ceil a b = (if a = 0 then 0 else i64 (1 + go_div (i64 (a - 1)) b))"

text \<open>The body that \<open>submitExec\<close> and \<open>submitDest\<close> share, on the map each of them updates.\<close>

definition submit_tree :: "string \<Rightarrow> int \<Rightarrow> int \<Rightarrow> int \<Rightarrow> (string \<rightharpoonup> DynSegTree) \<Rightarrow> (string \<rightharpoonup> DynSegTree) option" where
  "submit_tree k from to use m =
     map_option (\<lambda>t. if Total t = 0 then (m(k \<mapsto> t))(k := None) else m(k \<mapsto> t))
       (DynSegTree_Add from to use (case m k of None \<Rightarrow> New | Some t \<Rightarrow> t))"

definition submitExec :: "string \<Rightarrow> int \<Rightarrow> int \<Rightarrow> int \<Rightarrow> JobScheduler \<Rightarrow> JobScheduler option" where
  "submitExec executor from to use j = map_option (\<lambda>m. j\<lparr>execTrees := m\<rparr>) (submit_tree executor from to use (execTrees j))"

definition submitDest :: "string \<Rightarrow> int \<Rightarrow> int \<Rightarrow> int \<Rightarrow> JobScheduler \<Rightarrow> JobScheduler option" where
  "submitDest destination from to use j = map_option (\<lambda>m. j\<lparr>destTrees := m\<rparr>) (submit_tree destination from to use (destTrees j))"

text \<open>The loop over the request's destinations; \<open>seen\<close> is the set of keys charged already.\<close>

fun submit_dests :: "string set \<Rightarrow> string list \<Rightarrow> int \<Rightarrow> int \<Rightarrow> int \<Rightarrow> JobScheduler \<Rightarrow> JobScheduler option" where
  "submit_dests seen [] from to use j = Some j"
| "submit_dests seen (d # ds) from to use j =
    (let d = DestinationKey d in
     if d \<in> seen then submit_dests seen ds from to use j
     else Option.bind (submitDest d from to use j) (submit_dests (insert d seen) ds from to use))"

definition bucket_from :: "int \<Rightarrow> Request \<Rightarrow> int" where
  "bucket_from g q = go_div (req_From q) g"

definition bucket_to :: "int \<Rightarrow> Request \<Rightarrow> int" where
  "bucket_to g q = ceil (req_To q) g"

definition Submit :: "Request \<Rightarrow> JobScheduler \<Rightarrow> (sched_panic + JobScheduler) option" where
  "Submit q j = (let from = bucket_from (granularity j) q; to = bucket_to (granularity j) q in
     if from < 0 \<or> to < 0 then Some (Inl NegativeFromTo)
     else Option.bind (submitExec (req_Executor q) from to (req_Use q) j) (\<lambda>j.
       map_option Inr (submit_dests {} (req_Destination q) from to (req_Use q) j)))"

definition Scheduler_Remove :: "Request \<Rightarrow> JobScheduler \<Rightarrow> (sched_panic + JobScheduler) option" where
  "Scheduler_Remove q j = Submit (q\<lparr>req_Use := i64 (- req_Use q)\<rparr>) j"

definition queryMax :: "(string \<rightharpoonup> DynSegTree) \<Rightarrow> int \<Rightarrow> string \<Rightarrow> int \<Rightarrow> int \<Rightarrow> (int \<times> (string \<rightharpoonup> DynSegTree)) option" where
  "queryMax m g k from to = (let f = go_div from g; t = ceil to g in
     case m k of None \<Rightarrow> Some (0, m)
     | Some tree \<Rightarrow> map_option (\<lambda>(v, tree'). (v, m(k \<mapsto> tree'))) (DynSegTree_QueryMax f t tree))"

definition QueryMaxDest :: "string \<Rightarrow> int \<Rightarrow> int \<Rightarrow> JobScheduler \<Rightarrow> (int \<times> JobScheduler) option" where
  "QueryMaxDest d from to j = map_option (\<lambda>(v, m). (v, j\<lparr>destTrees := m\<rparr>)) (queryMax (destTrees j) (granularity j) (DestinationKey d) from to)"

definition QueryMaxExec :: "string \<Rightarrow> int \<Rightarrow> int \<Rightarrow> JobScheduler \<Rightarrow> (int \<times> JobScheduler) option" where
  "QueryMaxExec e from to j = map_option (\<lambda>(v, m). (v, j\<lparr>execTrees := m\<rparr>)) (queryMax (execTrees j) (granularity j) e from to)"

section \<open>The usage a schedule stands for\<close>

definition job_stands :: "JobScheduler \<Rightarrow> (string \<Rightarrow> int \<Rightarrow> int) \<Rightarrow> (string \<Rightarrow> int \<Rightarrow> int) \<Rightarrow> bool" where
  "job_stands j E D \<longleftrightarrow> 0 < granularity j \<and> in_i64 (granularity j) \<and> seg.trees_stand (execTrees j) E \<and> seg.trees_stand (destTrees j) D"

text \<open>What a request adds at a position.\<close>

definition req_at :: "int \<Rightarrow> Request \<Rightarrow> int \<Rightarrow> int" where
  "req_at g q p = (if bucket_from g q \<le> p \<and> p \<le> bucket_to g q then req_Use q else 0)"

definition exec_plus :: "int \<Rightarrow> Request \<Rightarrow> (string \<Rightarrow> int \<Rightarrow> int) \<Rightarrow> string \<Rightarrow> int \<Rightarrow> int" where
  "exec_plus g q E e p = E e p + (if e = req_Executor q then req_at g q p else 0)"

definition dest_plus :: "int \<Rightarrow> Request \<Rightarrow> (string \<Rightarrow> int \<Rightarrow> int) \<Rightarrow> string \<Rightarrow> int \<Rightarrow> int" where
  "dest_plus g q D d p = D d p + (if d \<in> DestinationKey ` set (req_Destination q) then req_at g q p else 0)"

definition fits64 :: "(string \<Rightarrow> int \<Rightarrow> int) \<Rightarrow> bool" where
  "fits64 F \<longleftrightarrow> (\<forall>k. \<forall>p \<in> {0..i64_max}. 0 \<le> F k p \<and> F k p \<le> i64_max)"

lemma submit_tree_stands:
  assumes m: "seg.trees_stand m F" and fr: "0 \<le> from" and to: "to \<le> i64_max"
    and fit: "\<And>p. p \<in> {from..to} \<Longrightarrow> 0 \<le> F k p + use \<and> F k p + use \<le> i64_max"
  shows "\<exists>m'. submit_tree k from to use m = Some m'
    \<and> seg.trees_stand m' (F(k := \<lambda>p. F k p + (if from \<le> p \<and> p \<le> to then use else 0)))"
  using seg.trees_stand_add [OF m _ fit] fr to by (fastforce simp: submit_tree_def)

lemma go_div_i64: "in_i64 a \<Longrightarrow> go_div a b \<le> i64_max \<and> i64_min \<le> go_div a b"
  using i64_in_range unfolding go_div_def in_i64_def by blast

lemma ceil_i64: "ceil a b \<le> i64_max"
  using i64_in_range unfolding ceil_def in_i64_def by (auto simp: i64_max_def)

text \<open>The loop charges each destination key once, whatever the spellings and repetitions.\<close>

lemma submit_dests_stands:
  assumes "seg.trees_stand (destTrees j) D" "0 \<le> from" "to \<le> i64_max"
    "\<And>d p. d \<in> DestinationKey ` set ds - seen \<Longrightarrow> p \<in> {from..to} \<Longrightarrow> 0 \<le> D d p + use \<and> D d p + use \<le> i64_max"
  shows "\<exists>j'. submit_dests seen ds from to use j = Some j' \<and> execTrees j' = execTrees j \<and> granularity j' = granularity j
    \<and> seg.trees_stand (destTrees j') (\<lambda>d p. D d p + (if d \<in> DestinationKey ` set ds - seen then (if from \<le> p \<and> p \<le> to then use else 0) else 0))"
  using assms
proof (induction ds arbitrary: seen j D)
  case Nil
  then show ?case by simp
next
  case (Cons d ds)
  let ?k = "DestinationKey d" and ?use = "\<lambda>p. if from \<le> p \<and> p \<le> to then use else 0"
  show ?case
  proof (cases "?k \<in> seen")
    case True
    then have "DestinationKey ` set (d # ds) - seen = DestinationKey ` set ds - seen" by auto
    then show ?thesis using Cons.IH [OF Cons.prems(1-3), of seen] Cons.prems(4) True by simp
  next
    case False
    obtain m where m: "submit_tree ?k from to use (destTrees j) = Some m"
      "seg.trees_stand m (D(?k := \<lambda>p. D ?k p + ?use p))"
      using submit_tree_stands [OF Cons.prems(1-3), of ?k use] Cons.prems(4) False by auto
    define D' where "D' = D(?k := \<lambda>p. D ?k p + ?use p)"
    have fit': "0 \<le> D' e p + use \<and> D' e p + use \<le> i64_max" if "e \<in> DestinationKey ` set ds - insert ?k seen" "p \<in> {from..to}" for e p
      using Cons.prems(4) [of e p] that by (auto simp: D'_def)
    have "seg.trees_stand (destTrees (j\<lparr>destTrees := m\<rparr>)) D'" using m(2) by (simp add: D'_def)
    from Cons.IH [where seen = "insert ?k seen", OF this Cons.prems(2,3)] fit'
    obtain j' where j': "submit_dests (insert ?k seen) ds from to use (j\<lparr>destTrees := m\<rparr>) = Some j'" "execTrees j' = execTrees j" "granularity j' = granularity j"
      "seg.trees_stand (destTrees j') (\<lambda>e p. D' e p + (if e \<in> DestinationKey ` set ds - insert ?k seen then ?use p else 0))"
      by auto
    moreover have "(\<lambda>e p. D' e p + (if e \<in> DestinationKey ` set ds - insert ?k seen then ?use p else 0)) =
        (\<lambda>e p. D e p + (if e \<in> DestinationKey ` set (d # ds) - seen then ?use p else 0))"
      using False by (auto simp: fun_eq_iff D'_def)
    ultimately show ?thesis using False m(1) by (simp add: submitDest_def Let_def)
  qed
qed

text \<open>Submitting adds the request at its executor and at each of its destinations.\<close>

lemma Submit_stands:
  assumes j: "job_stands j E D" and nn: "0 \<le> bucket_from (granularity j) q" "0 \<le> bucket_to (granularity j) q"
    and fit: "fits64 (exec_plus (granularity j) q E)" "fits64 (dest_plus (granularity j) q D)"
  shows "\<exists>j'. Submit q j = Some (Inr j') \<and> granularity j' = granularity j
    \<and> job_stands j' (exec_plus (granularity j) q E) (dest_plus (granularity j) q D)"
proof -
  let ?g = "granularity j" and ?e = "req_Executor q"
  let ?f = "bucket_from ?g q" and ?t = "bucket_to ?g q" and ?u = "req_Use q"
  have to: "?t \<le> i64_max" using ceil_i64 by (simp add: bucket_to_def)
  have fe: "0 \<le> E ?e p + ?u \<and> E ?e p + ?u \<le> i64_max" if p: "p \<in> {?f..?t}" for p
  proof -
    have "0 \<le> exec_plus ?g q E ?e p \<and> exec_plus ?g q E ?e p \<le> i64_max" using fit(1) p nn to by (simp add: fits64_def)
    then show ?thesis using p by (simp add: exec_plus_def req_at_def)
  qed
  have fd: "0 \<le> D d p + ?u \<and> D d p + ?u \<le> i64_max" if d: "d \<in> DestinationKey ` set (req_Destination q) - {}" and p: "p \<in> {?f..?t}" for d p
  proof -
    have "0 \<le> dest_plus ?g q D d p \<and> dest_plus ?g q D d p \<le> i64_max" using fit(2) p nn to by (simp add: fits64_def)
    then show ?thesis using d p by (simp add: dest_plus_def req_at_def)
  qed
  have js: "seg.trees_stand (execTrees j) E" "seg.trees_stand (destTrees j) D" "0 < ?g" "in_i64 ?g" using j by (simp_all add: job_stands_def)
  obtain m where m: "submit_tree ?e ?f ?t ?u (execTrees j) = Some m"
    "seg.trees_stand m (E(?e := \<lambda>p. E ?e p + (if ?f \<le> p \<and> p \<le> ?t then ?u else 0)))"
    using submit_tree_stands [OF js(1) nn(1) to fe] by blast
  have eE: "E(?e := \<lambda>p. E ?e p + (if ?f \<le> p \<and> p \<le> ?t then ?u else 0)) = exec_plus ?g q E"
    by (auto simp: fun_eq_iff exec_plus_def req_at_def)
  have ds: "seg.trees_stand (destTrees (j\<lparr>execTrees := m\<rparr>)) D" using js(2) by simp
  obtain j' where j': "submit_dests {} (req_Destination q) ?f ?t ?u (j\<lparr>execTrees := m\<rparr>) = Some j'" "execTrees j' = m" "granularity j' = ?g"
    "seg.trees_stand (destTrees j') (\<lambda>d p. D d p + (if d \<in> DestinationKey ` set (req_Destination q) - {} then (if ?f \<le> p \<and> p \<le> ?t then ?u else 0) else 0))"
    using submit_dests_stands [where ds = "req_Destination q" and seen = "{}" and use = ?u, OF ds nn(1) to] fd by auto
  have eD: "(\<lambda>d p. D d p + (if d \<in> DestinationKey ` set (req_Destination q) - {} then (if ?f \<le> p \<and> p \<le> ?t then ?u else 0) else 0)) = dest_plus ?g q D"
    by (auto simp: fun_eq_iff dest_plus_def req_at_def)
  show ?thesis
    using j' m js nn unfolding eE eD
    by (intro exI [of _ j']) (simp add: Submit_def Let_def submitExec_def job_stands_def)
qed

lemma queryMax_stands:
  assumes m: "seg.trees_stand m F" and fit: "fits64 F"
  shows "\<exists>m'. queryMax m g k from to = Some (max_use (F k) (max (go_div from g) 0) (ceil to g), m') \<and> seg.trees_stand m' F"
proof (cases "m k")
  case None
  have z: "F k p = 0" if "p \<in> {0..i64_max}" for p
    using m that None seg.slot_stands.simps(1) unfolding seg.trees_stand_def by metis
  have "max_use (F k) (max (go_div from g) 0) (ceil to g) = 0"
  proof (cases "max (go_div from g) 0 \<le> ceil to g")
    case True
    then show ?thesis using ceil_i64 [of to g] by (intro max_use_eqI) (auto simp: z)
  qed (auto simp: max_use_def)
  then show ?thesis using None m by (simp add: queryMax_def Let_def)
next
  case (Some t)
  then show ?thesis using seg.trees_stand_query [OF m Some ceil_i64, of "go_div from g" to g] by (auto simp: queryMax_def Let_def)
qed


section \<open>Sequences of submissions and removals\<close>

datatype sched_op = SubmitOp Request | RemoveOp Request

fun sched_step :: "sched_op \<Rightarrow> JobScheduler \<Rightarrow> (sched_panic + JobScheduler) option" where
  "sched_step (SubmitOp q) j = Submit q j"
| "sched_step (RemoveOp q) j = Scheduler_Remove q j"

fun sched_run :: "sched_op list \<Rightarrow> JobScheduler \<Rightarrow> (sched_panic + JobScheduler) option" where
  "sched_run [] j = Some (Inr j)"
| "sched_run (x # xs) j = Option.bind (sched_step x j) (\<lambda>r. case r of Inl e \<Rightarrow> Some (Inl e) | Inr j' \<Rightarrow> sched_run xs j')"

text \<open>The reference: each request counts with its bandwidth, negated when it is removed.\<close>

fun signed :: "sched_op \<Rightarrow> Request" where
  "signed (SubmitOp q) = q"
| "signed (RemoveOp q) = q\<lparr>req_Use := - req_Use q\<rparr>"

definition exec_usage :: "int \<Rightarrow> sched_op list \<Rightarrow> string \<Rightarrow> int \<Rightarrow> int" where
  "exec_usage g xs e p = (\<Sum>q \<leftarrow> map signed xs. if e = req_Executor q then req_at g q p else 0)"

definition dest_usage :: "int \<Rightarrow> sched_op list \<Rightarrow> string \<Rightarrow> int \<Rightarrow> int" where
  "dest_usage g xs d p = (\<Sum>q \<leftarrow> map signed xs. if d \<in> DestinationKey ` set (req_Destination q) then req_at g q p else 0)"

lemma usage_Nil: "exec_usage g [] = (\<lambda>_ _. 0)" "dest_usage g [] = (\<lambda>_ _. 0)"
  by (simp_all add: exec_usage_def dest_usage_def fun_eq_iff)

lemma usage_snoc:
  "exec_usage g (xs @ [x]) = exec_plus g (signed x) (exec_usage g xs)"
  "dest_usage g (xs @ [x]) = dest_plus g (signed x) (dest_usage g xs)"
  by (simp_all add: exec_usage_def dest_usage_def exec_plus_def dest_plus_def fun_eq_iff)

definition op_ok :: "int \<Rightarrow> sched_op \<Rightarrow> bool" where
  "op_ok g x \<longleftrightarrow> in_i64 (req_Use (signed x)) \<and> 0 \<le> bucket_from g (signed x) \<and> 0 \<le> bucket_to g (signed x)"

lemma sched_step_signed: "in_i64 (req_Use (signed x)) \<Longrightarrow> sched_step x j = Submit (signed x) j"
  by (cases x) (simp_all add: Scheduler_Remove_def i64_id)

lemma sched_run_single: "sched_run [x] j = sched_step x j"
proof (cases "sched_step x j")
  case (Some r) then show ?thesis by (cases r) simp_all
qed simp

lemma sched_run_snoc: "sched_run xs j = Some (Inr j') \<Longrightarrow> sched_run (xs @ [x]) j = sched_step x j'"
proof (induction xs arbitrary: j)
  case Nil
  then show ?case using sched_run_single by simp
next
  case (Cons y ys)
  then obtain j1 where "sched_step y j = Some (Inr j1)" "sched_run ys j1 = Some (Inr j')"
    by (auto simp: bind_eq_Some_conv split: sum.splits) (metis sum.exhaust)
  then show ?case using Cons.IH by simp
qed

definition usages_fit :: "int \<Rightarrow> sched_op list \<Rightarrow> bool" where
  "usages_fit g xs \<longleftrightarrow> (\<forall>n \<le> length xs. fits64 (exec_usage g (take n xs)) \<and> fits64 (dest_usage g (take n xs)))"

lemma usages_fit_snoc: "usages_fit g (xs @ [x]) \<longleftrightarrow> usages_fit g xs \<and> fits64 (exec_usage g (xs @ [x])) \<and> fits64 (dest_usage g (xs @ [x]))"
  by (auto simp: usages_fit_def le_Suc_eq)

lemma sched_run_stands:
  assumes g: "0 < g" "in_i64 g" and new: "JobScheduler_New g = Inr j0"
  shows "\<forall>x \<in> set xs. op_ok g x \<Longrightarrow> usages_fit g xs \<Longrightarrow>
    \<exists>j. sched_run xs j0 = Some (Inr j) \<and> granularity j = g \<and> job_stands j (exec_usage g xs) (dest_usage g xs)"
proof (induction xs rule: rev_induct)
  case Nil
  then show ?case
    using g new seg.trees_stand_empty by (auto simp: JobScheduler_New_def job_stands_def usage_Nil)
next
  case (snoc x xs)
  then obtain j where j: "sched_run xs j0 = Some (Inr j)" "granularity j = g" "job_stands j (exec_usage g xs) (dest_usage g xs)"
    by (auto simp: usages_fit_snoc)
  have "op_ok g x" using snoc.prems(1) by simp
  then show ?case
    using sched_run_snoc [OF j(1), of x] sched_step_signed [of x j] Submit_stands [OF j(3), of "signed x"] snoc.prems(2) j(2)
    by (simp add: op_ok_def usages_fit_snoc usage_snoc)
qed

section \<open>Properties\<close>

text \<open>C18: C12: the schedule refines a plain sum. After any sequence of submissions and removals whose
  usage stays between zero and \<open>MaxInt64\<close> throughout, every call has returned without panic, and
  a query for an executor or a destination over a window is the largest total, over the
  positions of the window, of the bandwidths of the requests then in force; each destination
  is charged once per request. A request that starts before the epoch makes the call panic.
\<close>

theorem JobScheduler_refines_usage:
  assumes g: "0 < g" "in_i64 g" and new: "JobScheduler_New g = Inr j0"
    and ops: "\<forall>x \<in> set xs. op_ok g x" and fit: "usages_fit g xs"
  shows "\<exists>j. sched_run xs j0 = Some (Inr j)
    \<and> (\<forall>e from to. \<exists>j'. QueryMaxExec e from to j = Some (max_use (exec_usage g xs e) (max (go_div from g) 0) (ceil to g), j'))
    \<and> (\<forall>d from to. \<exists>j'. QueryMaxDest d from to j = Some (max_use (dest_usage g xs (DestinationKey d)) (max (go_div from g) 0) (ceil to g), j'))
    \<and> (\<forall>q. bucket_from g q < 0 \<longrightarrow> Submit q j = Some (Inl NegativeFromTo))"
proof -
  obtain j where j: "sched_run xs j0 = Some (Inr j)" "granularity j = g" "job_stands j (exec_usage g xs) (dest_usage g xs)"
    using sched_run_stands [OF g new ops fit] by blast
  have u: "fits64 (exec_usage g xs)" "fits64 (dest_usage g xs)" using fit unfolding usages_fit_def by (metis order_refl take_all)+
  have tr: "seg.trees_stand (execTrees j) (exec_usage g xs)" "seg.trees_stand (destTrees j) (dest_usage g xs)"
    using j(3) by (simp_all add: job_stands_def)
  have "\<exists>j'. QueryMaxExec e from to j = Some (max_use (exec_usage g xs e) (max (go_div from g) 0) (ceil to g), j')" for e "from" to
    using queryMax_stands [OF tr(1) u(1), of g e "from" to] j(2) by (auto simp: QueryMaxExec_def)
  moreover have "\<exists>j'. QueryMaxDest d from to j = Some (max_use (dest_usage g xs (DestinationKey d)) (max (go_div from g) 0) (ceil to g), j')" for d "from" to
    using queryMax_stands [OF tr(2) u(2), of g "DestinationKey d" "from" to] j(2) by (auto simp: QueryMaxDest_def)
  moreover have "Submit q j = Some (Inl NegativeFromTo)" if "bucket_from g q < 0" for q
    using that j(2) by (simp add: Submit_def Let_def)
  ultimately show ?thesis using j(1) by blast
qed

text \<open>A request of the samples below: executor \<open>e\<close>, one destination in two spellings.\<close>

definition sample_request :: Request where
  "sample_request = \<lparr>req_Executor = ''e'', req_Destination = [''probe.example'', ''PROBE.example''], req_From = 20, req_To = 45, req_Use = 7\<rparr>"

lemma sample_request_at:
  "req_Executor sample_request = ''e''" "req_Use sample_request = 7" "bucket_from 10 sample_request = 2" "bucket_to 10 sample_request = 5"
  "DestinationKey ` set (req_Destination sample_request) = {''probe.example''}"
proof -
  have "DestinationKey ''probe.example'' = ''probe.example''" "DestinationKey ''PROBE.example'' = ''probe.example''" by code_simp+
  then show "DestinationKey ` set (req_Destination sample_request) = {''probe.example''}" by (simp add: sample_request_def)
qed (simp_all add: sample_request_def bucket_from_def bucket_to_def ceil_def go_div_def i64_def)

lemma sample_fits: "usages_fit 10 [SubmitOp sample_request]" "op_ok 10 (SubmitOp sample_request)"
  by (auto simp: usages_fit_def fits64_def exec_usage_def dest_usage_def op_ok_def sample_request_at req_at_def in_i64_def i64_min_def i64_max_def le_Suc_eq)

theorem JobScheduler_refines_usage_witness:
  "\<exists>j0 j j' j''. JobScheduler_New 10 = Inr j0 \<and> sched_run [SubmitOp sample_request] j0 = Some (Inr j)
     \<and> QueryMaxExec ''e'' 0 30 j = Some (7, j') \<and> QueryMaxDest ''probe.example'' 0 10 j = Some (0, j'')"
proof -
  obtain j0 where new: "JobScheduler_New 10 = Inr j0" by (simp add: JobScheduler_New_def)
  have g: "0 < (10 :: int)" "in_i64 10" by (simp_all add: in_i64_def i64_min_def i64_max_def)
  obtain j where j: "sched_run [SubmitOp sample_request] j0 = Some (Inr j)"
    "\<exists>j'. QueryMaxExec ''e'' 0 30 j = Some (max_use (exec_usage 10 [SubmitOp sample_request] ''e'') (max (go_div 0 10) 0) (ceil 30 10), j')"
    "\<exists>j'. QueryMaxDest ''probe.example'' 0 10 j = Some (max_use (dest_usage 10 [SubmitOp sample_request] (DestinationKey ''probe.example'')) (max (go_div 0 10) 0) (ceil 10 10), j')"
    using JobScheduler_refines_usage [OF g new, of "[SubmitOp sample_request]"] sample_fits by auto
  have b: "max (go_div 0 10) 0 = 0" "ceil 30 10 = 3" "ceil 10 10 = 1" by (simp_all add: go_div_def ceil_def i64_def)
  have "max_use (exec_usage 10 [SubmitOp sample_request] ''e'') 0 3 = 7"
    by (rule max_use_eqI) (auto simp: exec_usage_def sample_request_at req_at_def)
  moreover have "max_use (dest_usage 10 [SubmitOp sample_request] (DestinationKey ''probe.example'')) 0 1 = 0"
    by (rule max_use_eqI) (auto simp: dest_usage_def sample_request_at req_at_def)
  ultimately show ?thesis using new j unfolding b by auto
qed

text \<open>The positions of a request cover every instant from its start to its end.\<close>

lemma bucket_covers:
  assumes g: "0 < g" and a: "0 \<le> a" "a \<le> x" "x \<le> b" "b \<le> i64_max"
  shows "0 \<le> go_div a g" "go_div a g \<le> x div g" "x div g \<le> ceil b g"
proof -
  have i: "in_i64 a" "in_i64 (b - 1)" using a by (auto simp: in_i64_def i64_min_def)
  have "go_div a g = a div g" using go_div_nonneg [OF a(1) i(1) g] .
  then show "0 \<le> go_div a g" "go_div a g \<le> x div g" using a g by (simp_all add: pos_imp_zdiv_nonneg_iff zdiv_mono1)
  show "x div g \<le> ceil b g"
  proof (cases "b = 0")
    case True
    then have "x = 0" using a by simp
    then show ?thesis using True by (simp add: ceil_def)
  next
    case False
    then have b: "0 \<le> b - 1" using a by simp
    have "(b - 1) div g \<le> b - 1" using b g zdiv_mono2 [of "b - 1" 1 g] by simp
    moreover have "0 \<le> (b - 1) div g" using b g by (simp add: pos_imp_zdiv_nonneg_iff)
    ultimately have "ceil b g = 1 + (b - 1) div g"
      using False i(2) b g a by (simp add: ceil_def i64_id go_div_nonneg in_i64_def i64_min_def)
    moreover have "x div g \<le> b div g" using a g by (simp add: zdiv_mono1)
    moreover have "b div g \<le> (b - 1 + g) div g" using g by (intro zdiv_mono1) simp_all
    moreover have "(b - 1 + g) div g = (b - 1) div g + 1" using g by (subst div_add_self2) simp_all
    ultimately show ?thesis by linarith
  qed
qed

lemma sum_list_prefix_le:
  assumes "\<forall>q \<in> set qs. 0 \<le> (f q :: int)"
  shows "(\<Sum>q \<leftarrow> take n qs. f q) \<le> (\<Sum>q \<leftarrow> qs. f q)"
proof -
  have "0 \<le> (\<Sum>q \<leftarrow> drop n qs. f q)" using assms by (intro sum_list_nonneg) (use set_drop_subset [of n qs] in auto)
  moreover have "(\<Sum>q \<leftarrow> qs. f q) = (\<Sum>q \<leftarrow> take n qs. f q) + (\<Sum>q \<leftarrow> drop n qs. f q)"
    by (metis append_take_drop_id map_append sum_list_append)
  ultimately show ?thesis by simp
qed

lemma sum_list_select:
  assumes "\<forall>q \<in> set qs. 0 \<le> (f q :: int)"
  shows "0 \<le> (\<Sum>q \<leftarrow> qs. if P q then f q else 0)" "(\<Sum>q \<leftarrow> qs. if P q then f q else 0) \<le> (\<Sum>q \<leftarrow> qs. f q)"
  using assms by (induction qs) auto

lemma submits_fit:
  assumes qs: "\<forall>q \<in> set qs. 0 \<le> req_Use q" and tot: "(\<Sum>q \<leftarrow> qs. req_Use q) \<le> i64_max"
  shows "usages_fit g (map SubmitOp qs)"
proof -
  have pre: "\<forall>q \<in> set (take n qs). 0 \<le> req_Use q" "(\<Sum>q \<leftarrow> take n qs. req_Use q) \<le> i64_max" for n
    using qs tot sum_list_prefix_le [OF qs, of n] by (auto dest: in_set_takeD)
  have sel: "(\<Sum>q \<leftarrow> ps. if P q then req_at g q p else 0) = (\<Sum>q \<leftarrow> ps. if P q \<and> bucket_from g q \<le> p \<and> p \<le> bucket_to g q then req_Use q else 0)"
    for P ps p by (induction ps) (auto simp: req_at_def)
  have "0 \<le> (\<Sum>q \<leftarrow> take n qs. if P q then req_at g q p else 0) \<and> (\<Sum>q \<leftarrow> take n qs. if P q then req_at g q p else 0) \<le> i64_max" for n P p
    unfolding sel using sum_list_select [OF pre(1) [of n]] pre(2) [of n] by (meson order_trans)
  then show ?thesis
    by (simp add: usages_fit_def fits64_def exec_usage_def dest_usage_def take_map comp_def)
qed

text \<open>No instant of a request is missed. For submitted requests whose bandwidths are not
  negative, a query over a window that contains an instant is at least the total bandwidth of
  the requests of that executor that run at the instant, whatever the granularity rounds.
\<close>

theorem QueryMaxExec_covers_instants:
  assumes g: "0 < g" "in_i64 g" and new: "JobScheduler_New g = Inr j0"
    and qs: "\<forall>q \<in> set qs. 0 \<le> req_Use q \<and> 0 \<le> req_From q \<and> req_From q \<le> req_To q \<and> req_To q \<le> i64_max"
    and tot: "(\<Sum>q \<leftarrow> qs. req_Use q) \<le> i64_max" and x: "0 \<le> from" "from \<le> x" "x \<le> to" "to \<le> i64_max"
  shows "\<exists>j v j'. sched_run (map SubmitOp qs) j0 = Some (Inr j) \<and> QueryMaxExec e from to j = Some (v, j')
    \<and> (\<Sum>q \<leftarrow> qs. if req_Executor q = e \<and> req_From q \<le> x \<and> x \<le> req_To q then req_Use q else 0) \<le> v"
proof -
  let ?xs = "map SubmitOp qs"
  have use: "in_i64 (req_Use q)" if "q \<in> set qs" for q
    using qs that tot member_le_sum_list_int [of "map req_Use qs" "req_Use q"] by (force simp: in_i64_def i64_min_def)
  have ops: "\<forall>y \<in> set ?xs. op_ok g y"
    using qs use bucket_covers [OF g(1)] by (auto simp: op_ok_def bucket_from_def bucket_to_def) (meson order_trans order_refl)
  have fit: "usages_fit g ?xs" using qs tot by (intro submits_fit) auto
  obtain j where j: "sched_run ?xs j0 = Some (Inr j)" "granularity j = g" "job_stands j (exec_usage g ?xs) (dest_usage g ?xs)"
    using sched_run_stands [OF g new ops fit] by blast
  have u: "fits64 (exec_usage g ?xs)" using fit unfolding usages_fit_def by (metis order_refl take_all)
  have "seg.trees_stand (execTrees j) (exec_usage g ?xs)" using j(3) by (simp add: job_stands_def)
  from queryMax_stands [OF this u, of g e "from" to]
  obtain j' where q: "QueryMaxExec e from to j = Some (max_use (exec_usage g ?xs e) (max (go_div from g) 0) (ceil to g), j')"
    using j(2) by (auto simp: QueryMaxExec_def)
  have "(\<Sum>q \<leftarrow> qs. if req_Executor q = e \<and> req_From q \<le> x \<and> x \<le> req_To q then req_Use q else 0) \<le> exec_usage g ?xs e (x div g)"
    unfolding exec_usage_def map_map comp_def signed.simps
  proof (rule sum_list_mono)
    fix q assume "q \<in> set qs"
    then show "(if req_Executor q = e \<and> req_From q \<le> x \<and> x \<le> req_To q then req_Use q else 0)
      \<le> (if e = req_Executor q then req_at g q (x div g) else 0)"
      using qs bucket_covers [OF g(1), of "req_From q" x "req_To q"] by (auto simp: req_at_def bucket_from_def bucket_to_def)
  qed
  also have "\<dots> \<le> max_use (exec_usage g ?xs e) (max (go_div from g) 0) (ceil to g)"
    using bucket_covers [OF g(1) x] by (intro max_use_ge) simp
  finally show ?thesis using j(1) q by blast
qed

theorem QueryMaxExec_covers_instants_witness:
  "\<exists>j0 j v j'. JobScheduler_New 10 = Inr j0 \<and> sched_run (map SubmitOp [sample_request, sample_request]) j0 = Some (Inr j)
     \<and> QueryMaxExec ''e'' 45 45 j = Some (v, j') \<and> 14 \<le> v"
proof -
  obtain j0 where new: "JobScheduler_New 10 = Inr j0" by (simp add: JobScheduler_New_def)
  have g: "0 < (10 :: int)" "in_i64 10" by (simp_all add: in_i64_def i64_min_def i64_max_def)
  show ?thesis
    using QueryMaxExec_covers_instants [OF g new, of "[sample_request, sample_request]" 45 45 45 "''e''"] new
    by (auto simp: sample_request_def i64_max_def)
qed

end
