(* ===== verification/Tag_Spec.thy ===== *)
theory Tag_Spec
  imports Prelude
begin

unbundle bit_operations_syntax

text \<open>
  The packet tag of \<^verbatim>\<open>pkg/tagspec/tagspec.go\<close> and \<^verbatim>\<open>chain.go\<close>: the canonical input of an IPv4
  packet, SipHash-2-4 on 64-bit words, the 16-bit tag and the derivation of earlier chain keys.
  SHA-256 and HKDF come from packages outside the repository and are arguments.
\<close>

type_synonym byte = "8 word"

section \<open>The model\<close>

definition MaxInput :: nat where
  "MaxInput = 64"

definition MinDisclosureDelay :: int where
  "MinDisclosureDelay = 2"

datatype Unsupported = UnsupportedIPv6 | UnsupportedNotIPv4 | UnsupportedTooShort | UnsupportedMalformed | UnsupportedFragment

definition l4Checksum :: "byte \<Rightarrow> nat option" where
  "l4Checksum proto = (if proto = 1 then Some 2 else if proto = 6 then Some 16 else if proto = 17 then Some 6 else None)"

text \<open>\<open>binary.BigEndian.Uint16\<close> of the two bytes at an offset.\<close>

definition be16 :: "byte list \<Rightarrow> nat \<Rightarrow> 16 word" where
  "be16 p i = ucast (p ! (i + 1)) OR push_bit 8 (ucast (p ! i))"

definition clear_byte :: "nat \<Rightarrow> byte list \<Rightarrow> byte list" where
  "clear_byte i xs = xs[i := 0]"

definition HashInput :: "byte list \<Rightarrow> Unsupported + byte list" where
  "HashInput packet =
    (if packet = [] then Inl UnsupportedTooShort
     else let vers = drop_bit 4 (packet ! 0) in
     if vers = 6 then Inl UnsupportedIPv6
     else if vers \<noteq> 4 then Inl UnsupportedNotIPv4
     else if length packet < 20 then Inl UnsupportedTooShort
     else let ihl = unat (packet ! 0 AND 0x0F) * 4; tot = unat (be16 packet 2) in
     if ihl < 20 \<or> tot < ihl then Inl UnsupportedMalformed
     else if be16 packet 6 AND 0x3FFF \<noteq> 0 then Inl UnsupportedFragment
     else let n = min tot MaxInput in
     if length packet < n then Inl UnsupportedTooShort
     else
       let inp = fold clear_byte [1, 4, 5, 6, 7, 8, 10, 11] (take n packet);
           inp = fold clear_byte [20..<min ihl n] inp
       in Inr (case l4Checksum (inp ! 9) of None \<Rightarrow> inp
          | Some off \<Rightarrow> fold (\<lambda>i xs. if i < n then clear_byte i xs else xs) [ihl + off, ihl + off + 1] inp))"

text \<open>The four state words of SipHash.\<close>

record sip =
  v0 :: "64 word"
  v1 :: "64 word"
  v2 :: "64 word"
  v3 :: "64 word"

text \<open>\<open>bits.RotateLeft64\<close>.\<close>

definition RotateLeft64 :: "64 word \<Rightarrow> nat \<Rightarrow> 64 word" where
  "RotateLeft64 x k = push_bit k x OR drop_bit (64 - k) x"

definition sip_round :: "sip \<Rightarrow> sip" where
  "sip_round s =
    (let a0 = v0 s + v1 s; a1 = RotateLeft64 (v1 s) 13; a1 = a1 XOR a0; a0 = RotateLeft64 a0 32;
         a2 = v2 s + v3 s; a3 = RotateLeft64 (v3 s) 16; a3 = a3 XOR a2;
         a0 = a0 + a3; a3 = RotateLeft64 a3 21; a3 = a3 XOR a0;
         a2 = a2 + a1; a1 = RotateLeft64 a1 17; a1 = a1 XOR a2; a2 = RotateLeft64 a2 32
     in \<lparr>v0 = a0, v1 = a1, v2 = a2, v3 = a3\<rparr>)"

definition compress :: "64 word \<Rightarrow> sip \<Rightarrow> sip" where
  "compress m s = (let s = sip_round (sip_round (s\<lparr>v3 := v3 s XOR m\<rparr>)) in s\<lparr>v0 := v0 s XOR m\<rparr>)"

text \<open>\<open>binary.LittleEndian.Uint64\<close> of the first eight bytes.\<close>

definition le64 :: "byte list \<Rightarrow> 64 word" where
  "le64 b = ucast (b ! 0) OR push_bit 8 (ucast (b ! 1)) OR push_bit 16 (ucast (b ! 2)) OR push_bit 24 (ucast (b ! 3))
     OR push_bit 32 (ucast (b ! 4)) OR push_bit 40 (ucast (b ! 5)) OR push_bit 48 (ucast (b ! 6)) OR push_bit 56 (ucast (b ! 7))"

definition sip_init :: "byte list \<Rightarrow> sip" where
  "sip_init key = (let k0 = le64 (take 8 key); k1 = le64 (take 8 (drop 8 key)) in
     \<lparr>v0 = k0 XOR 0x736f6d6570736575, v1 = k1 XOR 0x646f72616e646f6d,
      v2 = k0 XOR 0x6c7967656e657261, v3 = k1 XOR 0x7465646279746573\<rparr>)"

text \<open>The loop over the full eight-byte blocks, from \<open>i\<close> to \<open>full\<close>.\<close>

function sip_blocks :: "byte list \<Rightarrow> nat \<Rightarrow> nat \<Rightarrow> sip \<Rightarrow> sip" where
  "sip_blocks data i full s = (if i < full then sip_blocks data (i + 8) full (compress (le64 (drop i data)) s) else s)"
  by pat_completeness auto
termination by (relation "measure (\<lambda>(_, i, full, _). full - i)") auto

declare sip_blocks.simps [simp del]

text \<open>The loop that packs the remaining bytes, \<open>i\<close> being their index, into the last block.\<close>

fun sip_last :: "nat \<Rightarrow> byte list \<Rightarrow> 64 word \<Rightarrow> 64 word" where
  "sip_last i [] acc = acc"
| "sip_last i (b # bs) acc = sip_last (i + 1) bs (acc OR push_bit (8 * i) (ucast b))"

definition sip_final :: "sip \<Rightarrow> 64 word" where
  "sip_final s = (let s = (sip_round ^^ 4) (s\<lparr>v2 := v2 s XOR 0xff\<rparr>) in v0 s XOR v1 s XOR v2 s XOR v3 s)"

definition SipHash24 :: "byte list \<Rightarrow> byte list \<Rightarrow> 64 word" where
  "SipHash24 key data =
    (let full = length data - length data mod 8;
         s = sip_blocks data 0 full (sip_init key);
         lst = sip_last 0 (drop full data) (push_bit 56 (of_nat (length data)))
     in sip_final (compress lst s))"

datatype tag_error = TagUnsupported Unsupported | AkTooShort | HKDFFailed | NoUsableKey

text \<open>\<open>hkdf\<close> is HKDF-SHA256 with no salt: secret, info, and the key it fills or a failure.\<close>

type_synonym hkdf = "byte list \<Rightarrow> byte list \<Rightarrow> nat \<Rightarrow> byte list option"

definition DeriveAK :: "hkdf \<Rightarrow> byte list \<Rightarrow> byte list \<Rightarrow> tag_error + byte list" where
  "DeriveAK hkdf k measurementID = (case hkdf k measurementID 32 of None \<Rightarrow> Inl HKDFFailed | Some ak \<Rightarrow> Inr ak)"

definition ComputeTag :: "byte list \<Rightarrow> byte list \<Rightarrow> tag_error + 16 word" where
  "ComputeTag ak input = (if length ak < 16 then Inl AkTooShort else Inr (ucast (SipHash24 (take 16 ak) input)))"

definition PacketTag :: "byte list \<Rightarrow> byte list \<Rightarrow> tag_error + 16 word" where
  "PacketTag ak packet = (case HashInput packet of Inl e \<Rightarrow> Inl (TagUnsupported e) | Inr inp \<Rightarrow> ComputeTag ak inp)"

definition PacketID :: "byte list \<Rightarrow> 16 word option" where
  "PacketID packet = (if length packet < 6 then None else Some (be16 packet 4))"

text \<open>\<open>sha\<close> is SHA-256; \<open>None\<close> is the error of a target after the disclosed epoch.\<close>

definition DeriveFromDisclosed :: "(byte list \<Rightarrow> byte list) \<Rightarrow> byte list \<Rightarrow> int \<Rightarrow> int \<Rightarrow> byte list option" where
  "DeriveFromDisclosed sha disclosedKey disclosedEpoch targetEpoch =
    (if targetEpoch > disclosedEpoch then None
     else Some ((sha ^^ nat (i64 (disclosedEpoch - targetEpoch))) disclosedKey))"


section \<open>The canonical input\<close>

definition pkt_ihl :: "byte list \<Rightarrow> nat" where
  "pkt_ihl p = unat (p ! 0 AND 0x0F) * 4"

definition pkt_len :: "byte list \<Rightarrow> nat" where
  "pkt_len p = min (unat (be16 p 2)) MaxInput"

text \<open>The positions a router, a NAT or checksum offload may rewrite.\<close>

definition mutable :: "byte list \<Rightarrow> nat \<Rightarrow> bool" where
  "mutable p i \<longleftrightarrow> i \<in> {1, 4, 5, 6, 7, 8, 10, 11} \<or> 20 \<le> i \<and> i < pkt_ihl p
     \<or> (\<exists>off. l4Checksum (p ! 9) = Some off \<and> (i = pkt_ihl p + off \<or> i = pkt_ihl p + off + 1))"

definition tagged :: "byte list \<Rightarrow> bool" where
  "tagged p \<longleftrightarrow> 20 \<le> length p \<and> drop_bit 4 (p ! 0) = 4 \<and> 20 \<le> pkt_ihl p \<and> pkt_ihl p \<le> unat (be16 p 2)
     \<and> be16 p 6 AND 0x3FFF = 0 \<and> pkt_len p \<le> length p"

lemma clear_byte_length [simp]: "length (clear_byte i xs) = length xs"
  by (simp add: clear_byte_def)

lemma fold_clear_length [simp]: "length (fold clear_byte is xs) = length xs"
  by (induction "is" arbitrary: xs) simp_all

lemma fold_clear_nth: "j < length xs \<Longrightarrow> fold clear_byte is xs ! j = (if j \<in> set is then 0 else xs ! j)"
proof (induction "is" arbitrary: xs)
  case (Cons i "is")
  have "clear_byte i xs ! j = (if i = j then 0 else xs ! j)" using Cons.prems by (auto simp: clear_byte_def nth_list_update)
  then show ?case using Cons.IH [of "clear_byte i xs"] Cons.prems by auto
qed simp

lemma pkt_ihl_le: "pkt_ihl p \<le> 60"
proof -
  have "p ! 0 AND 0x0F \<le> (0x0F :: 8 word)" by (rule word_and_le1)
  then have "unat (p ! 0 AND 0x0F) \<le> unat (0x0F :: 8 word)" by (simp add: word_le_nat_alt)
  then show ?thesis by (simp add: pkt_ihl_def)
qed

lemma tagged_len: "tagged p \<Longrightarrow> 20 \<le> pkt_len p \<and> pkt_ihl p \<le> pkt_len p \<and> pkt_len p \<le> length p"
  using pkt_ihl_le [of p] by (auto simp: tagged_def pkt_len_def MaxInput_def)

text \<open>The input is the packet's prefix with exactly the mutable positions cleared.\<close>

definition canonical :: "byte list \<Rightarrow> byte list" where
  "canonical p = map (\<lambda>i. if mutable p i then 0 else p ! i) [0..<pkt_len p]"

lemma canonical_nth: "i < pkt_len p \<Longrightarrow> canonical p ! i = (if mutable p i then 0 else p ! i)"
  by (simp add: canonical_def)

lemma canonical_length [simp]: "length (canonical p) = pkt_len p"
  by (simp add: canonical_def)

lemma HashInput_canonical:
  assumes p: "tagged p"
  shows "HashInput p = Inr (canonical p)"
proof -
  let ?n = "pkt_len p" and ?hdr = "[1, 4, 5, 6, 7, 8, 10, 11] :: nat list"
  let ?ok = "\<lambda>i xs. if i < ?n then clear_byte i xs else xs"
  define h where "h = fold clear_byte ?hdr (take ?n p)"
  define a where "a = fold clear_byte [20..<min (pkt_ihl p) ?n] h"
  note len = tagged_len [OF p]
  have h_len: "length h = ?n" unfolding h_def fold_clear_length using len by simp
  have h_nth: "h ! i = (if i \<in> set ?hdr then 0 else p ! i)" if "i < ?n" for i
  proof -
    have "h ! i = (if i \<in> set ?hdr then 0 else take ?n p ! i)"
      unfolding h_def by (rule fold_clear_nth) (use that len in simp)
    then show ?thesis using that by (simp only: nth_take)
  qed
  have a_len: "length a = ?n" unfolding a_def fold_clear_length using h_len .
  have a_nth: "a ! i = (if i \<in> set ?hdr \<or> 20 \<le> i \<and> i < pkt_ihl p then 0 else p ! i)" if "i < ?n" for i
  proof -
    have "a ! i = (if i \<in> set [20..<min (pkt_ihl p) ?n] then 0 else h ! i)"
      unfolding a_def by (rule fold_clear_nth) (use that h_len in simp)
    moreover have "i \<in> set [20..<min (pkt_ihl p) ?n] \<longleftrightarrow> 20 \<le> i \<and> i < pkt_ihl p" using that by auto
    ultimately show ?thesis using h_nth [OF that] by presburger
  qed
  define B where "B i \<longleftrightarrow> i \<in> set ?hdr \<or> 20 \<le> i \<and> i < pkt_ihl p" for i
  define C where "C i \<longleftrightarrow> (\<exists>off. l4Checksum (p ! 9) = Some off \<and> i \<in> set [pkt_ihl p + off, pkt_ihl p + off + 1])" for i
  have aB: "a ! i = (if B i then 0 else p ! i)" if "i < ?n" for i using a_nth [OF that] unfolding B_def .
  have "mutable p i \<longleftrightarrow> B i \<or> C i" for i by (simp add: mutable_def B_def C_def)
  then have cBC: "canonical p ! i = (if B i \<or> C i then 0 else p ! i)" if "i < ?n" for i using that by (simp add: canonical_nth)
  have "\<not> B 9" by (simp add: B_def)
  then have a9: "a ! 9 = p ! 9" using aB [of 9] len by simp
  have "(case l4Checksum (a ! 9) of None \<Rightarrow> a | Some off \<Rightarrow> fold ?ok [pkt_ihl p + off, pkt_ihl p + off + 1] a) = canonical p"
  proof (cases "l4Checksum (p ! 9)")
    case None
    then have "\<not> C i" for i by (simp add: C_def)
    then have "a = canonical p" using aB cBC a_len by (intro nth_equalityI) simp_all
    then show ?thesis unfolding a9 None by simp
  next
    case (Some off)
    let ?cs = "[pkt_ihl p + off, pkt_ihl p + off + 1]"
    have ok: "?ok i xs = clear_byte i xs" if "length xs = ?n" for i xs using that by (simp add: clear_byte_def list_update_beyond)
    have "fold ?ok ?cs a = fold clear_byte ?cs a" using a_len ok by simp
    moreover have "fold clear_byte ?cs a ! i = canonical p ! i" if "i < ?n" for i
    proof -
      have "fold clear_byte ?cs a ! i = (if i \<in> set ?cs then 0 else a ! i)" by (rule fold_clear_nth) (use that a_len in simp)
      moreover have "i \<in> set ?cs \<longleftrightarrow> C i" using Some by (simp add: C_def)
      ultimately show ?thesis using aB [OF that] cBC [OF that] by presburger
    qed
    ultimately have "fold ?ok ?cs a = canonical p"
      by (intro nth_equalityI) (simp_all only: fold_clear_length a_len canonical_length)
    then show ?thesis unfolding a9 Some by simp
  qed
  moreover have "(p = []) = False" "(drop_bit 4 (p ! 0) = 6) = False" "(drop_bit 4 (p ! 0) \<noteq> 4) = False" "(length p < 20) = False"
    "(pkt_ihl p < 20 \<or> unat (be16 p 2) < pkt_ihl p) = False" "(be16 p 6 AND 0x3FFF \<noteq> 0) = False" "(length p < pkt_len p) = False"
    using p by (auto simp: tagged_def)
  ultimately show ?thesis
    unfolding HashInput_def Let_def pkt_ihl_def [symmetric] pkt_len_def [symmetric] h_def [symmetric] a_def [symmetric]
    by (simp only: if_False)
qed

text \<open>Which packets are refused, and with which reason.\<close>

definition refusal :: "byte list \<Rightarrow> Unsupported option" where
  "refusal p =
    (if p = [] then Some UnsupportedTooShort
     else if drop_bit 4 (p ! 0) = 6 then Some UnsupportedIPv6
     else if drop_bit 4 (p ! 0) \<noteq> 4 then Some UnsupportedNotIPv4
     else if length p < 20 then Some UnsupportedTooShort
     else if pkt_ihl p < 20 \<or> unat (be16 p 2) < pkt_ihl p then Some UnsupportedMalformed
     else if be16 p 6 AND 0x3FFF \<noteq> 0 then Some UnsupportedFragment
     else if length p < pkt_len p then Some UnsupportedTooShort
     else None)"

lemma refusal_None: "refusal p = None \<longleftrightarrow> tagged p"
  by (auto simp: refusal_def tagged_def)

lemma HashInput_refused: "refusal p = Some e \<Longrightarrow> HashInput p = Inl e"
  unfolding refusal_def HashInput_def pkt_ihl_def pkt_len_def Let_def by (simp split: if_splits)

lemma HashInput_cases: "HashInput p = (case refusal p of Some e \<Rightarrow> Inl e | None \<Rightarrow> Inr (canonical p))"
  using HashInput_refused HashInput_canonical refusal_None by (auto split: option.splits)

lemma canonical_eq_iff:
  assumes p: "tagged p" and q: "tagged q"
  shows "canonical p = canonical q \<longleftrightarrow> (\<forall>i < pkt_len p. \<not> mutable p i \<longrightarrow> p ! i = q ! i) \<and> be16 p 2 = be16 q 2"
proof
  assume eq: "canonical p = canonical q"
  then have n: "pkt_len p = pkt_len q" by (metis canonical_length)
  have at: "(if mutable p i then 0 else p ! i) = (if mutable q i then 0 else q ! i)" if "i < pkt_len p" for i
    using canonical_nth [of i p] canonical_nth [of i q] eq that n by simp
  note len = tagged_len [OF p] tagged_len [OF q]
  have fixed: "p ! i = q ! i" if "i \<in> {0, 2, 3, 9}" for i
  proof -
    have "\<not> mutable p i" "\<not> mutable q i" using that p q by (auto simp: mutable_def tagged_def)
    then show ?thesis using at [of i] that len by auto
  qed
  have "mutable p = mutable q" using fixed by (auto simp: mutable_def pkt_ihl_def fun_eq_iff)
  then have "\<forall>i < pkt_len p. \<not> mutable p i \<longrightarrow> p ! i = q ! i" using at by metis
  then show "(\<forall>i < pkt_len p. \<not> mutable p i \<longrightarrow> p ! i = q ! i) \<and> be16 p 2 = be16 q 2"
    using fixed by (simp add: be16_def numeral_3_eq_3)
next
  assume eq: "(\<forall>i < pkt_len p. \<not> mutable p i \<longrightarrow> p ! i = q ! i) \<and> be16 p 2 = be16 q 2"
  note len = tagged_len [OF p]
  have "p ! 0 = q ! 0" "p ! 9 = q ! 9" using eq len p by (auto simp: mutable_def tagged_def)
  then have "mutable p = mutable q" by (auto simp: mutable_def pkt_ihl_def fun_eq_iff)
  then show "canonical p = canonical q" using eq by (auto simp: canonical_def pkt_len_def)
qed

section \<open>SipHash with an explicitly padded message\<close>

definition sip_pad :: "byte list \<Rightarrow> byte list" where
  "sip_pad data = data @ replicate (7 - length data mod 8) 0 @ [of_nat (length data)]"

fun sip_words :: "byte list \<Rightarrow> sip \<Rightarrow> sip" where
  "sip_words (b0 # b1 # b2 # b3 # b4 # b5 # b6 # b7 # bs) s = sip_words bs (compress (le64 [b0, b1, b2, b3, b4, b5, b6, b7]) s)"
| "sip_words _ s = s"

definition sip_reference :: "byte list \<Rightarrow> byte list \<Rightarrow> 64 word" where
  "sip_reference key data = sip_final (sip_words (sip_pad data) (sip_init key))"

lemma le64_prefix: "8 \<le> length b \<Longrightarrow> le64 (b @ c) = le64 b"
  by (auto simp: le64_def nth_append)

lemma sip_words_step: "length b = 8 \<Longrightarrow> sip_words (b @ bs) s = sip_words bs (compress (le64 b) s)"
  by (auto simp: numeral_eq_Suc length_Suc_conv)

lemma top_byte: "push_bit 56 (of_nat n :: 64 word) = push_bit 56 (ucast (of_nat n :: 8 word))"
proof (rule bit_word_eqI)
  fix i assume "i < LENGTH(64)"
  then have "i - 56 < 8" by simp
  then show "bit (push_bit 56 (of_nat n :: 64 word)) i = bit (push_bit 56 (ucast (of_nat n :: 8 word) :: 64 word)) i"
    by (auto simp: bit_simps)
qed

lemma or_push: "(a :: 64 word) OR 0 = a" "push_bit k (ucast (0 :: 8 word) :: 64 word) = 0"
  by simp_all

lemma last_block:
  assumes "length rest < 8" "length rest = n mod 8"
  shows "le64 (rest @ replicate (7 - n mod 8) 0 @ [of_nat n]) = sip_last 0 rest (push_bit 56 (of_nat n))"
proof -
  have zeros: "replicate 7 x = [x, x, x, x, x, x, x]" "replicate 6 x = [x, x, x, x, x, x]" "replicate 5 x = [x, x, x, x, x]"
    "replicate 4 x = [x, x, x, x]" "replicate 3 x = [x, x, x]" "replicate 2 x = [x, x]" for x :: byte by (simp_all add: numeral_eq_Suc)
  consider "rest = []" | a where "rest = [a]" | a b where "rest = [a, b]" | a b c where "rest = [a, b, c]"
    | a b c d where "rest = [a, b, c, d]" | a b c d e where "rest = [a, b, c, d, e]"
    | a b c d e f where "rest = [a, b, c, d, e, f]" | a b c d e f g where "rest = [a, b, c, d, e, f, g]"
    using assms(1) by (cases rest rule: list.exhaust; auto simp: less_Suc_eq numeral_eq_Suc length_Suc_conv)
  then show ?thesis
    by cases (use assms(2) in \<open>simp_all add: le64_def zeros top_byte or.assoc or.commute or.left_commute flip: assms(2)\<close>)
qed

lemma sip_blocks_words:
  assumes "full = length data - length data mod 8" "i \<le> full" "8 dvd i" and r: "sip_pad data = data @ z"
  shows "sip_words (drop i (sip_pad data)) s = sip_words (drop full (sip_pad data)) (sip_blocks data i full s)"
  using assms(2,3)
proof (induction "full - i" arbitrary: i s rule: less_induct)
  case less
  show ?case
  proof (cases "i < full")
    case True
    have "8 dvd full" unfolding assms(1) by (metis dvd_minus_mod)
    then have i8: "i + 8 \<le> full" using True less.prems(2) by (metis dvd_diff_nat nat_dvd_not_less not_less le_diff_conv2 zero_less_diff less_or_eq_imp_le add.commute)
    then have len: "8 \<le> length (drop i data)" using assms(1) by simp
    have split: "drop i (sip_pad data) = take 8 (drop i data) @ drop (i + 8) (sip_pad data)"
    proof -
      have "drop i (sip_pad data) = take 8 (drop i (sip_pad data)) @ drop (i + 8) (sip_pad data)"
        by (metis append_take_drop_id drop_drop add.commute)
      moreover have "take 8 (drop i (sip_pad data)) = take 8 (drop i data)" using len by (simp add: r)
      ultimately show ?thesis by simp
    qed
    have le: "le64 (take 8 (drop i data)) = le64 (drop i data)"
      using le64_prefix [of "take 8 (drop i data)" "drop 8 (drop i data)"] len unfolding append_take_drop_id by simp
    have "sip_words (drop i (sip_pad data)) s = sip_words (drop (i + 8) (sip_pad data)) (compress (le64 (drop i data)) s)"
      using sip_words_step [of "take 8 (drop i data)" "drop (i + 8) (sip_pad data)" s] split le len by simp
    also have "\<dots> = sip_words (drop full (sip_pad data)) (sip_blocks data (i + 8) full (compress (le64 (drop i data)) s))"
      using less.hyps [of "i + 8"] i8 True less.prems(2) by simp
    finally show ?thesis using True by (simp add: sip_blocks.simps [of data i])
  next
    case False
    then show ?thesis using less.prems(1) by (simp add: sip_blocks.simps)
  qed
qed

lemma SipHash24_eq_reference: "SipHash24 key data = sip_reference key data"
proof -
  define full where "full = length data - length data mod 8"
  define rest where "rest = drop full data"
  have rest: "length rest = length data mod 8" "length rest < 8"
    by (simp_all add: rest_def full_def)
  have pad: "drop full (sip_pad data) = rest @ replicate (7 - length data mod 8) 0 @ [of_nat (length data)]"
    by (simp add: sip_pad_def rest_def full_def)
  let ?s = "sip_blocks data 0 full (sip_init key)"
  have "sip_words (sip_pad data) (sip_init key) = sip_words (drop full (sip_pad data)) ?s"
    using sip_blocks_words [of full data 0 "replicate (7 - length data mod 8) 0 @ [of_nat (length data)]" "sip_init key"]
    by (simp add: full_def sip_pad_def)
  also have "\<dots> = compress (sip_last 0 rest (push_bit 56 (of_nat (length data)))) ?s"
    using sip_words_step [of "rest @ replicate (7 - length data mod 8) 0 @ [of_nat (length data)]" "[]" ?s] rest
      last_block [OF rest(2,1)] unfolding pad by simp
  finally show ?thesis by (simp add: SipHash24_def sip_reference_def Let_def full_def rest_def)
qed

text \<open>The published test vector of SipHash-2-4, round by round.\<close>

lemma sip_vector_rounds:
  "sip_round \<lparr>v0 = 0x7469686173716475, v1 = 0x6b617f6d656e6665, v2 = 0x6b7f62616d677361, v3 = 0x7c6d6c6a717c6d7b\<rparr> =
    \<lparr>v0 = 0x64668a929363847f, v1 = 0x4ed232083d9aa8dc, v2 = 0xf2f74892d8141a2e, v3 = 0x9290f9810552f4a8\<rparr>"
  "sip_round \<lparr>v0 = 0x64668a929363847f, v1 = 0x4ed232083d9aa8dc, v2 = 0xf2f74892d8141a2e, v3 = 0x9290f9810552f4a8\<rparr> =
    \<lparr>v0 = 0x4d07749cdd0858e0, v1 = 0xd52f6f62a4f59a4, v2 = 0x634cb3577b01fd3d, v3 = 0xa5224d6f55c7d9c8\<rparr>"
  "sip_round \<lparr>v0 = 0x4a017198de0a59e0, v1 = 0xd52f6f62a4f59a4, v2 = 0x634cb3577b01fd3d, v3 = 0xaa2c40635ecdd0c0\<rparr> =
    \<lparr>v0 = 0x557560fb6063d060, v1 = 0x4c8e675bd961133e, v2 = 0xbd3d002b1703a181, v3 = 0xfb9441179a4a7315\<rparr>"
  "sip_round \<lparr>v0 = 0x557560fb6063d060, v1 = 0x4c8e675bd961133e, v2 = 0xbd3d002b1703a181, v3 = 0xfb9441179a4a7315\<rparr> =
    \<lparr>v0 = 0x338bbea7645fb759, v1 = 0x414fc3fb98efe374, v2 = 0xccf13ea527b9f4bd, v3 = 0x5293f5da84008f82\<rparr>"
  "sip_round \<lparr>v0 = 0x3c85b3ab6f55be51, v1 = 0x414fc3fb98efe374, v2 = 0xccf13ea527b9f442, v3 = 0x5293f5da84008f82\<rparr> =
    \<lparr>v0 = 0xf2a55244a20e48fe, v1 = 0xac5ad16ccc3ca6e4, v2 = 0x9fe5adb0a52f393a, v3 = 0xfd41d55e88f30308\<rparr>"
  "sip_round \<lparr>v0 = 0xf2a55244a20e48fe, v1 = 0xac5ad16ccc3ca6e4, v2 = 0x9fe5adb0a52f393a, v3 = 0xfd41d55e88f30308\<rparr> =
    \<lparr>v0 = 0xb6c3fbdecc2ae4b4, v1 = 0x1638c86adc6b3cf0, v2 = 0x28b8b6ab62553d46, v3 = 0xc9465e86ec43eb95\<rparr>"
  "sip_round \<lparr>v0 = 0xb6c3fbdecc2ae4b4, v1 = 0x1638c86adc6b3cf0, v2 = 0x28b8b6ab62553d46, v3 = 0xc9465e86ec43eb95\<rparr> =
    \<lparr>v0 = 0x58101b167209a5e6, v1 = 0xf8792ae75b66e7dd, v2 = 0x1da14c3ec7f0b4f7, v3 = 0x7624ba8a41bc4ad9\<rparr>"
  "sip_round \<lparr>v0 = 0x58101b167209a5e6, v1 = 0xf8792ae75b66e7dd, v2 = 0x1da14c3ec7f0b4f7, v3 = 0x7624ba8a41bc4ad9\<rparr> =
    \<lparr>v0 = 0xf6bcd53893fecff1, v1 = 0x54b9964c7ea0d937, v2 = 0x1b38329c099bb55a, v3 = 0x1814bb89ad7be679\<rparr>"
  by code_simp+

lemma SipHash24_vector:
  "SipHash24 [0, 1, 2, 3, 4, 5, 6, 7, 8, 9, 10, 11, 12, 13, 14, 15] [0, 1, 2, 3, 4, 5, 6, 7, 8, 9, 10, 11, 12, 13, 14] = 0xa129ca6149be45e5"
proof -
  let ?key = "[0, 1, 2, 3, 4, 5, 6, 7, 8, 9, 10, 11, 12, 13, 14, 15] :: byte list"
  let ?data = "[0, 1, 2, 3, 4, 5, 6, 7, 8, 9, 10, 11, 12, 13, 14] :: byte list"
  let ?s1 = "\<lparr>v0 = 0x4a017198de0a59e0, v1 = 0xd52f6f62a4f59a4, v2 = 0x634cb3577b01fd3d, v3 = 0xa5224d6f55c7d9c8\<rparr>" and ?s2 = "\<lparr>v0 = 0x3c85b3ab6f55be51, v1 = 0x414fc3fb98efe374, v2 = 0xccf13ea527b9f4bd, v3 = 0x5293f5da84008f82\<rparr>"
  have words: "le64 ?data = 0x706050403020100" "sip_last 0 (drop 8 ?data) (push_bit 56 (of_nat (length ?data))) = 0xf0e0d0c0b0a0908" by code_simp+
  have c1: "compress 0x706050403020100 (sip_init ?key) = ?s1"
  proof -
    have "sip_init ?key = \<lparr>v0 = 0x7469686173716475, v1 = 0x6b617f6d656e6665, v2 = 0x6b7f62616d677361, v3 = 0x7b6b696e727e6c7b\<rparr>" by code_simp
    then show ?thesis by (simp add: compress_def Let_def sip_vector_rounds)
  qed
  have c2: "compress 0xf0e0d0c0b0a0908 ?s1 = ?s2" by (simp add: compress_def Let_def sip_vector_rounds)
  have f: "sip_final ?s2 = 0xa129ca6149be45e5" by (simp add: sip_final_def Let_def eval_nat_numeral sip_vector_rounds)
  have b: "sip_blocks ?data 0 8 s = compress (le64 ?data) s" for s by (simp add: sip_blocks.simps)
  have full: "length ?data - length ?data mod 8 = 8" by simp
  show ?thesis unfolding SipHash24_def Let_def full b words c1 c2 f by (rule refl)
qed

section \<open>Properties\<close>

text \<open>
  C35: which packets are tagged and what the tag covers. A packet is refused with exactly the
  reason of the first rule it breaks; otherwise its input has between 20 and 64 bytes, and two
  tagged packets have the same input exactly when they agree on the total length and on every
  covered byte other than the fields that routers, NATs and offload rewrite.
\<close>

theorem HashInput_covers:
  "HashInput p = (case refusal p of Some e \<Rightarrow> Inl e | None \<Rightarrow> Inr (canonical p))
   \<and> (refusal p = None \<longrightarrow> 20 \<le> length (canonical p) \<and> length (canonical p) \<le> 64
       \<and> (\<forall>q. refusal q = None \<longrightarrow> (HashInput p = HashInput q \<longleftrightarrow>
             (\<forall>i < pkt_len p. \<not> mutable p i \<longrightarrow> p ! i = q ! i) \<and> be16 p 2 = be16 q 2)))"
proof (intro conjI impI allI)
  show "HashInput p = (case refusal p of Some e \<Rightarrow> Inl e | None \<Rightarrow> Inr (canonical p))" by (rule HashInput_cases)
  assume p: "refusal p = None"
  then have tp: "tagged p" by (simp add: refusal_None)
  show "20 \<le> length (canonical p)" "length (canonical p) \<le> 64"
    using tagged_len [OF tp] by (simp_all add: pkt_len_def MaxInput_def)
  fix q assume q: "refusal q = None"
  then have tq: "tagged q" by (simp add: refusal_None)
  show "HashInput p = HashInput q \<longleftrightarrow> (\<forall>i < pkt_len p. \<not> mutable p i \<longrightarrow> p ! i = q ! i) \<and> be16 p 2 = be16 q 2"
    using canonical_eq_iff [OF tp tq] HashInput_canonical [OF tp] HashInput_canonical [OF tq] by simp
qed

text \<open>A minimal IPv4 header, and the same one hop later: lower TTL, another checksum.\<close>

definition sample_packet :: "byte list" where
  "sample_packet = [0x45, 0, 0, 20, 0, 1, 0x40, 0, 64, 47, 0x12, 0x34, 10, 0, 0, 1, 10, 0, 0, 2]"

definition sample_forwarded :: "byte list" where
  "sample_forwarded = [0x45, 0, 0, 20, 0, 1, 0x40, 0, 63, 47, 0x56, 0x78, 10, 0, 0, 1, 10, 0, 0, 2]"

lemma sample_packet_ok: "refusal sample_packet = None" "refusal sample_forwarded = None" "pkt_len sample_packet = 20" "be16 sample_packet 2 = be16 sample_forwarded 2"
  by code_simp+

theorem HashInput_covers_witness: "HashInput sample_packet = HashInput sample_forwarded"
proof -
  have "sample_packet ! i = sample_forwarded ! i" if "i < 20" "\<not> mutable sample_packet i" for i
  proof -
    have "i \<noteq> 8" "i \<noteq> 10" "i \<noteq> 11" using that(2) by (auto simp: mutable_def)
    then have "i \<in> {0, 1, 2, 3, 4, 5, 6, 7, 9, 12, 13, 14, 15, 16, 17, 18, 19}" using that(1) unfolding insert_iff empty_iff by arith
    then show ?thesis by (auto simp: sample_packet_def sample_forwarded_def)
  qed
  then show ?thesis
    using HashInput_covers [of sample_packet] sample_packet_ok by auto
qed

text \<open>
  C36: the loop over full blocks and the packed last block compute SipHash-2-4 of the padded
  message: data, zero bytes, and the length as the last byte of the last eight-byte block.
\<close>

theorem SipHash24_reference: "SipHash24 key data = sip_reference key data"
  by (rule SipHash24_eq_reference)

text \<open>A key of the chain gives every earlier one. If \<open>disclosed\<close> is the key that hashes to the
  one of epoch \<open>t\<close> in \<open>e - t\<close> steps then that key is derived, deriving in two stages is deriving
  in one, and a later epoch is refused.
\<close>

theorem DeriveFromDisclosed_exact:
  assumes "0 \<le> t" "t \<le> m" "m \<le> e" "e \<le> i64_max"
  shows "DeriveFromDisclosed sha k e t = Some ((sha ^^ nat (e - t)) k)
    \<and> Option.bind (DeriveFromDisclosed sha k e m) (\<lambda>k'. DeriveFromDisclosed sha k' m t) = DeriveFromDisclosed sha k e t
    \<and> (t < e \<longrightarrow> DeriveFromDisclosed sha k t e = None)"
proof -
  have w: "i64 (b - a) = b - a" if "0 \<le> a" "a \<le> b" "b \<le> i64_max" for a b
    using that by (intro i64_id) (simp add: in_i64_def i64_min_def)
  have "nat (e - t) = nat (m - t) + nat (e - m)" using assms by simp
  then show ?thesis
    using assms w [of t e] w [of t m] w [of m e] by (simp add: DeriveFromDisclosed_def funpow_add)
qed

theorem DeriveFromDisclosed_exact_witness:
  "DeriveFromDisclosed (\<lambda>k. 7 # k) [] 5 2 = Some [7, 7, 7]"
  using DeriveFromDisclosed_exact [of 2 3 5 "\<lambda>k. 7 # k" "[]"] by (simp add: i64_max_def numeral_eq_Suc)

end
