(* ===== verification/Tesla.thy ===== *)
theory Tesla
  imports Tag_Spec
begin

text \<open>
  The TESLA key schedule, \<^verbatim>\<open>internal/executor/tagger/tesla/schedule.go\<close>: the backward hash chain in
  one buffer, which key signs at an instant, which key may be disclosed, and whether packets
  tagged now can be attributed. SHA-256, HKDF, the random source and the kernel taggers that
  hold an installed key are outside this package and enter as arguments; a clock is what
  \<open>Config.Clock\<close> is, a function of two instants.
\<close>

section \<open>Instants\<close>

text \<open>
  A \<open>time.Time\<close>: nanoseconds since the zero time and, if it was read from the host clock, a
  monotonic reading. Differences saturate at the ends of \<open>time.Duration\<close>.
\<close>

record instant =
  inst_wall :: int
  inst_mono :: "int option"

definition zero_time :: instant where
  "zero_time = \<lparr>inst_wall = 0, inst_mono = None\<rparr>"

definition time_IsZero :: "instant \<Rightarrow> bool" where
  "time_IsZero t \<longleftrightarrow> inst_wall t = 0"

definition saturate :: "int \<Rightarrow> int" where
  "saturate x = max i64_min (min i64_max x)"

definition time_Sub :: "instant \<Rightarrow> instant \<Rightarrow> int" where
  "time_Sub t u = (case (inst_mono t, inst_mono u) of (Some a, Some b) \<Rightarrow> saturate (a - b) | _ \<Rightarrow> saturate (inst_wall t - inst_wall u))"

definition time_Add :: "instant \<Rightarrow> int \<Rightarrow> instant" where
  "time_Add t d = \<lparr>inst_wall = inst_wall t + d,
     inst_mono = (case inst_mono t of Some m \<Rightarrow> if in_i64 (m + d) then Some (m + d) else None | None \<Rightarrow> None)\<rparr>"

definition time_Before :: "instant \<Rightarrow> instant \<Rightarrow> bool" where
  "time_Before t u \<longleftrightarrow> (case (inst_mono t, inst_mono u) of (Some a, Some b) \<Rightarrow> a < b | _ \<Rightarrow> inst_wall t < inst_wall u)"

definition time_Round0 :: "instant \<Rightarrow> instant" where
  "time_Round0 t = t\<lparr>inst_mono := None\<rparr>"

definition Second :: int where "Second = 1000000000"
definition Minute :: int where "Minute = 60 * Second"
definition Hour :: int where "Hour = 60 * Minute"

section \<open>The model\<close>

definition DefaultChainHorizon :: int where
  "DefaultChainHorizon = 7 * 24 * Hour"

definition maxDefaultChainLength :: int where
  "maxDefaultChainLength = 604800"

definition DefaultEpochLength :: int where
  "DefaultEpochLength = 10 * Second"

definition DefaultDisclosureWindow :: int where
  "DefaultDisclosureWindow = 15 * Minute"

definition verifierClockTolerance :: int where
  "verifierClockTolerance = Second"

definition keySize :: nat where
  "keySize = 32"

definition DefaultDisclosureDelay :: "int \<Rightarrow> int" where
  "DefaultDisclosureDelay epochLength =
    (let epochLength = (if epochLength \<le> 0 then DefaultEpochLength else epochLength);
         d = go_div (i64 (i64 (DefaultDisclosureWindow + epochLength) - 1)) epochLength
     in max d MinDisclosureDelay)"

type_synonym clock = "instant \<Rightarrow> instant \<Rightarrow> int \<times> int"

record Config =
  Seed :: "byte list"
  ChainLength :: int
  EpochLength :: int
  DisclosureDelay :: int
  Epoch :: instant
  ClockUnready :: bool
  DisclosureOnly :: bool
  Clock :: "clock option"

definition hostClock :: clock where
  "hostClock origin t = (time_Sub t origin, time_Sub (time_Round0 t) (time_Round0 origin))"

record 'h KeySchedule =
  cfg :: Config
  signed :: int
  holders :: "'h set"
  keys :: "byte list"

definition HighestSigningEpoch :: "'h KeySchedule \<Rightarrow> int" where
  "HighestSigningEpoch ks = signed ks"

datatype schedule_error = NeedsSeedAndOrigin | SeedFailed | DelayTooShort | ChainTooLong

text \<open>The \<open>i\<close>-th slot of the key buffer, and a write into the buffer.\<close>

definition key_slot :: "byte list \<Rightarrow> nat \<Rightarrow> byte list" where
  "key_slot buf i = take keySize (drop (i * keySize) buf)"

definition buf_write :: "nat \<Rightarrow> byte list \<Rightarrow> byte list \<Rightarrow> byte list" where
  "buf_write off bs buf = take off buf @ bs @ drop (off + length bs) buf"

text \<open>The loop that hashes the slot \<open>i + 1\<close> into the slot \<open>i\<close>, from the tail to the anchor.\<close>

fun fill_chain :: "(byte list \<Rightarrow> byte list) \<Rightarrow> nat \<Rightarrow> byte list \<Rightarrow> byte list" where
  "fill_chain sha 0 buf = buf"
| "fill_chain sha (Suc i) buf = fill_chain sha i (buf_write (i * keySize) (sha (key_slot buf (i + 1))) buf)"

definition chain_tail :: "(byte list \<Rightarrow> byte list) \<Rightarrow> byte list \<Rightarrow> byte list" where
  "chain_tail sha seed = (if length seed = keySize then seed else sha seed)"

text \<open>The configuration with its defaults filled in, in the order of the constructor.\<close>

definition with_defaults :: "byte list option \<Rightarrow> instant \<Rightarrow> Config \<Rightarrow> schedule_error + Config" where
  "with_defaults rand now c =
    (if DisclosureOnly c \<and> (length (Seed c) = 0 \<or> time_IsZero (Epoch c)) then Inl NeedsSeedAndOrigin
     else res_bind (if length (Seed c) = 0 then (case rand of None \<Rightarrow> Inl SeedFailed | Some s \<Rightarrow> Inr (c\<lparr>Seed := s\<rparr>)) else Inr c) (\<lambda>c.
     let c = (if EpochLength c \<le> 0 then c\<lparr>EpochLength := DefaultEpochLength\<rparr> else c);
         c = (if DisclosureDelay c = 0 then c\<lparr>DisclosureDelay := DefaultDisclosureDelay (EpochLength c)\<rparr> else c)
     in if DisclosureDelay c < MinDisclosureDelay then Inl DelayTooShort
     else
       let c = (if ChainLength c \<le> 0 then c\<lparr>ChainLength := min (go_div DefaultChainHorizon (EpochLength c)) maxDefaultChainLength\<rparr> else c);
           c = (if time_IsZero (Epoch c) then c\<lparr>Epoch := now\<rparr> else c)
       in Inr (case Clock c of None \<Rightarrow> c\<lparr>Clock := Some hostClock\<rparr> | Some _ \<Rightarrow> c)))"

text \<open>
  A buffer size beyond \<open>MaxInt64\<close> panics, in \<open>make\<close> if it wraps to a negative length and in the
  hashing loop, at a negative slot offset, otherwise.
\<close>

definition NewKeySchedule :: "(byte list \<Rightarrow> byte list) \<Rightarrow> byte list option \<Rightarrow> instant \<Rightarrow> Config \<Rightarrow> schedule_error + 'h KeySchedule" where
  "NewKeySchedule sha rand now c = res_bind (with_defaults rand now c) (\<lambda>c.
     if (ChainLength c + 1) * int keySize > i64_max then Inl ChainTooLong
     else
       let len = nat (ChainLength c);
           buf = replicate ((len + 1) * keySize) 0;
           buf = buf_write (len * keySize) (chain_tail sha (Seed c)) buf
       in Inr \<lparr>cfg = c, signed = 0, holders = {}, keys = fill_chain sha len buf\<rparr>)"

definition RegisterInstalled :: "'h \<Rightarrow> 'h KeySchedule \<Rightarrow> 'h KeySchedule" where
  "RegisterInstalled h ks = ks\<lparr>holders := insert h (holders ks)\<rparr>"

definition UnregisterInstalled :: "'h \<Rightarrow> 'h KeySchedule \<Rightarrow> 'h KeySchedule" where
  "UnregisterInstalled h ks = ks\<lparr>holders := holders ks - {h}\<rparr>"

datatype unattributable = UnattributableEpochZero | UnattributableChainExhausted | UnattributableRefreshFailing
  | UnattributableDisclosureHeld | UnattributableClockUnready | UnattributableClockDrift

definition MaxDisclosureHold :: "'h KeySchedule \<Rightarrow> int" where
  "MaxDisclosureHold ks = EpochLength (cfg ks)"

definition MaxDrift :: "'h KeySchedule \<Rightarrow> int" where
  "MaxDrift ks = min (go_div (EpochLength (cfg ks)) 2) verifierClockTolerance"

definition Elapsed :: "'h KeySchedule \<Rightarrow> instant \<Rightarrow> int \<times> int" where
  "Elapsed ks t = (case Clock (cfg ks) of Some c \<Rightarrow> c (Epoch (cfg ks)) t | None \<Rightarrow> hostClock (Epoch (cfg ks)) t)"

definition Drift :: "'h KeySchedule \<Rightarrow> instant \<Rightarrow> int" where
  "Drift ks now = (case Elapsed ks now of (monotonic, wall) \<Rightarrow> i64 (wall - monotonic))"

definition clockReason :: "'h KeySchedule \<Rightarrow> int \<Rightarrow> unattributable option" where
  "clockReason ks drift =
    (if ClockUnready (cfg ks) then Some UnattributableClockUnready
     else if drift > MaxDrift ks \<or> i64 (- drift) > MaxDrift ks then Some UnattributableClockDrift
     else None)"

definition epochAt :: "'h KeySchedule \<Rightarrow> int \<Rightarrow> int" where
  "epochAt ks elapsed = (if elapsed < 0 then 0
     else let e = go_div elapsed (EpochLength (cfg ks)) in if e > ChainLength (cfg ks) then ChainLength (cfg ks) else e)"

definition epochOf :: "'h KeySchedule \<Rightarrow> instant \<Rightarrow> int" where
  "epochOf ks t = epochAt ks (fst (Elapsed ks t))"

definition EpochOf :: "'h KeySchedule \<Rightarrow> instant \<Rightarrow> int" where
  "EpochOf ks t = epochOf ks t"

definition keyForEpoch :: "'h KeySchedule \<Rightarrow> int \<Rightarrow> byte list option" where
  "keyForEpoch ks epoch = (if epoch < 0 \<or> epoch > ChainLength (cfg ks) then None else Some (key_slot (keys ks) (nat epoch)))"

definition Anchor :: "'h KeySchedule \<Rightarrow> byte list" where
  "Anchor ks = take keySize (keys ks)"

definition Exhausted :: "'h KeySchedule \<Rightarrow> instant \<Rightarrow> bool" where
  "Exhausted ks t \<longleftrightarrow> epochOf ks t \<ge> ChainLength (cfg ks)"

definition Expiry :: "'h KeySchedule \<Rightarrow> instant" where
  "Expiry ks = time_Add (Epoch (cfg ks)) (i64 (ChainLength (cfg ks) * EpochLength (cfg ks)))"

definition FinalDisclosure :: "'h KeySchedule \<Rightarrow> instant" where
  "FinalDisclosure ks = time_Add (Epoch (cfg ks)) (i64 (i64 (ChainLength (cfg ks) - 1 + DisclosureDelay (cfg ks)) * EpochLength (cfg ks)))"

text \<open>The loop around \<open>CompareAndSwap\<close> of one call that no other call interleaves.\<close>

definition CurrentKey :: "instant \<Rightarrow> 'h KeySchedule \<Rightarrow> byte list option \<times> 'h KeySchedule" where
  "CurrentKey t ks =
    (if DisclosureOnly (cfg ks) then (None, ks)
     else case Elapsed ks t of (monotonic, wall) \<Rightarrow>
       let epoch = epochAt ks monotonic in
       if epoch < 1 \<or> epoch \<ge> ChainLength (cfg ks) \<or> clockReason ks (i64 (wall - monotonic)) \<noteq> None then (None, ks)
       else if epoch < signed ks then (None, ks)
       else (keyForEpoch ks epoch, ks\<lparr>signed := epoch\<rparr>))"

text \<open>
  \<open>InstalledEpoch\<close> is what each holder reports; \<open>order\<close> is the order in which the loop over the
  map of holders visits them.
\<close>

definition disclosable_after :: "('h \<Rightarrow> int \<times> bool) \<Rightarrow> 'h \<Rightarrow> int \<Rightarrow> int" where
  "disclosable_after InstalledEpoch h disclosable = (case InstalledEpoch h of (epoch, installed) \<Rightarrow>
     if installed \<and> i64 (epoch - 1) < disclosable then max (i64 (epoch - 1)) 0 else disclosable)"

definition DisclosedKey :: "('h \<Rightarrow> int \<times> bool) \<Rightarrow> 'h list \<Rightarrow> instant \<Rightarrow> 'h KeySchedule \<Rightarrow> (int \<times> byte list option) option" where
  "DisclosedKey InstalledEpoch order t ks =
    (let elapsed = fst (Elapsed ks t) in
     if elapsed < 0 then None
     else let current = go_div elapsed (EpochLength (cfg ks)) in
     if current < DisclosureDelay (cfg ks) then None
     else let d = min (i64 (current - DisclosureDelay (cfg ks))) (i64 (ChainLength (cfg ks) - 1));
              d = fold (disclosable_after InstalledEpoch) order d
       in Some (d, keyForEpoch ks d))"

definition KeyAtEpoch :: "'h KeySchedule \<Rightarrow> int \<Rightarrow> byte list option" where
  "KeyAtEpoch ks epoch = (if epoch < 0 \<or> epoch > ChainLength (cfg ks) then None else keyForEpoch ks epoch)"

definition VerifyChain :: "(byte list \<Rightarrow> byte list) \<Rightarrow> byte list \<Rightarrow> byte list \<Rightarrow> int \<Rightarrow> bool" where
  "VerifyChain sha anchor key t \<longleftrightarrow> (sha ^^ nat t) key = anchor"

definition ChainSeed :: "hkdf \<Rightarrow> (int \<Rightarrow> byte list) \<Rightarrow> byte list \<Rightarrow> int \<Rightarrow> byte list option" where
  "ChainSeed hkdf info seed generation = hkdf seed (info generation) keySize"

record Attribution =
  att_Epoch :: int
  att_Reason :: "unattributable option"
  att_InstalledEpoch :: int
  att_Installed :: bool
  att_LastInstall :: instant
  att_RefreshErr :: "string option"
  att_HeldSince :: instant

text \<open>
  One round of the loop over the holders. \<open>LastRefresh\<close> is \<open>None\<close> for a holder that does not
  report its refresh; the second component of the state is \<open>failingSince\<close>.
\<close>

definition see_holder ::
  "('h \<Rightarrow> int \<times> bool) \<Rightarrow> ('h \<Rightarrow> (instant \<times> string option) option) \<Rightarrow> 'h \<Rightarrow> Attribution \<times> instant \<Rightarrow> Attribution \<times> instant" where
  "see_holder InstalledEpoch LastRefresh h st = (case st of (a, failingSince) \<Rightarrow>
     let a = (case InstalledEpoch h of (epoch, installed) \<Rightarrow>
       if installed \<and> (\<not> att_Installed a \<or> epoch < att_InstalledEpoch a)
       then a\<lparr>att_InstalledEpoch := epoch, att_Installed := True\<rparr> else a)
     in case LastRefresh h of None \<Rightarrow> (a, failingSince)
     | Some (lst, err) \<Rightarrow>
       let a = (if \<not> time_IsZero lst \<and> (time_IsZero (att_LastInstall a) \<or> time_Before lst (att_LastInstall a))
                then a\<lparr>att_LastInstall := lst\<rparr> else a)
       in if err \<noteq> None \<and> (att_RefreshErr a = None \<or> time_Before lst failingSince)
          then (a\<lparr>att_RefreshErr := err\<rparr>, lst) else (a, failingSince))"

definition att_reason :: "instant \<Rightarrow> unattributable option \<Rightarrow> 'h KeySchedule \<Rightarrow> Attribution \<Rightarrow> unattributable option" where
  "att_reason now clk ks a =
    (if att_Epoch a \<ge> ChainLength (cfg ks) then Some UnattributableChainExhausted
     else if clk \<noteq> None then clk
     else if att_Epoch a < 1 then Some UnattributableEpochZero
     else if att_RefreshErr a \<noteq> None then Some UnattributableRefreshFailing
     else if \<not> time_IsZero (att_HeldSince a) \<and> time_Sub now (att_HeldSince a) > MaxDisclosureHold ks then Some UnattributableDisclosureHeld
     else None)"

definition Attribution_at ::
  "('h \<Rightarrow> int \<times> bool) \<Rightarrow> ('h \<Rightarrow> (instant \<times> string option) option) \<Rightarrow> 'h list \<Rightarrow> instant \<Rightarrow> 'h KeySchedule \<Rightarrow> Attribution" where
  "Attribution_at InstalledEpoch LastRefresh order now ks = (case Elapsed ks now of (monotonic, wall) \<Rightarrow>
     let a = \<lparr>att_Epoch = epochAt ks monotonic, att_Reason = None, att_InstalledEpoch = 0, att_Installed = False,
              att_LastInstall = zero_time, att_RefreshErr = None, att_HeldSince = zero_time\<rparr>;
         clk = clockReason ks (i64 (wall - monotonic));
         a = fst (fold (see_holder InstalledEpoch LastRefresh) order (a, zero_time));
         a = (if att_Installed a \<and> att_InstalledEpoch a > att_Epoch a then a\<lparr>att_InstalledEpoch := att_Epoch a\<rparr> else a);
         a = (if att_Installed a \<and> att_InstalledEpoch a < att_Epoch a
              then a\<lparr>att_HeldSince := time_Add (Epoch (cfg ks)) (i64 (i64 (att_InstalledEpoch a + 1) * EpochLength (cfg ks)))\<rparr> else a)
     in a\<lparr>att_Reason := att_reason now clk ks a\<rparr>)"


section \<open>The chain\<close>

lemma buf_write_length: "off + length bs \<le> length buf \<Longrightarrow> length (buf_write off bs buf) = length buf"
  by (simp add: buf_write_def)

lemma take_drop_prefix: "a + k \<le> b \<Longrightarrow> b \<le> length xs \<Longrightarrow> take k (drop a (take b xs @ ys)) = take k (drop a xs)"
  by (rule nth_equalityI) (auto simp: nth_append)

lemma key_slot_write:
  assumes bs: "length bs = keySize" and i: "(i + 1) * keySize \<le> length buf"
  shows "key_slot (buf_write (i * keySize) bs buf) j = (if j = i then bs else key_slot buf j)"
proof -
  have pos: "0 < keySize" by (simp add: keySize_def)
  have fits: "i * keySize \<le> length buf" "i * keySize + keySize \<le> length buf" using i by simp_all
  consider "j = i" | "j < i" | "i < j" by linarith
  then show ?thesis
  proof cases
    case 1
    then show ?thesis using fits bs by (simp add: key_slot_def buf_write_def)
  next
    case 2
    then have "(j + 1) * keySize \<le> i * keySize" by (intro mult_le_mono1) simp
    then have "j * keySize + keySize \<le> i * keySize" by simp
    then show ?thesis using 2 fits take_drop_prefix [of "j * keySize" keySize "i * keySize" buf] by (simp add: key_slot_def buf_write_def)
  next
    case 3
    then have "(i + 1) * keySize \<le> j * keySize" by (intro mult_le_mono1) simp
    then have "i * keySize + keySize \<le> j * keySize" by simp
    then show ?thesis using 3 fits bs by (simp add: key_slot_def buf_write_def)
  qed
qed

lemma fill_chain_slots:
  assumes sha: "\<And>x. length (sha x) = keySize"
  shows "length buf = (L + 1) * keySize \<Longrightarrow> i \<le> L \<Longrightarrow> j \<le> L \<Longrightarrow>
    length (fill_chain sha i buf) = length buf \<and>
    key_slot (fill_chain sha i buf) j = (if j \<ge> i then key_slot buf j else (sha ^^ (i - j)) (key_slot buf i))"
proof (induction i arbitrary: buf)
  case (Suc i)
  let ?k = "sha (key_slot buf (i + 1))" and ?b = "buf_write (i * keySize) (sha (key_slot buf (i + 1))) buf"
  have room: "(i + 1) * keySize \<le> length buf" using Suc.prems by (simp add: mult_le_mono1)
  have len: "length ?b = length buf" using room sha by (intro buf_write_length) simp
  have slot: "key_slot ?b m = (if m = i then ?k else key_slot buf m)" for m using key_slot_write [OF sha room] .
  have ih: "length (fill_chain sha i ?b) = length ?b \<and>
      key_slot (fill_chain sha i ?b) j = (if j \<ge> i then key_slot ?b j else (sha ^^ (i - j)) (key_slot ?b i))"
    using Suc.IH [of ?b] Suc.prems len by simp
  have "(sha ^^ (Suc i - j)) x = (sha ^^ (i - j)) (sha x)" if "j < i" for x
    using that by (simp add: Suc_diff_le funpow_swap1 less_imp_le)
  moreover have "(sha ^^ (Suc i - i)) x = sha x" for x by simp
  ultimately show ?case using ih len slot by (cases j i rule: linorder_cases) auto
qed simp

text \<open>What a constructed schedule has: a delay of at least two epochs and a chain of hashes.\<close>

definition schedule_ok :: "(byte list \<Rightarrow> byte list) \<Rightarrow> 'h KeySchedule \<Rightarrow> bool" where
  "schedule_ok sha ks \<longleftrightarrow> 0 < EpochLength (cfg ks) \<and> in_i64 (EpochLength (cfg ks)) \<and> 0 \<le> ChainLength (cfg ks)
     \<and> MinDisclosureDelay \<le> DisclosureDelay (cfg ks) \<and> (ChainLength (cfg ks) + 1) * int keySize \<le> i64_max
     \<and> (\<forall>i. 0 \<le> i \<and> i \<le> ChainLength (cfg ks) \<longrightarrow>
          keyForEpoch ks i = Some ((sha ^^ nat (ChainLength (cfg ks) - i)) (chain_tail sha (Seed (cfg ks)))))"

lemma with_defaults_ok:
  assumes "with_defaults rand now c = Inr c'" "in_i64 (EpochLength c)"
  shows "0 < EpochLength c'" "in_i64 (EpochLength c')" "0 \<le> ChainLength c'" "MinDisclosureDelay \<le> DisclosureDelay c'"
    "0 < ChainLength c \<Longrightarrow> ChainLength c' = ChainLength c"
proof -
  have h: "0 \<le> go_div DefaultChainHorizon e" if "0 < e" "in_i64 e" for e
    using that go_div_nonneg [of DefaultChainHorizon e]
    by (simp add: DefaultChainHorizon_def Hour_def Minute_def Second_def in_i64_def i64_min_def i64_max_def pos_imp_zdiv_nonneg_iff)
  have def: "0 < DefaultEpochLength" "in_i64 DefaultEpochLength" "0 \<le> maxDefaultChainLength"
    by (simp_all add: DefaultEpochLength_def maxDefaultChainLength_def Second_def in_i64_def i64_min_def i64_max_def)
  obtain c1 where c1: "(if length (Seed c) = 0 then (case rand of None \<Rightarrow> Inl SeedFailed | Some s \<Rightarrow> Inr (c\<lparr>Seed := s\<rparr>)) else Inr c) = Inr c1"
    using assms(1) by (auto simp: with_defaults_def res_bind_Inr_iff split: if_splits)
  have guard: "\<not> (DisclosureOnly c \<and> (length (Seed c) = 0 \<or> time_IsZero (Epoch c)))"
    using assms(1) by (auto simp: with_defaults_def)
  from c1 have f1: "EpochLength c1 = EpochLength c" "ChainLength c1 = ChainLength c" by (auto split: if_splits option.splits)
  define c2 where "c2 = (if EpochLength c1 \<le> 0 then c1\<lparr>EpochLength := DefaultEpochLength\<rparr> else c1)"
  define c3 where "c3 = (if DisclosureDelay c2 = 0 then c2\<lparr>DisclosureDelay := DefaultDisclosureDelay (EpochLength c2)\<rparr> else c2)"
  define c4 where "c4 = (if ChainLength c3 \<le> 0 then c3\<lparr>ChainLength := min (go_div DefaultChainHorizon (EpochLength c3)) maxDefaultChainLength\<rparr> else c3)"
  have f2: "0 < EpochLength c2" "in_i64 (EpochLength c2)" "ChainLength c2 = ChainLength c" using f1 def assms(2) by (auto simp: c2_def)
  then have f3: "EpochLength c3 = EpochLength c2" "ChainLength c3 = ChainLength c" by (auto simp: c3_def)
  have f4: "EpochLength c4 = EpochLength c2" "0 \<le> ChainLength c4" "DisclosureDelay c4 = DisclosureDelay c3" "0 < ChainLength c \<Longrightarrow> ChainLength c4 = ChainLength c"
    using f2 f3 h def by (auto simp: c4_def)
  have rest: "MinDisclosureDelay \<le> DisclosureDelay c3"
    "c' = (let c = (if time_IsZero (Epoch c4) then c4\<lparr>Epoch := now\<rparr> else c4) in case Clock c of None \<Rightarrow> c\<lparr>Clock := Some hostClock\<rparr> | Some _ \<Rightarrow> c)"
    using assms(1) unfolding with_defaults_def if_not_P [OF guard] c1 res_bind_Inr Let_def c2_def [symmetric] c3_def [symmetric] c4_def [symmetric]
    by (cases "DisclosureDelay c3 < MinDisclosureDelay"; simp)+
  have "EpochLength c' = EpochLength c4" "ChainLength c' = ChainLength c4" "DisclosureDelay c' = DisclosureDelay c4"
    unfolding rest(2) by (auto simp: Let_def split: option.splits)
  then show "0 < EpochLength c'" "in_i64 (EpochLength c')" "0 \<le> ChainLength c'" "MinDisclosureDelay \<le> DisclosureDelay c'"
    "0 < ChainLength c \<Longrightarrow> ChainLength c' = ChainLength c"
    using f2 f4 rest(1) by simp_all
qed

lemma NewKeySchedule_ok:
  assumes new: "NewKeySchedule sha rand now c = Inr ks" and e: "in_i64 (EpochLength c)" and sha: "\<And>x. length (sha x) = keySize"
  shows "schedule_ok sha ks" "signed ks = 0" "holders ks = {}" "0 < ChainLength c \<Longrightarrow> ChainLength (cfg ks) = ChainLength c"
proof -
  obtain c' where c': "with_defaults rand now c = Inr c'" "(ChainLength c' + 1) * int keySize \<le> i64_max" and
    ks: "ks = \<lparr>cfg = c', signed = 0, holders = {}, keys = fill_chain sha (nat (ChainLength c'))
      (buf_write (nat (ChainLength c') * keySize) (chain_tail sha (Seed c')) (replicate ((nat (ChainLength c') + 1) * keySize) 0))\<rparr>"
    using new by (auto simp: NewKeySchedule_def Let_def res_bind_Inr_iff split: if_splits)
  note ok = with_defaults_ok [OF c'(1) e]
  define L where "L = nat (ChainLength c')"
  define b0 where "b0 = replicate ((L + 1) * keySize) (0 :: byte)"
  define b where "b = buf_write (L * keySize) (chain_tail sha (Seed c')) b0"
  have tl: "length (chain_tail sha (Seed c')) = keySize" by (simp add: chain_tail_def sha)
  have b: "length b = (L + 1) * keySize" "key_slot b L = chain_tail sha (Seed c')"
    using buf_write_length [of "L * keySize" _ b0] key_slot_write [OF tl, of L b0 L] tl by (simp_all add: b_def b0_def)
  have "keyForEpoch ks i = Some ((sha ^^ nat (ChainLength c' - i)) (chain_tail sha (Seed c')))" if "0 \<le> i" "i \<le> ChainLength c'" for i
  proof -
    have "nat i \<le> L" using that by (simp add: L_def)
    then have "key_slot (fill_chain sha L b) (nat i) = (sha ^^ (L - nat i)) (chain_tail sha (Seed c'))"
      using fill_chain_slots [where sha = sha, OF sha b(1) order_refl, of "nat i"] b(2) by auto
    moreover have "L - nat i = nat (ChainLength c' - i)" using that by (simp add: L_def nat_diff_distrib)
    ultimately show ?thesis using that by (simp add: keyForEpoch_def ks L_def b_def b0_def)
  qed
  then show "schedule_ok sha ks" "signed ks = 0" "holders ks = {}" "0 < ChainLength c \<Longrightarrow> ChainLength (cfg ks) = ChainLength c"
    using ok c'(2) by (simp_all add: schedule_ok_def ks)
qed

section \<open>Epochs\<close>

lemma epochAt_bounds:
  assumes "schedule_ok sha ks" "in_i64 x"
  shows "0 \<le> epochAt ks x" "epochAt ks x \<le> ChainLength (cfg ks)"
    "0 \<le> x \<Longrightarrow> epochAt ks x = min (ChainLength (cfg ks)) (x div EpochLength (cfg ks))"
  using assms go_div_nonneg [of x "EpochLength (cfg ks)"]
  by (auto simp: schedule_ok_def epochAt_def Let_def pos_imp_zdiv_nonneg_iff)

lemma epochAt_mono: "schedule_ok sha ks \<Longrightarrow> in_i64 x \<Longrightarrow> in_i64 y \<Longrightarrow> x \<le> y \<Longrightarrow> epochAt ks x \<le> epochAt ks y"
proof -
  assume a: "schedule_ok sha ks" "in_i64 x" "in_i64 y" "x \<le> y"
  show "epochAt ks x \<le> epochAt ks y"
  proof (cases "0 \<le> x")
    case True
    have "x div EpochLength (cfg ks) \<le> y div EpochLength (cfg ks)" using a by (simp add: schedule_ok_def zdiv_mono1)
    then show ?thesis using epochAt_bounds(3) [OF a(1,2)] epochAt_bounds(3) [OF a(1,3)] True a(4) by simp
  next
    case False
    then show ?thesis using epochAt_bounds(1) [OF a(1,3)] by (simp add: epochAt_def)
  qed
qed

text \<open>The holders lower the disclosed epoch below every installed one, to zero at worst.\<close>

lemma fold_disclosable:
  assumes inst: "\<forall>h \<in> set order. snd (IE h) \<longrightarrow> 1 \<le> fst (IE h) \<and> in_i64 (fst (IE h))" and d: "0 \<le> d"
  shows "0 \<le> fold (disclosable_after IE) order d \<and> fold (disclosable_after IE) order d \<le> d
    \<and> (\<forall>h \<in> set order. snd (IE h) \<longrightarrow> fold (disclosable_after IE) order d < fst (IE h))"
  using assms
proof (induction order arbitrary: d)
  case (Cons h hs)
  let ?d = "disclosable_after IE h d"
  have "0 \<le> ?d \<and> ?d \<le> d \<and> (snd (IE h) \<longrightarrow> ?d < fst (IE h))"
  proof (cases "snd (IE h)")
    case True
    then have "1 \<le> fst (IE h)" "i64 (fst (IE h) - 1) = fst (IE h) - 1"
      using Cons.prems(1) by (auto intro!: i64_id simp: in_i64_def i64_min_def)
    then show ?thesis using True Cons.prems(2) by (auto simp: disclosable_after_def split: prod.splits)
  qed (use Cons.prems(2) in \<open>auto simp: disclosable_after_def split: prod.splits\<close>)
  then show ?case using Cons.IH [of ?d] Cons.prems(1) by fastforce
qed simp


lemma fold_disclosable_ge:
  assumes "\<forall>h \<in> set order. snd (IE h) \<longrightarrow> i < fst (IE h) \<and> in_i64 (fst (IE h))" "0 \<le> i" "i \<le> d"
  shows "i \<le> fold (disclosable_after IE) order d"
  using assms
proof (induction order arbitrary: d)
  case (Cons h hs)
  have "i \<le> disclosable_after IE h d"
  proof (cases "snd (IE h)")
    case True
    then have "i64 (fst (IE h) - 1) = fst (IE h) - 1" "i < fst (IE h)"
      using Cons.prems by (auto intro!: i64_id simp: in_i64_def i64_min_def)
    then show ?thesis using Cons.prems(3) by (auto simp: disclosable_after_def split: prod.splits)
  qed (use Cons.prems in \<open>auto simp: disclosable_after_def split: prod.splits\<close>)
  then show ?case using Cons by simp
qed simp

lemma schedule_key: "schedule_ok sha ks \<Longrightarrow> 0 \<le> i \<Longrightarrow> i \<le> ChainLength (cfg ks) \<Longrightarrow>
    keyForEpoch ks i = Some ((sha ^^ nat (ChainLength (cfg ks) - i)) (chain_tail sha (Seed (cfg ks))))"
  by (simp add: schedule_ok_def)

lemma schedule_derive:
  assumes ok: "schedule_ok sha ks" and u: "0 \<le> u" "u \<le> t" "t \<le> ChainLength (cfg ks)" and k: "keyForEpoch ks t = Some k"
  shows "DeriveFromDisclosed sha k t u = keyForEpoch ks u"
proof -
  let ?L = "ChainLength (cfg ks)"
  have "in_i64 (t - u)" using ok u by (auto simp: schedule_ok_def in_i64_def i64_min_def keySize_def i64_max_def)
  moreover have "nat (?L - u) = nat (t - u) + nat (?L - t)" using u by simp
  ultimately show ?thesis
    using schedule_key [OF ok, of t] schedule_key [OF ok, of u] u k by (simp add: DeriveFromDisclosed_def i64_id funpow_add)
qed

lemma DisclosedKey_unfold:
  assumes ok: "schedule_ok sha ks" and el: "fst (Elapsed ks t) = x" "0 \<le> x" "in_i64 x" and L: "0 < ChainLength (cfg ks)"
    and d: "in_i64 (DisclosureDelay (cfg ks))"
  shows "DisclosedKey IE order t ks = (if x div EpochLength (cfg ks) < DisclosureDelay (cfg ks) then None
    else let i = fold (disclosable_after IE) order (min (x div EpochLength (cfg ks) - DisclosureDelay (cfg ks)) (ChainLength (cfg ks) - 1))
      in Some (i, keyForEpoch ks i))"
proof -
  let ?e = "EpochLength (cfg ks)" and ?d = "DisclosureDelay (cfg ks)" and ?L = "ChainLength (cfg ks)"
  have e: "0 < ?e" "2 \<le> ?d" using ok by (simp_all add: schedule_ok_def MinDisclosureDelay_def)
  have q: "go_div x ?e = x div ?e" using go_div_nonneg [OF el(2,3) e(1)] .
  have "x div ?e \<le> x" using el(2) e zdiv_mono2 [of x 1 ?e] by simp
  then have "i64 (x div ?e - ?d) = x div ?e - ?d" if "\<not> x div ?e < ?d"
    using that el(3) e by (intro i64_id) (simp add: in_i64_def i64_min_def)
  moreover have "i64 (?L - 1) = ?L - 1"
    using ok L by (intro i64_id) (simp add: schedule_ok_def in_i64_def i64_min_def i64_max_def keySize_def)
  ultimately show ?thesis using el q by (simp add: DisclosedKey_def Let_def)
qed

section \<open>Interleaved requests for the signing key\<close>

text \<open>
  \<open>CurrentKey\<close> is called by many packets at once and guards \<open>signed\<close> by compare-and-swap. A call
  asks for an epoch, loads \<open>signed\<close>, and answers or tries to swap; a failed swap loads again.
  The state is \<open>signed\<close>, the calls under way, and the epochs granted so far in their order.
\<close>

datatype signer = Asking int | Loaded int int | Answered int bool

type_synonym signing_state = "int \<times> signer list \<times> int list"

inductive signer_step :: "signing_state \<Rightarrow> signing_state \<Rightarrow> bool" where
  load_refuse: "i < length cs \<Longrightarrow> cs ! i = Asking e \<Longrightarrow> e < s \<Longrightarrow> signer_step (s, cs, gs) (s, cs[i := Answered e False], gs)"
| load_grant: "i < length cs \<Longrightarrow> cs ! i = Asking e \<Longrightarrow> e = s \<Longrightarrow> signer_step (s, cs, gs) (s, cs[i := Answered e True], gs @ [e])"
| load_swap: "i < length cs \<Longrightarrow> cs ! i = Asking e \<Longrightarrow> s < e \<Longrightarrow> signer_step (s, cs, gs) (s, cs[i := Loaded e s], gs)"
| swap_ok: "i < length cs \<Longrightarrow> cs ! i = Loaded e old \<Longrightarrow> old = s \<Longrightarrow> signer_step (s, cs, gs) (e, cs[i := Answered e True], gs @ [e])"
| swap_fail: "i < length cs \<Longrightarrow> cs ! i = Loaded e old \<Longrightarrow> old \<noteq> s \<Longrightarrow> signer_step (s, cs, gs) (s, cs[i := Asking e], gs)"

inductive_cases signer_stepE: "signer_step (s, cs, gs) st'"

definition signing_inv :: "signing_state \<Rightarrow> bool" where
  "signing_inv st = (case st of (s, cs, gs) \<Rightarrow> sorted gs \<and> (\<forall>g \<in> set gs. g \<le> s) \<and> (\<forall>e old. Loaded e old \<in> set cs \<longrightarrow> old < e))"

lemma Loaded_update: "Loaded e old \<in> set (cs[i := c]) \<Longrightarrow> Loaded e old = c \<or> Loaded e old \<in> set cs"
  using set_update_subset_insert by fastforce

lemma signer_step_inv: "signer_step st st' \<Longrightarrow> signing_inv st \<Longrightarrow> signing_inv st' \<and> fst st \<le> fst st'"
  by (induction rule: signer_step.induct)
    (auto simp: signing_inv_def sorted_append dest!: Loaded_update nth_mem intro: order_trans less_imp_le, force+)

fun weight :: "int \<Rightarrow> signer \<Rightarrow> nat" where
  "weight s (Asking e) = 2"
| "weight s (Loaded e old) = (if old = s then 1 else 3)"
| "weight s (Answered e g) = 0"

fun pending :: "signer \<Rightarrow> nat" where
  "pending (Answered e g) = 0"
| "pending _ = 1"

definition signing_rank :: "signing_state \<Rightarrow> nat \<times> nat" where
  "signing_rank st = (case st of (s, cs, gs) \<Rightarrow> (sum_list (map pending cs), sum_list (map (weight s) cs)))"

lemma sum_list_update_less:
  "i < length cs \<Longrightarrow> f c < f (cs ! i) \<Longrightarrow> sum_list (map f (cs[i := c])) < (sum_list (map f cs) :: nat)"
proof (induction cs arbitrary: i)
  case (Cons x xs) then show ?case by (cases i) auto
qed simp

lemma sum_list_update_same:
  "i < length cs \<Longrightarrow> f c = f (cs ! i) \<Longrightarrow> sum_list (map f (cs[i := c])) = (sum_list (map f cs) :: nat)"
proof (induction cs arbitrary: i)
  case (Cons x xs) then show ?case by (cases i) auto
qed simp

lemma signer_step_rank: "signer_step st st' \<Longrightarrow> (signing_rank st', signing_rank st) \<in> less_than <*lex*> less_than"
proof (induction rule: signer_step.induct)
  case (load_refuse i cs e s gs)
  then show ?case using sum_list_update_less [of i cs pending "Answered e False"] by (simp add: signing_rank_def)
next
  case (load_grant i cs e s gs)
  then show ?case using sum_list_update_less [of i cs pending "Answered e True"] by (simp add: signing_rank_def)
next
  case (load_swap i cs e s gs)
  then show ?case
    using sum_list_update_same [of i cs pending "Loaded e s"] sum_list_update_less [of i cs "weight s" "Loaded e s"] by (simp add: signing_rank_def)
next
  case (swap_ok i cs e old s gs)
  then show ?case using sum_list_update_less [of i cs pending "Answered e True"] by (simp add: signing_rank_def)
next
  case (swap_fail i cs e old s gs)
  then show ?case
    using sum_list_update_same [of i cs pending "Asking e"] sum_list_update_less [of i cs "weight s" "Asking e"] by (simp add: signing_rank_def)
qed


section \<open>Properties\<close>

text \<open>C35: C31: the chain verifies. A schedule that the constructor returns delays disclosure by at
  least two epochs; each key from the anchor to the tail hashes to the anchor in as many steps as its
  epoch, so \<open>VerifyChain\<close> accepts it, and every earlier key is derived from it.
\<close>

theorem NewKeySchedule_chain:
  fixes ks :: "'h KeySchedule"
  assumes new: "NewKeySchedule sha rand now c = Inr ks" and e: "in_i64 (EpochLength c)" and sha: "\<And>x. length (sha x) = keySize"
  shows "MinDisclosureDelay \<le> DisclosureDelay (cfg ks)
    \<and> (\<forall>t. 0 \<le> t \<and> t \<le> ChainLength (cfg ks) \<longrightarrow> (\<exists>k. KeyAtEpoch ks t = Some k \<and> VerifyChain sha (Anchor ks) k t
        \<and> (\<forall>u. 0 \<le> u \<and> u \<le> t \<longrightarrow> DeriveFromDisclosed sha k t u = KeyAtEpoch ks u)))
    \<and> (\<forall>t. t < 0 \<or> t > ChainLength (cfg ks) \<longrightarrow> KeyAtEpoch ks t = None)"
proof -
  note ok = NewKeySchedule_ok(1) [OF new e sha]
  let ?L = "ChainLength (cfg ks)"
  have K: "KeyAtEpoch ks t = keyForEpoch ks t" for t by (simp add: KeyAtEpoch_def keyForEpoch_def)
  have a: "keyForEpoch ks 0 = Some (Anchor ks)" using ok by (simp add: schedule_ok_def keyForEpoch_def Anchor_def key_slot_def)
  have "\<exists>k. KeyAtEpoch ks t = Some k \<and> VerifyChain sha (Anchor ks) k t \<and> (\<forall>u. 0 \<le> u \<and> u \<le> t \<longrightarrow> DeriveFromDisclosed sha k t u = KeyAtEpoch ks u)"
    if t: "0 \<le> t \<and> t \<le> ?L" for t
  proof -
    obtain k where k: "keyForEpoch ks t = Some k" using schedule_key [OF ok] t by blast
    have "DeriveFromDisclosed sha k t 0 = Some (Anchor ks)" using schedule_derive [OF ok _ _ _ k, of 0] t a by simp
    moreover have "in_i64 t" using ok t by (auto simp: schedule_ok_def in_i64_def i64_min_def i64_max_def keySize_def)
    ultimately have "VerifyChain sha (Anchor ks) k t" using t by (simp add: VerifyChain_def DeriveFromDisclosed_def i64_id)
    then show ?thesis using k schedule_derive [OF ok _ _ _ k] t by (auto simp: K)
  qed
  moreover have "KeyAtEpoch ks t = None" if "t < 0 \<or> t > ?L" for t using that by (simp add: KeyAtEpoch_def)
  ultimately show ?thesis using ok by (simp add: schedule_ok_def)
qed

text \<open>A stand-in for SHA-256 with its output length, and a configuration of three epochs.\<close>

definition toy_sha :: "byte list \<Rightarrow> byte list" where
  "toy_sha x = take 32 (map ((+) 1) x @ replicate 32 0)"

definition sample_config :: Config where
  "sample_config = \<lparr>Seed = replicate 32 5, ChainLength = 3, EpochLength = 10, DisclosureDelay = 2,
     Epoch = \<lparr>inst_wall = 100, inst_mono = Some 0\<rparr>, ClockUnready = False, DisclosureOnly = False, Clock = None\<rparr>"

lemma toy_sha_length: "length (toy_sha x) = keySize"
  by (simp add: toy_sha_def keySize_def)

lemma sample_schedule: "\<exists>ks. NewKeySchedule toy_sha None zero_time sample_config = Inr ks \<and> cfg ks = sample_config\<lparr>Clock := Some hostClock\<rparr>"
  by (simp add: NewKeySchedule_def with_defaults_def sample_config_def time_IsZero_def Let_def MinDisclosureDelay_def keySize_def i64_max_def)

lemma sample_i64: "in_i64 (EpochLength sample_config)"
  by (simp add: sample_config_def in_i64_def i64_min_def i64_max_def)

theorem NewKeySchedule_chain_witness:
  "\<exists>(ks :: nat KeySchedule) k. NewKeySchedule toy_sha None zero_time sample_config = Inr ks \<and> KeyAtEpoch ks 3 = Some k
     \<and> VerifyChain toy_sha (Anchor ks) k 3 \<and> KeyAtEpoch ks 4 = None"
proof -
  obtain ks :: "nat KeySchedule" where ks: "NewKeySchedule toy_sha None zero_time sample_config = Inr ks" "cfg ks = sample_config\<lparr>Clock := Some hostClock\<rparr>"
    using sample_schedule by blast
  have L: "0 \<le> (3 :: int) \<and> 3 \<le> ChainLength (cfg ks)" "(4 :: int) < 0 \<or> 4 > ChainLength (cfg ks)"
    by (simp_all add: ks(2) sample_config_def)
  show ?thesis using NewKeySchedule_chain [OF ks(1) sample_i64 toy_sha_length] ks(1) L by blast
qed

text \<open>C12: C7: a disclosed key cannot sign any more. Whenever a key is disclosed, it is one of the
  signing keys or the anchor and never the tail, it is at least two epochs old, no holder can
  still sign with it or a later one, and from then on, while the monotonic clock does not go
  back, a key that \<open>CurrentKey\<close> returns is at least two epochs newer.
\<close>

theorem DisclosedKey_safe:
  fixes ks :: "'h KeySchedule"
  assumes ok: "schedule_ok sha ks" and L: "0 < ChainLength (cfg ks)" and d: "in_i64 (DisclosureDelay (cfg ks))"
    and x: "in_i64 (fst (Elapsed ks t))" "in_i64 (fst (Elapsed ks t'))" "fst (Elapsed ks t) \<le> fst (Elapsed ks t')"
    and ord: "set order = holders ks" and inst: "\<forall>h \<in> holders ks. snd (IE h) \<longrightarrow> 1 \<le> fst (IE h) \<and> in_i64 (fst (IE h))"
    and disc: "DisclosedKey IE order t ks = Some (i, k)" and ks': "cfg ks' = cfg ks" "keys ks' = keys ks"
  shows "0 \<le> i \<and> i < ChainLength (cfg ks) \<and> k = KeyAtEpoch ks i
    \<and> i + 2 \<le> fst (Elapsed ks t) div EpochLength (cfg ks)
    \<and> (\<forall>h \<in> holders ks. snd (IE h) \<longrightarrow> i < fst (IE h))
    \<and> (\<forall>sk. fst (CurrentKey t' ks') = Some sk \<longrightarrow> (\<exists>e. i + 2 \<le> e \<and> e < ChainLength (cfg ks) \<and> KeyAtEpoch ks e = Some sk))"
proof -
  let ?x = "fst (Elapsed ks t)" and ?e = "EpochLength (cfg ks)" and ?d = "DisclosureDelay (cfg ks)" and ?L = "ChainLength (cfg ks)"
  have pos: "0 < ?e" "2 \<le> ?d" using ok by (simp_all add: schedule_ok_def MinDisclosureDelay_def)
  have x0: "0 \<le> ?x" using disc by (auto simp: DisclosedKey_def Let_def split: if_splits)
  note unf = DisclosedKey_unfold [OF ok refl x0 x(1) L d, of IE order]
  have cur: "?d \<le> ?x div ?e" and i: "i = fold (disclosable_after IE) order (min (?x div ?e - ?d) (?L - 1))" and k: "k = keyForEpoch ks i"
    using disc unf by (auto simp: Let_def split: if_splits)
  have f: "0 \<le> i \<and> i \<le> min (?x div ?e - ?d) (?L - 1) \<and> (\<forall>h \<in> set order. snd (IE h) \<longrightarrow> i < fst (IE h))"
    unfolding i using inst ord cur L by (intro fold_disclosable) auto
  have K: "KeyAtEpoch ks e = keyForEpoch ks e" for e by (simp add: KeyAtEpoch_def keyForEpoch_def)
  have "\<exists>e. i + 2 \<le> e \<and> e < ?L \<and> KeyAtEpoch ks e = Some sk" if sk: "fst (CurrentKey t' ks') = Some sk" for sk
  proof -
    obtain m w where m: "Elapsed ks t' = (m, w)" by fastforce
    have same: "Elapsed ks' t' = (m, w)" "epochAt ks' m = epochAt ks m" "keyForEpoch ks' (epochAt ks m) = keyForEpoch ks (epochAt ks m)"
      using m by (simp_all only: Elapsed_def epochAt_def keyForEpoch_def ks')
    have e: "epochAt ks m < ?L" "keyForEpoch ks (epochAt ks m) = Some sk"
      using sk ks' same by (auto simp: CurrentKey_def Let_def split: if_splits)
    have "?x div ?e \<le> m div ?e" using x(3) m pos(1) by (simp add: zdiv_mono1)
    moreover have "epochAt ks m = min ?L (m div ?e)" using epochAt_bounds(3) [OF ok, of m] x x0 m by simp
    ultimately show ?thesis using e f cur pos K by (intro exI [of _ "epochAt ks m"]) auto
  qed
  then show ?thesis using f k K ord cur pos L by auto
qed

lemma sample_elapsed:
  assumes "cfg ks = sample_config\<lparr>Clock := Some hostClock\<rparr>"
  shows "Elapsed ks \<lparr>inst_wall = 100 + d, inst_mono = Some d\<rparr> = (saturate d, saturate d)"
  using assms by (simp add: Elapsed_def sample_config_def hostClock_def time_Sub_def time_Round0_def)

theorem DisclosedKey_safe_witness:
  "\<exists>(ks :: nat KeySchedule) k. NewKeySchedule toy_sha None zero_time sample_config = Inr ks
     \<and> DisclosedKey (\<lambda>_. (0, False)) [] \<lparr>inst_wall = 130, inst_mono = Some 30\<rparr> ks = Some (1, k) \<and> k = KeyAtEpoch ks 1"
proof -
  obtain ks :: "nat KeySchedule" where ks: "NewKeySchedule toy_sha None zero_time sample_config = Inr ks" "cfg ks = sample_config\<lparr>Clock := Some hostClock\<rparr>"
    using sample_schedule by blast
  note ok = NewKeySchedule_ok(1,3) [OF ks(1) sample_i64 toy_sha_length]
  have el: "fst (Elapsed ks \<lparr>inst_wall = 130, inst_mono = Some 30\<rparr>) = 30"
    using sample_elapsed [OF ks(2), of 30] by (simp add: saturate_def i64_min_def i64_max_def)
  have c: "0 < ChainLength (cfg ks)" "in_i64 (DisclosureDelay (cfg ks))" "in_i64 30" "EpochLength (cfg ks) = 10" "DisclosureDelay (cfg ks) = 2" "ChainLength (cfg ks) = 3"
    by (simp_all add: ks(2) sample_config_def in_i64_def i64_min_def i64_max_def)
  have disc: "DisclosedKey (\<lambda>_. (0, False)) [] \<lparr>inst_wall = 130, inst_mono = Some 30\<rparr> ks = Some (1, keyForEpoch ks 1)"
    using DisclosedKey_unfold [OF ok(1) el _ c(3) c(1,2), of "\<lambda>_. (0, False)" "[]"] c by simp
  then show ?thesis
    using DisclosedKey_safe [OF ok(1) c(1,2) _ _ _ _ _ disc, of "\<lparr>inst_wall = 130, inst_mono = Some 30\<rparr>" ks] el ok(2) ks(1) c(3) by auto
qed

text \<open>C36: C32: every signing key is disclosed in the end. From the start of the epoch \<open>i + d\<close> on, once no
  holder can sign with the key of the epoch \<open>i\<close> or an earlier one, the schedule discloses a key
  from which that key is derived.
\<close>

theorem DisclosedKey_complete:
  fixes ks :: "'h KeySchedule"
  assumes ok: "schedule_ok sha ks" and i: "0 \<le> i" "i < ChainLength (cfg ks)" and d: "in_i64 (DisclosureDelay (cfg ks))"
    and x: "in_i64 (fst (Elapsed ks t))" "(i + DisclosureDelay (cfg ks)) * EpochLength (cfg ks) \<le> fst (Elapsed ks t)"
    and inst: "\<forall>h \<in> set order. snd (IE h) \<longrightarrow> i < fst (IE h) \<and> in_i64 (fst (IE h))"
  shows "\<exists>j k. DisclosedKey IE order t ks = Some (j, Some k) \<and> i \<le> j \<and> DeriveFromDisclosed sha k j i = KeyAtEpoch ks i"
proof -
  let ?x = "fst (Elapsed ks t)" and ?e = "EpochLength (cfg ks)" and ?d = "DisclosureDelay (cfg ks)" and ?L = "ChainLength (cfg ks)"
  have pos: "0 < ?e" "2 \<le> ?d" using ok by (simp_all add: schedule_ok_def MinDisclosureDelay_def)
  have q: "i + ?d \<le> ?x div ?e" using x(2) pos by (metis nonzero_mult_div_cancel_right less_irrefl zdiv_mono1)
  have "0 \<le> (i + ?d) * ?e" using i pos by simp
  then have x0: "0 \<le> ?x" using x(2) by simp
  define j where "j = fold (disclosable_after IE) order (min (?x div ?e - ?d) (?L - 1))"
  have ij: "i \<le> j" unfolding j_def using inst i q by (intro fold_disclosable_ge) auto
  have "0 \<le> j \<and> j \<le> min (?x div ?e - ?d) (?L - 1) \<and> (\<forall>h \<in> set order. snd (IE h) \<longrightarrow> j < fst (IE h))"
    unfolding j_def using inst i q by (intro fold_disclosable) force+
  then have j: "0 \<le> j" "j \<le> ?L" using i by auto
  obtain k where k: "keyForEpoch ks j = Some k" using schedule_key [OF ok j] by blast
  have "DisclosedKey IE order t ks = Some (j, Some k)"
    using DisclosedKey_unfold [OF ok refl x0 x(1) _ d, of IE order] i q k by (simp add: Let_def j_def)
  moreover have "DeriveFromDisclosed sha k j i = KeyAtEpoch ks i"
    using schedule_derive [OF ok i(1) ij j(2) k] by (simp add: KeyAtEpoch_def keyForEpoch_def)
  ultimately show ?thesis using ij by blast
qed

theorem DisclosedKey_complete_witness:
  "\<exists>(ks :: nat KeySchedule) j k. NewKeySchedule toy_sha None zero_time sample_config = Inr ks
     \<and> DisclosedKey (\<lambda>_. (3, True)) [7] \<lparr>inst_wall = 140, inst_mono = Some 40\<rparr> ks = Some (j, Some k) \<and> 2 \<le> j"
proof -
  obtain ks :: "nat KeySchedule" where ks: "NewKeySchedule toy_sha None zero_time sample_config = Inr ks" "cfg ks = sample_config\<lparr>Clock := Some hostClock\<rparr>"
    using sample_schedule by blast
  note ok = NewKeySchedule_ok(1) [OF ks(1) sample_i64 toy_sha_length]
  have el: "fst (Elapsed ks \<lparr>inst_wall = 140, inst_mono = Some 40\<rparr>) = 40"
    using sample_elapsed [OF ks(2), of 40] by (simp add: saturate_def i64_min_def i64_max_def)
  have c: "2 < ChainLength (cfg ks)" "in_i64 (DisclosureDelay (cfg ks))" "in_i64 40" "(2 + DisclosureDelay (cfg ks)) * EpochLength (cfg ks) \<le> 40" "in_i64 3"
    by (simp_all add: ks(2) sample_config_def in_i64_def i64_min_def i64_max_def)
  show ?thesis
    using DisclosedKey_complete [OF ok _ c(1,2), of "\<lparr>inst_wall = 140, inst_mono = Some 40\<rparr>" "[7]" "\<lambda>_. (3, True)"] el c ks(1) by auto
qed

text \<open>C38: C33: interleaved requests for the signing key. Whatever the interleaving, the epochs whose key
  is granted never decrease and never exceed \<open>signed\<close>, which never decreases; and the retry
  loops end: no infinite sequence of steps of finitely many calls exists.
\<close>

theorem CurrentKey_interleaved:
  "(\<forall>st. signer_step\<^sup>*\<^sup>* (0, map Asking es, []) st \<longrightarrow>
      (case st of (s, cs, gs) \<Rightarrow> sorted gs \<and> (\<forall>g \<in> set gs. g \<le> s) \<and> 0 \<le> s))
   \<and> wfp (\<lambda>st' st. signer_step st st')"
proof (intro conjI allI impI)
  have start: "signing_inv (0, map Asking es, [])" by (auto simp: signing_inv_def)
  fix st assume "signer_step\<^sup>*\<^sup>* (0, map Asking es, []) st"
  then have "signing_inv st \<and> fst (0 :: int, map Asking es, [] :: int list) \<le> fst st"
    by (induction rule: rtranclp_induct) (use start signer_step_inv in \<open>auto intro: order_trans\<close>)
  then show "case st of (s, cs, gs) \<Rightarrow> sorted gs \<and> (\<forall>g \<in> set gs. g \<le> s) \<and> 0 \<le> s"
    by (auto simp: signing_inv_def)
next
  have "wf (inv_image (less_than <*lex*> less_than) signing_rank)" by blast
  then have "wf {(st', st). signer_step st st'}"
    by (rule wf_subset) (auto simp: signer_step_rank)
  then show "wfp (\<lambda>st' st. signer_step st st')" by (simp add: wfp_def)
qed

theorem CurrentKey_interleaved_witness:
  "sorted [2 :: int] \<and> signer_step\<^sup>*\<^sup>* (0, map Asking [2, 1], []) (2, [Answered 2 True, Answered 1 False], [2])"
proof -
  have s1: "signer_step (0, [Asking 2, Asking 1], []) (0, [Loaded 2 0, Asking 1], [])"
    using load_swap [of 0 "[Asking 2, Asking 1]" 2 0 "[]"] by simp
  have s2: "signer_step (0, [Loaded 2 0, Asking 1], []) (2, [Answered 2 True, Asking 1], [2])"
    using swap_ok [of 0 "[Loaded 2 0, Asking 1]" 2 0 0 "[]"] by simp
  have s3: "signer_step (2, [Answered 2 True, Asking 1], [2]) (2, [Answered 2 True, Answered 1 False], [2])"
    using load_refuse [of 1 "[Answered 2 True, Asking 1]" 1 2 "[2]"] by simp
  have "signer_step\<^sup>*\<^sup>* (0, map Asking [2, 1], []) (2, [Answered 2 True, Answered 1 False], [2])"
    using s1 s2 s3 by (simp add: converse_rtranclp_into_rtranclp)
  then show ?thesis using CurrentKey_interleaved [of "[2, 1]"] by blast
qed

text \<open>Attribution and signing agree. While attribution is reported available, \<open>CurrentKey\<close>
  returns the key of the reported epoch unless a later epoch signed already; and whenever it
  returns a key, attribution is withheld at most for the state of the kernel taggers.
\<close>

theorem Attribution_matches_CurrentKey:
  assumes ok: "schedule_ok sha ks" and x: "in_i64 (fst (Elapsed ks t))" and sign: "\<not> DisclosureOnly (cfg ks)"
  shows "(att_Reason (Attribution_at IE LR order t ks) = None \<and> signed ks \<le> epochOf ks t \<longrightarrow>
      fst (CurrentKey t ks) = KeyAtEpoch ks (epochOf ks t) \<and> KeyAtEpoch ks (epochOf ks t) \<noteq> None)
    \<and> (fst (CurrentKey t ks) \<noteq> None \<longrightarrow>
      att_Reason (Attribution_at IE LR order t ks) \<in> {None, Some UnattributableRefreshFailing, Some UnattributableDisclosureHeld})"
proof -
  obtain m w where m: "Elapsed ks t = (m, w)" by fastforce
  let ?clk = "clockReason ks (i64 (w - m))"
  have ep: "att_Epoch (fst (fold (see_holder IE LR) order (a, s))) = att_Epoch a" for a s
    by (induction order arbitrary: a s) (auto simp: see_holder_def Let_def split: prod.splits option.splits)
  define a0 where "a0 = \<lparr>att_Epoch = epochAt ks m, att_Reason = None, att_InstalledEpoch = 0, att_Installed = False,
    att_LastInstall = zero_time, att_RefreshErr = None, att_HeldSince = zero_time\<rparr>"
  define a1 where "a1 = fst (fold (see_holder IE LR) order (a0, zero_time))"
  define a2 where "a2 = (if att_Installed a1 \<and> att_InstalledEpoch a1 > att_Epoch a1 then a1\<lparr>att_InstalledEpoch := att_Epoch a1\<rparr> else a1)"
  define a3 where "a3 = (if att_Installed a2 \<and> att_InstalledEpoch a2 < att_Epoch a2
    then a2\<lparr>att_HeldSince := time_Add (Epoch (cfg ks)) (i64 (i64 (att_InstalledEpoch a2 + 1) * EpochLength (cfg ks)))\<rparr> else a2)"
  have a: "att_Epoch a3 = epochAt ks m" by (simp add: a3_def a2_def a1_def a0_def ep)
  have "Attribution_at IE LR order t ks = a3\<lparr>att_Reason := att_reason t ?clk ks a3\<rparr>"
    unfolding Attribution_at_def m Let_def prod.case a0_def [symmetric] a1_def [symmetric] a2_def [symmetric] a3_def [symmetric] by (rule refl)
  then have r: "att_Reason (Attribution_at IE LR order t ks) = att_reason t ?clk ks a3" by simp
  have K: "KeyAtEpoch ks e = keyForEpoch ks e" for e by (simp add: KeyAtEpoch_def keyForEpoch_def)
  have "0 \<le> epochAt ks m" "epochAt ks m \<le> ChainLength (cfg ks)" using epochAt_bounds(1,2) [OF ok, of m] x m by auto
  then have "keyForEpoch ks (epochAt ks m) \<noteq> None" by (simp add: keyForEpoch_def)
  then show ?thesis
    using a sign m unfolding r by (auto simp: K att_reason_def CurrentKey_def epochOf_def Let_def split: if_splits)
qed

theorem Attribution_matches_CurrentKey_witness:
  "\<exists>(ks :: nat KeySchedule) k. NewKeySchedule toy_sha None zero_time sample_config = Inr ks
     \<and> fst (CurrentKey \<lparr>inst_wall = 110, inst_mono = Some 10\<rparr> ks) = Some k
     \<and> att_Reason (Attribution_at (\<lambda>_. (0, False)) (\<lambda>_. None) [] \<lparr>inst_wall = 110, inst_mono = Some 10\<rparr> ks)
         \<in> {None, Some UnattributableRefreshFailing, Some UnattributableDisclosureHeld}"
proof -
  obtain ks :: "nat KeySchedule" where ks: "NewKeySchedule toy_sha None zero_time sample_config = Inr ks" "cfg ks = sample_config\<lparr>Clock := Some hostClock\<rparr>"
    using sample_schedule by blast
  note ok = NewKeySchedule_ok(1,2) [OF ks(1) sample_i64 toy_sha_length]
  let ?t = "\<lparr>inst_wall = 110, inst_mono = Some 10\<rparr>"
  have el: "Elapsed ks ?t = (10, 10)" using sample_elapsed [OF ks(2), of 10] by (simp add: saturate_def i64_min_def i64_max_def)
  have c: "EpochLength (cfg ks) = 10" "ChainLength (cfg ks) = 3" "\<not> DisclosureOnly (cfg ks)" "\<not> ClockUnready (cfg ks)"
    by (simp_all add: ks(2) sample_config_def)
  have "epochAt ks 10 = 1" by (simp add: epochAt_def c go_div_def i64_def)
  moreover have "clockReason ks (i64 0) = None" by (simp add: clockReason_def c MaxDrift_def go_div_def i64_def verifierClockTolerance_def Second_def)
  ultimately obtain k where "fst (CurrentKey ?t ks) = Some k"
    using ok(2) c by (simp add: CurrentKey_def el keyForEpoch_def)
  moreover have "in_i64 (fst (Elapsed ks ?t))" by (simp add: el in_i64_def i64_min_def i64_max_def)
  ultimately show ?thesis
    using Attribution_matches_CurrentKey [OF ok(1) _ c(3), of ?t "\<lambda>_. (0, False)" "\<lambda>_. None" "[]"] ks(1) by (metis option.distinct(1))
qed

end
