(* ===== verification/Tagger.thy ===== *)
theory Tagger
  imports Tesla
begin

unbundle bit_operations_syntax

text \<open>
  The pure-Go packet tagger, \<^verbatim>\<open>internal/executor/tagger/tagger.go\<close>, with the executor's view of the
  tag functions in \<^verbatim>\<open>tesla/tagspec.go\<close>: the tag is written into the Identification field, DF is
  set and the header checksum recomputed.
\<close>

section \<open>The model\<close>

definition TagWithKey :: "hkdf \<Rightarrow> byte list \<Rightarrow> byte list \<Rightarrow> byte list \<Rightarrow> tag_error + 16 word" where
  "TagWithKey hkdf chainKey measurementID packet = res_bind (DeriveAK hkdf chainKey measurementID) (\<lambda>ak. PacketTag ak packet)"

definition ComputeTagForPacket :: "hkdf \<Rightarrow> instant \<Rightarrow> byte list \<Rightarrow> byte list \<Rightarrow> 'h KeySchedule \<Rightarrow> (tag_error + 16 word) \<times> 'h KeySchedule" where
  "ComputeTagForPacket hkdf t measurementID packet ks = (case CurrentKey t ks of
     (None, ks') \<Rightarrow> (Inl NoUsableKey, ks') | (Some k, ks') \<Rightarrow> (TagWithKey hkdf k measurementID packet, ks'))"

definition VerifyTag :: "hkdf \<Rightarrow> byte list \<Rightarrow> byte list \<Rightarrow> byte list \<Rightarrow> 16 word \<Rightarrow> tag_error + bool" where
  "VerifyTag hkdf chainKey measurementID packet tag = (case HashInput packet of Inl e \<Rightarrow> Inl (TagUnsupported e)
     | Inr inp \<Rightarrow> res_bind (DeriveAK hkdf chainKey measurementID) (\<lambda>ak. res_bind (ComputeTag ak inp) (\<lambda>expected. Inr (expected = tag))))"

record 'h Tagger =
  schedule :: "'h KeySchedule"
  measurementID :: "byte list"

definition isIPv4 :: "byte list \<Rightarrow> bool" where
  "isIPv4 pkt \<longleftrightarrow> \<not> length pkt < 20 \<and> drop_bit 4 (pkt ! 0) = 4 \<and> \<not> length pkt < unat (pkt ! 0 AND 0x0F) * 4"

text \<open>\<open>binary.BigEndian.PutUint16\<close> at an offset, and its two uses.\<close>

definition put16 :: "nat \<Rightarrow> 16 word \<Rightarrow> byte list \<Rightarrow> byte list" where
  "put16 i v pkt = pkt[i := ucast (drop_bit 8 v), i + 1 := ucast v]"

definition writeIPID :: "16 word \<Rightarrow> byte list \<Rightarrow> byte list" where
  "writeIPID tag pkt = put16 4 tag pkt"

definition ReadIPID :: "byte list \<Rightarrow> 16 word" where
  "ReadIPID pkt = be16 pkt 4"

text \<open>The loop that adds up the 16-bit words below \<open>n\<close>, and the one that folds the carries.\<close>

function sum_words :: "byte list \<Rightarrow> nat \<Rightarrow> nat \<Rightarrow> 32 word \<Rightarrow> 32 word" where
  "sum_words p i n acc = (if i < n then sum_words p (i + 2) n (acc + ucast (be16 p i)) else acc)"
  by pat_completeness auto
termination by (relation "measure (\<lambda>(_, i, n, _). n - i)") auto

lemma fold_carry_unat:
  fixes s :: "32 word"
  shows "unat (drop_bit 16 s) = unat s div 65536" "unat (s AND 0xFFFF) = unat s mod 65536"
    "unat ((s AND 0xFFFF) + drop_bit 16 s) = unat s mod 65536 + unat s div 65536"
proof -
  have m: "s AND 0xFFFF = take_bit 16 s" by (simp add: take_bit_eq_mask mask_eq_exp_minus_1)
  show d: "unat (drop_bit 16 s) = unat s div 65536" unfolding unat_drop_bit_eq by (simp add: drop_bit_eq_div)
  show a: "unat (s AND 0xFFFF) = unat s mod 65536" unfolding m unsigned_take_bit_eq by (simp add: take_bit_eq_mod)
  have "unat s < 2 ^ 32" using unsigned_less [of s] by simp
  then have "unat s div 65536 < 65536" by (simp add: less_mult_imp_div_less)
  moreover have "unat s mod 65536 < 65536" by simp
  ultimately have "unat (s AND 0xFFFF) + unat (drop_bit 16 s) < 2 ^ LENGTH(32)" by (simp add: a d)
  then show "unat ((s AND 0xFFFF) + drop_bit 16 s) = unat s mod 65536 + unat s div 65536"
    by (simp add: unat_word_ariths a d)
qed

lemma fold_carry_less:
  fixes s :: "32 word"
  assumes "drop_bit 16 s \<noteq> 0"
  shows "unat ((s AND 0xFFFF) + drop_bit 16 s) < unat s"
proof -
  have "unat s div 65536 \<noteq> 0" using assms fold_carry_unat(1) [of s] by (metis unat_eq_zero)
  then show ?thesis unfolding fold_carry_unat(3) using div_mult_mod_eq [of "unat s" 65536] by linarith
qed

function fold_carry :: "32 word \<Rightarrow> 32 word" where
  "fold_carry s = (if drop_bit 16 s \<noteq> 0 then fold_carry ((s AND 0xFFFF) + drop_bit 16 s) else s)"
  by pat_completeness auto
termination by (relation "measure unat") (auto intro: fold_carry_less)

declare sum_words.simps [simp del] fold_carry.simps [simp del]

definition recomputeIPv4Checksum :: "byte list \<Rightarrow> byte list" where
  "recomputeIPv4Checksum pkt =
    (let ihl = unat (pkt ! 0 AND 0x0F) * 4; pkt = pkt[10 := 0, 11 := 0]
     in put16 10 (NOT (ucast (fold_carry (sum_words pkt 0 ihl 0)))) pkt)"

text \<open>\<open>None\<close> is the panic of the slice expression at the end of a header of odd length.\<close>

definition IPv4Checksum :: "byte list \<Rightarrow> 16 word option" where
  "IPv4Checksum header = (if odd (length header) then None
     else Some (NOT (ucast (fold_carry (sum_words header 0 (length header) 0)))))"

definition tagWithKey :: "hkdf \<Rightarrow> byte list \<Rightarrow> byte list \<Rightarrow> byte list option \<Rightarrow> tag_error + byte list" where
  "tagWithKey hkdf mid pkt chainKey = (case chainKey of None \<Rightarrow> Inr pkt
     | Some k \<Rightarrow> (case TagWithKey hkdf k mid pkt of
         Inl (TagUnsupported _) \<Rightarrow> Inr pkt
       | Inl e \<Rightarrow> Inl e
       | Inr tag \<Rightarrow> let pkt = writeIPID tag pkt; pkt = pkt[6 := pkt ! 6 OR 0x40] in Inr (recomputeIPv4Checksum pkt)))"

definition TagPacket :: "hkdf \<Rightarrow> instant \<Rightarrow> byte list \<Rightarrow> 'h Tagger \<Rightarrow> (tag_error + byte list) \<times> 'h Tagger" where
  "TagPacket hkdf now pkt t = (if \<not> isIPv4 pkt then (Inr pkt, t)
     else case CurrentKey now (schedule t) of (k, ks) \<Rightarrow> (tagWithKey hkdf (measurementID t) pkt k, t\<lparr>schedule := ks\<rparr>))"

section \<open>The header checksum\<close>

lemma fold_carry_mod:
  "unat (fold_carry s) < 65536 \<and> unat (fold_carry s) mod 65535 = unat s mod 65535 \<and> (unat (fold_carry s) = 0 \<longleftrightarrow> unat s = 0)"
proof (induction s rule: fold_carry.induct)
  case (1 s)
  let ?s = "(s AND 0xFFFF) + drop_bit 16 s"
  show ?case
  proof (cases "drop_bit 16 s = 0")
    case True
    then have "unat s div 65536 = 0" using fold_carry_unat(1) [of s] by simp
    then show ?thesis using True by (simp add: fold_carry.simps [of s] div_eq_0_iff)
  next
    case False
    have eq: "unat s = unat ?s + 65535 * (unat s div 65536)"
      unfolding fold_carry_unat(3) using div_mult_mod_eq [of "unat s" 65536] by linarith
    then have "unat ?s mod 65535 = unat s mod 65535" by (metis mod_mult_self2)
    moreover have "unat ?s \<noteq> 0"
    proof -
      have "unat s div 65536 \<noteq> 0" using False fold_carry_unat(1) [of s] by (metis unat_eq_zero)
      then show ?thesis unfolding fold_carry_unat(3) by simp
    qed
    moreover have "unat s \<noteq> 0" using fold_carry_less [OF False] by simp
    ultimately show ?thesis using 1 [OF False] False by (simp add: fold_carry.simps [of s])
  qed
qed

lemma unat_be16: "unat (be16 p i) < 65536"
  using unsigned_less [of "be16 p i"] by simp

lemma sum_words_unat:
  "unat acc + (b - a) * 65536 < 2 ^ 32 \<Longrightarrow> a \<le> b \<Longrightarrow>
    unat (sum_words p (2 * a) (2 * b) acc) = unat acc + (\<Sum>k \<in> {a..<b}. unat (be16 p (2 * k)))"
proof (induction "b - a" arbitrary: a acc)
  case 0
  then show ?case by (simp add: sum_words.simps)
next
  case (Suc m)
  then have ab: "a < b" by simp
  let ?acc = "acc + ucast (be16 p (2 * a)) :: 32 word"
  have lt: "unat (be16 p (2 * a)) < 2 ^ LENGTH(32)" using order_less_le_trans [OF unat_be16, of "2 ^ 32"] by simp
  have w: "unat (ucast (be16 p (2 * a)) :: 32 word) = unat (be16 p (2 * a))"
    unfolding unsigned_ucast_eq using lt by (simp only: take_bit_nat_eq_self)
  have m: "b - a = Suc m" "b - Suc a = m" using Suc.hyps(2) by simp_all
  have small: "unat acc + unat (be16 p (2 * a)) + m * 65536 < 2 ^ 32"
    using Suc.prems(1) unat_be16 [of p "2 * a"] unfolding m by simp
  have acc: "unat ?acc = unat acc + unat (be16 p (2 * a))"
    using small by (subst unat_add_lem [THEN iffD1]) (auto simp: w)
  have "unat (sum_words p (2 * Suc a) (2 * b) ?acc) = unat ?acc + (\<Sum>k \<in> {Suc a..<b}. unat (be16 p (2 * k)))"
    using Suc.hyps(1) [of "Suc a" ?acc] small ab m by (simp add: acc)
  then show ?case using ab acc by (simp add: sum_words.simps [of p "2 * a"] sum.atLeast_Suc_lessThan)
qed


lemma put16_length [simp]: "length (put16 i v p) = length p"
  by (simp add: put16_def)

lemma put16_nth: "i + 1 < length p \<Longrightarrow> put16 i v p ! j = (if j = i then ucast (drop_bit 8 v) else if j = i + 1 then ucast v else p ! j)"
  by (auto simp: put16_def nth_list_update)

lemma be16_put16_same: "i + 1 < length p \<Longrightarrow> be16 (put16 i v p) i = v"
  by (rule bit_word_eqI) (auto simp: be16_def put16_nth bit_simps)

lemma be16_put16_other: "i + 1 < length p \<Longrightarrow> j \<noteq> i \<Longrightarrow> j \<noteq> i + 1 \<Longrightarrow> j + 1 \<noteq> i \<Longrightarrow> be16 (put16 i v p) j = be16 p j"
  by (auto simp: be16_def put16_nth)

lemma be16_take: "j + 1 < n \<Longrightarrow> be16 (take n p) j = be16 p j"
  by (simp add: be16_def)

lemma unat_not16: "unat (NOT (x :: 16 word)) = 65535 - unat x"
proof -
  have "NOT x = - 1 - x" by (simp add: not_eq_complement)
  moreover have "x \<le> - 1" by simp
  moreover have "unat (- 1 :: 16 word) = 65535" by (simp add: unsigned_minus_1_eq_mask mask_eq_exp_minus_1)
  ultimately show ?thesis using unat_sub [of x "- 1"] by simp
qed

lemma unat_ucast16: "unat (s :: 32 word) < 65536 \<Longrightarrow> unat (ucast s :: 16 word) = unat s"
  unfolding unsigned_ucast_eq by (simp add: take_bit_nat_eq_self)

lemma checksum_zero:
  assumes S: "unat s = S" and t: "unat t = S + (65535 - unat (fold_carry s))"
  shows "NOT (ucast (fold_carry t) :: 16 word) = 0"
proof -
  note fs = fold_carry_mod [of s] and ft = fold_carry_mod [of t]
  let ?f = "unat (fold_carry s)"
  have "?f < 65536" "?f mod 65535 = S mod 65535" using fs S by auto
  then have "(S + (65535 - ?f)) mod 65535 = (?f + (65535 - ?f)) mod 65535" by (metis mod_add_left_eq)
  then have "unat t mod 65535 = 0" using t \<open>?f < 65536\<close> by simp
  moreover have "unat t \<noteq> 0" using t fs S by (cases "S = 0") auto
  ultimately have g: "unat (fold_carry t) mod 65535 = 0" "unat (fold_carry t) \<noteq> 0" "unat (fold_carry t) < 65536" using ft by auto
  then obtain q where q: "unat (fold_carry t) = 65535 * q" by (metis mod_0_imp_dvd dvdE)
  then have "q = 1" using g(2,3) by (cases "q < 2") auto
  then have "unat (NOT (ucast (fold_carry t) :: 16 word)) = 0" using q g(3) by (simp add: unat_not16 unat_ucast16)
  then show ?thesis by (simp add: unat_eq_zero)
qed

text \<open>After the update, the header sums to all ones.\<close>

lemma recompute_checksum:
  assumes ihl: "20 \<le> pkt_ihl p" "pkt_ihl p \<le> length p"
  shows "IPv4Checksum (take (pkt_ihl p) (recomputeIPv4Checksum p)) = Some 0"
proof -
  define b where "b = pkt_ihl p div 2"
  have n: "pkt_ihl p = 2 * b" by (simp add: b_def pkt_ihl_def)
  have b: "10 \<le> b" "b \<le> 30" "2 * b \<le> length p" using ihl pkt_ihl_le [of p] n by auto
  define p0 where "p0 = p[10 := 0, 11 := 0]"
  define s where "s = sum_words p0 0 (2 * b) 0"
  define c where "c = (NOT (ucast (fold_carry s)) :: 16 word)"
  define q where "q = put16 10 c p0"
  have q: "recomputeIPv4Checksum p = q"
    unfolding recomputeIPv4Checksum_def Let_def pkt_ihl_def [symmetric] n by (simp only: q_def c_def s_def p0_def)
  have len: "length p0 = length p" "length q = length p" by (simp_all add: p0_def q_def)
  have c: "unat c = 65535 - unat (fold_carry s)"
    unfolding c_def unat_not16 using unat_ucast16 [of "fold_carry s"] fold_carry_mod [of s] by simp
  have sums: "unat (sum_words r 0 (2 * b) 0) = (\<Sum>k \<in> {0..<b}. unat (be16 r (2 * k)))" for r
    using sum_words_unat [of 0 b 0 r] b by simp
  have split: "(\<Sum>k \<in> {0..<b}. f k) = f 5 + (\<Sum>k \<in> {0..<b} - {5}. f k)" for f :: "nat \<Rightarrow> nat"
    using b by (intro sum.remove) auto
  have zero: "be16 p0 10 = 0" using b by (simp add: be16_def p0_def nth_list_update)
  have at5: "be16 q 10 = c" unfolding q_def by (rule be16_put16_same) (use b len in simp)
  have other: "be16 q (2 * k) = be16 p0 (2 * k)" if "k \<noteq> 5" for k
  proof -
    have "2 * k \<noteq> 10" "2 * k \<noteq> 10 + 1" "2 * k + 1 \<noteq> 10" using that by presburger+
    then show ?thesis unfolding q_def by (intro be16_put16_other) (use b len in simp_all)
  qed
  have "unat (sum_words q 0 (2 * b) 0) = unat c + (\<Sum>k \<in> {0..<b} - {5}. unat (be16 p0 (2 * k)))"
    unfolding sums split using at5 other by simp
  moreover have "unat s = (\<Sum>k \<in> {0..<b} - {5}. unat (be16 p0 (2 * k)))" unfolding s_def sums split using zero by simp
  ultimately have "unat (sum_words q 0 (2 * b) 0) = unat s + (65535 - unat (fold_carry s))" using c by simp
  then have "NOT (ucast (fold_carry (sum_words q 0 (2 * b) 0)) :: 16 word) = 0" by (rule checksum_zero [OF refl])
  moreover have "sum_words (take (2 * b) q) 0 (2 * b) 0 = sum_words q 0 (2 * b) 0"
  proof -
    have "(\<Sum>k \<in> {0..<b}. unat (be16 (take (2 * b) q) (2 * k))) = (\<Sum>k \<in> {0..<b}. unat (be16 q (2 * k)))"
      by (rule sum.cong) (auto simp: be16_take)
    then show ?thesis using sums by (metis unsigned_word_eqI)
  qed
  moreover have "length (take (2 * b) q) = 2 * b" using b len by simp
  ultimately show ?thesis unfolding q n IPv4Checksum_def by simp
qed

section \<open>The tagged packet\<close>

lemma flags_kept: "be16 p 6 AND 0x3FFF = be16 q 6 AND 0x3FFF" if "q ! 6 = p ! 6 OR 0x40" "q ! 7 = p ! 7"
proof -
  have m: "(x :: 16 word) AND 0x3FFF = take_bit 14 x" for x by (simp add: take_bit_eq_mask mask_eq_exp_minus_1)
  have "take_bit 14 (push_bit 8 (ucast (x OR 0x40) :: 16 word)) = take_bit 14 (push_bit 8 (ucast (x :: byte)))" for x
  proof (rule bit_word_eqI)
    fix n assume "n < LENGTH(16)"
    have "\<not> bit (0x40 :: byte) (n - 8)" if "n < 14" "8 \<le> n"
    proof -
      have "n - 8 \<in> {0, 1, 2, 3, 4, 5}" using that by auto
      then show ?thesis by (auto simp: bit_numeral_simps)
    qed
    then show "bit (take_bit 14 (push_bit 8 (ucast (x OR 0x40) :: 16 word))) n = bit (take_bit 14 (push_bit 8 (ucast x :: 16 word))) n"
      by (auto simp: bit_simps)
  qed
  then show ?thesis using that unfolding m be16_def by (simp add: take_bit_or)
qed

text \<open>A packet that differs only in the Identification, DF and the checksum.\<close>

definition rewritten :: "byte list \<Rightarrow> byte list \<Rightarrow> bool" where
  "rewritten p q \<longleftrightarrow> length q = length p \<and> q ! 6 = p ! 6 OR 0x40 \<and> (\<forall>i. i \<notin> {4, 5, 6, 10, 11} \<longrightarrow> q ! i = p ! i)"

lemma rewritten_input:
  assumes p: "tagged p" and q: "rewritten p q"
  shows "HashInput q = HashInput p"
proof -
  have same: "q ! i = p ! i" if "i \<in> {0, 2, 3, 7, 9}" for i using q that by (auto simp: rewritten_def)
  then have hdr: "pkt_ihl q = pkt_ihl p" "be16 q 2 = be16 p 2" "pkt_len q = pkt_len p"
    by (simp_all add: pkt_ihl_def be16_def pkt_len_def)
  have "be16 q 6 AND 0x3FFF = 0" using flags_kept [of q p] q same p by (simp add: rewritten_def tagged_def)
  then have tq: "tagged q" using p q hdr same by (auto simp: tagged_def rewritten_def)
  have "q ! i = p ! i" if "\<not> mutable p i" for i
    using that q by (auto simp: mutable_def rewritten_def)
  then have "canonical p = canonical q" using canonical_eq_iff [OF p tq] hdr by auto
  then show ?thesis using HashInput_canonical [OF p] HashInput_canonical [OF tq] by simp
qed

lemma recompute_nth:
  "12 \<le> length p \<Longrightarrow> i \<noteq> 10 \<Longrightarrow> i \<noteq> 11 \<Longrightarrow> recomputeIPv4Checksum p ! i = p ! i" "length (recomputeIPv4Checksum p) = length p"
  by (simp_all add: recomputeIPv4Checksum_def Let_def put16_nth nth_list_update)

text \<open>What the tagger writes into a packet that the specification has a tag for.\<close>

lemma tagWithKey_written:
  assumes p: "tagged pkt" and hkdf: "hkdf k mid 32 = Some ak" and ak: "16 \<le> length ak"
  obtains q inp where "tagWithKey hkdf mid pkt (Some k) = Inr q" "rewritten pkt q" "HashInput q = Inr inp" "ComputeTag ak inp = Inr (ReadIPID q)"
    "PacketID q = Some (ReadIPID q)" "IPv4Checksum (take (pkt_ihl q) q) = Some 0"
proof -
  note len = tagged_len [OF p]
  obtain inp where inp: "HashInput pkt = Inr inp" using HashInput_canonical [OF p] by blast
  obtain tag where tag: "ComputeTag ak inp = Inr tag" using ak by (simp add: ComputeTag_def)
  define r where "r = (writeIPID tag pkt)[6 := writeIPID tag pkt ! 6 OR 0x40]"
  define q where "q = recomputeIPv4Checksum r"
  have q: "tagWithKey hkdf mid pkt (Some k) = Inr q"
    using hkdf inp tag by (simp add: tagWithKey_def TagWithKey_def DeriveAK_def PacketTag_def Let_def q_def r_def)
  have lr: "length r = length pkt" "12 \<le> length r" using len by (simp_all add: r_def writeIPID_def)
  have r: "r ! i = (if i = 6 then pkt ! 6 OR 0x40 else if i = 4 then ucast (drop_bit 8 tag) else if i = 5 then ucast tag else pkt ! i)" for i
    using len by (auto simp: r_def writeIPID_def put16_nth nth_list_update)
  have qi: "q ! i = r ! i" if "i \<noteq> 10" "i \<noteq> 11" for i using recompute_nth(1) [OF lr(2) that] by (simp add: q_def)
  have rw: "rewritten pkt q" using qi r lr recompute_nth(2) [of r] by (simp add: rewritten_def q_def)
  have id: "ReadIPID q = tag"
  proof -
    have "be16 q 4 = be16 (put16 4 tag pkt) 4" using qi r len by (simp add: be16_def put16_nth)
    then show ?thesis using be16_put16_same [of 4 pkt tag] len by (simp add: ReadIPID_def)
  qed
  have ihl: "pkt_ihl r = pkt_ihl pkt" "pkt_ihl q = pkt_ihl pkt" using r qi by (simp_all add: pkt_ihl_def)
  then have "IPv4Checksum (take (pkt_ihl q) q) = Some 0"
    using recompute_checksum [of r] p len lr unfolding q_def [symmetric] by (simp add: tagged_def)
  moreover have "PacketID q = Some (ReadIPID q)" using rw len by (simp add: PacketID_def ReadIPID_def rewritten_def)
  ultimately show ?thesis using that q rw rewritten_input [OF p rw] inp tag id by simp
qed

section \<open>Properties\<close>

text \<open>
  C34: a tagged packet verifies. Under the key that decided to tag, the tagger either leaves
  the packet as it is, when the specification has no tag for it, or writes the tag so that
  \<open>VerifyTag\<close> accepts it from the packet's own Identification field; DF is set, the header
  checksum is right, and no other byte changes.
\<close>

theorem tagWithKey_verifies:
  assumes hkdf: "hkdf k mid 32 = Some ak" and ak: "16 \<le> length ak"
  shows "\<exists>q. tagWithKey hkdf mid pkt (Some k) = Inr q \<and> length q = length pkt
    \<and> (case refusal pkt of Some _ \<Rightarrow> q = pkt
       | None \<Rightarrow> VerifyTag hkdf k mid q (ReadIPID q) = Inr True \<and> PacketID q = Some (ReadIPID q)
           \<and> q ! 6 = pkt ! 6 OR 0x40 \<and> IPv4Checksum (take (pkt_ihl q) q) = Some 0
           \<and> (\<forall>i. i \<notin> {4, 5, 6, 10, 11} \<longrightarrow> q ! i = pkt ! i))"
proof (cases "refusal pkt")
  case (Some e)
  then have "TagWithKey hkdf k mid pkt = Inl (TagUnsupported e)"
    using HashInput_refused [OF Some] hkdf by (simp add: TagWithKey_def DeriveAK_def PacketTag_def)
  then show ?thesis using Some by (simp add: tagWithKey_def)
next
  case None
  then have "tagged pkt" by (simp add: refusal_None)
  then obtain q inp where q: "tagWithKey hkdf mid pkt (Some k) = Inr q" "rewritten pkt q" "HashInput q = Inr inp"
    "ComputeTag ak inp = Inr (ReadIPID q)" "PacketID q = Some (ReadIPID q)" "IPv4Checksum (take (pkt_ihl q) q) = Some 0"
    using tagWithKey_written [where hkdf = hkdf and k = k and mid = mid, OF _ hkdf ak] by blast
  then have "VerifyTag hkdf k mid q (ReadIPID q) = Inr True" using hkdf by (simp add: VerifyTag_def DeriveAK_def)
  then show ?thesis using q None by (auto simp: rewritten_def)
qed

theorem tagWithKey_verifies_witness:
  "\<exists>q. tagWithKey (\<lambda>_ _ n. Some (replicate n 1)) [] sample_packet (Some []) = Inr q
     \<and> VerifyTag (\<lambda>_ _ n. Some (replicate n 1)) [] [] q (ReadIPID q) = Inr True \<and> IPv4Checksum (take (pkt_ihl q) q) = Some 0"
  using tagWithKey_verifies [of "\<lambda>_ _ n. Some (replicate n 1)" "[]" "[]" "replicate 32 1" sample_packet] sample_packet_ok(1) by auto

end
