(* ===== verification/Timed_Queue.thy ===== *)
theory Timed_Queue
  imports Prelude "HOL-Library.Option_ord"
begin

text \<open>
  The queue of accepted runs ordered by start time, \<^verbatim>\<open>internal/executor/scheduler/memory/prio_q.go\<close>,
  with the run specification of \<^verbatim>\<open>scheduler/storage.go\<close>. The queue is an array of pointers to items;
  an item knows its index, so that a run can be removed by its identity. \<open>container/heap\<close> works on
  the array through \<open>Less\<close> and \<open>Swap\<close> only; its contract is the locale \<open>heap_interface\<close>.
\<close>

section \<open>Run specifications\<close>

type_synonym binding = "string \<times> string"

record Policy =
  EgressGrant :: "string option"
  FloorBW :: int
  CeilBW :: int
  Timeout :: int
  Addresses :: "string list"
  RequireICMP :: bool
  ListenUDP :: bool
  ListenTCP :: bool
  ListenSCION :: bool

record Spec =
  OutputVersion :: nat
  Binding :: binding
  DebugletID :: uuid
  StartTime :: "int option"
  Args :: "string list"
  Wasm :: "nat list"
  spec_Policy :: Policy
  TransactionID :: string

section \<open>The heap of the standard library\<close>

text \<open>
  \<open>heap.up\<close> and \<open>heap.down\<close> over a state \<open>s\<close> that is read by \<open>lt s i j\<close> and changed by
  \<open>swap i j s\<close> only.
\<close>

function heap_up :: "('s \<Rightarrow> nat \<Rightarrow> nat \<Rightarrow> bool) \<Rightarrow> (nat \<Rightarrow> nat \<Rightarrow> 's \<Rightarrow> 's) \<Rightarrow> nat \<Rightarrow> 's \<Rightarrow> 's" where
  "heap_up lt swap j s = (let i = (j - 1) div 2 in
     if i = j \<or> \<not> lt s j i then s else heap_up lt swap i (swap i j s))"
  by pat_completeness auto
termination by (relation "measure (\<lambda>(_, _, j, _). j)") auto

function heap_down :: "('s \<Rightarrow> nat \<Rightarrow> nat \<Rightarrow> bool) \<Rightarrow> (nat \<Rightarrow> nat \<Rightarrow> 's \<Rightarrow> 's) \<Rightarrow> nat \<Rightarrow> nat \<Rightarrow> 's \<Rightarrow> nat \<times> 's" where
  "heap_down lt swap i n s = (let j1 = 2 * i + 1 in
     if j1 \<ge> n then (i, s)
     else let j = (if j1 + 1 < n \<and> lt s (j1 + 1) j1 then j1 + 1 else j1) in
       if \<not> lt s j i then (i, s) else heap_down lt swap j n (swap i j s))"
  by pat_completeness auto
termination by (relation "measure (\<lambda>(_, _, i, n, _). n - i)") auto

declare heap_up.simps [simp del] heap_down.simps [simp del]

section \<open>The model\<close>

record item =
  item_index :: int
  upload :: Spec

text \<open>
  \<open>items\<close> is the store that the item pointers point into; \<open>fresh\<close> is the next unused pointer.
\<close>

record TimedQueue =
  pq :: "nat list"
  item_refs :: "uuid \<rightharpoonup> nat"
  items :: "nat \<Rightarrow> item"
  fresh :: nat

definition pq_upload :: "TimedQueue \<Rightarrow> nat \<Rightarrow> Spec" where
  "pq_upload q i = upload (items q (pq q ! i))"

definition pq_Less :: "TimedQueue \<Rightarrow> nat \<Rightarrow> nat \<Rightarrow> bool" where
  "pq_Less q i j = (case StartTime (pq_upload q i) of None \<Rightarrow> True
     | Some a \<Rightarrow> (case StartTime (pq_upload q j) of None \<Rightarrow> False | Some b \<Rightarrow> a < b))"

definition set_index :: "nat \<Rightarrow> int \<Rightarrow> TimedQueue \<Rightarrow> TimedQueue" where
  "set_index p k q = q\<lparr>items := (items q)(p := (items q p)\<lparr>item_index := k\<rparr>)\<rparr>"

definition pq_Swap :: "nat \<Rightarrow> nat \<Rightarrow> TimedQueue \<Rightarrow> TimedQueue" where
  "pq_Swap i j q = (let q = q\<lparr>pq := (pq q)[i := pq q ! j, j := pq q ! i]\<rparr>;
     q = set_index (pq q ! i) (int i) q in set_index (pq q ! j) (int j) q)"

definition pq_Push :: "nat \<Rightarrow> TimedQueue \<Rightarrow> TimedQueue" where
  "pq_Push p q = (let q = set_index p (int (length (pq q))) q in q\<lparr>pq := pq q @ [p]\<rparr>)"

definition pq_Pop :: "TimedQueue \<Rightarrow> nat \<times> TimedQueue" where
  "pq_Pop q = (let p = last (pq q); q = set_index p (-1) q in (p, q\<lparr>pq := butlast (pq q)\<rparr>))"

text \<open>Go's zero values.\<close>

definition zero_Spec :: Spec where
  "zero_Spec = \<lparr>OutputVersion = 0, Binding = ([], []), DebugletID = 0, StartTime = None, Args = [], Wasm = [],
     spec_Policy = \<lparr>EgressGrant = None, FloorBW = 0, CeilBW = 0, Timeout = 0, Addresses = [], RequireICMP = False,
       ListenUDP = False, ListenTCP = False, ListenSCION = False\<rparr>, TransactionID = []\<rparr>"

definition NewTimedQueue :: TimedQueue where
  "NewTimedQueue = \<lparr>pq = [], item_refs = Map.empty, items = (\<lambda>_. \<lparr>item_index = 0, upload = zero_Spec\<rparr>), fresh = 0\<rparr>"

definition TimedQueue_Len :: "TimedQueue \<Rightarrow> nat" where
  "TimedQueue_Len q = length (pq q)"

text \<open>\<open>heap.Push\<close> after a new item is allocated, then the reference.\<close>

definition TimedQueue_Push :: "Spec \<Rightarrow> TimedQueue \<Rightarrow> TimedQueue" where
  "TimedQueue_Push x q =
    (let p = fresh q;
         q = q\<lparr>fresh := fresh q + 1, items := (items q)(p := \<lparr>item_index = 0, upload = x\<rparr>)\<rparr>;
         q = pq_Push p q;
         q = heap_up pq_Less pq_Swap (length (pq q) - 1) q
     in q\<lparr>item_refs := (item_refs q)(DebugletID x \<mapsto> p)\<rparr>)"

text \<open>An index out of range panics: \<open>None\<close>.\<close>

definition TimedQueue_Peek :: "nat \<Rightarrow> TimedQueue \<Rightarrow> Spec option" where
  "TimedQueue_Peek i q = (if i < length (pq q) then Some (pq_upload q i) else None)"

definition TimedQueue_Pop :: "TimedQueue \<Rightarrow> (Spec \<times> TimedQueue) option" where
  "TimedQueue_Pop q = (if pq q = [] then None
     else let n = length (pq q) - 1; q = pq_Swap 0 n q; q = snd (heap_down pq_Less pq_Swap 0 n q) in
       (case pq_Pop q of (p, q) \<Rightarrow> let u = upload (items q p) in
         Some (u, q\<lparr>item_refs := (item_refs q)(DebugletID u := None)\<rparr>)))"

definition heap_Remove :: "nat \<Rightarrow> TimedQueue \<Rightarrow> nat \<times> TimedQueue" where
  "heap_Remove i q = (let n = length (pq q) - 1 in
     pq_Pop (if n \<noteq> i then (let q = pq_Swap i n q in case heap_down pq_Less pq_Swap i n q of (i', q') \<Rightarrow>
       if i' > i then q' else heap_up pq_Less pq_Swap i q') else q))"

definition TimedQueue_Remove :: "uuid \<Rightarrow> TimedQueue \<Rightarrow> Spec option \<times> TimedQueue" where
  "TimedQueue_Remove ID q = (case item_refs q ID of None \<Rightarrow> (None, q)
     | Some p \<Rightarrow> let q = q\<lparr>item_refs := (item_refs q)(ID := None)\<rparr> in
        (case heap_Remove (nat (item_index (items q p))) q of (p', q) \<Rightarrow> (Some (upload (items q p')), q)))"

section \<open>The contract of a heap\<close>

definition list_swap :: "nat \<Rightarrow> nat \<Rightarrow> 'a list \<Rightarrow> 'a list" where
  "list_swap i j xs = xs[i := xs ! j, j := xs ! i]"

lemma list_swap_length [simp]: "length (list_swap i j xs) = length xs"
  by (simp add: list_swap_def)

lemma list_swap_nth: "i < length xs \<Longrightarrow> j < length xs \<Longrightarrow> list_swap i j xs ! k = (if k = j then xs ! i else if k = i then xs ! j else xs ! k)"
  by (simp add: list_swap_def nth_list_update)

lemma list_swap_mset: "i < length xs \<Longrightarrow> j < length xs \<Longrightarrow> mset (list_swap i j xs) = mset xs"
  by (simp add: list_swap_def mset_swap)

text \<open>\<open>heap_at xs n\<close>: below \<open>n\<close>, no entry is smaller than its parent.\<close>

definition heap_at :: "('a :: linorder) list \<Rightarrow> nat \<Rightarrow> bool" where
  "heap_at xs n \<longleftrightarrow> (\<forall>c. 0 < c \<and> c < n \<longrightarrow> xs ! ((c - 1) div 2) \<le> xs ! c)"

text \<open>
  A heap with one entry out of place: all pairs of parent and child without it are in order,
  and its parent is in order with its children.
\<close>

definition hole :: "('a :: linorder) list \<Rightarrow> nat \<Rightarrow> nat \<Rightarrow> bool" where
  "hole xs n i \<longleftrightarrow> (\<forall>c. 0 < c \<and> c < n \<and> c \<noteq> i \<and> (c - 1) div 2 \<noteq> i \<longrightarrow> xs ! ((c - 1) div 2) \<le> xs ! c)
     \<and> (\<forall>c. 0 < c \<and> c < n \<and> (c - 1) div 2 = i \<and> 0 < i \<longrightarrow> xs ! ((i - 1) div 2) \<le> xs ! c)"

definition above_ok :: "('a :: linorder) list \<Rightarrow> nat \<Rightarrow> bool" where
  "above_ok xs i \<longleftrightarrow> (0 < i \<longrightarrow> xs ! ((i - 1) div 2) \<le> xs ! i)"

definition below_ok :: "('a :: linorder) list \<Rightarrow> nat \<Rightarrow> nat \<Rightarrow> bool" where
  "below_ok xs n i \<longleftrightarrow> (\<forall>c. 0 < c \<and> c < n \<and> (c - 1) div 2 = i \<longrightarrow> xs ! i \<le> xs ! c)"

lemma heap_at_hole: "hole xs n i \<Longrightarrow> above_ok xs i \<Longrightarrow> below_ok xs n i \<Longrightarrow> heap_at xs n"
  unfolding heap_at_def hole_def above_ok_def below_ok_def by metis

lemma hole_heap_at: "heap_at xs n \<Longrightarrow> i < n \<Longrightarrow> hole xs n i \<and> above_ok xs i \<and> below_ok xs n i"
  unfolding heap_at_def hole_def above_ok_def below_ok_def by (meson dual_order.strict_trans1 le_less_trans order_trans zero_less_iff_neq_zero)

lemma parent_less: "0 < c \<Longrightarrow> (c - 1) div 2 < (c :: nat)"
  by simp

text \<open>Swapping an entry with a larger parent moves the misplaced entry up.\<close>

lemma hole_swap_up:
  assumes h: "hole xs n j" "below_ok xs n j" and j: "0 < j" "j < n" "n \<le> length xs" and le: "xs ! j \<le> xs ! ((j - 1) div 2)"
  shows "hole (list_swap ((j - 1) div 2) j xs) n ((j - 1) div 2) \<and> below_ok (list_swap ((j - 1) div 2) j xs) n ((j - 1) div 2)"
proof -
  define i where "i = (j - 1) div 2"
  have i: "i < j" using parent_less [OF j(1)] by (simp add: i_def)
  let ?ys = "list_swap i j xs"
  have ys: "?ys ! k = (if k = j then xs ! i else if k = i then xs ! j else xs ! k)" for k
    by (rule list_swap_nth) (use i j in auto)
  have pi: "xs ! ((i - 1) div 2) \<le> xs ! i" if "0 < i"
  proof -
    have "(i - 1) div 2 \<noteq> j" using parent_less [OF that] i by simp
    then show ?thesis using h(1) that i j unfolding hole_def by auto
  qed
  have below: "xs ! j \<le> xs ! c" "xs ! i \<le> xs ! c" if "0 < c" "c < n" "(c - 1) div 2 = i" "c \<noteq> j" for c
  proof -
    show "xs ! i \<le> xs ! c" using h(1) that i unfolding hole_def by auto
    then show "xs ! j \<le> xs ! c" using le by (auto simp: i_def)
  qed
  have children: "xs ! i \<le> xs ! c" if "0 < c" "c < n" "(c - 1) div 2 = j" for c
    using h(1) that j unfolding hole_def i_def by auto
  have "?ys ! ((c - 1) div 2) \<le> ?ys ! c" if c: "0 < c" "c < n" "c \<noteq> i" "(c - 1) div 2 \<noteq> i" for c
  proof (cases "(c - 1) div 2 = j")
    case True
    then have "c \<noteq> j" using parent_less [OF c(1)] by auto
    then show ?thesis using children [OF c(1,2) True] True c i by (simp add: ys)
  next
    case False
    moreover have "c \<noteq> j" using c(4) i_def by auto
    ultimately show ?thesis using h(1) c unfolding hole_def by (auto simp: ys)
  qed
  moreover have "?ys ! ((i - 1) div 2) \<le> ?ys ! c" if c: "0 < c" "c < n" "(c - 1) div 2 = i" "0 < i" for c
  proof -
    have p: "(i - 1) div 2 < i" using parent_less [OF c(4)] .
    have "c \<noteq> i" using parent_less [OF c(1)] c(3) by auto
    then show ?thesis using p i pi [OF c(4)] below(2) [OF c(1-3)] by (auto simp: ys intro: order_trans)
  qed
  moreover have "?ys ! i \<le> ?ys ! c" if c: "0 < c" "c < n" "(c - 1) div 2 = i" for c
    using below(1) [OF c] le [folded i_def] i c parent_less [OF c(1)] by (auto simp: ys)
  ultimately show ?thesis unfolding hole_def below_ok_def i_def [symmetric] by blast
qed

text \<open>Swapping an entry with its smallest child moves the misplaced entry down.\<close>

lemma hole_swap_down:
  assumes h: "hole xs n i" and j: "0 < j" "j < n" "n \<le> length xs" "(j - 1) div 2 = i"
    and small: "\<And>c. 0 < c \<Longrightarrow> c < n \<Longrightarrow> (c - 1) div 2 = i \<Longrightarrow> xs ! j \<le> xs ! c" and le: "xs ! j \<le> xs ! i"
  shows "hole (list_swap i j xs) n j \<and> above_ok (list_swap i j xs) j"
proof -
  have i: "i < j" using parent_less [OF j(1)] j(4) by simp
  let ?ys = "list_swap i j xs"
  have ys: "?ys ! k = (if k = j then xs ! i else if k = i then xs ! j else xs ! k)" for k
    by (rule list_swap_nth) (use i j in auto)
  have "?ys ! ((c - 1) div 2) \<le> ?ys ! c" if c: "0 < c" "c < n" "c \<noteq> j" "(c - 1) div 2 \<noteq> j" for c
  proof (cases "(c - 1) div 2 = i")
    case True
    then have "c \<noteq> i" using parent_less [OF c(1)] by auto
    then show ?thesis using small [OF c(1,2) True] True c i by (simp add: ys)
  next
    case False
    then show ?thesis using h c j unfolding hole_def by (cases "c = i") (auto simp: ys)
  qed
  moreover have "?ys ! ((j - 1) div 2) \<le> ?ys ! c" if c: "0 < c" "c < n" "(c - 1) div 2 = j" for c
  proof -
    have "c \<noteq> j" "c \<noteq> i" using parent_less [OF c(1)] c(3) i by auto
    moreover have "xs ! j \<le> xs ! c" using h c i \<open>c \<noteq> i\<close> unfolding hole_def by auto
    ultimately show ?thesis using i j(4) by (simp add: ys)
  qed
  moreover have "?ys ! i \<le> ?ys ! j" using le i by (simp add: ys)
  ultimately show ?thesis unfolding hole_def above_ok_def using j(4) by auto
qed

lemma heap_at_root: "heap_at xs n \<Longrightarrow> k < n \<Longrightarrow> xs ! 0 \<le> xs ! k"
proof (induction k rule: less_induct)
  case (less k)
  show ?case
  proof (cases "k = 0")
    case False
    then have "(k - 1) div 2 < k" by simp
    then have "xs ! 0 \<le> xs ! ((k - 1) div 2)" using less by simp
    also have "\<dots> \<le> xs ! k" using less.prems False by (auto simp: heap_at_def)
    finally show ?thesis .
  qed simp
qed

locale heap_interface =
  fixes lt :: "'s \<Rightarrow> nat \<Rightarrow> nat \<Rightarrow> bool" and swap :: "nat \<Rightarrow> nat \<Rightarrow> 's \<Rightarrow> 's" and view :: "'s \<Rightarrow> ('a :: linorder) list"
  assumes swap_view: "i < length (view s) \<Longrightarrow> j < length (view s) \<Longrightarrow> view (swap i j s) = list_swap i j (view s)"
    and lt_le: "i < length (view s) \<Longrightarrow> j < length (view s) \<Longrightarrow> lt s i j \<Longrightarrow> view s ! i \<le> view s ! j"
    and not_lt_le: "i < length (view s) \<Longrightarrow> j < length (view s) \<Longrightarrow> \<not> lt s i j \<Longrightarrow> view s ! j \<le> view s ! i"
begin

lemma up_invariant:
  assumes step: "\<And>i j s. i < n \<Longrightarrow> j < n \<Longrightarrow> P s \<Longrightarrow> P (swap i j s)"
  shows "j < n \<Longrightarrow> P s \<Longrightarrow> P (heap_up lt swap j s)"
proof (induction j arbitrary: s rule: less_induct)
  case (less j)
  let ?i = "(j - 1) div 2"
  show ?case
  proof (cases "?i = j \<or> \<not> lt s j ?i")
    case False
    then have i: "?i < j" by auto
    then show ?thesis using less.IH [OF i] step [of ?i j s] less.prems False by (simp add: heap_up.simps [of lt swap j] Let_def)
  qed (use less.prems in \<open>simp add: heap_up.simps [of lt swap j] Let_def\<close>)
qed

lemma down_invariant:
  assumes step: "\<And>i j s. i < n \<Longrightarrow> j < n \<Longrightarrow> P s \<Longrightarrow> P (swap i j s)"
  shows "i < n \<Longrightarrow> P s \<Longrightarrow> P (snd (heap_down lt swap i n s)) \<and> i \<le> fst (heap_down lt swap i n s)"
proof (induction "n - i" arbitrary: i s rule: less_induct)
  case less
  define j where "j = (if 2 * i + 1 + 1 < n \<and> lt s (2 * i + 1 + 1) (2 * i + 1) then 2 * i + 1 + 1 else 2 * i + 1)"
  have unf: "heap_down lt swap i n s = (if n \<le> 2 * i + 1 then (i, s) else if \<not> lt s j i then (i, s) else heap_down lt swap j n (swap i j s))"
    by (simp add: heap_down.simps [of lt swap i] Let_def j_def)
  show ?case
  proof (cases "2 * i + 1 \<ge> n \<or> \<not> lt s j i")
    case False
    then have j: "i < j" "j < n" by (auto simp: j_def)
    then have "P (snd (heap_down lt swap j n (swap i j s))) \<and> j \<le> fst (heap_down lt swap j n (swap i j s))"
      using less.hyps [of j "swap i j s"] step [of i j s] less.prems by simp
    then show ?thesis using False j by (simp add: unf)
  qed (use less.prems in \<open>auto simp: unf\<close>)
qed

lemma up_view_length: "j < length (view s) \<Longrightarrow> length (view (heap_up lt swap j s)) = length (view s)"
  using up_invariant [of "length (view s)" "\<lambda>s'. length (view s') = length (view s)" j s] swap_view by simp

lemma up_heap:
  assumes "hole (view s) n j" "below_ok (view s) n j" "j < n" "n \<le> length (view s)"
  shows "heap_at (view (heap_up lt swap j s)) n"
  using assms
proof (induction j arbitrary: s rule: less_induct)
  case (less j)
  let ?i = "(j - 1) div 2"
  show ?case
  proof (cases "?i = j \<or> \<not> lt s j ?i")
    case True
    then have "above_ok (view s) j"
      using not_lt_le [of j s ?i] less.prems parent_less [of j] by (auto simp: above_ok_def)
    then show ?thesis using True heap_at_hole less.prems by (simp add: heap_up.simps [of lt swap j] Let_def)
  next
    case False
    then have i: "0 < j" "?i < j" by auto
    have in_range: "j < length (view s)" "?i < length (view s)" using i less.prems by auto
    have v: "view (swap ?i j s) = list_swap ?i j (view s)" using swap_view in_range by simp
    have "view s ! j \<le> view s ! ?i" using lt_le [OF in_range] False by simp
    from hole_swap_up [OF less.prems(1,2) i(1) less.prems(3,4) this]
    have "heap_at (view (heap_up lt swap ?i (swap ?i j s))) n"
      using less.IH [OF i(2), of "swap ?i j s"] less.prems i v by simp
    then show ?thesis using False by (simp add: heap_up.simps [of lt swap j] Let_def)
  qed
qed

text \<open>One round of \<open>down\<close>: it stops with the children in order, or moves on to the smallest child.\<close>

lemma down_step:
  assumes h: "hole (view s) n i" and i: "i < n" "n \<le> length (view s)"
  shows "heap_down lt swap i n s = (i, s) \<and> below_ok (view s) n i
    \<or> (\<exists>j. i < j \<and> j < n \<and> heap_down lt swap i n s = heap_down lt swap j n (swap i j s)
        \<and> hole (view (swap i j s)) n j \<and> above_ok (view (swap i j s)) j)"
proof -
  define j where "j = (if 2 * i + 1 + 1 < n \<and> lt s (2 * i + 1 + 1) (2 * i + 1) then 2 * i + 1 + 1 else 2 * i + 1)"
  have child: "c = 2 * i + 1 \<or> c = 2 * i + 2" if "0 < c" "(c - 1) div 2 = i" for c using that by presburger
  have unf: "heap_down lt swap i n s = (if n \<le> 2 * i + 1 then (i, s) else if \<not> lt s j i then (i, s) else heap_down lt swap j n (swap i j s))"
    by (simp add: heap_down.simps [of lt swap i] Let_def j_def)
  show ?thesis
  proof (cases "n \<le> 2 * i + 1")
    case True
    then have "below_ok (view s) n i" using child by (fastforce simp: below_ok_def)
    then show ?thesis using True unf by simp
  next
    case False
    have j: "0 < j" "j < n" "(j - 1) div 2 = i" "i < j" using False by (auto simp: j_def)
    have small: "view s ! j \<le> view s ! c" if "0 < c" "c < n" "(c - 1) div 2 = i" for c
      using child [OF that(1,3)] that i False lt_le [of "2 * i + 2" s "2 * i + 1"] not_lt_le [of "2 * i + 2" s "2 * i + 1"] by (auto simp: j_def)
    show ?thesis
    proof (cases "lt s j i")
      case True
      have "view s ! j \<le> view s ! i" using lt_le [OF _ _ True] j i by simp
      then have "hole (view (swap i j s)) n j \<and> above_ok (view (swap i j s)) j"
        using hole_swap_down [OF h j(1,2) i(2) j(3) small] swap_view [of i s j] j i by simp
      then show ?thesis using unf False True j by auto
    next
      case nlt: False
      have "view s ! i \<le> view s ! j" using not_lt_le [OF _ _ nlt] j i by simp
      then have "view s ! i \<le> view s ! c" if "0 < c" "c < n" "(c - 1) div 2 = i" for c using small [OF that] by simp
      then have "below_ok (view s) n i" unfolding below_ok_def by blast
      then show ?thesis using unf False nlt by simp
    qed
  qed
qed

lemma down_heap:
  assumes "hole (view s) n i" "above_ok (view s) i" "i < n" "n \<le> length (view s)"
  shows "heap_at (view (snd (heap_down lt swap i n s))) n"
  using assms
proof (induction "n - i" arbitrary: i s rule: less_induct)
  case less
  from down_step [OF less.prems(1,3,4)] show ?case
  proof
    assume "heap_down lt swap i n s = (i, s) \<and> below_ok (view s) n i"
    then show ?thesis using heap_at_hole [OF less.prems(1,2)] by simp
  next
    assume "\<exists>j. i < j \<and> j < n \<and> heap_down lt swap i n s = heap_down lt swap j n (swap i j s)
        \<and> hole (view (swap i j s)) n j \<and> above_ok (view (swap i j s)) j"
    then obtain j where j: "i < j" "j < n" "heap_down lt swap i n s = heap_down lt swap j n (swap i j s)"
      "hole (view (swap i j s)) n j" "above_ok (view (swap i j s)) j" by blast
    have "n \<le> length (view (swap i j s))" using swap_view [of i s j] j less.prems by simp
    then show ?thesis using less.hyps [OF _ j(4,5,2)] j less.prems by simp
  qed
qed

text \<open>\<open>heap.Remove\<close> repairs an arbitrary entry: down, and up if that did not move it.\<close>

lemma fix_heap:
  assumes h: "hole (view s) n i" and i: "i < n" "n \<le> length (view s)"
  shows "heap_at (view (case heap_down lt swap i n s of (i', s') \<Rightarrow> if i' > i then s' else heap_up lt swap i s')) n"
  using down_step [OF h i]
proof
  assume "heap_down lt swap i n s = (i, s) \<and> below_ok (view s) n i"
  then show ?thesis using up_heap [OF h _ i] by simp
next
  assume "\<exists>j. i < j \<and> j < n \<and> heap_down lt swap i n s = heap_down lt swap j n (swap i j s)
        \<and> hole (view (swap i j s)) n j \<and> above_ok (view (swap i j s)) j"
  then obtain j where j: "i < j" "j < n" "heap_down lt swap i n s = heap_down lt swap j n (swap i j s)"
    "hole (view (swap i j s)) n j" "above_ok (view (swap i j s)) j" by blast
  have "n \<le> length (view (swap i j s))" using swap_view [of i s j] j i by simp
  from down_heap [OF j(4,5,2) this] down_invariant [of n "\<lambda>_. True" j "swap i j s"] j
  show ?thesis by (auto split: prod.splits)
qed

end

section \<open>The queue is a heap of start times\<close>

definition tq_view :: "TimedQueue \<Rightarrow> int option list" where
  "tq_view q = map (\<lambda>p. StartTime (upload (items q p))) (pq q)"

lemma tq_view_length [simp]: "length (tq_view q) = length (pq q)"
  by (simp add: tq_view_def)

lemma set_index_fields [simp]:
  "pq (set_index p k q) = pq q" "item_refs (set_index p k q) = item_refs q" "fresh (set_index p k q) = fresh q"
  "upload (items (set_index p k q) r) = upload (items q r)"
  "item_index (items (set_index p k q) r) = (if r = p then k else item_index (items q r))"
  by (simp_all add: set_index_def)

lemma pq_Swap_fields [simp]:
  "pq (pq_Swap i j q) = list_swap i j (pq q)" "item_refs (pq_Swap i j q) = item_refs q" "fresh (pq_Swap i j q) = fresh q"
  "upload (items (pq_Swap i j q) r) = upload (items q r)"
  by (simp_all add: pq_Swap_def Let_def list_swap_def)

lemma tq_view_swap: "i < length (pq q) \<Longrightarrow> j < length (pq q) \<Longrightarrow> tq_view (pq_Swap i j q) = list_swap i j (tq_view q)"
  by (simp add: tq_view_def list_swap_def map_update)

interpretation tqh: heap_interface pq_Less pq_Swap tq_view
proof
  fix i j :: nat and s :: TimedQueue
  assume ij: "i < length (tq_view s)" "j < length (tq_view s)"
  show "tq_view (pq_Swap i j s) = list_swap i j (tq_view s)" using tq_view_swap ij by simp
  show "tq_view s ! i \<le> tq_view s ! j" if "pq_Less s i j"
    using that ij by (auto simp: pq_Less_def pq_upload_def tq_view_def split: option.splits)
  show "tq_view s ! j \<le> tq_view s ! i" if "\<not> pq_Less s i j"
    using that ij by (auto simp: pq_Less_def pq_upload_def tq_view_def split: option.splits)
qed

text \<open>Pointers in the array are distinct, allocated, and know their index.\<close>

definition array_ok :: "TimedQueue \<Rightarrow> bool" where
  "array_ok q \<longleftrightarrow> distinct (pq q) \<and> (\<forall>p \<in> set (pq q). p < fresh q) \<and> (\<forall>i < length (pq q). item_index (items q (pq q ! i)) = int i)"

definition same_items :: "TimedQueue \<Rightarrow> TimedQueue \<Rightarrow> bool" where
  "same_items q q' \<longleftrightarrow> set (pq q') = set (pq q) \<and> length (pq q') = length (pq q) \<and> item_refs q' = item_refs q
     \<and> fresh q' = fresh q \<and> (\<forall>p. upload (items q' p) = upload (items q p))"

lemma list_swap_set: "i < length xs \<Longrightarrow> j < length xs \<Longrightarrow> set (list_swap i j xs) = set xs"
  by (simp add: list_swap_def set_swap)

lemma list_swap_distinct: "i < length xs \<Longrightarrow> j < length xs \<Longrightarrow> distinct (list_swap i j xs) = distinct xs"
  by (simp add: list_swap_def distinct_swap)

lemma array_ok_swap:
  assumes ok: "array_ok q" and ij: "i < length (pq q)" "j < length (pq q)"
  shows "array_ok (pq_Swap i j q)" "same_items q (pq_Swap i j q)"
proof -
  have d: "distinct (list_swap i j (pq q))" using ok ij by (simp add: array_ok_def list_swap_distinct)
  have ix: "item_index (items (pq_Swap i j q) (list_swap i j (pq q) ! k)) = int k" if k: "k < length (pq q)" for k
  proof -
    let ?zs = "list_swap i j (pq q)"
    have set: "item_index (items (pq_Swap i j q) p) = (if p = ?zs ! j then int j else if p = ?zs ! i then int i else item_index (items q p))" for p
      by (simp add: pq_Swap_def Let_def list_swap_def)
    have inj: "?zs ! k = ?zs ! b \<longleftrightarrow> k = b" if "b < length (pq q)" for b
      using nth_eq_iff_index_eq [OF d, of k b] that k by simp
    have "?zs ! k = pq q ! k" if "k \<noteq> i" "k \<noteq> j" using that ij by (simp add: list_swap_nth)
    then show ?thesis using set [of "?zs ! k"] inj [OF ij(1)] inj [OF ij(2)] ok k unfolding array_ok_def by (metis (no_types))
  qed
  show "array_ok (pq_Swap i j q)" using ok ij d ix by (simp add: array_ok_def list_swap_set)
  show "same_items q (pq_Swap i j q)" using ij by (simp add: same_items_def list_swap_set)
qed

text \<open>What \<open>up\<close> and \<open>down\<close> below \<open>n\<close> keep: the array's form, its items, and the entries from \<open>n\<close> on.\<close>

definition kept :: "nat \<Rightarrow> TimedQueue \<Rightarrow> TimedQueue \<Rightarrow> bool" where
  "kept n q q' \<longleftrightarrow> array_ok q' \<and> same_items q q' \<and> (\<forall>k. n \<le> k \<longrightarrow> pq q' ! k = pq q ! k)"

lemma kept_refl: "array_ok q \<Longrightarrow> kept n q q"
  by (simp add: kept_def same_items_def)

lemma kept_swap:
  assumes "kept n q q'" "n \<le> length (pq q)" "i < n" "j < n"
  shows "kept n q (pq_Swap i j q')"
proof -
  have ij: "i < length (pq q')" "j < length (pq q')" using assms by (auto simp: kept_def same_items_def)
  show ?thesis
    using assms array_ok_swap [OF _ ij] ij by (simp add: kept_def same_items_def list_swap_nth list_swap_set)
qed

lemma kept_up: "kept n q q' \<Longrightarrow> n \<le> length (pq q) \<Longrightarrow> j < n \<Longrightarrow> kept n q (heap_up pq_Less pq_Swap j q')"
  using tqh.up_invariant [of n "kept n q" j q'] kept_swap by blast

lemma kept_down: "kept n q q' \<Longrightarrow> n \<le> length (pq q) \<Longrightarrow> j < n \<Longrightarrow> kept n q (snd (heap_down pq_Less pq_Swap j n q'))"
  using tqh.down_invariant [of n "kept n q" j q'] kept_swap by blast

text \<open>The invariant of the queue: the references are exactly the items of the array.\<close>

definition tq_ok :: "TimedQueue \<Rightarrow> bool" where
  "tq_ok q \<longleftrightarrow> array_ok q \<and> heap_at (tq_view q) (length (pq q))
     \<and> (\<forall>i p. item_refs q i = Some p \<longleftrightarrow> p \<in> set (pq q) \<and> DebugletID (upload (items q p)) = i)"

definition tq_map :: "TimedQueue \<Rightarrow> uuid \<rightharpoonup> Spec" where
  "tq_map q i = map_option (\<lambda>p. upload (items q p)) (item_refs q i)"

lemma NewTimedQueue_ok: "tq_ok NewTimedQueue" "tq_map NewTimedQueue = Map.empty"
  by (auto simp: tq_ok_def array_ok_def NewTimedQueue_def heap_at_def tq_map_def fun_eq_iff)

lemma tq_map_id: "tq_ok q \<Longrightarrow> tq_map q i = Some u \<Longrightarrow> DebugletID u = i"
  by (auto simp: tq_ok_def tq_map_def)

lemma TimedQueue_Push_ok:
  assumes q: "tq_ok q" and new: "tq_map q (DebugletID x) = None"
  shows "tq_ok (TimedQueue_Push x q)" "tq_map (TimedQueue_Push x q) = (tq_map q)(DebugletID x \<mapsto> x)"
proof -
  let ?p = "fresh q" and ?n = "length (pq q)"
  define q1 where "q1 = pq_Push ?p (q\<lparr>fresh := fresh q + 1, items := (items q)(?p := \<lparr>item_index = 0, upload = x\<rparr>)\<rparr>)"
  define q2 where "q2 = heap_up pq_Less pq_Swap ?n q1"
  have a: "array_ok q" "heap_at (tq_view q) ?n" "item_refs q (DebugletID x) = None" using q new by (simp_all add: tq_ok_def tq_map_def)
  then have np: "?p \<notin> set (pq q)" by (auto simp: array_ok_def)
  have q1: "pq q1 = pq q @ [?p]" "item_refs q1 = item_refs q" "fresh q1 = fresh q + 1"
    "upload (items q1 r) = (if r = ?p then x else upload (items q r))" for r
    by (simp_all add: q1_def pq_Push_def Let_def set_index_def)
  have "array_ok q1" using a(1) np by (auto simp: array_ok_def q1_def pq_Push_def Let_def set_index_def nth_append less_Suc_eq) (metis nth_mem)
  then have k: "kept (?n + 1) q1 q2" unfolding q2_def using kept_up [OF kept_refl] q1(1) by simp
  have v: "tq_view q1 = tq_view q @ [StartTime x]" using np by (auto simp: tq_view_def q1)
  have "hole (tq_view q1) (?n + 1) ?n" "below_ok (tq_view q1) (?n + 1) ?n"
  proof -
    have par: "(c - 1) div 2 < ?n" if "0 < c" "c < ?n + 1" for c using that by linarith
    have ordered: "tq_view q1 ! ((c - 1) div 2) \<le> tq_view q1 ! c" if "0 < c" "c < ?n" for c
      using a(2) that par [of c] unfolding heap_at_def v by (simp add: nth_append)
    show "below_ok (tq_view q1) (?n + 1) ?n" using par unfolding below_ok_def by (metis less_irrefl)
    show "hole (tq_view q1) (?n + 1) ?n" unfolding hole_def
    proof (intro conjI allI impI)
      fix c assume "0 < c \<and> c < ?n + 1 \<and> c \<noteq> ?n \<and> (c - 1) div 2 \<noteq> ?n"
      then show "tq_view q1 ! ((c - 1) div 2) \<le> tq_view q1 ! c" using ordered [of c] by simp
    next
      fix c assume "0 < c \<and> c < ?n + 1 \<and> (c - 1) div 2 = ?n \<and> 0 < ?n"
      then show "tq_view q1 ! ((?n - 1) div 2) \<le> tq_view q1 ! c" using par [of c] by simp
    qed
  qed
  then have h: "heap_at (tq_view q2) (?n + 1)" unfolding q2_def using q1(1) by (intro tqh.up_heap) auto
  have res: "TimedQueue_Push x q = q2\<lparr>item_refs := (item_refs q2)(DebugletID x \<mapsto> ?p)\<rparr>"
    by (simp add: TimedQueue_Push_def Let_def q2_def q1_def pq_Push_def set_index_def)
  have k2: "set (pq q2) = insert ?p (set (pq q))" "length (pq q2) = ?n + 1" "item_refs q2 = item_refs q" "array_ok q2"
    "upload (items q2 r) = (if r = ?p then x else upload (items q r))" for r
    using k q1 by (auto simp: kept_def same_items_def)
  have "\<forall>i p. ((item_refs q)(DebugletID x \<mapsto> ?p)) i = Some p \<longleftrightarrow> p \<in> set (pq q2) \<and> DebugletID (upload (items q2 p)) = i"
    using q a(3) np unfolding k2 tq_ok_def by (auto split: if_splits) (metis option.distinct(1))
  moreover have "array_ok (q2\<lparr>item_refs := r\<rparr>) = array_ok q2" "tq_view (q2\<lparr>item_refs := r\<rparr>) = tq_view q2" for r
    by (simp_all add: array_ok_def tq_view_def)
  ultimately show "tq_ok (TimedQueue_Push x q)" using h k2 unfolding res tq_ok_def by simp
  show "tq_map (TimedQueue_Push x q) = (tq_map q)(DebugletID x \<mapsto> x)"
    unfolding res using k2 q np by (auto simp: tq_map_def fun_eq_iff tq_ok_def intro!: option.map_cong)
qed

text \<open>Taking the last entry off a queue whose first entries are a heap.\<close>

lemma pq_Pop_array:
  assumes ok: "array_ok q" and n: "length (pq q) = n + 1" and h: "heap_at (tq_view q) n"
  obtains q' where "pq_Pop q = (pq q ! n, q')" "array_ok q'" "length (pq q') = n" "heap_at (tq_view q') n"
    "set (pq q) = insert (pq q ! n) (set (pq q'))" "pq q ! n \<notin> set (pq q')" "item_refs q' = item_refs q"
    "\<And>p. upload (items q' p) = upload (items q p)"
proof -
  let ?p = "pq q ! n"
  have ne: "pq q \<noteq> []" using n by auto
  then have lst: "last (pq q) = ?p" using n by (simp add: last_conv_nth)
  define q' where "q' = (set_index ?p (-1) q)\<lparr>pq := butlast (pq q)\<rparr>"
  have pop: "pq_Pop q = (?p, q')" by (simp add: pq_Pop_def Let_def lst q'_def)
  have q': "pq q' = butlast (pq q)" "item_refs q' = item_refs q" "fresh q' = fresh q" "upload (items q' s) = upload (items q s)" for s
    by (simp_all add: q'_def)
  have e: "butlast (pq q) @ [?p] = pq q" using append_butlast_last_id [OF ne] lst by simp
  have d: "distinct (butlast (pq q) @ [?p])" unfolding e using ok by (simp add: array_ok_def)
  have "set (pq q) = set (butlast (pq q) @ [?p])" unfolding e by (rule refl)
  then have mem: "set (pq q) = insert ?p (set (butlast (pq q)))" by simp
  have nth: "butlast (pq q) ! i = pq q ! i" if "i < n" for i using that n by (simp add: nth_butlast)
  have "array_ok q'" unfolding array_ok_def
  proof (intro conjI ballI allI impI)
    show "distinct (pq q')" using d q' by simp
    show "s < fresh q'" if "s \<in> set (pq q')" for s using that ok mem q' by (auto simp: array_ok_def)
    fix i assume i: "i < length (pq q')"
    then have "pq q' ! i = pq q ! i" "pq q' ! i \<in> set (butlast (pq q))" using nth q' n by (auto simp: in_set_conv_nth)
    then have "pq q' ! i = pq q ! i" "pq q' ! i \<noteq> ?p" using d by auto
    then show "item_index (items q' (pq q' ! i)) = int i" using ok i q' n by (simp add: array_ok_def q'_def)
  qed
  moreover have "tq_view q' ! i = tq_view q ! i" if "i < n" for i using that n nth q' by (simp add: tq_view_def)
  then have "heap_at (tq_view q') n" using h by (auto simp: heap_at_def less_imp_diff_less)
  ultimately show ?thesis using that [OF pop] q' n mem d by simp
qed

text \<open>Dropping the reference of the entry that was taken off restores the invariant.\<close>

lemma tq_ok_drop:
  assumes ok: "array_ok q'" "heap_at (tq_view q') (length (pq q'))" and mem: "P = insert p (set (pq q'))" "p \<notin> set (pq q')"
    and refs: "\<forall>j s. r j = Some s \<longleftrightarrow> s \<in> P \<and> DebugletID (upload (items q' s)) = j"
    and r: "item_refs q' = r(DebugletID (upload (items q' p)) := None)"
  shows "tq_ok q'"
proof -
  have "item_refs q' j = Some s \<longleftrightarrow> s \<in> set (pq q') \<and> DebugletID (upload (items q' s)) = j" for j s
  proof (cases "j = DebugletID (upload (items q' p))")
    case True
    then have "r j = Some p" using refs mem by simp
    moreover have "r j = Some s" if "s \<in> set (pq q')" "DebugletID (upload (items q' s)) = j" using refs mem that by simp
    ultimately have "s \<notin> set (pq q')" if "DebugletID (upload (items q' s)) = j" using mem(2) that by auto
    then show ?thesis using True r by auto
  next
    case False
    then show ?thesis using refs mem r by auto
  qed
  then show ?thesis using ok by (simp add: tq_ok_def)
qed

lemma heap_at_prefix: "heap_at xs n \<Longrightarrow> m \<le> n \<Longrightarrow> heap_at xs m"
  by (simp add: heap_at_def)

text \<open>Moving the entry \<open>i\<close> to the end leaves a hole at \<open>i\<close> in the rest.\<close>

lemma hole_swap_end:
  assumes h: "heap_at xs (n + 1)" and i: "i < n" "n < length xs"
  shows "hole (list_swap i n xs) n i"
proof -
  have ys: "list_swap i n xs ! k = (if k = n then xs ! i else if k = i then xs ! n else xs ! k)" for k
    by (rule list_swap_nth) (use i in auto)
  have o: "hole xs (n + 1) i" "above_ok xs i" "below_ok xs (n + 1) i" using hole_heap_at [OF h, of i] i by auto
  have par: "(c - 1) div 2 < n" if "0 < c" "c < n" for c using that by linarith
  show ?thesis unfolding hole_def
  proof (intro conjI allI impI)
    fix c assume c: "0 < c \<and> c < n \<and> c \<noteq> i \<and> (c - 1) div 2 \<noteq> i"
    then show "list_swap i n xs ! ((c - 1) div 2) \<le> list_swap i n xs ! c"
      using o(1) par [of c] unfolding hole_def by (simp add: ys)
  next
    fix c assume c: "0 < c \<and> c < n \<and> (c - 1) div 2 = i \<and> 0 < i"
    then have "(i - 1) div 2 < i" "c \<noteq> i" using parent_less [of i] parent_less [of c] by auto
    moreover have "xs ! ((i - 1) div 2) \<le> xs ! i" using o(2) c by (simp add: above_ok_def)
    moreover have "xs ! i \<le> xs ! c" using o(3) c by (simp add: below_ok_def)
    ultimately show "list_swap i n xs ! ((i - 1) div 2) \<le> list_swap i n xs ! c" using c i by (simp add: ys)
  qed
qed

lemma heap_Remove_ok:
  assumes ok: "array_ok q" and n: "length (pq q) = n + 1" and h: "heap_at (tq_view q) (n + 1)" and i: "i \<le> n"
    and r: "item_refs q = r(DebugletID (pq_upload q i) := None)"
    and refs: "\<forall>j p. r j = Some p \<longleftrightarrow> p \<in> set (pq q) \<and> DebugletID (upload (items q p)) = j"
  shows "\<exists>q'. heap_Remove i q = (pq q ! i, q') \<and> tq_ok q' \<and> item_refs q' = item_refs q \<and> (\<forall>p. upload (items q' p) = upload (items q p))"
proof -
  obtain q1 where q1: "heap_Remove i q = pq_Pop q1" "array_ok q1" "same_items q q1" "pq q1 ! n = pq q ! i" "heap_at (tq_view q1) n"
  proof (cases "n = i")
    case True
    have "heap_Remove i q = pq_Pop q" using n True by (simp add: heap_Remove_def Let_def)
    then show ?thesis using that [of q] ok True heap_at_prefix [OF h, of n] by (simp add: same_items_def)
  next
    case False
    let ?s = "pq_Swap i n q"
    let ?f = "case heap_down pq_Less pq_Swap i n ?s of (i', q') \<Rightarrow> if i' > i then q' else heap_up pq_Less pq_Swap i q'"
    have in1: "i < n" "i < length (pq q)" "n < length (pq q)" using False i n by auto
    note sw = array_ok_swap [OF ok in1(2,3)]
    have ls: "length (pq ?s) = n + 1" using n by simp
    have kd: "kept n ?s (snd (heap_down pq_Less pq_Swap i n ?s))" using kept_down [OF kept_refl [OF sw(1)], of n i] ls in1(1) by simp
    have kf: "kept n ?s ?f" using kd kept_up [OF kd, of i] ls in1(1) by (auto split: prod.splits)
    have "hole (tq_view ?s) n i" using hole_swap_end [OF h in1(1)] tq_view_swap [OF in1(2,3)] in1 by simp
    then have hf: "heap_at (tq_view ?f) n" using tqh.fix_heap [of ?s n i] in1(1) ls by simp
    have "heap_Remove i q = pq_Pop ?f" using n False by (simp add: heap_Remove_def Let_def)
    moreover have "same_items q ?f" using kf sw(2) by (simp add: kept_def same_items_def)
    moreover have "pq ?f ! n = pq q ! i" using kf in1 by (simp add: kept_def list_swap_nth)
    ultimately show ?thesis using that [of ?f] kf hf by (simp add: kept_def)
  qed
  have s: "length (pq q1) = n + 1" "item_refs q1 = item_refs q" "set (pq q1) = set (pq q)" "upload (items q1 p) = upload (items q p)" for p
    using q1(3) n by (simp_all add: same_items_def)
  obtain q' where q': "pq_Pop q1 = (pq q1 ! n, q')" "array_ok q'" "length (pq q') = n" "heap_at (tq_view q') n"
    "set (pq q1) = insert (pq q1 ! n) (set (pq q'))" "pq q1 ! n \<notin> set (pq q')" "item_refs q' = item_refs q1"
    "\<And>p. upload (items q' p) = upload (items q1 p)"
    by (rule pq_Pop_array [OF q1(2) s(1) q1(5)]) blast
  have "tq_ok q'"
    by (rule tq_ok_drop [OF q'(2) _ q'(5,6), of r]) (use q' s refs r q1(4) in \<open>simp_all add: pq_upload_def\<close>)
  then show ?thesis using q1(1,4) q' s by auto
qed

lemma TimedQueue_Remove_ok:
  assumes q: "tq_ok q"
  shows "fst (TimedQueue_Remove j q) = tq_map q j" "tq_ok (snd (TimedQueue_Remove j q))" "tq_map (snd (TimedQueue_Remove j q)) = (tq_map q)(j := None)"
proof -
  have "fst (TimedQueue_Remove j q) = tq_map q j \<and> tq_ok (snd (TimedQueue_Remove j q)) \<and> tq_map (snd (TimedQueue_Remove j q)) = (tq_map q)(j := None)"
  proof (cases "item_refs q j")
    case None
    then show ?thesis using q by (simp add: TimedQueue_Remove_def tq_map_def fun_upd_idem)
  next
    case (Some p)
    have refs: "\<forall>j p. item_refs q j = Some p \<longleftrightarrow> p \<in> set (pq q) \<and> DebugletID (upload (items q p)) = j" using q by (simp add: tq_ok_def)
    then have p: "p \<in> set (pq q)" "DebugletID (upload (items q p)) = j" using Some by auto
    then obtain i where i: "i < length (pq q)" "pq q ! i = p" by (auto simp: in_set_conv_nth)
    have ix: "item_index (items q p) = int i" using q i by (auto simp: tq_ok_def array_ok_def)
    define q0 where "q0 = q\<lparr>item_refs := (item_refs q)(j := None)\<rparr>"
    obtain n where n: "length (pq q) = n + 1" using i by (cases "length (pq q)") auto
    have a0: "array_ok q0" "length (pq q0) = n + 1" "heap_at (tq_view q0) (n + 1)" "i \<le> n"
      using q i n by (simp_all add: tq_ok_def array_ok_def tq_view_def q0_def)
    have u: "pq_upload q0 i = upload (items q p)" using i by (simp add: pq_upload_def q0_def)
    obtain q' where q': "heap_Remove i q0 = (pq q0 ! i, q')" "tq_ok q'" "item_refs q' = item_refs q0" "\<forall>p. upload (items q' p) = upload (items q0 p)"
      using heap_Remove_ok [OF a0, of "item_refs q"] i refs p u by (auto simp: q0_def)
    have "TimedQueue_Remove j q = (Some (upload (items q p)), q')"
      using Some q' ix i unfolding TimedQueue_Remove_def by (simp add: q0_def [symmetric] Let_def) (simp add: q0_def)
    moreover have "tq_map q' = (tq_map q)(j := None)" using q' by (auto simp: tq_map_def fun_eq_iff q0_def)
    ultimately show ?thesis using q'(2) Some by (simp add: tq_map_def)
  qed
  then show "fst (TimedQueue_Remove j q) = tq_map q j" "tq_ok (snd (TimedQueue_Remove j q))" "tq_map (snd (TimedQueue_Remove j q)) = (tq_map q)(j := None)" by simp_all
qed

lemma TimedQueue_Pop_ok:
  assumes q: "tq_ok q" and ne: "TimedQueue_Len q \<noteq> 0"
  shows "\<exists>u q'. TimedQueue_Pop q = Some (u, q') \<and> TimedQueue_Peek 0 q = Some u \<and> tq_ok q' \<and> tq_map q (DebugletID u) = Some u
    \<and> tq_map q' = (tq_map q)(DebugletID u := None) \<and> (\<forall>i v. tq_map q i = Some v \<longrightarrow> StartTime u \<le> StartTime v)"
proof -
  obtain n where n: "length (pq q) = n + 1" using ne by (cases "length (pq q)") (auto simp: TimedQueue_Len_def)
  have ok: "array_ok q" "heap_at (tq_view q) (n + 1)" and refs: "\<forall>j p. item_refs q j = Some p \<longleftrightarrow> p \<in> set (pq q) \<and> DebugletID (upload (items q p)) = j"
    using q n by (simp_all add: tq_ok_def)
  let ?p = "pq q ! 0" and ?u = "pq_upload q 0"
  define s where "s = pq_Swap 0 n q"
  define d where "d = snd (heap_down pq_Less pq_Swap 0 n s)"
  have in0: "0 < length (pq q)" "n < length (pq q)" using n by auto
  note sw = array_ok_swap [OF ok(1) in0, folded s_def]
  have ls: "length (pq s) = n + 1" using n by (simp add: s_def)
  have pn: "pq s ! n = ?p" using in0 by (simp add: s_def list_swap_nth)
  have kd: "kept n s d \<and> heap_at (tq_view d) n"
  proof (cases "n = 0")
    case True
    then have "d = s" by (simp add: d_def heap_down.simps [of pq_Less pq_Swap 0])
    then show ?thesis using kept_refl [OF sw(1)] True by (simp add: heap_at_def)
  next
    case False
    then have "hole (tq_view s) n 0" using hole_swap_end [OF ok(2), of 0] in0 tq_view_swap [OF in0] by (simp add: s_def)
    then have "heap_at (tq_view d) n" unfolding d_def using False ls by (intro tqh.down_heap) (auto simp: above_ok_def)
    then show ?thesis using kept_down [OF kept_refl [OF sw(1)], of n 0] False ls by (simp add: d_def)
  qed
  have dd: "array_ok d" "length (pq d) = n + 1" "pq d ! n = ?p" "set (pq d) = set (pq q)" "item_refs d = item_refs q"
    "upload (items d p) = upload (items q p)" for p
    using kd sw(2) ls pn by (auto simp: kept_def same_items_def)
  obtain q' where q': "pq_Pop d = (?p, q')" "array_ok q'" "length (pq q') = n" "heap_at (tq_view q') n"
    "set (pq d) = insert ?p (set (pq q'))" "?p \<notin> set (pq q')" "item_refs q' = item_refs d" "\<And>p. upload (items q' p) = upload (items d p)"
    using kd dd by (auto intro: pq_Pop_array [of d n])
  define q2 where "q2 = q'\<lparr>item_refs := (item_refs q')(DebugletID ?u := None)\<rparr>"
  have pop: "TimedQueue_Pop q = Some (?u, q2)"
    using n q'(1,8) dd(6) unfolding TimedQueue_Pop_def by (auto simp: Let_def s_def [symmetric] d_def [symmetric] q2_def pq_upload_def)
  have "tq_ok q2"
    by (rule tq_ok_drop [where P = "set (pq d)" and p = ?p and r = "item_refs q"])
      (use q' dd refs in \<open>simp_all add: q2_def pq_upload_def array_ok_def tq_view_def\<close>)
  moreover have "tq_map q2 = (tq_map q)(DebugletID ?u := None)" using q' dd by (auto simp: q2_def tq_map_def fun_eq_iff)
  moreover have p0: "item_refs q (DebugletID ?u) = Some ?p" using refs in0 by (simp add: pq_upload_def)
  then have "tq_map q (DebugletID ?u) = Some ?u" by (simp add: tq_map_def pq_upload_def)
  moreover have "StartTime ?u \<le> StartTime v" if "tq_map q i = Some v" for i v
  proof -
    obtain p where p: "p \<in> set (pq q)" "v = upload (items q p)" using \<open>tq_map q i = Some v\<close> refs by (auto simp: tq_map_def)
    then obtain k where k: "k < n + 1" "pq q ! k = p" using n by (metis in_set_conv_nth)
    have "tq_view q ! 0 \<le> tq_view q ! k" using heap_at_root [OF ok(2) k(1)] .
    then show ?thesis using k p n in0 by (simp add: tq_view_def pq_upload_def)
  qed
  ultimately show ?thesis using pop in0 by (intro exI [of _ ?u] exI [of _ q2]) (simp add: TimedQueue_Peek_def)
qed

section \<open>The contract of the run queue\<close>

text \<open>
  What the scheduler relies on: the queue holds at most one specification per run, gives the one
  that starts first, and removes by identity.
\<close>

locale run_queue =
  fixes new :: 'q and push :: "Spec \<Rightarrow> 'q \<Rightarrow> 'q" and peek :: "nat \<Rightarrow> 'q \<Rightarrow> Spec option" and pop :: "'q \<Rightarrow> (Spec \<times> 'q) option"
    and remove :: "uuid \<Rightarrow> 'q \<Rightarrow> Spec option \<times> 'q" and len :: "'q \<Rightarrow> nat" and entries :: "'q \<Rightarrow> uuid \<rightharpoonup> Spec" and inv :: "'q \<Rightarrow> bool"
  assumes new_ok: "inv new" "entries new = Map.empty"
    and entries_id: "inv q \<Longrightarrow> entries q i = Some u \<Longrightarrow> DebugletID u = i"
    and push_ok: "inv q \<Longrightarrow> entries q (DebugletID x) = None \<Longrightarrow> inv (push x q) \<and> entries (push x q) = (entries q)(DebugletID x \<mapsto> x)"
    and pop_ok: "inv q \<Longrightarrow> len q \<noteq> 0 \<Longrightarrow> \<exists>u q'. pop q = Some (u, q') \<and> peek 0 q = Some u \<and> inv q' \<and> entries q (DebugletID u) = Some u
        \<and> entries q' = (entries q)(DebugletID u := None) \<and> (\<forall>i v. entries q i = Some v \<longrightarrow> StartTime u \<le> StartTime v)"
    and remove_ok: "inv q \<Longrightarrow> fst (remove i q) = entries q i \<and> inv (snd (remove i q)) \<and> entries (snd (remove i q)) = (entries q)(i := None)"
begin

text \<open>Popping until the queue is empty yields the runs in the order of their start times.\<close>

inductive drains :: "'q \<Rightarrow> Spec list \<Rightarrow> bool" where
  drained: "len q = 0 \<Longrightarrow> drains q []"
| drain: "pop q = Some (u, q') \<Longrightarrow> len q \<noteq> 0 \<Longrightarrow> drains q' us \<Longrightarrow> drains q (u # us)"

lemma drains_sorted:
  "drains q us \<Longrightarrow> inv q \<Longrightarrow> sorted (map StartTime us) \<and> (\<forall>u \<in> set us. entries q (DebugletID u) = Some u) \<and> distinct (map DebugletID us)"
proof (induction rule: drains.induct)
  case (drain q u q' us)
  obtain u0 q0 where p: "pop q = Some (u0, q0)" "inv q0" "entries q (DebugletID u0) = Some u0"
    "entries q0 = (entries q)(DebugletID u0 := None)" "\<forall>i v. entries q i = Some v \<longrightarrow> StartTime u0 \<le> StartTime v"
    using pop_ok [OF drain.prems drain.hyps(2)] by blast
  have [simp]: "u0 = u" "q0 = q'" using p(1) drain.hyps(1) by simp_all
  have IH: "sorted (map StartTime us)" "\<forall>u \<in> set us. entries q' (DebugletID u) = Some u" "distinct (map DebugletID us)"
    using drain.IH p(2) by simp_all
  have old: "DebugletID v \<noteq> DebugletID u \<and> entries q (DebugletID v) = Some v" if "v \<in> set us" for v
    using IH(2) that p(4) by (auto split: if_splits)
  then have "DebugletID u \<notin> DebugletID ` set us" by (metis imageE)
  moreover have "StartTime u \<le> StartTime v" if "v \<in> set us" for v using old [OF that] p(5) by simp blast
  ultimately show ?case using IH p(3) old by auto
qed simp

end

interpretation tq: run_queue NewTimedQueue TimedQueue_Push TimedQueue_Peek TimedQueue_Pop TimedQueue_Remove TimedQueue_Len tq_map tq_ok
proof
  show "tq_ok NewTimedQueue" "tq_map NewTimedQueue = Map.empty" by (rule NewTimedQueue_ok)+
  show "DebugletID u = i" if "tq_ok q" "tq_map q i = Some u" for q i u using tq_map_id that .
  show "tq_ok (TimedQueue_Push x q) \<and> tq_map (TimedQueue_Push x q) = (tq_map q)(DebugletID x \<mapsto> x)"
    if "tq_ok q" "tq_map q (DebugletID x) = None" for q x using TimedQueue_Push_ok [OF that] by simp
  show "\<exists>u q'. TimedQueue_Pop q = Some (u, q') \<and> TimedQueue_Peek 0 q = Some u \<and> tq_ok q' \<and> tq_map q (DebugletID u) = Some u
    \<and> tq_map q' = (tq_map q)(DebugletID u := None) \<and> (\<forall>i v. tq_map q i = Some v \<longrightarrow> StartTime u \<le> StartTime v)"
    if "tq_ok q" "TimedQueue_Len q \<noteq> 0" for q using TimedQueue_Pop_ok [OF that] .
  show "fst (TimedQueue_Remove i q) = tq_map q i \<and> tq_ok (snd (TimedQueue_Remove i q)) \<and> tq_map (snd (TimedQueue_Remove i q)) = (tq_map q)(i := None)"
    if "tq_ok q" for q i using TimedQueue_Remove_ok [OF that] by simp
qed

lemma tq_empty:
  assumes q: "tq_ok q"
  shows "TimedQueue_Len q = 0 \<longleftrightarrow> tq_map q = Map.empty"
proof
  assume "TimedQueue_Len q = 0"
  then have "item_refs q i = None" for i using q by (cases "item_refs q i") (auto simp: tq_ok_def TimedQueue_Len_def)
  then show "tq_map q = Map.empty" by (simp add: tq_map_def fun_eq_iff)
next
  assume e: "tq_map q = Map.empty"
  show "TimedQueue_Len q = 0"
  proof (rule ccontr)
    assume "TimedQueue_Len q \<noteq> 0"
    from tq.pop_ok [OF q this] show False using e by auto
  qed
qed

section \<open>Properties\<close>

datatype tq_op = PushOp Spec | PopOp | RemoveOp uuid

fun tq_step :: "tq_op \<Rightarrow> TimedQueue \<Rightarrow> TimedQueue" where
  "tq_step (PushOp x) q = TimedQueue_Push x q"
| "tq_step PopOp q = (case TimedQueue_Pop q of None \<Rightarrow> q | Some (_, q') \<Rightarrow> q')"
| "tq_step (RemoveOp i) q = snd (TimedQueue_Remove i q)"

text \<open>The operations that the scheduler performs: a run is pushed only while it is not queued.\<close>

fun tq_run :: "tq_op list \<Rightarrow> TimedQueue \<Rightarrow> TimedQueue option" where
  "tq_run [] q = Some q"
| "tq_run (PushOp x # xs) q = (if tq_map q (DebugletID x) = None then tq_run xs (tq_step (PushOp x) q) else None)"
| "tq_run (x # xs) q = tq_run xs (tq_step x q)"

lemma tq_step_Pop_ok: "tq_ok q \<Longrightarrow> tq_ok (tq_step PopOp q)"
proof (cases "TimedQueue_Len q = 0")
  case False
  assume "tq_ok q"
  from tq.pop_ok [OF this False] show ?thesis by auto
qed (simp add: TimedQueue_Pop_def TimedQueue_Len_def)

lemma tq_run_ok: "tq_run xs q = Some q' \<Longrightarrow> tq_ok q \<Longrightarrow> tq_ok q'"
proof (induction xs arbitrary: q)
  case (Cons x xs)
  show ?case
  proof (cases x)
    case (PushOp y)
    then show ?thesis using Cons tq.push_ok [of q y] by (auto split: if_splits)
  next
    case PopOp
    then show ?thesis using Cons tq_step_Pop_ok [of q] by (auto simp del: tq_step.simps)
  next
    case (RemoveOp i)
    then show ?thesis using Cons tq.remove_ok [of q i] by auto
  qed
qed simp

text \<open>
  C38: the run queue. After any sequence of pushes of runs that are not queued, pops and
  removals, the next run is one that starts first (a run without a start time before all
  others), popping returns exactly that run, and removing a run by its identity returns its
  specification and drops it alone, although the heap moves entries and their indices about.
\<close>

theorem TimedQueue_contract:
  assumes run: "tq_run xs NewTimedQueue = Some q"
  shows "(TimedQueue_Len q = 0 \<longleftrightarrow> tq_map q = Map.empty)
    \<and> (TimedQueue_Len q \<noteq> 0 \<longrightarrow> (\<exists>u q'. TimedQueue_Pop q = Some (u, q') \<and> TimedQueue_Peek 0 q = Some u \<and> tq_map q (DebugletID u) = Some u
         \<and> tq_map q' = (tq_map q)(DebugletID u := None) \<and> (\<forall>i v. tq_map q i = Some v \<longrightarrow> StartTime u \<le> StartTime v)))
    \<and> (\<forall>i. fst (TimedQueue_Remove i q) = tq_map q i \<and> tq_map (snd (TimedQueue_Remove i q)) = (tq_map q)(i := None))
    \<and> (\<forall>x. tq_map q (DebugletID x) = None \<longrightarrow> tq_map (TimedQueue_Push x q) = (tq_map q)(DebugletID x \<mapsto> x))"
proof -
  have q: "tq_ok q" using tq_run_ok [OF run NewTimedQueue_ok(1)] .
  have "TimedQueue_Len q = 0 \<longleftrightarrow> tq_map q = Map.empty" using tq_empty [OF q] .
  then show ?thesis using tq.pop_ok [OF q] tq.remove_ok [OF q] tq.push_ok [OF q] by blast
qed

theorem TimedQueue_contract_witness:
  "\<exists>q u q'. tq_run [PushOp (zero_Spec\<lparr>DebugletID := 5, StartTime := Some 9\<rparr>), PushOp (zero_Spec\<lparr>DebugletID := 2, StartTime := Some 4\<rparr>)] NewTimedQueue = Some q
     \<and> TimedQueue_Pop q = Some (u, q') \<and> DebugletID u = 2"
proof -
  let ?a = "zero_Spec\<lparr>DebugletID := 5, StartTime := Some 9\<rparr>" and ?b = "zero_Spec\<lparr>DebugletID := 2, StartTime := Some 4\<rparr>"
  define q1 where "q1 = TimedQueue_Push ?a NewTimedQueue"
  have q1: "tq_ok q1" "tq_map q1 = [5 \<mapsto> ?a]" using tq.push_ok [OF tq.new_ok(1), of ?a] by (simp_all add: q1_def tq.new_ok(2))
  define q where "q = TimedQueue_Push ?b q1"
  have q: "tq_map q = [5 \<mapsto> ?a, 2 \<mapsto> ?b]" using tq.push_ok [OF q1(1), of ?b] q1(2) by (simp add: q_def)
  have run: "tq_run [PushOp ?a, PushOp ?b] NewTimedQueue = Some q"
    using q1(2) by (simp add: tq.new_ok(2) q1_def [symmetric] q_def [symmetric])
  have "tq_map q \<noteq> Map.empty" using q by auto
  then obtain u q' where u: "TimedQueue_Pop q = Some (u, q')" "tq_map q (DebugletID u) = Some u" "\<forall>i v. tq_map q i = Some v \<longrightarrow> StartTime u \<le> StartTime v"
    using TimedQueue_contract [OF run] by blast
  have "StartTime u \<le> Some 4" using u(3) q by (metis fun_upd_same Spec.select_convs(4) Spec.surjective Spec.update_convs(4))
  then have "DebugletID u = 2" using u(2) q by (auto split: if_splits)
  then show ?thesis using run u(1) by blast
qed

end
