(* ===== verification/Ownership.thy ===== *)
theory Ownership
  imports Timed_Queue
begin

text \<open>
  The admission core of the executor's scheduler, \<^verbatim>\<open>internal/executor/scheduler/memory/local.go\<close> and
  \<^verbatim>\<open>ownership.go\<close>. All state is guarded by one mutex, so a step of the model is one critical section;
  persistence, callbacks and finalizers run between the sections and enter as the value they
  returned. The relation \<open>ms_reachable\<close> interleaves the sections of any number of callers and
  goroutines. \<open>tasks\<close> and \<open>readers\<close> are not in the code: they record which goroutine of a run is under
  way and how many backend reads are, so that what \<open>busy\<close> counts can be stated.
\<close>

section \<open>State\<close>

datatype phase = persisting | queued | cancelPending | active | finalizing | completed | retired

text \<open>\<open>Outside\<close> is an error of a context, guard, backend or callback; an error list is \<open>errors.Join\<close>.\<close>

datatype op_error = Outside string | ErrClosed | ErrDraining | ErrBindingMismatch | AlreadyHasOwner | AlreadyStarted
  | OnStartNotRegistered | LoopAlreadyRunning | Canceled

record finalizationAttempt =
  at_done :: bool
  at_err :: "op_error list"
  at_finalErr :: "op_error list"

record owner =
  own_spec :: Spec
  own_phase :: phase
  own_cause :: "op_error option"
  own_admitted :: bool
  own_callbackDone :: bool
  own_completion :: "op_error list"
  own_attempt :: "nat option"

text \<open>
  The goroutines of a run: an insertion between its reservation and its commit, \<open>deleteQueued\<close>
  before it reads the callback, in the callback or in the finalizer, \<open>runOwner\<close> in its callback,
  and \<open>finalizeOwner\<close>.
\<close>

datatype task = Inserting | Deleting nat | Reporting nat | Removing nat | Running | Finishing nat

record MemoryStorage =
  ms_tq :: TimedQueue
  owners :: "uuid \<rightharpoonup> owner"
  attempts :: "nat \<Rightarrow> finalizationAttempt"
  next_attempt :: nat
  has_persist :: bool
  has_inspect :: bool
  has_onStart :: bool
  has_onFailed :: bool
  closed :: bool
  draining :: bool
  busy :: int
  loopRunning :: bool
  tasks :: "uuid \<rightharpoonup> task"
  readers :: nat

definition open_attempt :: finalizationAttempt where
  "open_attempt = \<lparr>at_done = False, at_err = [], at_finalErr = []\<rparr>"

text \<open>\<open>NewStorage\<close> wants both admission guards; a persistent core also has a \<open>persist\<close> and maybe an \<open>inspect\<close> hook.\<close>

definition NewPersistentStorage :: "bool \<Rightarrow> bool \<Rightarrow> bool \<Rightarrow> bool \<Rightarrow> MemoryStorage option" where
  "NewPersistentStorage persist inspect insertGuard startGuard = (if \<not> insertGuard \<or> \<not> startGuard then None else Some \<lparr>ms_tq = NewTimedQueue, owners = Map.empty, attempts = (\<lambda>_. open_attempt), next_attempt = 0,
     has_persist = persist, has_inspect = inspect, has_onStart = False, has_onFailed = False, closed = False, draining = False,
     busy = 0, loopRunning = False, tasks = Map.empty, readers = 0\<rparr>)"

definition NewStorage :: "bool \<Rightarrow> bool \<Rightarrow> MemoryStorage option" where
  "NewStorage insertGuard startGuard = NewPersistentStorage False False insertGuard startGuard"

section \<open>Operations\<close>

definition newOwner :: "Spec \<Rightarrow> phase \<Rightarrow> owner" where
  "newOwner spec state = \<lparr>own_spec = spec, own_phase = state, own_cause = None, own_admitted = False, own_callbackDone = False,
     own_completion = [], own_attempt = None\<rparr>"

definition set_owner :: "uuid \<Rightarrow> owner \<Rightarrow> MemoryStorage \<Rightarrow> MemoryStorage" where
  "set_owner i o' m = m\<lparr>owners := (owners m)(i \<mapsto> o')\<rparr>"

definition set_task :: "uuid \<Rightarrow> task option \<Rightarrow> MemoryStorage \<Rightarrow> MemoryStorage" where
  "set_task i t m = m\<lparr>tasks := (tasks m)(i := t)\<rparr>"

text \<open>\<open>newAttempt\<close> allocates an attempt; closing one that is closed already panics (\<open>None\<close>).\<close>

definition newAttempt :: "MemoryStorage \<Rightarrow> nat \<times> MemoryStorage" where
  "newAttempt m = (next_attempt m, m\<lparr>attempts := (attempts m)(next_attempt m := open_attempt), next_attempt := next_attempt m + 1\<rparr>)"

definition close_attempt :: "nat \<Rightarrow> op_error list \<Rightarrow> op_error list \<Rightarrow> MemoryStorage \<Rightarrow> MemoryStorage option" where
  "close_attempt a err finalErr m = (if at_done (attempts m a) then None
     else Some (m\<lparr>attempts := (attempts m)(a := \<lparr>at_done = True, at_err = err, at_finalErr = finalErr\<rparr>)\<rparr>))"

definition close_callback :: "owner \<Rightarrow> owner option" where
  "close_callback o' = (if own_callbackDone o' then None else Some (o'\<lparr>own_callbackDone := True\<rparr>))"

subsection \<open>Insertion\<close>

text \<open>
  The section up to the commit. \<open>guard\<close> is the refusal of the admission guard, which has called
  the commit if it is \<open>None\<close>; \<open>late\<close> is the context's error at the commit.
\<close>

definition insert_begin :: "string option \<Rightarrow> string option \<Rightarrow> string option \<Rightarrow> Spec \<Rightarrow> MemoryStorage \<Rightarrow> op_error option \<times> MemoryStorage" where
  "insert_begin ctx guard late spec m =
    (case ctx of Some e \<Rightarrow> (Some (Outside e), m) | None \<Rightarrow>
     if closed m then (Some ErrClosed, m)
     else if draining m then (Some ErrDraining, m)
     else if owners m (DebugletID spec) \<noteq> None then (Some AlreadyHasOwner, m)
     else case guard of Some e \<Rightarrow> (Some (Outside e), m) | None \<Rightarrow>
     (case late of Some e \<Rightarrow> (Some (Outside e), m) | None \<Rightarrow>
       let o' = newOwner spec queued; i = DebugletID spec in
       if \<not> has_persist m then (None, (set_owner i (o'\<lparr>own_admitted := True\<rparr>) m)\<lparr>ms_tq := TimedQueue_Push spec (ms_tq m)\<rparr>)
       else (None, set_task i (Some Inserting) ((set_owner i (o'\<lparr>own_phase := persisting\<rparr>) m)\<lparr>busy := busy m + 1\<rparr>))))"

text \<open>The section after \<open>persist\<close> returned \<open>res\<close> for the run \<open>i\<close>.\<close>

definition insert_end :: "uuid \<Rightarrow> string + Spec \<Rightarrow> MemoryStorage \<Rightarrow> MemoryStorage option" where
  "insert_end i res m = (case owners m i of None \<Rightarrow> None | Some o' \<Rightarrow>
     (case res of
       Inl e \<Rightarrow>
         map_option (\<lambda>m. set_task i None (m\<lparr>owners := (owners m)(i := None), busy := busy m - 1\<rparr>))
           (case own_attempt o' of None \<Rightarrow> Some m | Some a \<Rightarrow> close_attempt a [] [] m)
     | Inr stored \<Rightarrow>
         let o' = o'\<lparr>own_spec := stored, own_admitted := True\<rparr> in
         Some (case own_attempt o' of
           None \<Rightarrow> set_task i None ((set_owner i (o'\<lparr>own_phase := queued\<rparr>) m)\<lparr>ms_tq := TimedQueue_Push stored (ms_tq m), busy := busy m - 1\<rparr>)
         | Some a \<Rightarrow> set_task i (Some (Deleting a)) ((set_owner i (o'\<lparr>own_phase := cancelPending\<rparr>) m)\<lparr>busy := busy m + 1 - 1\<rparr>))))"

subsection \<open>Backend reads\<close>

definition read_begin :: "string option \<Rightarrow> MemoryStorage \<Rightarrow> op_error option \<times> MemoryStorage" where
  "read_begin ctx m = (case ctx of Some e \<Rightarrow> (Some (Outside e), m) | None \<Rightarrow>
     if closed m then (Some ErrClosed, m) else (None, m\<lparr>busy := busy m + 1, readers := readers m + 1\<rparr>))"

definition read_end :: "MemoryStorage \<Rightarrow> MemoryStorage" where
  "read_end m = m\<lparr>busy := busy m - 1, readers := readers m - 1\<rparr>"

definition restore_emit :: "string option \<Rightarrow> Spec \<Rightarrow> MemoryStorage \<Rightarrow> op_error option \<times> MemoryStorage" where
  "restore_emit ctx spec m = (case ctx of Some e \<Rightarrow> (Some (Outside e), m) | None \<Rightarrow>
     if closed m then (Some ErrClosed, m)
     else if owners m (DebugletID spec) \<noteq> None then (Some AlreadyHasOwner, m)
     else (None, (set_owner (DebugletID spec) ((newOwner spec queued)\<lparr>own_admitted := True\<rparr>) m)\<lparr>ms_tq := TimedQueue_Push spec (ms_tq m)\<rparr>))"

subsection \<open>Cancellation\<close>

text \<open>A cancellation returns at once, inspects the backend, or joins an attempt.\<close>

datatype cancel_result = Returns bool "op_error list" | Inspects | Joins nat

text \<open>The join: \<open>admitted\<close> is whether the owner's insertion succeeded.\<close>

definition join_result :: "bool \<Rightarrow> finalizationAttempt \<Rightarrow> bool \<times> op_error list" where
  "join_result admitted a = (if \<not> admitted then (False, []) else (True, at_err a))"

definition joins :: "owner \<Rightarrow> MemoryStorage \<Rightarrow> (cancel_result \<times> MemoryStorage) option" where
  "joins o' m = map_option (\<lambda>a. (Joins a, m)) (own_attempt o')"

definition cancel_phase :: "uuid \<Rightarrow> op_error \<Rightarrow> owner \<Rightarrow> MemoryStorage \<Rightarrow> (cancel_result \<times> MemoryStorage) option" where
  "cancel_phase i cause o' m = (case own_phase o' of
     persisting \<Rightarrow> (case own_attempt o' of Some _ \<Rightarrow> joins o' m
       | None \<Rightarrow> (case newAttempt m of (a, m) \<Rightarrow>
           let o' = o'\<lparr>own_attempt := Some a, own_cause := Some cause\<rparr> in joins o' (set_owner i o' m)))
   | queued \<Rightarrow> (case newAttempt m of (a, m) \<Rightarrow>
       let o' = o'\<lparr>own_phase := cancelPending, own_cause := Some cause, own_attempt := Some a\<rparr> in
       joins o' (set_task i (Some (Deleting a)) ((set_owner i o' m)\<lparr>ms_tq := snd (TimedQueue_Remove i (ms_tq m)), busy := busy m + 1\<rparr>)))
   | active \<Rightarrow> if \<not> closed m \<and> own_cause o' = None then joins o' (set_owner i (o'\<lparr>own_cause := Some cause\<rparr>) m) else joins o' m
   | completed \<Rightarrow> (case own_attempt o' of None \<Rightarrow> None
       | Some old \<Rightarrow> if at_finalErr (attempts m old) \<noteq> [] then
           (case newAttempt m of (a, m) \<Rightarrow>
             let o' = o'\<lparr>own_phase := finalizing, own_attempt := Some a\<rparr> in
             joins o' (set_task i (Some (Finishing a)) ((set_owner i o' m)\<lparr>busy := busy m + 1\<rparr>)))
         else joins o' m)
   | _ \<Rightarrow> joins o' m)"

definition requestCancel ::
  "string option \<Rightarrow> uuid \<Rightarrow> op_error option \<Rightarrow> bool \<Rightarrow> binding option \<Rightarrow> MemoryStorage \<Rightarrow> (cancel_result \<times> MemoryStorage) option" where
  "requestCancel ctx i cause queueOnly expected m =
    (let cause = (case cause of None \<Rightarrow> Canceled | Some c \<Rightarrow> c) in
     case ctx of Some e \<Rightarrow> Some (Returns False [Outside e], m) | None \<Rightarrow>
     (case owners m i of
       None \<Rightarrow>
         if closed m then Some (Returns False [ErrClosed], m)
         else if expected = None \<or> \<not> has_inspect m then Some (Returns False [], m)
         else Some (Inspects, m\<lparr>busy := busy m + 1, readers := readers m + 1\<rparr>)
     | Some o' \<Rightarrow>
         if expected \<noteq> None \<and> expected \<noteq> Some (Binding (own_spec o')) then Some (Returns False [ErrBindingMismatch], m)
         else if queueOnly \<and> own_phase o' \<in> {active, finalizing, completed}
           then Some (Returns False [if closed m then ErrClosed else AlreadyStarted], m)
         else if closed m \<and> expected \<noteq> None \<and> own_phase o' = completed
           then map_option (\<lambda>a. (Returns True (at_err (attempts m a)), m)) (own_attempt o')
         else if closed m \<and> \<not> (own_phase o' \<in> {cancelPending, finalizing, active} \<or> own_phase o' = persisting \<and> own_attempt o' \<noteq> None)
           then Some (Returns False [ErrClosed], m)
         else cancel_phase i cause o' m))"

definition CancelBound :: "string option \<Rightarrow> uuid \<Rightarrow> (binding \<Rightarrow> bool) \<Rightarrow> binding \<Rightarrow> op_error option \<Rightarrow> MemoryStorage \<Rightarrow> (cancel_result \<times> MemoryStorage) option" where
  "CancelBound ctx i valid b cause m = (if \<not> valid b then Some (Returns False [ErrBindingMismatch], m) else requestCancel ctx i cause False (Some b) m)"

definition ms_Remove :: "string option \<Rightarrow> uuid \<Rightarrow> MemoryStorage \<Rightarrow> (cancel_result \<times> MemoryStorage) option" where
  "ms_Remove ctx i m = requestCancel ctx i (Some Canceled) True None m"

text \<open>\<open>deleteQueued\<close>: the callback is read, then it reports or the finalizer removes the row.\<close>

definition delete_read :: "uuid \<Rightarrow> nat \<Rightarrow> MemoryStorage \<Rightarrow> MemoryStorage" where
  "delete_read i a m = set_task i (Some (if has_onFailed m then Reporting a else Removing a)) m"

definition callback_end :: "uuid \<Rightarrow> nat \<Rightarrow> op_error list \<Rightarrow> MemoryStorage \<Rightarrow> MemoryStorage option" where
  "callback_end i a cleanup m = Option.bind (owners m i) (\<lambda>o'. Option.bind (close_callback o') (\<lambda>o'.
     Some (set_task i (Some (Finishing a)) (set_owner i (o'\<lparr>own_completion := cleanup, own_phase := finalizing\<rparr>) m))))"

definition delete_end :: "uuid \<Rightarrow> nat \<Rightarrow> op_error list \<Rightarrow> MemoryStorage \<Rightarrow> MemoryStorage option" where
  "delete_end i a err m = Option.bind (owners m i) (\<lambda>o'. Option.bind (close_attempt a err err m) (\<lambda>m.
     let m = set_task i None (m\<lparr>busy := busy m - 1\<rparr>) in
     if err \<noteq> [] then Some ((set_owner i (o'\<lparr>own_phase := queued, own_cause := None\<rparr>) m)\<lparr>ms_tq := TimedQueue_Push (own_spec o') (ms_tq m)\<rparr>)
     else map_option (\<lambda>_. m\<lparr>owners := (owners m)(DebugletID (own_spec o') := None)\<rparr>) (close_callback o')))"

text \<open>\<open>runOwner\<close> after its callback, and the last section of \<open>finalizeOwner\<close>.\<close>

definition run_end :: "uuid \<Rightarrow> op_error list \<Rightarrow> MemoryStorage \<Rightarrow> MemoryStorage option" where
  "run_end i cleanup m = Option.bind (owners m i) (\<lambda>o'. Option.bind (own_attempt o') (\<lambda>a. callback_end i a cleanup m))"

definition finalize_end :: "uuid \<Rightarrow> nat \<Rightarrow> op_error list \<Rightarrow> MemoryStorage \<Rightarrow> MemoryStorage option" where
  "finalize_end i a err m = Option.bind (owners m i) (\<lambda>o'.
     let joined = own_completion o' @ err in Option.bind (close_attempt a joined err m) (\<lambda>m.
     let m = set_task i None (m\<lparr>busy := busy m - 1\<rparr>) in
     Some (if joined = [] then m\<lparr>owners := (owners m)(DebugletID (own_spec o') := None)\<rparr>
           else set_owner i (o'\<lparr>own_phase := completed\<rparr>) m)))"

subsection \<open>The loop\<close>

definition StartLoop_begin :: "MemoryStorage \<Rightarrow> op_error option \<times> MemoryStorage" where
  "StartLoop_begin m = (if \<not> has_onStart m then (Some OnStartNotRegistered, m)
     else if loopRunning m then (Some LoopAlreadyRunning, m) else (None, m\<lparr>loopRunning := True\<rparr>))"

datatype loop_result = LoopFails op_error | LoopStarts uuid | LoopWaits "int option"

text \<open>The promotion of \<open>nxt\<close>; a refusal keeps the queued owner. A run without an owner is a nil dereference.\<close>

definition promote_due :: "string option \<Rightarrow> string option \<Rightarrow> Spec \<Rightarrow> MemoryStorage \<Rightarrow> (loop_result \<times> MemoryStorage) option" where
  "promote_due guard late nxt m = (case guard of Some e \<Rightarrow> Some (LoopFails (Outside e), m) | None \<Rightarrow>
     (case late of Some e \<Rightarrow> Some (LoopFails (Outside e), m) | None \<Rightarrow>
       let i = DebugletID nxt in
       Option.bind (TimedQueue_Pop (ms_tq m)) (\<lambda>(_, q). Option.bind (owners m i) (\<lambda>o'.
       case newAttempt m of (a, m) \<Rightarrow>
         Some (LoopStarts i, set_task i (Some Running)
           ((set_owner i (o'\<lparr>own_phase := active, own_attempt := Some a\<rparr>) m)\<lparr>ms_tq := q, busy := busy m + 1\<rparr>))))))"

text \<open>One round: the earliest run is promoted if it is due at \<open>now\<close> and the start guard commits.\<close>

definition loop_round :: "string option \<Rightarrow> int \<Rightarrow> string option \<Rightarrow> string option \<Rightarrow> MemoryStorage \<Rightarrow> (loop_result \<times> MemoryStorage) option" where
  "loop_round ctx now guard late m =
    (case ctx of Some e \<Rightarrow> Some (LoopFails (Outside e), m) | None \<Rightarrow>
     if closed m then Some (LoopFails ErrClosed, m)
     else if TimedQueue_Len (ms_tq m) = 0 then Some (LoopWaits None, m)
     else Option.bind (TimedQueue_Peek 0 (ms_tq m)) (\<lambda>nxt.
     case StartTime nxt of Some t \<Rightarrow> if now < t then Some (LoopWaits (Some t), m) else promote_due guard late nxt m
       | None \<Rightarrow> promote_due guard late nxt m))"

definition StartLoop_end :: "MemoryStorage \<Rightarrow> MemoryStorage" where
  "StartLoop_end m = m\<lparr>loopRunning := False\<rparr>"

definition RegisterOnStart :: "MemoryStorage \<Rightarrow> MemoryStorage" where
  "RegisterOnStart m = m\<lparr>has_onStart := True\<rparr>"

definition RegisterFailed :: "bool \<Rightarrow> MemoryStorage \<Rightarrow> MemoryStorage" where
  "RegisterFailed cb m = m\<lparr>has_onFailed := cb\<rparr>"

subsection \<open>Drain and shutdown\<close>

definition BeginDrain :: "MemoryStorage \<Rightarrow> MemoryStorage" where
  "BeginDrain m = m\<lparr>draining := True\<rparr>"

definition TryDrain :: "MemoryStorage \<Rightarrow> bool \<times> MemoryStorage" where
  "TryDrain m = (if closed m \<or> owners m \<noteq> Map.empty \<or> busy m \<noteq> 0 then (False, m) else (True, m\<lparr>draining := True\<rparr>))"

definition IsDrained :: "MemoryStorage \<Rightarrow> bool" where
  "IsDrained m \<longleftrightarrow> draining m \<and> \<not> closed m \<and> owners m = Map.empty \<and> busy m = 0"

definition Shutdown_begin :: "MemoryStorage \<Rightarrow> MemoryStorage" where
  "Shutdown_begin m = m\<lparr>closed := True, owners := (\<lambda>i. map_option
     (\<lambda>o'. if own_phase o' = active \<and> own_cause o' = None then o'\<lparr>own_cause := Some Canceled\<rparr> else o') (owners m i))\<rparr>"

text \<open>One check of the joining loop: \<open>order\<close> is the order in which the owners are visited.\<close>

definition Shutdown_poll :: "uuid list \<Rightarrow> MemoryStorage \<Rightarrow> op_error list option" where
  "Shutdown_poll order m = (if busy m = 0 \<and> \<not> loopRunning m
     then Some (concat (map (\<lambda>i. case owners m i of None \<Rightarrow> [] | Some o' \<Rightarrow> if own_phase o' = completed
         then (case own_attempt o' of None \<Rightarrow> [] | Some a \<Rightarrow> at_err (attempts m a)) else []) order))
     else None)"

section \<open>Interleavings\<close>

text \<open>
  The critical sections, whether one may run (its goroutine is there), and what it does;
  \<open>None\<close> is a panic. A persistence hook keeps the identity of the run.
\<close>

datatype ms_action = DoInsert "string option" "string option" "string option" Spec | DoInsertEnd uuid "string + Spec"
  | DoRead "string option" | DoReadEnd | DoEmit "string option" Spec
  | DoCancel "string option" uuid "op_error option" bool "binding option"
  | DoDeleteRead uuid nat | DoReport uuid nat "op_error list" | DoDeleteEnd uuid nat "op_error list"
  | DoRunEnd uuid "op_error list" | DoFinalizeEnd uuid nat "op_error list"
  | DoStartLoop | DoRound "string option" int "string option" "string option" | DoLoopEnd
  | DoBeginDrain | DoTryDrain | DoShutdown | DoOnStart | DoOnFailed bool

fun ms_enabled :: "ms_action \<Rightarrow> MemoryStorage \<Rightarrow> bool" where
  "ms_enabled (DoInsertEnd i res) m = (tasks m i = Some Inserting \<and> (case res of Inl _ \<Rightarrow> True | Inr stored \<Rightarrow> DebugletID stored = i))"
| "ms_enabled DoReadEnd m = (readers m \<noteq> 0)"
| "ms_enabled (DoEmit _ _) m = (readers m \<noteq> 0)"
| "ms_enabled (DoDeleteRead i a) m = (tasks m i = Some (Deleting a))"
| "ms_enabled (DoReport i a _) m = (tasks m i = Some (Reporting a))"
| "ms_enabled (DoDeleteEnd i a _) m = (tasks m i = Some (Removing a))"
| "ms_enabled (DoRunEnd i _) m = (tasks m i = Some Running)"
| "ms_enabled (DoFinalizeEnd i a _) m = (tasks m i = Some (Finishing a))"
| "ms_enabled (DoRound _ _ _ _) m = loopRunning m"
| "ms_enabled DoLoopEnd m = loopRunning m"
| "ms_enabled _ m = True"

fun ms_act :: "ms_action \<Rightarrow> MemoryStorage \<Rightarrow> MemoryStorage option" where
  "ms_act (DoInsert ctx guard late spec) m = Some (snd (insert_begin ctx guard late spec m))"
| "ms_act (DoInsertEnd i res) m = insert_end i res m"
| "ms_act (DoRead ctx) m = Some (snd (read_begin ctx m))"
| "ms_act DoReadEnd m = Some (read_end m)"
| "ms_act (DoEmit ctx spec) m = Some (snd (restore_emit ctx spec m))"
| "ms_act (DoCancel ctx i cause queueOnly expected) m = map_option snd (requestCancel ctx i cause queueOnly expected m)"
| "ms_act (DoDeleteRead i a) m = Some (delete_read i a m)"
| "ms_act (DoReport i a cleanup) m = callback_end i a cleanup m"
| "ms_act (DoDeleteEnd i a err) m = delete_end i a err m"
| "ms_act (DoRunEnd i cleanup) m = run_end i cleanup m"
| "ms_act (DoFinalizeEnd i a err) m = finalize_end i a err m"
| "ms_act DoStartLoop m = Some (snd (StartLoop_begin m))"
| "ms_act (DoRound ctx now guard late) m = map_option snd (loop_round ctx now guard late m)"
| "ms_act DoLoopEnd m = Some (StartLoop_end m)"
| "ms_act DoBeginDrain m = Some (BeginDrain m)"
| "ms_act DoTryDrain m = Some (snd (TryDrain m))"
| "ms_act DoShutdown m = Some (Shutdown_begin m)"
| "ms_act DoOnStart m = Some (RegisterOnStart m)"
| "ms_act (DoOnFailed cb) m = Some (RegisterFailed cb m)"

inductive ms_reachable :: "MemoryStorage \<Rightarrow> bool" where
  ms_start: "NewPersistentStorage persist inspect True True = Some m \<Longrightarrow> ms_reachable m"
| ms_next: "ms_reachable m \<Longrightarrow> ms_enabled c m \<Longrightarrow> ms_act c m = Some m' \<Longrightarrow> ms_reachable m'"

section \<open>The invariant\<close>

text \<open>
  What each phase says of an owner: which goroutine works for it, whether its attempt is still
  open, and whether the callback's channel is.
\<close>

definition live :: "MemoryStorage \<Rightarrow> owner \<Rightarrow> nat \<Rightarrow> bool" where
  "live m o' a \<longleftrightarrow> own_attempt o' = Some a \<and> \<not> at_done (attempts m a)"

definition phase_ok :: "MemoryStorage \<Rightarrow> owner \<Rightarrow> task option \<Rightarrow> bool" where
  "phase_ok m o' t = (case own_phase o' of
     persisting \<Rightarrow> t = Some Inserting \<and> \<not> own_callbackDone o' \<and> (\<forall>a. own_attempt o' = Some a \<longrightarrow> \<not> at_done (attempts m a))
   | queued \<Rightarrow> t = None \<and> \<not> own_callbackDone o'
   | cancelPending \<Rightarrow> \<not> own_callbackDone o' \<and> (\<exists>a. live m o' a \<and> t \<in> {Some (Deleting a), Some (Reporting a), Some (Removing a)})
   | active \<Rightarrow> t = Some Running \<and> \<not> own_callbackDone o' \<and> (\<exists>a. own_attempt o' = Some a \<and> \<not> at_done (attempts m a))
   | finalizing \<Rightarrow> own_callbackDone o' \<and> (\<exists>a. live m o' a \<and> t = Some (Finishing a))
   | completed \<Rightarrow> t = None \<and> own_callbackDone o' \<and> (\<exists>a. own_attempt o' = Some a \<and> at_done (attempts m a) \<and> at_err (attempts m a) \<noteq> [])
   | retired \<Rightarrow> False)"

definition run_ok :: "MemoryStorage \<Rightarrow> uuid \<Rightarrow> bool" where
  "run_ok m i = (case owners m i of
     None \<Rightarrow> tasks m i = None \<and> tq_map (ms_tq m) i = None
   | Some o' \<Rightarrow> DebugletID (own_spec o') = i \<and> phase_ok m o' (tasks m i) \<and> (\<forall>a. own_attempt o' = Some a \<longrightarrow> a < next_attempt m)
       \<and> tq_map (ms_tq m) i = (if own_phase o' = queued then Some (own_spec o') else None))"

definition own_attempt_of :: "MemoryStorage \<Rightarrow> uuid \<Rightarrow> nat option" where
  "own_attempt_of m i = Option.bind (owners m i) own_attempt"

definition ms_inv :: "MemoryStorage \<Rightarrow> bool" where
  "ms_inv m \<longleftrightarrow> tq_ok (ms_tq m) \<and> (\<forall>i. run_ok m i)
     \<and> (\<forall>i j a. own_attempt_of m i = Some a \<longrightarrow> own_attempt_of m j = Some a \<longrightarrow> i = j)
     \<and> finite (dom (tasks m)) \<and> busy m = int (card (dom (tasks m)) + readers m)"

text \<open>A section that works on one run keeps the invariant if it keeps it for that run.\<close>

lemma ms_invD:
  assumes "ms_inv m"
  shows "tq_ok (ms_tq m)" "run_ok m i" "finite (dom (tasks m))" "busy m = int (card (dom (tasks m)) + readers m)"
    "own_attempt_of m i = Some a \<Longrightarrow> own_attempt_of m j = Some a \<Longrightarrow> i = j" "own_attempt_of m i = Some a \<Longrightarrow> a < next_attempt m"
proof -
  show a: "tq_ok (ms_tq m)" "run_ok m i" "finite (dom (tasks m))" "busy m = int (card (dom (tasks m)) + readers m)"
    using assms by (simp_all add: ms_inv_def)
  show "own_attempt_of m i = Some a \<Longrightarrow> own_attempt_of m j = Some a \<Longrightarrow> i = j" using assms by (simp add: ms_inv_def)
  show "own_attempt_of m i = Some a \<Longrightarrow> a < next_attempt m" using a(2) by (auto simp: run_ok_def own_attempt_of_def split: option.splits)
qed

lemma phase_ok_cong:
  "(\<And>a. own_attempt o' = Some a \<Longrightarrow> attempts m' a = attempts m a) \<Longrightarrow> phase_ok m' o' t = phase_ok m o' t"
  by (auto simp: phase_ok_def live_def split: phase.splits)

lemma card_dom_upd:
  "finite (dom f) \<Longrightarrow> int (card (dom (f(i := t)))) = int (card (dom f)) + of_bool (t \<noteq> None) - of_bool (f i \<noteq> None)"
  using card_Suc_Diff1 [of "dom f" i] by (cases "i \<in> dom f") (auto simp: dom_fun_upd card_insert_if domIff)

lemma ms_inv_update:
  assumes inv: "ms_inv m" and own: "owners m' = (owners m)(i := oo)" and t: "tasks m' = (tasks m)(i := tt)"
    and att: "\<And>a. own_attempt_of m i \<noteq> Some a \<Longrightarrow> a < next_attempt m \<Longrightarrow> attempts m' a = attempts m a"
    and nx: "next_attempt m \<le> next_attempt m'"
    and fresh: "\<And>a. own_attempt_of m' i = Some a \<Longrightarrow> own_attempt_of m i = Some a \<or> next_attempt m \<le> a"
    and q: "tq_ok (ms_tq m')" "\<And>j. j \<noteq> i \<Longrightarrow> tq_map (ms_tq m') j = tq_map (ms_tq m) j"
    and b: "busy m' = busy m + of_bool (tt \<noteq> None) - of_bool (tasks m i \<noteq> None)" "readers m' = readers m"
    and ok: "run_ok m' i"
  shows "ms_inv m'"
proof -
  have other: "own_attempt_of m' j = own_attempt_of m j" if "j \<noteq> i" for j using that by (simp add: own_attempt_of_def own)
  have "run_ok m' j" for j
  proof (cases "j = i")
    case False
    have "phase_ok m' o' t = phase_ok m o' t" if "owners m j = Some o'" for o' t
    proof (rule phase_ok_cong)
      fix a assume "own_attempt o' = Some a"
      then have a: "own_attempt_of m j = Some a" using that by (simp add: own_attempt_of_def)
      then show "attempts m' a = attempts m a" using att ms_invD(5,6) [OF inv] False by metis
    qed
    then show ?thesis using ms_invD(2) [OF inv, of j] False nx q(2) by (auto simp: run_ok_def own t split: option.splits)
  qed (simp add: ok)
  moreover have "j = k" if "own_attempt_of m' j = Some a" "own_attempt_of m' k = Some a" for j k a
    using that other fresh ms_invD(5,6) [OF inv] by (metis leD)
  moreover have "busy m' = int (card (dom (tasks m')) + readers m')"
    unfolding t b using ms_invD(4) [OF inv] card_dom_upd [OF ms_invD(3) [OF inv], of i tt] by simp
  ultimately show ?thesis using ms_invD(3) [OF inv] q(1) by (auto simp: ms_inv_def t)
qed

text \<open>Sections that work on no run.\<close>

lemma ms_inv_frame:
  assumes "ms_inv m" "ms_tq m' = ms_tq m" "owners m' = owners m" "attempts m' = attempts m" "next_attempt m' = next_attempt m"
    "tasks m' = tasks m" "busy m' - int (readers m') = busy m - int (readers m)"
  shows "ms_inv m'"
  using assms by (auto simp: ms_inv_def run_ok_def phase_ok_def live_def own_attempt_of_def cong: option.case_cong phase.case_cong)

lemmas ms_simps = set_owner_def set_task_def newOwner_def newAttempt_def open_attempt_def Let_def

lemma no_owner: "ms_inv m \<Longrightarrow> owners m i = None \<Longrightarrow> tasks m i = None \<and> tq_map (ms_tq m) i = None"
  using ms_invD(2) [of m i] by (simp add: run_ok_def)

lemma an_owner:
  assumes "ms_inv m" "owners m i = Some o'"
  shows "DebugletID (own_spec o') = i" "phase_ok m o' (tasks m i)" "own_attempt o' = Some a \<Longrightarrow> a < next_attempt m"
    "tq_map (ms_tq m) i = (if own_phase o' = queued then Some (own_spec o') else None)"
  using ms_invD(2) [OF assms(1), of i] assms(2) by (simp_all add: run_ok_def)

lemma has_task: "ms_inv m \<Longrightarrow> tasks m i \<noteq> None \<Longrightarrow> \<exists>o'. owners m i = Some o'"
  using no_owner [of m i] by (cases "owners m i") auto

text \<open>Queueing a run that is not queued.\<close>

lemma enqueue_inv:
  assumes m: "ms_inv m" and out: "tq_map (ms_tq m) (DebugletID s) = None" and d: "owners m' = (owners m)(DebugletID s \<mapsto> o'')"
    and o: "own_spec o'' = s" "own_phase o'' = queued" "\<not> own_callbackDone o''" "own_attempt o'' = own_attempt_of m (DebugletID s)"
    and s: "ms_tq m' = TimedQueue_Push s (ms_tq m)" "tasks m' = (tasks m)(DebugletID s := None)" "next_attempt m' = next_attempt m"
      "\<And>a. own_attempt_of m (DebugletID s) \<noteq> Some a \<Longrightarrow> attempts m' a = attempts m a"
      "busy m' = busy m - of_bool (tasks m (DebugletID s) \<noteq> None)" "readers m' = readers m"
  shows "ms_inv m'"
  using tq.push_ok [OF ms_invD(1) [OF m] out] ms_invD(6) [OF m]
  by (intro ms_inv_update [OF m d s(2)]) (auto simp: o s own_attempt_of_def run_ok_def phase_ok_def d)

lemma insert_begin_inv:
  assumes m: "ms_inv m"
  shows "ms_inv (snd (insert_begin ctx guard late spec m))"
proof (cases "snd (insert_begin ctx guard late spec m) = m")
  case False
  let ?i = "DebugletID spec"
  have new: "owners m ?i = None" using False by (auto simp: insert_begin_def split: option.splits if_splits)
  note nw = no_owner [OF m new]
  show ?thesis
  proof (cases "has_persist m")
    case True
    then have e: "snd (insert_begin ctx guard late spec m) = set_task ?i (Some Inserting) ((set_owner ?i (newOwner spec persisting) m)\<lparr>busy := busy m + 1\<rparr>)"
      using False by (auto simp: insert_begin_def ms_simps split: option.splits if_splits)
    show ?thesis unfolding e using nw ms_invD(1) [OF m]
      by (intro ms_inv_update [OF m, where i = ?i]) (auto simp: ms_simps own_attempt_of_def run_ok_def phase_ok_def)
  next
    case False
    then have e: "snd (insert_begin ctx guard late spec m) = (set_owner ?i ((newOwner spec queued)\<lparr>own_admitted := True\<rparr>) m)\<lparr>ms_tq := TimedQueue_Push spec (ms_tq m)\<rparr>"
      using \<open>snd (insert_begin ctx guard late spec m) \<noteq> m\<close> by (auto simp: insert_begin_def ms_simps split: option.splits if_splits)
    show ?thesis unfolding e using nw new
      by (intro enqueue_inv [OF m, where s = spec]) (auto simp: ms_simps own_attempt_of_def fun_upd_idem)
  qed
qed (simp add: m)

lemma restore_emit_inv:
  assumes m: "ms_inv m"
  shows "ms_inv (snd (restore_emit ctx spec m))"
proof (cases "snd (restore_emit ctx spec m) = m")
  case False
  have new: "owners m (DebugletID spec) = None" using False by (auto simp: restore_emit_def split: option.splits if_splits)
  have e: "snd (restore_emit ctx spec m) = (set_owner (DebugletID spec) ((newOwner spec queued)\<lparr>own_admitted := True\<rparr>) m)\<lparr>ms_tq := TimedQueue_Push spec (ms_tq m)\<rparr>"
    using False by (auto simp: restore_emit_def split: option.splits if_splits)
  show ?thesis unfolding e using no_owner [OF m new] new
    by (intro enqueue_inv [OF m, where s = spec]) (auto simp: ms_simps own_attempt_of_def fun_upd_idem)
qed (simp add: m)

lemma insert_end_ok:
  assumes m: "ms_inv m" and t: "tasks m i = Some Inserting" and res: "\<And>s. res = Inr s \<Longrightarrow> DebugletID s = i"
  shows "\<exists>m'. insert_end i res m = Some m' \<and> ms_inv m'"
proof -
  obtain o' where o: "owners m i = Some o'" using has_task [OF m] t by auto
  note a = an_owner [OF m o]
  have p: "own_phase o' = persisting" "\<not> own_callbackDone o'" "\<And>a. own_attempt o' = Some a \<Longrightarrow> \<not> at_done (attempts m a)"
    using a(2) t by (auto simp: phase_ok_def live_def split: phase.splits)
  have out: "tq_map (ms_tq m) i = None" using a(4) p(1) by simp
  show ?thesis
  proof (cases res)
    case (Inl e)
    show ?thesis
    proof (cases "own_attempt o'")
      case None
      then show ?thesis using Inl o out t ms_invD(1) [OF m]
        by (auto simp: insert_end_def ms_simps own_attempt_of_def run_ok_def intro!: ms_inv_update [OF m, where i = i])
    next
      case (Some b)
      then show ?thesis using Inl o out t p(3) [OF Some] ms_invD(1) [OF m]
        by (auto simp: insert_end_def close_attempt_def ms_simps own_attempt_of_def run_ok_def intro!: ms_inv_update [OF m, where i = i])
    qed
  next
    case (Inr s)
    note s = res [OF Inr]
    show ?thesis
    proof (cases "own_attempt o'")
      case None
      then show ?thesis using Inr o out t p s
        by (auto simp: insert_end_def ms_simps own_attempt_of_def intro!: enqueue_inv [OF m, where s = s])
    next
      case (Some b)
      then show ?thesis using Inr o out t p(2) p(3) [OF Some] s a(3) ms_invD(1) [OF m]
        by (auto simp: insert_end_def ms_simps own_attempt_of_def run_ok_def phase_ok_def live_def intro!: ms_inv_update [OF m, where i = i])
    qed
  qed
qed

lemma cancel_phase_ok:
  assumes m: "ms_inv m" and o: "owners m i = Some o'"
  shows "\<exists>r m'. cancel_phase i cause o' m = Some (r, m') \<and> ms_inv m'"
proof (cases "own_phase o' = persisting \<and> own_attempt o' = None \<or> own_phase o' = queued \<or> own_phase o' = completed \<or> own_phase o' = active")
  case False
  then obtain b where "own_attempt o' = Some b" using an_owner(2) [OF m o] by (auto simp: phase_ok_def live_def split: phase.splits)
  then show ?thesis using False m by (auto simp: cancel_phase_def joins_def split: phase.splits)
next
  case True
  note a = an_owner [OF m o]
  note upd = ms_inv_update [OF m, where i = i]
  note d = cancel_phase_def joins_def ms_simps own_attempt_of_def run_ok_def phase_ok_def live_def
  consider "own_phase o' = persisting" "own_attempt o' = None" | "own_phase o' = queued" | "own_phase o' = completed" | "own_phase o' = active"
    using True by auto
  then show ?thesis
  proof cases
    case 1
    then show ?thesis using a o ms_invD(1) [OF m] by (auto simp: d intro!: upd)
  next
    case 2
    then show ?thesis using a o tq.remove_ok [OF ms_invD(1) [OF m], of i] by (auto simp: d intro!: upd)
  next
    case 3
    then obtain b where b: "own_attempt o' = Some b" using a(2) by (auto simp: phase_ok_def)
    show ?thesis
    proof (cases "at_finalErr (attempts m b) = []")
      case True
      then show ?thesis using 3 b m by (simp add: cancel_phase_def joins_def)
    next
      case False
      then show ?thesis using 3 b a o ms_invD(1) [OF m] by (auto simp: d intro!: upd)
    qed
  next
    case 4
    then obtain b where b: "own_attempt o' = Some b" using a(2) by (auto simp: phase_ok_def)
    show ?thesis
    proof (cases "\<not> closed m \<and> own_cause o' = None")
      case True
      then show ?thesis using 4 b a o ms_invD(1) [OF m] by (auto simp: d intro!: upd)
    next
      case False
      then show ?thesis using 4 b m by (auto simp: cancel_phase_def joins_def)
    qed
  qed
qed

lemma requestCancel_ok:
  assumes m: "ms_inv m"
  shows "\<exists>r m'. requestCancel ctx i cause queueOnly expected m = Some (r, m') \<and> ms_inv m'"
proof (cases "owners m i")
  case None
  then show ?thesis using m by (auto simp: requestCancel_def Let_def split: option.splits intro!: ms_inv_frame [OF m])
next
  case (Some o')
  have "own_phase o' = completed \<Longrightarrow> \<exists>b. own_attempt o' = Some b" using an_owner(2) [OF m Some] by (auto simp: phase_ok_def)
  then show ?thesis using m Some cancel_phase_ok [OF m Some] by (auto simp: requestCancel_def Let_def split: option.splits)
qed

lemma callback_end_ok:
  assumes m: "ms_inv m" and o: "owners m i = Some o'" and b: "live m o' b" and t: "tasks m i \<noteq> None" and c: "\<not> own_callbackDone o'"
  shows "\<exists>m'. callback_end i b cleanup m = Some m' \<and> ms_inv m'"
proof -
  have "own_phase o' \<noteq> queued" using an_owner(2) [OF m o] t by (auto simp: phase_ok_def)
  then show ?thesis using assms an_owner [OF m o] ms_invD(1) [OF m]
    by (auto simp: callback_end_def close_callback_def ms_simps own_attempt_of_def run_ok_def phase_ok_def live_def
        intro!: ms_inv_update [OF m, where i = i])
qed

lemma delete_task:
  assumes m: "ms_inv m" and t: "tasks m i = Some tt" "tt \<in> {Deleting b, Reporting b, Removing b}"
  obtains o' where "owners m i = Some o'" "own_phase o' = cancelPending" "live m o' b" "\<not> own_callbackDone o'"
proof -
  obtain o' where o: "owners m i = Some o'" using has_task [OF m] t by auto
  then show ?thesis using an_owner(2) [OF m o] t that by (auto simp: phase_ok_def live_def split: phase.splits)
qed

lemma delete_read_inv:
  assumes m: "ms_inv m" and t: "tasks m i = Some (Deleting b)"
  shows "ms_inv (delete_read i b m)"
proof -
  obtain o' where "owners m i = Some o'" "own_phase o' = cancelPending" "live m o' b" "\<not> own_callbackDone o'"
    using delete_task [OF m t] by blast
  then show ?thesis using an_owner [OF m] t ms_invD(1) [OF m]
    by (intro ms_inv_update [OF m, where i = i])
      (auto simp: delete_read_def ms_simps own_attempt_of_def run_ok_def phase_ok_def live_def fun_upd_idem)
qed

lemma delete_end_ok:
  assumes m: "ms_inv m" and t: "tasks m i = Some (Removing b)"
  shows "\<exists>m'. delete_end i b err m = Some m' \<and> ms_inv m'"
proof -
  obtain o' where o: "owners m i = Some o'" "own_phase o' = cancelPending" "live m o' b" "\<not> own_callbackDone o'"
    using delete_task [OF m t] by blast
  note a = an_owner [OF m o(1)]
  show ?thesis
  proof (cases "err = []")
    case True
    then show ?thesis using a o t ms_invD(1) [OF m]
      by (auto simp: delete_end_def close_attempt_def close_callback_def ms_simps own_attempt_of_def run_ok_def live_def
          intro!: ms_inv_update [OF m, where i = i])
  next
    case False
    then show ?thesis using a o t
      by (auto simp: delete_end_def close_attempt_def ms_simps own_attempt_of_def live_def intro!: enqueue_inv [OF m, where s = "own_spec o'"])
  qed
qed

lemma run_end_ok:
  assumes m: "ms_inv m" and t: "tasks m i = Some Running"
  shows "\<exists>m'. run_end i cleanup m = Some m' \<and> ms_inv m'"
proof -
  obtain o' where o: "owners m i = Some o'" using has_task [OF m] t by auto
  obtain b where b: "live m o' b" "\<not> own_callbackDone o'" using an_owner(2) [OF m o] t by (auto simp: phase_ok_def live_def split: phase.splits)
  then show ?thesis using callback_end_ok [OF m o b(1)] t o by (simp add: run_end_def live_def)
qed

lemma finalize_end_ok:
  assumes m: "ms_inv m" and t: "tasks m i = Some (Finishing b)"
  shows "\<exists>m'. finalize_end i b err m = Some m' \<and> ms_inv m'"
proof -
  obtain o' where o: "owners m i = Some o'" using has_task [OF m] t by auto
  note a = an_owner [OF m o]
  have p: "own_phase o' = finalizing" "live m o' b" "own_callbackDone o'" using a(2) t by (auto simp: phase_ok_def live_def split: phase.splits)
  show ?thesis
    using a o p t ms_invD(1) [OF m]
    by (cases "own_completion o' @ err = []")
      (auto simp: finalize_end_def close_attempt_def ms_simps own_attempt_of_def run_ok_def phase_ok_def live_def
        intro!: ms_inv_update [OF m, where i = i])
qed

lemma loop_round_ok:
  assumes m: "ms_inv m"
  shows "\<exists>r m'. loop_round ctx now guard late m = Some (r, m') \<and> ms_inv m'"
proof (cases "TimedQueue_Len (ms_tq m) = 0")
  case True
  then show ?thesis using m by (auto simp: loop_round_def split: option.splits)
next
  case False
  obtain u q where u: "TimedQueue_Pop (ms_tq m) = Some (u, q)" "TimedQueue_Peek 0 (ms_tq m) = Some u" "tq_ok q"
    "tq_map (ms_tq m) (DebugletID u) = Some u" "tq_map q = (tq_map (ms_tq m))(DebugletID u := None)"
    using tq.pop_ok [OF ms_invD(1) [OF m] False] by blast
  obtain o' where o: "owners m (DebugletID u) = Some o'" using no_owner [OF m] u(4) by (cases "owners m (DebugletID u)") auto
  have p: "own_phase o' = queued" using an_owner(4) [OF m o] u(4) by (simp split: if_splits)
  have "\<exists>r m'. promote_due guard late u m = Some (r, m') \<and> ms_inv m'"
    using u o p an_owner [OF m o] m
    by (auto simp: promote_due_def ms_simps own_attempt_of_def run_ok_def phase_ok_def split: option.splits intro!: ms_inv_update [OF m, where i = "DebugletID u"])
  then show ?thesis using False m u(2) by (auto simp: loop_round_def split: option.splits)
qed

lemma Shutdown_begin_inv:
  assumes "ms_inv m"
  shows "ms_inv (Shutdown_begin m)"
proof -
  have "own_attempt_of (Shutdown_begin m) i = own_attempt_of m i" for i
    by (cases "owners m i") (auto simp: own_attempt_of_def Shutdown_begin_def)
  moreover have "run_ok (Shutdown_begin m) i = run_ok m i" for i
    by (auto simp: run_ok_def Shutdown_begin_def phase_ok_def live_def split: option.splits phase.splits)
  ultimately show ?thesis using assms by (simp add: ms_inv_def) (simp add: Shutdown_begin_def)
qed

lemma ms_act_ok:
  assumes "ms_inv m" "ms_enabled c m"
  shows "\<exists>m'. ms_act c m = Some m' \<and> ms_inv m'"
proof (cases c)
  case (DoInsertEnd i res)
  then show ?thesis using insert_end_ok [OF assms(1), of i res] assms(2) by (auto split: sum.splits)
next
  case (DoReport i b cleanup)
  then have t: "tasks m i = Some (Reporting b)" using assms(2) by simp
  obtain o' where "owners m i = Some o'" "live m o' b" "\<not> own_callbackDone o'" using delete_task [OF assms(1) t] by blast
  then show ?thesis using callback_end_ok [OF assms(1)] t DoReport by simp
next
  case (DoRead ctx)
  then show ?thesis using assms by (auto simp: read_begin_def split: option.splits intro!: ms_inv_frame [OF assms(1)])
next
  case (DoCancel ctx i cause queueOnly expected)
  then show ?thesis using requestCancel_ok [OF assms(1), of ctx i cause queueOnly expected] by auto
next
  case (DoRound ctx now guard late)
  then show ?thesis using loop_round_ok [OF assms(1), of ctx now guard late] by auto
qed (use assms in \<open>simp_all add: insert_begin_inv restore_emit_inv delete_read_inv delete_end_ok run_end_ok finalize_end_ok Shutdown_begin_inv
      ms_inv_frame [OF assms(1)] read_end_def StartLoop_begin_def StartLoop_end_def BeginDrain_def TryDrain_def RegisterOnStart_def RegisterFailed_def of_nat_diff\<close>)

lemma NewPersistentStorage_inv: "NewPersistentStorage persist inspect g1 g2 = Some m \<Longrightarrow> ms_inv m"
  using tq.new_ok by (auto simp: NewPersistentStorage_def ms_inv_def run_ok_def own_attempt_of_def split: if_splits)

lemma ms_reachable_inv: "ms_reachable m \<Longrightarrow> ms_inv m"
  by (induction rule: ms_reachable.induct) (use NewPersistentStorage_inv ms_act_ok in fastforce)+

section \<open>The phases of a run\<close>

text \<open>The state machine of \<open>ownership.go\<close>; a run without an owner has no phase.\<close>

fun phase_edge :: "phase option \<Rightarrow> phase option \<Rightarrow> bool" where
  "phase_edge None s = (s \<in> {None, Some persisting, Some queued})"
| "phase_edge (Some persisting) s = (s \<in> {Some persisting, Some queued, Some cancelPending, None})"
| "phase_edge (Some queued) s = (s \<in> {Some queued, Some cancelPending, Some active})"
| "phase_edge (Some cancelPending) s = (s \<in> {Some cancelPending, Some queued, Some finalizing, None})"
| "phase_edge (Some active) s = (s \<in> {Some active, Some finalizing})"
| "phase_edge (Some finalizing) s = (s \<in> {Some finalizing, Some completed, None})"
| "phase_edge (Some completed) s = (s \<in> {Some completed, Some finalizing})"
| "phase_edge (Some retired) s = False"

definition phase_of :: "MemoryStorage \<Rightarrow> uuid \<Rightarrow> phase option" where
  "phase_of m i = map_option own_phase (owners m i)"

lemma phase_edge_refl: "p \<noteq> Some retired \<Longrightarrow> phase_edge p p"
  by (cases p; cases "the p") auto

lemma phase_of_reachable: "ms_inv m \<Longrightarrow> phase_of m i \<noteq> Some retired"
  using an_owner(2) [of m i] by (auto simp: phase_of_def phase_ok_def)

lemma task_phase:
  assumes "ms_inv m" "tasks m i = Some t"
  shows "phase_of m i = Some (case t of Inserting \<Rightarrow> persisting | Deleting _ \<Rightarrow> cancelPending | Reporting _ \<Rightarrow> cancelPending
    | Removing _ \<Rightarrow> cancelPending | Running \<Rightarrow> active | Finishing _ \<Rightarrow> finalizing)"
proof -
  obtain o' where o: "owners m i = Some o'" using has_task [OF assms(1)] assms(2) by auto
  then show ?thesis using an_owner(2) [OF assms(1) o] assms(2) by (auto simp: phase_of_def phase_ok_def split: phase.splits)
qed

lemma cancel_edge:
  assumes "requestCancel ctx i cause queueOnly expected m = Some (r, m')" "ms_inv m"
  shows "phase_edge (phase_of m j) (phase_of m' j)"
  using assms phase_edge_refl [OF phase_of_reachable [OF assms(2)]]
  by (auto simp: requestCancel_def cancel_phase_def joins_def phase_of_def ms_simps split: option.splits if_splits phase.splits)

lemma round_edge:
  assumes "loop_round ctx now guard late m = Some (r, m')" "ms_inv m"
  shows "phase_edge (phase_of m j) (phase_of m' j)"
proof (cases "TimedQueue_Len (ms_tq m) = 0")
  case True
  then show ?thesis using assms phase_edge_refl [OF phase_of_reachable [OF assms(2)]] by (auto simp: loop_round_def split: option.splits if_splits)
next
  case False
  obtain u q where u: "TimedQueue_Pop (ms_tq m) = Some (u, q)" "TimedQueue_Peek 0 (ms_tq m) = Some u" "tq_map (ms_tq m) (DebugletID u) = Some u"
    using tq.pop_ok [OF ms_invD(1) [OF assms(2)] False] by blast
  obtain o' where o: "owners m (DebugletID u) = Some o'" using no_owner [OF assms(2)] u(3) by (cases "owners m (DebugletID u)") auto
  have p: "own_phase o' = queued" using an_owner(4) [OF assms(2) o] u(3) by (simp split: if_splits)
  show ?thesis using assms(1) u o p False phase_edge_refl [OF phase_of_reachable [OF assms(2)]]
    by (auto simp: loop_round_def promote_due_def phase_of_def ms_simps split: option.splits if_splits)
qed

lemma section_edge:
  assumes "ms_act c m = Some m'" "ms_inv m" "ms_enabled c m"
  shows "phase_edge (phase_of m j) (phase_of m' j)"
proof -
  note refl = phase_edge_refl [OF phase_of_reachable [OF assms(2)]]
  show ?thesis
  proof (cases c)
    case (DoInsert ctx guard late spec)
    then show ?thesis using assms refl by (auto simp: insert_begin_def phase_of_def ms_simps split: option.splits if_splits)
  next
    case (DoInsertEnd i res)
    then show ?thesis using assms refl task_phase [of m i]
      by (auto simp: insert_end_def close_attempt_def phase_of_def ms_simps split: option.splits if_splits sum.splits)
  next
    case (DoRead ctx)
    then show ?thesis using assms refl by (auto simp: read_begin_def phase_of_def split: option.splits if_splits)
  next
    case (DoEmit ctx spec)
    then show ?thesis using assms refl by (auto simp: restore_emit_def phase_of_def ms_simps split: option.splits if_splits)
  next
    case (DoCancel ctx i cause queueOnly expected)
    then show ?thesis using assms cancel_edge by auto
  next
    case (DoReport i b cleanup)
    then show ?thesis using assms refl task_phase [of m i] by (auto simp: callback_end_def close_callback_def phase_of_def ms_simps split: option.splits if_splits)
  next
    case (DoDeleteEnd i b err)
    then show ?thesis using assms refl task_phase [of m i] an_owner(1) [OF assms(2)]
      by (auto simp: delete_end_def close_attempt_def close_callback_def phase_of_def ms_simps bind_eq_Some_conv split: option.splits if_splits)
  next
    case (DoRunEnd i cleanup)
    then show ?thesis using assms refl task_phase [of m i]
      by (auto simp: run_end_def callback_end_def close_callback_def phase_of_def ms_simps bind_eq_Some_conv split: option.splits if_splits)
  next
    case (DoFinalizeEnd i b err)
    then show ?thesis using assms refl task_phase [of m i] an_owner(1) [OF assms(2)]
      by (auto simp: finalize_end_def close_attempt_def phase_of_def ms_simps bind_eq_Some_conv split: option.splits if_splits)
  next
    case (DoRound ctx now guard late)
    then show ?thesis using assms round_edge by auto
  next
    case DoShutdown
    then show ?thesis using assms refl [of j] by (cases "owners m j") (auto simp: Shutdown_begin_def phase_of_def)
  qed (use assms refl in \<open>auto simp: phase_of_def read_end_def delete_read_def ms_simps StartLoop_begin_def StartLoop_end_def BeginDrain_def TryDrain_def
      RegisterOnStart_def RegisterFailed_def\<close>)
qed

section \<open>Work left at shutdown\<close>

text \<open>Sections left for the goroutine of a run, and for the whole core.\<close>

fun task_rank :: "task option \<Rightarrow> nat" where
  "task_rank None = 0"
| "task_rank (Some Inserting) = 4"
| "task_rank (Some (Deleting _)) = 3"
| "task_rank (Some (Reporting _)) = 2"
| "task_rank (Some (Removing _)) = 1"
| "task_rank (Some Running) = 2"
| "task_rank (Some (Finishing _)) = 1"

definition ms_work :: "MemoryStorage \<Rightarrow> nat" where
  "ms_work m = (\<Sum>i \<in> dom (tasks m). task_rank (tasks m i)) + readers m + of_bool (loopRunning m)"

text \<open>The sections that end something under way.\<close>

fun finishing :: "ms_action \<Rightarrow> bool" where
  "finishing (DoInsertEnd _ _) = True"
| "finishing DoReadEnd = True"
| "finishing (DoDeleteRead _ _) = True"
| "finishing (DoReport _ _ _) = True"
| "finishing (DoDeleteEnd _ _ _) = True"
| "finishing (DoRunEnd _ _) = True"
| "finishing (DoFinalizeEnd _ _ _) = True"
| "finishing DoLoopEnd = True"
| "finishing _ = False"

lemma sum_rank_upd:
  assumes "finite (dom f)"
  shows "(\<Sum>j \<in> dom (f(i := t)). task_rank ((f(i := t)) j)) + task_rank (f i) = (\<Sum>j \<in> dom f. task_rank (f j)) + task_rank t"
proof -
  have e: "(\<Sum>j \<in> dom g. task_rank (g j)) = (\<Sum>j \<in> insert i (dom f). task_rank (g j))" if "dom g \<subseteq> insert i (dom f)" for g
    using that assms by (intro sum.mono_neutral_left) (auto simp: domIff)
  have "dom (f(i := t)) \<subseteq> insert i (dom f)" "dom f \<subseteq> insert i (dom f)" by auto
  note e = e [OF this(1)] e [OF this(2)]
  have "(\<Sum>j \<in> dom f - {i}. task_rank ((f(i := t)) j)) = (\<Sum>j \<in> dom f - {i}. task_rank (f j))" by (intro sum.cong) auto
  then show ?thesis unfolding e using assms by (simp add: sum.insert_remove)
qed

lemma work_upd:
  assumes "ms_inv m" "tasks m' = (tasks m)(i := t)" "readers m' = readers m" "loopRunning m' = loopRunning m"
  shows "ms_work m' + task_rank (tasks m i) = ms_work m + task_rank t"
  using sum_rank_upd [OF ms_invD(3) [OF assms(1)], of i t] assms(2-) by (simp add: ms_work_def)

text \<open>A section of a run's own goroutine.\<close>

lemma finishing_run:
  assumes m: "ms_inv m" and c: "finishing c" "ms_enabled c m" "c \<noteq> DoReadEnd" "c \<noteq> DoLoopEnd" and act: "ms_act c m = Some m'"
  obtains i t where "tasks m' = (tasks m)(i := t)" "task_rank t < task_rank (tasks m i)" "readers m' = readers m" "loopRunning m' = loopRunning m"
proof -
  have "\<exists>i t. tasks m' = (tasks m)(i := t) \<and> task_rank t < task_rank (tasks m i) \<and> readers m' = readers m \<and> loopRunning m' = loopRunning m"
  proof (cases c)
    case (DoInsertEnd i res)
    then show ?thesis using c act
      by (auto simp: insert_end_def close_attempt_def ms_simps split: option.splits if_splits sum.splits intro!: exI [of _ i])
  next
    case (DoDeleteRead i b)
    then show ?thesis using c act by (auto simp: delete_read_def ms_simps intro!: exI [of _ i])
  next
    case (DoReport i b cleanup)
    then show ?thesis using c act by (auto simp: callback_end_def close_callback_def ms_simps bind_eq_Some_conv split: if_splits intro!: exI [of _ i])
  next
    case (DoDeleteEnd i b err)
    then show ?thesis using c act
      by (auto simp: delete_end_def close_attempt_def close_callback_def ms_simps bind_eq_Some_conv split: if_splits intro!: exI [of _ i])
  next
    case (DoRunEnd i cleanup)
    then show ?thesis using c act
      by (auto simp: run_end_def callback_end_def close_callback_def ms_simps bind_eq_Some_conv split: if_splits intro!: exI [of _ i])
  next
    case (DoFinalizeEnd i b err)
    then show ?thesis using c act
      by (auto simp: finalize_end_def close_attempt_def ms_simps bind_eq_Some_conv split: if_splits intro!: exI [of _ i])
  qed (use c in simp_all)
  then show ?thesis using that by blast
qed

lemma finishing_decreases:
  assumes "ms_inv m" "finishing c" "ms_enabled c m" "ms_act c m = Some m'"
  shows "ms_work m' < ms_work m"
proof (cases "c = DoReadEnd \<or> c = DoLoopEnd")
  case True
  then show ?thesis using assms by (auto simp: ms_work_def read_end_def StartLoop_end_def)
next
  case False
  then obtain i t where "tasks m' = (tasks m)(i := t)" "task_rank t < task_rank (tasks m i)" "readers m' = readers m" "loopRunning m' = loopRunning m"
    using finishing_run [OF assms(1-3) _ _ assms(4)] by blast
  then show ?thesis using work_upd [OF assms(1)] by fastforce
qed

text \<open>A closed core takes on no new work.\<close>

lemma closed_no_work:
  assumes "ms_inv m" "closed m" "\<not> finishing c" "c \<noteq> DoStartLoop" "ms_act c m = Some m'"
  shows "ms_work m' = ms_work m"
proof (cases c)
  case (DoCancel ctx i cause queueOnly expected)
  then have "tasks m' = tasks m \<and> readers m' = readers m \<and> loopRunning m' = loopRunning m" using assms
    by (auto simp: requestCancel_def cancel_phase_def joins_def ms_simps split: option.splits if_splits phase.splits)
  then show ?thesis by (simp add: ms_work_def)
next
  case (DoRound ctx now guard late)
  then show ?thesis using assms by (auto simp: loop_round_def split: option.splits)
qed (use assms in \<open>auto simp: ms_work_def insert_begin_def read_begin_def restore_emit_def BeginDrain_def TryDrain_def Shutdown_begin_def RegisterOnStart_def
    RegisterFailed_def split: option.splits\<close>)

lemma closed_stays: "ms_act c m = Some m' \<Longrightarrow> closed m \<Longrightarrow> closed m'"
  by (cases c) (auto simp: insert_begin_def insert_end_def read_begin_def read_end_def restore_emit_def requestCancel_def cancel_phase_def joins_def
      delete_read_def callback_end_def delete_end_def run_end_def finalize_end_def StartLoop_begin_def loop_round_def StartLoop_end_def BeginDrain_def
      TryDrain_def Shutdown_begin_def RegisterOnStart_def RegisterFailed_def close_attempt_def close_callback_def ms_simps bind_eq_Some_conv
      split: option.splits if_splits phase.splits sum.splits)

lemma work_enabled:
  assumes "ms_inv m" "ms_work m \<noteq> 0"
  shows "\<exists>c. finishing c \<and> ms_enabled c m"
proof (cases "readers m \<noteq> 0 \<or> loopRunning m")
  case True
  then show ?thesis by (metis finishing.simps(2) finishing.simps(8) ms_enabled.simps(2) ms_enabled.simps(10))
next
  case False
  then obtain i t where "tasks m i = Some t" using assms(2) by (cases "tasks m = Map.empty") (auto simp: ms_work_def fun_eq_iff)
  then show ?thesis
    by (cases t) (auto intro: exI [of _ "DoInsertEnd i (Inl [])"] exI [of _ "DoDeleteRead i b" for b] exI [of _ "DoReport i b []" for b]
        exI [of _ "DoDeleteEnd i b []" for b] exI [of _ "DoRunEnd i []"] exI [of _ "DoFinalizeEnd i b []" for b])
qed

lemma idle:
  assumes "ms_inv m"
  shows "busy m = 0 \<longleftrightarrow> tasks m = Map.empty \<and> readers m = 0" "ms_work m = 0 \<longleftrightarrow> busy m = 0 \<and> \<not> loopRunning m"
proof -
  show b: "busy m = 0 \<longleftrightarrow> tasks m = Map.empty \<and> readers m = 0" using ms_invD(3,4) [OF assms] by (auto simp: zero_eq_add_iff_both_eq_0 simp flip: of_nat_add)
  have r: "task_rank (tasks m i) \<noteq> 0" if "i \<in> dom (tasks m)" for i using that by (cases "the (tasks m i)") auto
  have "(\<Sum>i \<in> dom (tasks m). task_rank (tasks m i)) = 0 \<longleftrightarrow> dom (tasks m) = {}"
    using r ms_invD(3) [OF assms] by (metis all_not_in_conv sum.empty sum_eq_0_iff)
  then show "ms_work m = 0 \<longleftrightarrow> busy m = 0 \<and> \<not> loopRunning m" unfolding b by (auto simp: ms_work_def)
qed

lemma idle_phase: "ms_inv m \<Longrightarrow> tasks m = Map.empty \<Longrightarrow> phase_of m i \<in> {None, Some queued, Some completed}"
  using an_owner(2) [of m i] by (auto simp: phase_of_def phase_ok_def split: phase.splits)

text \<open>What \<open>Shutdown\<close> reports.\<close>

lemma poll_errs:
  assumes m: "ms_inv m" and p: "Shutdown_poll order m = Some errs" and s: "set order = dom (owners m)"
  shows "errs = [] \<longleftrightarrow> (\<forall>i. phase_of m i \<noteq> Some completed)"
proof -
  define e where "e i = (case owners m i of None \<Rightarrow> [] | Some o' \<Rightarrow> if own_phase o' = completed
    then (case own_attempt o' of None \<Rightarrow> [] | Some a \<Rightarrow> at_err (attempts m a)) else [])" for i
  have one: "e i = [] \<longleftrightarrow> phase_of m i \<noteq> Some completed" for i
    using an_owner(2) [OF m, of i] by (auto simp: e_def phase_of_def phase_ok_def split: option.splits)
  have "errs = concat (map e order)" using p by (auto simp: Shutdown_poll_def e_def [abs_def] split: if_splits)
  then have "errs = [] \<longleftrightarrow> (\<forall>i \<in> dom (owners m). e i = [])" unfolding s [symmetric] by simp
  also have "\<dots> \<longleftrightarrow> (\<forall>i. phase_of m i \<noteq> Some completed)" unfolding one by (auto simp: phase_of_def domIff)
  finally show ?thesis .
qed

lemma queue_owner:
  assumes m: "ms_inv m"
  shows "tq_map (ms_tq m) i = Some u \<longleftrightarrow> (\<exists>o'. owners m i = Some o' \<and> own_phase o' = queued \<and> own_spec o' = u)"
  using no_owner [OF m, of i] an_owner(4) [OF m, of i] by (cases "owners m i") auto

lemma promote_due_Some:
  assumes "promote_due guard late u m = Some (r, m')"
  shows "guard \<noteq> None \<or> late \<noteq> None \<Longrightarrow> (\<exists>e. r = LoopFails e) \<and> m' = m"
    and "guard = None \<and> late = None \<Longrightarrow> r = LoopStarts (DebugletID u) \<and> phase_of m' (DebugletID u) = Some active"
  using assms by (auto simp: promote_due_def ms_simps phase_of_def bind_eq_Some_conv split: option.splits)

section \<open>Properties\<close>

text \<open>C10: Whatever the interleaving of insertions, restorations, cancellations, deletions, callbacks, finalizers, loop rounds, drain and
  shutdown, the core stays consistent: the queue holds exactly the runs whose owner is queued, with the owner's spec, \<open>busy\<close> counts the
  goroutines and backend reads under way, a run has a goroutine exactly if its phase asks for one; and no critical
  section panics: no result channel is closed twice and no missing owner or attempt is dereferenced.\<close>

theorem MemoryStorage_consistent:
  assumes "ms_reachable m"
  shows "(\<forall>i u. tq_map (ms_tq m) i = Some u \<longleftrightarrow> (\<exists>o'. owners m i = Some o' \<and> own_phase o' = queued \<and> own_spec o' = u))
    \<and> busy m = int (card (dom (tasks m)) + readers m)
    \<and> (\<forall>i. tasks m i \<noteq> None \<longleftrightarrow> phase_of m i \<in> {Some persisting, Some cancelPending, Some active, Some finalizing})
    \<and> (\<forall>c. ms_enabled c m \<longrightarrow> ms_act c m \<noteq> None)"
proof (intro conjI allI impI)
  note m = ms_reachable_inv [OF assms]
  show "busy m = int (card (dom (tasks m)) + readers m)" using ms_invD(4) [OF m] .
  show "tq_map (ms_tq m) i = Some u \<longleftrightarrow> (\<exists>o'. owners m i = Some o' \<and> own_phase o' = queued \<and> own_spec o' = u)" for i u
    using queue_owner [OF m] .
  show "tasks m i \<noteq> None \<longleftrightarrow> phase_of m i \<in> {Some persisting, Some cancelPending, Some active, Some finalizing}" for i
    using no_owner [OF m, of i] an_owner(2) [OF m, of i] by (cases "owners m i") (auto simp: phase_of_def phase_ok_def split: phase.splits)
  show "ms_act c m \<noteq> None" if "ms_enabled c m" for c using ms_act_ok [OF m that] by auto
qed

text \<open>Every critical section moves every run along the documented state machine: in particular a run is started only from the queue, a
  started run never returns to the queue, and only a finished finalization or a deletion or a failed insertion forgets it.\<close>

theorem MemoryStorage_phases:
  assumes "ms_reachable m" "ms_enabled c m" "ms_act c m = Some m'"
  shows "phase_edge (phase_of m i) (phase_of m' i)"
  using section_edge [OF assms(3) ms_reachable_inv [OF assms(1)] assms(2)] .

text \<open>A round of the loop that starts a run starts the queued run with the earliest start time, which is due, with the guard's consent and on an
  open core; a round that waits leaves no due run in the queue; a round that fails changes nothing.\<close>

theorem StartLoop_round:
  assumes "ms_reachable m"
  shows "\<exists>r m'. loop_round ctx now guard late m = Some (r, m') \<and> (case r of
      LoopFails e \<Rightarrow> m' = m
    | LoopStarts i \<Rightarrow> ctx = None \<and> guard = None \<and> late = None \<and> \<not> closed m \<and> phase_of m' i = Some active
        \<and> (\<exists>o'. owners m i = Some o' \<and> own_phase o' = queued \<and> StartTime (own_spec o') \<le> Some now
           \<and> (\<forall>j o''. owners m j = Some o'' \<and> own_phase o'' = queued \<longrightarrow> StartTime (own_spec o') \<le> StartTime (own_spec o'')))
    | LoopWaits t \<Rightarrow> m' = m \<and> (\<forall>j o''. owners m j = Some o'' \<and> own_phase o'' = queued \<longrightarrow> Some now < StartTime (own_spec o'')))"
proof -
  note m = ms_reachable_inv [OF assms]
  obtain r m' where r: "loop_round ctx now guard late m = Some (r, m')" using loop_round_ok [OF m] by blast
  consider "ctx \<noteq> None \<or> closed m" | "TimedQueue_Len (ms_tq m) = 0" "\<not> (ctx \<noteq> None \<or> closed m)"
    | "TimedQueue_Len (ms_tq m) \<noteq> 0" "\<not> (ctx \<noteq> None \<or> closed m)" by blast
  then show ?thesis
  proof cases
    case 1
    then show ?thesis by (auto simp: loop_round_def split: option.splits)
  next
    case 2
    then have "tq_map (ms_tq m) = Map.empty" using tq_empty ms_invD(1) [OF m] by simp
    then show ?thesis using 2 queue_owner [OF m] by (auto simp: loop_round_def fun_eq_iff split: option.splits)
  next
    case 3
    obtain u where u: "TimedQueue_Peek 0 (ms_tq m) = Some u" "tq_map (ms_tq m) (DebugletID u) = Some u"
      "\<forall>i v. tq_map (ms_tq m) i = Some v \<longrightarrow> StartTime u \<le> StartTime v"
      using tq.pop_ok [OF ms_invD(1) [OF m] 3(1)] by blast
    have least: "StartTime u \<le> StartTime (own_spec o'')" if "owners m j = Some o''" "own_phase o'' = queued" for j o''
      using u(3) that queue_owner [OF m] by blast
    obtain o' where o: "owners m (DebugletID u) = Some o'" "own_phase o' = queued" "own_spec o' = u" using queue_owner [OF m] u(2) by blast
    show ?thesis
    proof (cases "Some now < StartTime u")
      case True
      then have "r = LoopWaits (StartTime u) \<and> m' = m" using r 3 u(1) by (auto simp: loop_round_def split: option.splits)
      moreover have "Some now < StartTime (own_spec o'')" if "owners m j = Some o''" "own_phase o'' = queued" for j o''
        using True least [OF that] by (rule less_le_trans)
      ultimately show ?thesis using r by auto
    next
      case False
      then have p: "promote_due guard late u m = Some (r, m')" using r 3 u(1) by (auto simp: loop_round_def split: option.splits if_splits)
      show ?thesis using promote_due_Some [OF p] r 3 o least False by (cases "guard \<noteq> None \<or> late \<noteq> None") (auto simp: not_less)
    qed
  qed
qed



text \<open>A refusal changes nothing: an insertion that returns an error, a restoration that does, a cancellation that returns without joining an
  attempt. A canceled context, a closed or a draining core, a second owner and a refusing guard are reported in this order, and a
  bound cancellation never touches a run of another binding.\<close>

theorem MemoryStorage_refusals:
  "(insert_begin ctx guard late spec m = (Some e, m') \<longrightarrow> m' = m \<and> e =
      (if ctx \<noteq> None then Outside (the ctx) else if closed m then ErrClosed else if draining m then ErrDraining
       else if owners m (DebugletID spec) \<noteq> None then AlreadyHasOwner else if guard \<noteq> None then Outside (the guard) else Outside (the late)))
   \<and> (restore_emit ctx spec m = (Some e, m') \<longrightarrow> m' = m)
   \<and> (requestCancel ctx i cause queueOnly expected m = Some (Returns found errs, m') \<longrightarrow> m' = m \<and> (found \<longrightarrow> closed m \<and> phase_of m i = Some completed))
   \<and> (owners m i = Some o' \<and> Binding (own_spec o') \<noteq> b \<longrightarrow> CancelBound None i valid b cause m = Some (Returns False [ErrBindingMismatch], m))"
proof (intro conjI impI)
  show "m' = m" "e = (if ctx \<noteq> None then Outside (the ctx) else if closed m then ErrClosed else if draining m then ErrDraining
       else if owners m (DebugletID spec) \<noteq> None then AlreadyHasOwner else if guard \<noteq> None then Outside (the guard) else Outside (the late))"
    if "insert_begin ctx guard late spec m = (Some e, m')"
    using that by (auto simp: insert_begin_def Let_def split: option.splits if_splits)
  show "m' = m" if "restore_emit ctx spec m = (Some e, m')" using that by (auto simp: restore_emit_def split: option.splits if_splits)
  show "m' = m" "found \<Longrightarrow> closed m" "found \<Longrightarrow> phase_of m i = Some completed"
    if "requestCancel ctx i cause queueOnly expected m = Some (Returns found errs, m')"
    using that by (auto simp: requestCancel_def cancel_phase_def joins_def Let_def phase_of_def split: option.splits if_splits phase.splits prod.splits)
  show "CancelBound None i valid b cause m = Some (Returns False [ErrBindingMismatch], m)" if "owners m i = Some o' \<and> Binding (own_spec o') \<noteq> b"
    using that by (auto simp: CancelBound_def requestCancel_def Let_def)
qed

section \<open>Instances\<close>

text \<open>A fresh core, and one in which the run 5, due at 7, was inserted and the loop started.\<close>

definition fresh_core :: MemoryStorage where
  "fresh_core = the (NewStorage True True)"

definition due_spec :: Spec where
  "due_spec = zero_Spec\<lparr>DebugletID := 5, StartTime := Some 7\<rparr>"

definition queued_core :: MemoryStorage where
  "queued_core = snd (insert_begin None None None due_spec fresh_core)"

lemma fresh_core_reachable: "ms_reachable fresh_core"
  by (rule ms_start [of False False]) (simp add: fresh_core_def NewStorage_def NewPersistentStorage_def)

lemma queued_core_reachable: "ms_reachable queued_core"
  by (rule ms_next [OF fresh_core_reachable, of "DoInsert None None None due_spec"]) (simp_all add: queued_core_def)

lemma fresh_core_state:
  "owners fresh_core = Map.empty" "tasks fresh_core = Map.empty" "busy fresh_core = 0" "\<not> loopRunning fresh_core" "\<not> closed fresh_core" "\<not> draining fresh_core"
  "\<not> has_persist fresh_core"
  by (simp_all add: fresh_core_def NewStorage_def NewPersistentStorage_def)

lemma queued_core_state:
  "owners queued_core = [5 \<mapsto> (newOwner due_spec queued)\<lparr>own_admitted := True\<rparr>]" "\<not> closed queued_core" "\<not> draining queued_core" "busy queued_core = 0"
  by (simp_all add: queued_core_def insert_begin_def fresh_core_state Let_def set_owner_def due_spec_def)

theorem MemoryStorage_consistent_witness:
  "tq_map (ms_tq queued_core) 5 = Some due_spec \<and> ms_act (DoCancel None 5 None False None) queued_core \<noteq> None"
proof -
  have "(\<exists>o'. owners queued_core 5 = Some o' \<and> own_phase o' = queued \<and> own_spec o' = due_spec)" by (simp add: queued_core_state newOwner_def)
  moreover have "ms_enabled (DoCancel None 5 None False None) queued_core" by simp
  ultimately show ?thesis using MemoryStorage_consistent [OF queued_core_reachable] by blast
qed

theorem MemoryStorage_phases_witness: "phase_edge (phase_of fresh_core 5) (phase_of queued_core 5) \<and> phase_of queued_core 5 = Some queued"
  using MemoryStorage_phases [OF fresh_core_reachable, of "DoInsert None None None due_spec" queued_core 5]
  by (simp add: queued_core_def [symmetric] phase_of_def queued_core_state newOwner_def)

theorem StartLoop_round_witness: "\<exists>m'. loop_round None 9 None None queued_core = Some (LoopStarts 5, m') \<and> phase_of m' 5 = Some active"
proof -
  obtain r m' where r: "loop_round None 9 None None queued_core = Some (r, m')" "case r of
      LoopFails e \<Rightarrow> m' = queued_core
    | LoopStarts i \<Rightarrow> phase_of m' i = Some active \<and> (\<exists>o'. owners queued_core i = Some o')
    | LoopWaits t \<Rightarrow> (\<forall>j o''. owners queued_core j = Some o'' \<and> own_phase o'' = queued \<longrightarrow> Some 9 < StartTime (own_spec o''))"
    using StartLoop_round [OF queued_core_reachable, of None 9 None None] by (fastforce split: loop_result.splits)
  have "owners queued_core 5 = Some ((newOwner due_spec queued)\<lparr>own_admitted := True\<rparr>)" by (simp add: queued_core_state)
  then have "r \<noteq> LoopWaits t" for t using r(2) by (auto simp: newOwner_def due_spec_def dest!: spec [of _ 5])
  moreover have "r \<noteq> LoopFails e" for e
    using r(1) queued_core_state(2) by (auto simp: loop_round_def promote_due_def Let_def newAttempt_def bind_eq_Some_conv split: if_splits option.splits)
  ultimately obtain i where "r = LoopStarts i" by (cases r) auto
  then show ?thesis using r by (auto simp: queued_core_state split: if_splits)
qed



theorem MemoryStorage_refusals_witness:
  "insert_begin None None None due_spec queued_core = (Some AlreadyHasOwner, queued_core)
   \<and> CancelBound None 5 (\<lambda>_. True) (''new'', ''s'') None queued_core = Some (Returns False [ErrBindingMismatch], queued_core)"
proof -
  have i: "insert_begin None None None due_spec queued_core = (Some AlreadyHasOwner, queued_core)"
    by (simp add: insert_begin_def queued_core_state) (simp add: due_spec_def)
  show ?thesis
    using MemoryStorage_refusals [where i = 5 and m = queued_core and o' = "(newOwner due_spec queued)\<lparr>own_admitted := True\<rparr>" and b = "(''new'', ''s'')"
        and valid = "\<lambda>_. True" and cause = None] i
    by (simp add: queued_core_state newOwner_def due_spec_def zero_Spec_def)
qed

end
