(* ===== verification/Attribution_Db.thy ===== *)
theory Attribution_Db
  imports Tesla "HOL-Library.Product_Lexorder" "HOL-Library.List_Lexorder" "HOL-Library.Char_ord"
begin

text \<open>
  The durable attribution history of the dispatcher: its tables with the constraints of their
  schema, the statements of \<^verbatim>\<open>internal/dispatcher/database/attribution.sql.go\<close> and
  \<^verbatim>\<open>attribution_verify.sql.go\<close>, and \<open>attributionBackend\<close> of \<^verbatim>\<open>internal/dispatcher/attribution.go\<close>, which the
  key store uses. A statement that violates a constraint returns \<open>None\<close> and its transaction is rolled
  back. A row of \<open>attribution_runs\<close> carries the columns of \<open>debuglets\<close> it is joined with. The contract that the key
  store relies on is the locale \<open>key_record\<close>.
\<close>

section \<open>Chains\<close>

record Chain =
  ch_Anchor :: "byte list"
  ch_Start :: instant
  ch_Interval :: int
  ch_DisclosureDelay :: int
  ch_Length :: int
  ch_TagSpec :: int

definition hex_digit :: "nat \<Rightarrow> char" where
  "hex_digit n = ''0123456789abcdef'' ! n"

definition hex_EncodeToString :: "byte list \<Rightarrow> string" where
  "hex_EncodeToString bs = concat (map (\<lambda>b. [hex_digit (unat b div 16), hex_digit (unat b mod 16)]) bs)"

definition ChainID :: "(byte list \<Rightarrow> byte list) \<Rightarrow> byte list \<Rightarrow> string" where
  "ChainID sha anchor = (if length anchor = 0 then [] else hex_EncodeToString (take 16 (sha anchor)))"

section \<open>Tables\<close>

record AttributionChain =
  cr_executor :: string
  cr_chain_id :: string
  cr_anchor :: "byte list"
  cr_t0 :: int
  cr_interval :: int
  cr_delay :: int
  cr_length :: int
  cr_tag_spec :: int
  cr_first_seen :: int
  cr_last_seen :: int

record AttributionKey =
  kr_executor :: string
  kr_chain_id :: string
  kr_epoch :: int
  kr_key :: "byte list"
  kr_disclosed_at :: int

record AttributionRun =
  rr_uuid :: string
  rr_executor :: string
  rr_chain_id :: string
  rr_source_ip :: string
  rr_observed :: bool
  rr_from :: int
  rr_to :: int

record BudgetRow =
  br_executor :: string
  br_chain_id :: string
  br_epoch :: int
  br_used :: int

record attribution_db =
  attribution_chains :: "AttributionChain list"
  attribution_keys :: "AttributionKey list"
  attribution_runs :: "AttributionRun list"
  verify_budget :: "BudgetRow list"
  retained_from :: int

section \<open>Statements\<close>

definition chain_is :: "string \<Rightarrow> string \<Rightarrow> AttributionChain \<Rightarrow> bool" where
  "chain_is ex cid c \<longleftrightarrow> cr_executor c = ex \<and> cr_chain_id c = cid"

definition key_is :: "string \<Rightarrow> string \<Rightarrow> AttributionKey \<Rightarrow> bool" where
  "key_is ex cid k \<longleftrightarrow> kr_executor k = ex \<and> kr_chain_id k = cid"

definition RecordAttributionChain :: "AttributionChain \<Rightarrow> attribution_db \<Rightarrow> attribution_db option" where
  "RecordAttributionChain r db =
    (if \<exists>c \<in> set (attribution_chains db). chain_is (cr_executor r) (cr_chain_id r) c
     then Some (db\<lparr>attribution_chains := map (\<lambda>c. if chain_is (cr_executor r) (cr_chain_id r) c
       then c\<lparr>cr_last_seen := max (cr_last_seen c) (cr_last_seen r)\<rparr> else c) (attribution_chains db)\<rparr>)
     else if cr_anchor r = [] \<or> cr_interval r < 0 \<or> cr_delay r < 0 \<or> cr_length r < 0 then None
     else Some (db\<lparr>attribution_chains := attribution_chains db @ [r]\<rparr>))"

definition GetAttributionChain :: "string \<Rightarrow> string \<Rightarrow> attribution_db \<Rightarrow> AttributionChain option" where
  "GetAttributionChain ex cid db = find (chain_is ex cid) (attribution_chains db)"

definition InsertAttributionKey :: "AttributionKey \<Rightarrow> attribution_db \<Rightarrow> attribution_db option" where
  "InsertAttributionKey r db =
    (if kr_epoch r \<le> 0 \<or> kr_key r = [] then None
     else if \<exists>k \<in> set (attribution_keys db). key_is (kr_executor r) (kr_chain_id r) k \<and> kr_epoch k = kr_epoch r then Some db
     else Some (db\<lparr>attribution_keys := attribution_keys db @ [r]\<rparr>))"

definition GetAttributionKey :: "string \<Rightarrow> string \<Rightarrow> int \<Rightarrow> attribution_db \<Rightarrow> byte list option" where
  "GetAttributionKey ex cid epoch db = map_option kr_key (find (\<lambda>k. key_is ex cid k \<and> kr_epoch k = epoch) (attribution_keys db))"

text \<open>The first row of \<open>ORDER BY epoch\<close>, in either direction.\<close>

definition first_by :: "('r \<Rightarrow> int) \<Rightarrow> 'r list \<Rightarrow> 'r option" where
  "first_by f rs = (case sort_key f rs of [] \<Rightarrow> None | r # _ \<Rightarrow> Some r)"

definition LatestAttributionKey :: "string \<Rightarrow> string \<Rightarrow> attribution_db \<Rightarrow> (int \<times> byte list) option" where
  "LatestAttributionKey ex cid db = map_option (\<lambda>k. (kr_epoch k, kr_key k))
     (first_by (\<lambda>k. - kr_epoch k) (filter (key_is ex cid) (attribution_keys db)))"

definition NextAttributionKey :: "string \<Rightarrow> string \<Rightarrow> int \<Rightarrow> attribution_db \<Rightarrow> (int \<times> byte list) option" where
  "NextAttributionKey ex cid epoch db = map_option (\<lambda>k. (kr_epoch k, kr_key k))
     (first_by kr_epoch (filter (\<lambda>k. key_is ex cid k \<and> kr_epoch k \<ge> epoch) (attribution_keys db)))"

text \<open>A lookup at \<open>t\<close> lists the runs active within one epoch of it.\<close>

definition candidate :: "string \<Rightarrow> int \<Rightarrow> AttributionRun \<Rightarrow> AttributionChain \<Rightarrow> bool" where
  "candidate ip t r c \<longleftrightarrow> chain_is (rr_executor r) (rr_chain_id r) c \<and> rr_source_ip r = ip
     \<and> rr_from r \<le> t + cr_interval c \<and> rr_to r \<ge> t - cr_interval c"

definition ListAttributionCandidates :: "string \<Rightarrow> int \<Rightarrow> nat \<Rightarrow> attribution_db \<Rightarrow> (AttributionRun \<times> AttributionChain) list" where
  "ListAttributionCandidates ip t n db = take n (sort_key (\<lambda>(r, _). (rr_from r, rr_uuid r))
     (filter (\<lambda>(r, c). candidate ip t r c) (List.product (attribution_runs db) (attribution_chains db))))"

definition PruneAttributionRuns :: "int \<Rightarrow> attribution_db \<Rightarrow> attribution_db" where
  "PruneAttributionRuns cutoff db = db\<lparr>attribution_runs := filter (\<lambda>r. \<not> rr_to r +
     (case GetAttributionChain (rr_executor r) (rr_chain_id r) db of None \<Rightarrow> 0 | Some c \<Rightarrow> cr_interval c) < cutoff) (attribution_runs db)\<rparr>"

definition PruneAttributionKeys :: "int \<Rightarrow> attribution_db \<Rightarrow> attribution_db" where
  "PruneAttributionKeys cutoff db = db\<lparr>attribution_keys := filter (\<lambda>k. \<not> (\<exists>c \<in> set (attribution_chains db). chain_is (kr_executor k) (kr_chain_id k) c
     \<and> cr_interval c > 0 \<and> cr_t0 c + (kr_epoch k + 2) * cr_interval c < cutoff)) (attribution_keys db)\<rparr>"

definition PruneAttributionChains :: "int \<Rightarrow> attribution_db \<Rightarrow> attribution_db" where
  "PruneAttributionChains cutoff db = db\<lparr>attribution_chains := filter (\<lambda>c. \<not> (cr_last_seen c < cutoff
     \<and> \<not> (\<exists>k \<in> set (attribution_keys db). key_is (cr_executor c) (cr_chain_id c) k)
     \<and> \<not> (\<exists>r \<in> set (attribution_runs db). rr_executor r = cr_executor c \<and> rr_chain_id r = cr_chain_id c))) (attribution_chains db)\<rparr>"

definition AdvanceAttributionRetention :: "int \<Rightarrow> attribution_db \<Rightarrow> attribution_db" where
  "AdvanceAttributionRetention cutoff db = db\<lparr>retained_from := max (retained_from db) cutoff\<rparr>"

definition PruneAttribution :: "int \<Rightarrow> int \<Rightarrow> attribution_db \<Rightarrow> attribution_db" where
  "PruneAttribution retention now db = (let cutoff = now - retention in
     AdvanceAttributionRetention cutoff (PruneAttributionChains cutoff (PruneAttributionKeys cutoff (PruneAttributionRuns cutoff db))))"

definition GetAttributionVerifyBudget :: "string \<Rightarrow> string \<Rightarrow> int \<Rightarrow> attribution_db \<Rightarrow> int option" where
  "GetAttributionVerifyBudget ex cid epoch db = map_option br_used
     (find (\<lambda>b. br_executor b = ex \<and> br_chain_id b = cid \<and> br_epoch b = epoch) (verify_budget db))"

definition PruneAttributionVerifyBudget :: "int \<Rightarrow> attribution_db \<Rightarrow> attribution_db" where
  "PruneAttributionVerifyBudget now db = db\<lparr>verify_budget := filter (\<lambda>b. \<exists>c \<in> set (attribution_chains db). chain_is (br_executor b) (br_chain_id b) c
     \<and> cr_interval c > 0 \<and> cr_t0 c + (br_epoch b + cr_delay c) * cr_interval c > now) (verify_budget db)\<rparr>"

text \<open>\<open>None\<close> when the statement returns no row, and then nothing is charged.\<close>

definition SpendAttributionVerifyBudget :: "string \<Rightarrow> string \<Rightarrow> int \<Rightarrow> int \<Rightarrow> attribution_db \<Rightarrow> (int \<times> attribution_db) option" where
  "SpendAttributionVerifyBudget ex cid epoch used db = (case GetAttributionVerifyBudget ex cid epoch db of
     None \<Rightarrow> Some (used, db\<lparr>verify_budget := verify_budget db @ [\<lparr>br_executor = ex, br_chain_id = cid, br_epoch = epoch, br_used = used\<rparr>]\<rparr>)
   | Some u \<Rightarrow> if u + used \<le> 16
       then Some (u + used, db\<lparr>verify_budget := map (\<lambda>b. if br_executor b = ex \<and> br_chain_id b = cid \<and> br_epoch b = epoch then b\<lparr>br_used := u + used\<rparr> else b) (verify_budget db)\<rparr>)
       else None)"

section \<open>The backend of the key store\<close>

text \<open>\<open>tag.Backend\<close>; \<open>None\<close> of \<open>Save\<close> is an error of the database.\<close>

record 'db Backend =
  bk_Save :: "string \<Rightarrow> Chain \<Rightarrow> int \<Rightarrow> byte list \<Rightarrow> instant \<Rightarrow> 'db \<Rightarrow> 'db option"
  bk_Latest :: "string \<Rightarrow> byte list \<Rightarrow> 'db \<Rightarrow> (int \<times> byte list) option"
  bk_Get :: "string \<Rightarrow> byte list \<Rightarrow> int \<Rightarrow> 'db \<Rightarrow> byte list option"

definition UnixNano :: "instant \<Rightarrow> int" where
  "UnixNano t = i64 (inst_wall t - 62135596800 * Second)"

definition chainParams :: "(byte list \<Rightarrow> byte list) \<Rightarrow> string \<Rightarrow> Chain \<Rightarrow> instant \<Rightarrow> AttributionChain" where
  "chainParams sha ex c seen = \<lparr>cr_executor = ex, cr_chain_id = ChainID sha (ch_Anchor c), cr_anchor = ch_Anchor c, cr_t0 = UnixNano (ch_Start c),
     cr_interval = ch_Interval c, cr_delay = max (ch_DisclosureDelay c) 0, cr_length = max (ch_Length c) 0, cr_tag_spec = ch_TagSpec c,
     cr_first_seen = UnixNano seen, cr_last_seen = UnixNano seen\<rparr>"

definition backend_Save :: "(byte list \<Rightarrow> byte list) \<Rightarrow> string \<Rightarrow> Chain \<Rightarrow> int \<Rightarrow> byte list \<Rightarrow> instant \<Rightarrow> attribution_db \<Rightarrow> attribution_db option" where
  "backend_Save sha ex c epoch key t db = Option.bind (RecordAttributionChain (chainParams sha ex c t) db)
     (InsertAttributionKey \<lparr>kr_executor = ex, kr_chain_id = ChainID sha (ch_Anchor c), kr_epoch = epoch, kr_key = key, kr_disclosed_at = UnixNano t\<rparr>)"

definition backend_Latest :: "(byte list \<Rightarrow> byte list) \<Rightarrow> string \<Rightarrow> byte list \<Rightarrow> attribution_db \<Rightarrow> (int \<times> byte list) option" where
  "backend_Latest sha ex anchor db = LatestAttributionKey ex (ChainID sha anchor) db"

definition backend_Get :: "(byte list \<Rightarrow> byte list) \<Rightarrow> string \<Rightarrow> byte list \<Rightarrow> int \<Rightarrow> attribution_db \<Rightarrow> byte list option" where
  "backend_Get sha ex anchor epoch db = GetAttributionKey ex (ChainID sha anchor) epoch db"

definition attributionBackend :: "(byte list \<Rightarrow> byte list) \<Rightarrow> attribution_db Backend" where
  "attributionBackend sha = \<lparr>bk_Save = backend_Save sha, bk_Latest = backend_Latest sha, bk_Get = backend_Get sha\<rparr>"

text \<open>A chain other than the session's own is read from the record.\<close>

definition time_Unix :: "int \<Rightarrow> instant" where
  "time_Unix ns = \<lparr>inst_wall = ns + 62135596800 * Second, inst_mono = None\<rparr>"

definition recordedChain :: "(byte list \<Rightarrow> byte list) \<Rightarrow> string \<Rightarrow> byte list \<Rightarrow> attribution_db \<Rightarrow> Chain option" where
  "recordedChain sha ex anchor db = (if length anchor = 0 then None else
     map_option (\<lambda>r. \<lparr>ch_Anchor = cr_anchor r, ch_Start = time_Unix (cr_t0 r), ch_Interval = cr_interval r, ch_DisclosureDelay = cr_delay r,
       ch_Length = cr_length r, ch_TagSpec = cr_tag_spec r\<rparr>) (GetAttributionChain ex (ChainID sha anchor) db))"

section \<open>The contract\<close>

lemma find_append: "find P (xs @ ys) = (case find P xs of None \<Rightarrow> find P ys | Some x \<Rightarrow> Some x)"
  by (induction xs) auto

lemma find_filter_head: "find P xs = (case filter P xs of [] \<Rightarrow> None | x # _ \<Rightarrow> Some x)"
  by (induction xs) auto

lemma first_by_Some:
  assumes "first_by f rs = Some r"
  shows "r \<in> set rs" "s \<in> set rs \<Longrightarrow> f r \<le> f s"
proof -
  obtain rest where r: "sort_key f rs = r # rest" using assms by (auto simp: first_by_def split: list.splits)
  have set: "set (r # rest) = set rs" using r by (metis set_sort)
  then show "r \<in> set rs" by auto
  have "sorted (map f (r # rest))" using r by (metis sorted_sort_key)
  then show "f r \<le> f s" if "s \<in> set rs" using that set by auto
qed

lemma first_by_None: "first_by f rs = None \<longleftrightarrow> rs = []"
  by (auto simp: first_by_def split: list.splits) (metis set_empty set_sort)+

text \<open>
  What a backend promises: a key is stored at most once per executor, chain and epoch, the first one
  is kept, and \<open>Latest\<close> returns the key of the highest epoch on record. Chains are known by \<open>cid\<close> only.
\<close>

locale key_record =
  fixes B :: "'db Backend" and cid :: "byte list \<Rightarrow> string" and db_ok :: "'db \<Rightarrow> bool"
  assumes save: "db_ok db \<Longrightarrow> bk_Save B ex c e k t db = Some db' \<Longrightarrow> db_ok db' \<and> 0 < e
      \<and> bk_Get B ex' a e' db' = (if ex' = ex \<and> cid a = cid (ch_Anchor c) \<and> e' = e \<and> bk_Get B ex' a e' db = None then Some k else bk_Get B ex' a e' db)"
    and latest: "db_ok db \<Longrightarrow> bk_Latest B ex a db = Some (e, k) \<Longrightarrow> bk_Get B ex a e db = Some k \<and> (bk_Get B ex a e' db \<noteq> None \<longrightarrow> e' \<le> e)"
    and latest_None: "db_ok db \<Longrightarrow> bk_Latest B ex a db = None \<Longrightarrow> bk_Get B ex a e db = None"
    and get_pos: "db_ok db \<Longrightarrow> bk_Get B ex a e db = Some k \<Longrightarrow> 0 < e"
begin

lemma save_keeps: "db_ok db \<Longrightarrow> bk_Save B ex c e k t db = Some db' \<Longrightarrow> bk_Get B ex' a e' db = Some k' \<Longrightarrow> bk_Get B ex' a e' db' = Some k'"
  using save [of db ex c e k t db' ex' a e'] by simp

lemma save_has: "db_ok db \<Longrightarrow> bk_Save B ex c e k t db = Some db' \<Longrightarrow> \<exists>k'. bk_Get B ex (ch_Anchor c) e db' = Some k'"
  using save [of db ex c e k t db' ex "ch_Anchor c" e] by (cases "bk_Get B ex (ch_Anchor c) e db") auto

end

definition keys_unique :: "attribution_db \<Rightarrow> bool" where
  "keys_unique db \<longleftrightarrow> distinct (map (\<lambda>k. (kr_executor k, kr_chain_id k, kr_epoch k)) (attribution_keys db)) \<and> (\<forall>k \<in> set (attribution_keys db). 0 < kr_epoch k)"

lemma GetAttributionKey_iff:
  assumes "keys_unique db"
  shows "GetAttributionKey ex cid e db = Some k \<longleftrightarrow> (\<exists>r \<in> set (attribution_keys db). key_is ex cid r \<and> kr_epoch r = e \<and> kr_key r = k)"
proof
  assume "GetAttributionKey ex cid e db = Some k"
  then show "\<exists>r \<in> set (attribution_keys db). key_is ex cid r \<and> kr_epoch r = e \<and> kr_key r = k"
    by (auto simp: GetAttributionKey_def find_Some_iff)
next
  assume "\<exists>r \<in> set (attribution_keys db). key_is ex cid r \<and> kr_epoch r = e \<and> kr_key r = k"
  then obtain r where r: "r \<in> set (attribution_keys db)" "key_is ex cid r" "kr_epoch r = e" "kr_key r = k" by blast
  then obtain s where s: "find (\<lambda>k. key_is ex cid k \<and> kr_epoch k = e) (attribution_keys db) = Some s"
    by (cases "find (\<lambda>k. key_is ex cid k \<and> kr_epoch k = e) (attribution_keys db)") (auto simp: find_None_iff)
  then have s': "s \<in> set (attribution_keys db)" "key_is ex cid s" "kr_epoch s = e" by (auto simp: find_Some_iff)
  have "inj_on (\<lambda>k. (kr_executor k, kr_chain_id k, kr_epoch k)) (set (attribution_keys db))"
    using assms by (simp add: keys_unique_def distinct_map)
  then have "s = r" using r s' by (auto simp: inj_on_def key_is_def)
  then show "GetAttributionKey ex cid e db = Some k" using s r by (simp add: GetAttributionKey_def)
qed

lemma RecordAttributionChain_keys:
  "RecordAttributionChain r db = Some db' \<Longrightarrow> attribution_keys db' = attribution_keys db \<and> attribution_runs db' = attribution_runs db"
  by (auto simp: RecordAttributionChain_def split: if_splits)

lemma InsertAttributionKey_ok:
  assumes u: "keys_unique db" and i: "InsertAttributionKey r db = Some db'"
  shows "keys_unique db'" "0 < kr_epoch r"
    "GetAttributionKey ex cid e db' = (if ex = kr_executor r \<and> cid = kr_chain_id r \<and> e = kr_epoch r \<and> GetAttributionKey ex cid e db = None
       then Some (kr_key r) else GetAttributionKey ex cid e db)"
proof -
  let ?id = "\<lambda>k. (kr_executor k, kr_chain_id k, kr_epoch k)"
  let ?old = "\<exists>k \<in> set (attribution_keys db). key_is (kr_executor r) (kr_chain_id r) k \<and> kr_epoch k = kr_epoch r"
  show "0 < kr_epoch r" using i by (auto simp: InsertAttributionKey_def split: if_splits)
  have db': "db' = (if ?old then db else db\<lparr>attribution_keys := attribution_keys db @ [r]\<rparr>)"
    using i by (auto simp: InsertAttributionKey_def split: if_splits)
  show "keys_unique db'" using u \<open>0 < kr_epoch r\<close> unfolding db' by (auto simp: keys_unique_def key_is_def)
  have old: "?old \<longleftrightarrow> GetAttributionKey (kr_executor r) (kr_chain_id r) (kr_epoch r) db \<noteq> None"
    using GetAttributionKey_iff [OF u] by auto
  show "GetAttributionKey ex cid e db' = (if ex = kr_executor r \<and> cid = kr_chain_id r \<and> e = kr_epoch r \<and> GetAttributionKey ex cid e db = None
       then Some (kr_key r) else GetAttributionKey ex cid e db)"
  proof (cases ?old)
    case True
    then show ?thesis using old by (auto simp: db')
  next
    case False
    then have "GetAttributionKey ex cid e db' = (case GetAttributionKey ex cid e db of Some k \<Rightarrow> Some k
        | None \<Rightarrow> if key_is ex cid r \<and> kr_epoch r = e then Some (kr_key r) else None)"
      by (auto simp: db' GetAttributionKey_def find_append split: option.splits)
    then show ?thesis using False old by (auto simp: key_is_def split: option.splits)
  qed
qed

lemma LatestAttributionKey_ok:
  assumes u: "keys_unique db"
  shows "LatestAttributionKey ex cid db = Some (e, k) \<Longrightarrow> GetAttributionKey ex cid e db = Some k \<and> (GetAttributionKey ex cid e' db \<noteq> None \<longrightarrow> e' \<le> e)"
    and "LatestAttributionKey ex cid db = None \<Longrightarrow> GetAttributionKey ex cid e db = None"
proof -
  assume "LatestAttributionKey ex cid db = Some (e, k)"
  then obtain r where r: "first_by (\<lambda>k. - kr_epoch k) (filter (key_is ex cid) (attribution_keys db)) = Some r" "e = kr_epoch r" "k = kr_key r"
    by (auto simp: LatestAttributionKey_def)
  note f = first_by_Some [OF r(1)]
  show "GetAttributionKey ex cid e db = Some k \<and> (GetAttributionKey ex cid e' db \<noteq> None \<longrightarrow> e' \<le> e)"
  proof (intro conjI impI)
    show "GetAttributionKey ex cid e db = Some k" using f(1) r GetAttributionKey_iff [OF u] by auto
    assume "GetAttributionKey ex cid e' db \<noteq> None"
    then obtain s where "s \<in> set (filter (key_is ex cid) (attribution_keys db))" "kr_epoch s = e'" using GetAttributionKey_iff [OF u] by auto
    then show "e' \<le> e" using f(2) r(2) by fastforce
  qed
next
  assume "LatestAttributionKey ex cid db = None"
  then have "\<forall>k \<in> set (attribution_keys db). \<not> key_is ex cid k" by (simp add: LatestAttributionKey_def first_by_None filter_empty_conv)
  then have "GetAttributionKey ex cid e db \<noteq> Some k" for k using GetAttributionKey_iff [OF u] by auto
  then show "GetAttributionKey ex cid e db = None" by (meson not_Some_eq)
qed

interpretation rec: key_record "attributionBackend sha" "ChainID sha" keys_unique for sha
proof
  fix db db' ex c e k t ex' a e'
  assume u: "keys_unique db"
  show "keys_unique db' \<and> 0 < e \<and> bk_Get (attributionBackend sha) ex' a e' db' =
      (if ex' = ex \<and> ChainID sha a = ChainID sha (ch_Anchor c) \<and> e' = e \<and> bk_Get (attributionBackend sha) ex' a e' db = None then Some k else bk_Get (attributionBackend sha) ex' a e' db)"
    if sv: "bk_Save (attributionBackend sha) ex c e k t db = Some db'"
  proof -
    obtain db1 where d: "RecordAttributionChain (chainParams sha ex c t) db = Some db1"
      "InsertAttributionKey \<lparr>kr_executor = ex, kr_chain_id = ChainID sha (ch_Anchor c), kr_epoch = e, kr_key = k, kr_disclosed_at = UnixNano t\<rparr> db1 = Some db'"
      using sv by (auto simp: attributionBackend_def backend_Save_def bind_eq_Some_conv)
    have k: "attribution_keys db1 = attribution_keys db" using RecordAttributionChain_keys [OF d(1)] by simp
    then have "keys_unique db1" "\<And>x y z. GetAttributionKey x y z db1 = GetAttributionKey x y z db" using u by (simp_all add: keys_unique_def GetAttributionKey_def)
    then show ?thesis using InsertAttributionKey_ok [OF _ d(2)] by (auto simp: attributionBackend_def backend_Get_def)
  qed
  show "bk_Get (attributionBackend sha) ex a e db = Some k \<and> (bk_Get (attributionBackend sha) ex a e' db \<noteq> None \<longrightarrow> e' \<le> e)"
    if "bk_Latest (attributionBackend sha) ex a db = Some (e, k)"
    using that LatestAttributionKey_ok(1) [OF u] by (simp add: attributionBackend_def backend_Get_def backend_Latest_def)
  show "bk_Get (attributionBackend sha) ex a e db = None" if "bk_Latest (attributionBackend sha) ex a db = None"
    using that LatestAttributionKey_ok(2) [OF u] by (simp add: attributionBackend_def backend_Get_def backend_Latest_def)
  show "0 < e" if "bk_Get (attributionBackend sha) ex a e db = Some k"
    using that u GetAttributionKey_iff [OF u] by (auto simp: attributionBackend_def backend_Get_def keys_unique_def)
qed

section \<open>Pruning\<close>

definition chains_unique :: "attribution_db \<Rightarrow> bool" where
  "chains_unique db \<longleftrightarrow> distinct (map (\<lambda>c. (cr_executor c, cr_chain_id c)) (attribution_chains db))"

lemma GetAttributionChain_unique:
  assumes "chains_unique db" "c \<in> set (attribution_chains db)" "chain_is ex cid c"
  shows "GetAttributionChain ex cid db = Some c"
proof -
  obtain s where s: "find (chain_is ex cid) (attribution_chains db) = Some s"
    using assms(2,3) by (cases "find (chain_is ex cid) (attribution_chains db)") (auto simp: find_None_iff)
  then have "s \<in> set (attribution_chains db)" "chain_is ex cid s" by (auto simp: find_Some_iff)
  moreover have "inj_on (\<lambda>c. (cr_executor c, cr_chain_id c)) (set (attribution_chains db))" using assms(1) by (simp add: chains_unique_def distinct_map)
  ultimately have "s = c" using assms(2,3) by (auto simp: inj_on_def chain_is_def)
  then show ?thesis using s by (simp add: GetAttributionChain_def)
qed

lemma filter_product:
  assumes "\<And>x y. x \<in> set xs \<Longrightarrow> y \<in> set ys \<Longrightarrow> P (x, y) \<Longrightarrow> Q x \<and> R y"
  shows "filter P (List.product (filter Q xs) (filter R ys)) = filter P (List.product xs ys)"
  using assms
proof (induction xs)
  case (Cons x xs)
  have "filter P (map (Pair x) (filter R ys)) = filter P (map (Pair x) ys)" if "Q x"
    using Cons.prems [of x] by (induction ys) auto
  moreover have "filter P (map (Pair x) ys) = []" if "\<not> Q x" using Cons.prems [of x] that by (auto simp: filter_empty_conv)
  ultimately show ?case using Cons by auto
qed simp

lemma filter_kept: "ys = filter Q xs \<Longrightarrow> (\<And>x. x \<in> set xs \<Longrightarrow> P x \<Longrightarrow> x \<in> set ys) \<Longrightarrow> filter P ys = filter P xs"
  by (auto intro: filter_cong)

lemma pruned_parts:
  fixes retention now db
  defines "db' \<equiv> PruneAttribution retention now db" and "cutoff \<equiv> now - retention"
  shows "attribution_runs db' = filter (\<lambda>r. \<not> rr_to r + (case GetAttributionChain (rr_executor r) (rr_chain_id r) db of None \<Rightarrow> 0 | Some c \<Rightarrow> cr_interval c) < cutoff) (attribution_runs db)"
    "attribution_keys db' = filter (\<lambda>k. \<not> (\<exists>c \<in> set (attribution_chains db). chain_is (kr_executor k) (kr_chain_id k) c
       \<and> cr_interval c > 0 \<and> cr_t0 c + (kr_epoch k + 2) * cr_interval c < cutoff)) (attribution_keys db)"
    "attribution_chains db' = filter (\<lambda>c. \<not> (cr_last_seen c < cutoff
     \<and> \<not> (\<exists>k \<in> set (attribution_keys db'). key_is (cr_executor c) (cr_chain_id c) k)
     \<and> \<not> (\<exists>r \<in> set (attribution_runs db'). rr_executor r = cr_executor c \<and> rr_chain_id r = cr_chain_id c))) (attribution_chains db)"
    "retained_from db' = max (retained_from db) cutoff"
  unfolding db'_def cutoff_def
  by (simp_all add: PruneAttribution_def AdvanceAttributionRetention_def PruneAttributionChains_def PruneAttributionKeys_def PruneAttributionRuns_def Let_def)


definition sample_chain :: AttributionChain where
  "sample_chain = \<lparr>cr_executor = ''x'', cr_chain_id = ''c'', cr_anchor = [1], cr_t0 = 0, cr_interval = 10, cr_delay = 2, cr_length = 9, cr_tag_spec = 1,
     cr_first_seen = 0, cr_last_seen = 5\<rparr>"

definition sample_run :: AttributionRun where
  "sample_run = \<lparr>rr_uuid = ''u'', rr_executor = ''x'', rr_chain_id = ''c'', rr_source_ip = ''a'', rr_observed = True, rr_from = 40, rr_to = 70\<rparr>"

definition sample_db :: attribution_db where
  "sample_db = \<lparr>attribution_chains = [sample_chain], attribution_keys = [\<lparr>kr_executor = ''x'', kr_chain_id = ''c'', kr_epoch = 5, kr_key = [2], kr_disclosed_at = 71\<rparr>],
     attribution_runs = [sample_run], verify_budget = [], retained_from = 0\<rparr>"


end
