(* ===== verification/Key_Store.thy ===== *)
theory Key_Store
  imports Attribution_Db
begin

text \<open>
  The dispatcher's store of disclosed keys, \<^verbatim>\<open>internal/dispatcher/tag/keystore.go\<close>, and the handler that
  feeds it, \<open>storeDisclosure\<close> of \<^verbatim>\<open>internal/dispatcher/rpc_handlers.go\<close>. A call of \<open>Store\<close> takes the
  mutex several times and hashes and uses its backend in between, so it is a program counter and
  one step per critical section; \<open>ks_step\<close> interleaves any number of calls. Cached chains are shared cells: a call
  keeps its pointer even after the chain was evicted. SHA-256 is an argument, and so is the failure of
  each access to the backend.
\<close>

section \<open>Chains and schedules\<close>

definition maxChainsPerExecutor :: nat where
  "maxChainsPerExecutor = 4"

definition TagSpecLegacy :: int where "TagSpecLegacy = 0"
definition TagSpecV1 :: int where "TagSpecV1 = 1"

text \<open>From the identifier in the tagging that the executor reported, if it reported any.\<close>

definition TagSpecOf :: "string option \<Rightarrow> int" where
  "TagSpecOf tagging = (if tagging = Some ''debuglet-tag-v1'' then TagSpecV1 else TagSpecLegacy)"

definition maxVerifyWalk :: int where
  "maxVerifyWalk = 7 * 24 * 60 * 60"

definition clockSkew :: int where
  "clockSkew = 5 * Second"

definition disclosureDelay :: "Chain \<Rightarrow> int" where
  "disclosureDelay c = (if ch_DisclosureDelay c \<le> 0 then 1 else ch_DisclosureDelay c)"

definition maxEpoch :: "Chain \<Rightarrow> instant \<Rightarrow> int option" where
  "maxEpoch c now = (if ch_Interval c \<le> 0 then None
     else let elapsed = time_Sub (time_Add now clockSkew) (ch_Start c) in
       if elapsed < 0 then Some (-1) else Some (i64 (go_div elapsed (ch_Interval c) - disclosureDelay c)))"

definition DisclosableAt :: "Chain \<Rightarrow> int \<Rightarrow> instant option" where
  "DisclosableAt c epoch = (if ch_Interval c \<le> 0 then None
     else Some (time_Add (ch_Start c) (i64 (i64 (epoch + disclosureDelay c) * ch_Interval c))))"

definition DueEpoch :: "Chain \<Rightarrow> instant \<Rightarrow> int option" where
  "DueEpoch c now = (if ch_Interval c \<le> 0 then None
     else let elapsed = time_Sub now (ch_Start c) in
       if elapsed < 0 then Some (-1)
       else let due = i64 (go_div elapsed (ch_Interval c) - disclosureDelay c) in
         Some (if ch_Length c > 0 then min due (ch_Length c - 1) else due))"

section \<open>The store\<close>

datatype reject_reason = Conflict | NoAnchor | NegativeEpoch | TooEarly int | TooFar int | DoesNotHash

record RejectedError =
  rej_Epoch :: int
  rej_Reason :: reject_reason
  rej_First :: bool
  rej_Early :: bool

record chainKeys =
  ck_anchor :: "byte list"
  ck_keys :: "int \<rightharpoonup> byte list"
  ck_latest :: int
  ck_rejected :: bool
  ck_rejectedEarly :: bool

record KeyStore =
  ks_chains :: "string \<Rightarrow> nat list"
  ks_cells :: "nat \<Rightarrow> chainKeys"
  ks_next :: nat

definition NewKeyStore :: KeyStore where
  "NewKeyStore = \<lparr>ks_chains = (\<lambda>_. []), ks_cells = (\<lambda>_. \<lparr>ck_anchor = [], ck_keys = Map.empty, ck_latest = 0, ck_rejected = False, ck_rejectedEarly = False\<rparr>),
     ks_next = 0\<rparr>"

definition KeyStore_chain :: "string \<Rightarrow> byte list \<Rightarrow> KeyStore \<Rightarrow> nat option" where
  "KeyStore_chain ex anchor ks = find (\<lambda>p. ck_anchor (ks_cells ks p) = anchor) (ks_chains ks ex)"

definition set_cell :: "nat \<Rightarrow> chainKeys \<Rightarrow> KeyStore \<Rightarrow> KeyStore" where
  "set_cell p c ks = ks\<lparr>ks_cells := (ks_cells ks)(p := c)\<rparr>"

datatype store_result = Accepted | Rejected RejectedError | BackendFailed

definition reject :: "nat \<Rightarrow> int \<Rightarrow> reject_reason \<Rightarrow> bool \<Rightarrow> KeyStore \<Rightarrow> store_result \<times> KeyStore" where
  "reject p epoch reason early ks = (let c = ks_cells ks p;
     first = \<not> (if early then ck_rejectedEarly c else ck_rejected c);
     c = (if early then c\<lparr>ck_rejectedEarly := True\<rparr> else c\<lparr>ck_rejected := True\<rparr>) in
     (Rejected \<lparr>rej_Epoch = epoch, rej_Reason = reason, rej_First = first, rej_Early = early\<rparr>, set_cell p c ks))"

text \<open>The second section of \<open>cached\<close>: the entry read from the record is installed unless another call did.\<close>

definition cached_install :: "string \<Rightarrow> byte list \<Rightarrow> (int \<times> byte list) option \<Rightarrow> KeyStore \<Rightarrow> nat \<times> KeyStore" where
  "cached_install ex anchor loaded ks = (case KeyStore_chain ex anchor ks of Some p \<Rightarrow> (p, ks)
   | None \<Rightarrow> let p = ks_next ks;
       c = (case loaded of None \<Rightarrow> \<lparr>ck_anchor = anchor, ck_keys = Map.empty, ck_latest = 0, ck_rejected = False, ck_rejectedEarly = False\<rparr>
         | Some (e, k) \<Rightarrow> \<lparr>ck_anchor = anchor, ck_keys = [e \<mapsto> k], ck_latest = e, ck_rejected = False, ck_rejectedEarly = False\<rparr>);
       chains = ks_chains ks ex @ [p];
       chains = drop (length chains - maxChainsPerExecutor) chains
     in (p, (set_cell p c ks)\<lparr>ks_chains := (ks_chains ks)(ex := chains), ks_next := p + 1\<rparr>))"

text \<open>Why a disclosure is refused, from the base key that was read under the lock; \<open>None\<close> if it verifies.\<close>

definition verify_reason :: "(byte list \<Rightarrow> byte list) \<Rightarrow> Chain \<Rightarrow> instant \<Rightarrow> int \<Rightarrow> byte list \<Rightarrow> int \<Rightarrow> byte list \<Rightarrow> reject_reason option" where
  "verify_reason sha chain now epoch key base baseKey =
    (let scheduled = maxEpoch chain now in
     if length (ch_Anchor chain) = 0 then Some NoAnchor
     else if epoch < 0 then Some NegativeEpoch
     else if scheduled \<noteq> None \<and> epoch > the scheduled then Some (TooEarly (the scheduled))
     else if i64 (epoch - base) > maxVerifyWalk then Some (TooFar (i64 (epoch - base)))
     else if DeriveFromDisclosed sha key epoch base \<noteq> Some baseKey then Some DoesNotHash
     else None)"

definition is_early :: "reject_reason \<Rightarrow> bool" where
  "is_early r = (case r of TooEarly _ \<Rightarrow> True | _ \<Rightarrow> False)"

definition cache_key :: "nat \<Rightarrow> int \<Rightarrow> byte list \<Rightarrow> KeyStore \<Rightarrow> KeyStore" where
  "cache_key p epoch key ks = (let c = ks_cells ks p in
     set_cell p (c\<lparr>ck_keys := (ck_keys c)(epoch \<mapsto> key), ck_latest := (if epoch > ck_latest c then epoch else ck_latest c)\<rparr>) ks)"

subsection \<open>One call\<close>

text \<open>
  Where a call of \<open>Store\<close> stands: at its start; with the chain to be read from the record, or read;
  with its cell; comparing with the record; with a conflict to report; with the base key it hashes
  against; with a verified key to save, or saved.
\<close>

datatype store_pc = Entering | Loading | Installing "(int \<times> byte list) option" | Checking nat | Comparing nat | Conflicting nat
  | Hashing nat int "byte list" | Saving nat | Caching nat | Finished store_result

record store_call =
  sc_executor :: string
  sc_chain :: Chain
  sc_now :: instant
  sc_epoch :: int
  sc_key :: "byte list"
  sc_pc :: store_pc

definition finish :: "store_call \<Rightarrow> store_result \<times> KeyStore \<Rightarrow> 'db \<Rightarrow> store_call \<times> KeyStore \<times> 'db" where
  "finish c r db = (c\<lparr>sc_pc := Finished (fst r)\<rparr>, snd r, db)"

definition store_check :: "bool \<Rightarrow> nat \<Rightarrow> store_call \<Rightarrow> KeyStore \<Rightarrow> 'db \<Rightarrow> store_call \<times> KeyStore \<times> 'db" where
  "store_check backend p c ks db = (let k = ks_cells ks p; epoch = sc_epoch c in
     case ck_keys k epoch of
       Some stored \<Rightarrow> if stored \<noteq> sc_key c then finish c (reject p epoch Conflict False ks) db else finish c (Accepted, ks) db
     | None \<Rightarrow> if epoch < ck_latest k then
           (if \<not> backend \<or> epoch \<le> 0 then finish c (Accepted, ks) db else (c\<lparr>sc_pc := Comparing p\<rparr>, ks, db))
         else let base = ck_latest k;
             baseKey = (if base = 0 then ch_Anchor (sc_chain c) else case ck_keys k base of None \<Rightarrow> [] | Some b \<Rightarrow> b) in
           (c\<lparr>sc_pc := Hashing p base baseKey\<rparr>, ks, db))"

definition store_commit :: "(byte list \<Rightarrow> byte list) \<Rightarrow> bool \<Rightarrow> nat \<Rightarrow> int \<Rightarrow> byte list \<Rightarrow> store_call \<Rightarrow> KeyStore \<Rightarrow> 'db \<Rightarrow> store_call \<times> KeyStore \<times> 'db" where
  "store_commit sha backend p base baseKey c ks db = (let epoch = sc_epoch c; k = ks_cells ks p in
     case verify_reason sha (sc_chain c) (sc_now c) epoch (sc_key c) base baseKey of
       Some reason \<Rightarrow> finish c (reject p epoch reason (is_early reason) ks) db
     | None \<Rightarrow> (case ck_keys k epoch of
         Some stored \<Rightarrow> if stored \<noteq> sc_key c then finish c (reject p epoch Conflict False ks) db else finish c (Accepted, ks) db
       | None \<Rightarrow> if epoch < ck_latest k then finish c (Accepted, ks) db
           else if backend then (c\<lparr>sc_pc := Saving p\<rparr>, ks, db)
           else finish c (Accepted, cache_key p epoch (sc_key c) ks) db))"

text \<open>\<open>fails\<close>: the access to the backend that this step makes returns an error.\<close>

definition Store_step :: "(byte list \<Rightarrow> byte list) \<Rightarrow> 'db Backend option \<Rightarrow> bool \<Rightarrow> store_call \<Rightarrow> KeyStore \<Rightarrow> 'db \<Rightarrow> store_call \<times> KeyStore \<times> 'db" where
  "Store_step sha B fails c ks db = (let ex = sc_executor c; anchor = ch_Anchor (sc_chain c) in
     case sc_pc c of
       Entering \<Rightarrow> if length (sc_key c) = 0 then finish c (Accepted, ks) db
         else (case KeyStore_chain ex anchor ks of Some p \<Rightarrow> (c\<lparr>sc_pc := Checking p\<rparr>, ks, db) | None \<Rightarrow> (c\<lparr>sc_pc := Loading\<rparr>, ks, db))
     | Loading \<Rightarrow> (case B of
           Some b \<Rightarrow> if length anchor > 0
             then (if fails then finish c (BackendFailed, ks) db
               else (c\<lparr>sc_pc := Installing (case bk_Latest b ex anchor db of Some (e, k) \<Rightarrow> if e > 0 then Some (e, k) else None | None \<Rightarrow> None)\<rparr>, ks, db))
             else (c\<lparr>sc_pc := Installing None\<rparr>, ks, db)
         | None \<Rightarrow> (c\<lparr>sc_pc := Installing None\<rparr>, ks, db))
     | Installing l \<Rightarrow> (case cached_install ex anchor l ks of (p, ks) \<Rightarrow> (c\<lparr>sc_pc := Checking p\<rparr>, ks, db))
     | Checking p \<Rightarrow> store_check (B \<noteq> None) p c ks db
     | Comparing p \<Rightarrow> (case B of None \<Rightarrow> finish c (Accepted, ks) db
         | Some b \<Rightarrow> if fails then finish c (BackendFailed, ks) db
           else case bk_Get b ex anchor (sc_epoch c) db of
             None \<Rightarrow> finish c (Accepted, ks) db
           | Some stored \<Rightarrow> if stored = sc_key c then finish c (Accepted, ks) db else (c\<lparr>sc_pc := Conflicting p\<rparr>, ks, db))
     | Conflicting p \<Rightarrow> finish c (reject p (sc_epoch c) Conflict False ks) db
     | Hashing p base baseKey \<Rightarrow> store_commit sha (B \<noteq> None) p base baseKey c ks db
     | Saving p \<Rightarrow> (case B of None \<Rightarrow> finish c (Accepted, ks) db
         | Some b \<Rightarrow> if fails then finish c (BackendFailed, ks) db
           else case bk_Save b ex (sc_chain c) (sc_epoch c) (sc_key c) (sc_now c) db of
             None \<Rightarrow> finish c (BackendFailed, ks) db
           | Some db' \<Rightarrow> (c\<lparr>sc_pc := Caching p\<rparr>, ks, db'))
     | Caching p \<Rightarrow> if sc_epoch c < ck_latest (ks_cells ks p) then finish c (Accepted, ks) db
         else finish c (Accepted, cache_key p (sc_epoch c) (sc_key c) ks) db
     | Finished r \<Rightarrow> (c, ks, db))"

text \<open>A call that no other call interleaves; it has at most eight sections.\<close>

definition store_start :: "string \<Rightarrow> Chain \<Rightarrow> instant \<Rightarrow> int \<Rightarrow> byte list \<Rightarrow> store_call" where
  "store_start ex chain now epoch key = \<lparr>sc_executor = ex, sc_chain = chain, sc_now = now, sc_epoch = epoch, sc_key = key, sc_pc = Entering\<rparr>"

fun store_run :: "nat \<Rightarrow> (byte list \<Rightarrow> byte list) \<Rightarrow> 'db Backend option \<Rightarrow> store_call \<Rightarrow> KeyStore \<Rightarrow> 'db \<Rightarrow> store_call \<times> KeyStore \<times> 'db" where
  "store_run 0 sha B c ks db = (c, ks, db)"
| "store_run (Suc n) sha B c ks db = (case Store_step sha B False c ks db of (c, ks, db) \<Rightarrow> store_run n sha B c ks db)"

definition KeyStore_Store :: "(byte list \<Rightarrow> byte list) \<Rightarrow> 'db Backend option \<Rightarrow> string \<Rightarrow> Chain \<Rightarrow> instant \<Rightarrow> int \<Rightarrow> byte list \<Rightarrow> KeyStore \<Rightarrow> 'db \<Rightarrow> store_result option \<times> KeyStore \<times> 'db" where
  "KeyStore_Store sha B ex chain now epoch key ks db = (case store_run 8 sha B (store_start ex chain now epoch key) ks db of
     (c, ks, db) \<Rightarrow> (case sc_pc c of Finished r \<Rightarrow> Some r | _ \<Rightarrow> None, ks, db))"

subsection \<open>Reading\<close>

definition KeyStore_Get :: "'db Backend option \<Rightarrow> bool \<Rightarrow> string \<Rightarrow> byte list \<Rightarrow> int \<Rightarrow> KeyStore \<Rightarrow> 'db \<Rightarrow> byte list option" where
  "KeyStore_Get B fails ex anchor epoch ks db =
    (case Option.bind (KeyStore_chain ex anchor ks) (\<lambda>p. ck_keys (ks_cells ks p) epoch) of
       Some k \<Rightarrow> Some k
     | None \<Rightarrow> (case B of None \<Rightarrow> None | Some b \<Rightarrow> if fails then None else bk_Get b ex anchor epoch db))"

definition LatestDisclosed :: "'db Backend option \<Rightarrow> bool \<Rightarrow> string \<Rightarrow> byte list \<Rightarrow> KeyStore \<Rightarrow> 'db \<Rightarrow> (int \<times> byte list) option" where
  "LatestDisclosed B fails ex anchor ks db =
    (case KeyStore_chain ex anchor ks of
       Some p \<Rightarrow> let c = ks_cells ks p in (case ck_keys c (ck_latest c) of None \<Rightarrow> None | Some k \<Rightarrow> if ck_latest c = 0 then None else Some (ck_latest c, k))
     | None \<Rightarrow> (case B of None \<Rightarrow> None | Some b \<Rightarrow> if length anchor = 0 \<or> fails then None
         else case bk_Latest b ex anchor db of Some (e, k) \<Rightarrow> if e \<le> 0 then None else Some (e, k) | None \<Rightarrow> None))"

definition CachedLatest :: "string \<Rightarrow> byte list \<Rightarrow> KeyStore \<Rightarrow> int \<times> bool" where
  "CachedLatest ex anchor ks = (case KeyStore_chain ex anchor ks of None \<Rightarrow> (0, False) | Some p \<Rightarrow> (ck_latest (ks_cells ks p), True))"

definition DurableThrough :: "'db Backend option \<Rightarrow> string \<Rightarrow> byte list \<Rightarrow> KeyStore \<Rightarrow> int \<times> bool" where
  "DurableThrough B ex anchor ks = (if B = None then (0, False)
     else case CachedLatest ex anchor ks of (epoch, cached) \<Rightarrow> (epoch, cached \<and> epoch > 0))"

section \<open>The handler\<close>

text \<open>
  \<open>storeDisclosure\<close> on a dispatcher with a database: the receipt is the anchor and the epoch through which
  keys are durable. \<open>chain\<close> is the chain of the session.
\<close>

definition storeDisclosure ::
  "(byte list \<Rightarrow> byte list) \<Rightarrow> string \<Rightarrow> Chain \<Rightarrow> instant \<Rightarrow> byte list \<Rightarrow> int \<Rightarrow> byte list \<Rightarrow> KeyStore \<Rightarrow> attribution_db
    \<Rightarrow> (byte list \<times> int) option \<times> KeyStore \<times> attribution_db" where
  "storeDisclosure sha ex chain seen anchor epoch key ks db =
    (case (if length anchor > 0 \<and> length key > 0 \<and> anchor \<noteq> ch_Anchor chain then recordedChain sha ex anchor db else Some chain) of
       None \<Rightarrow> (None, ks, db)
     | Some chain \<Rightarrow> (case KeyStore_Store sha (Some (attributionBackend sha)) ex chain seen epoch key ks db of (r, ks, db) \<Rightarrow>
         if r \<noteq> Some Accepted \<or> epoch \<le> 0 \<or> length key = 0 then (None, ks, db)
         else case DurableThrough (Some (attributionBackend sha)) ex (ch_Anchor chain) ks of (through, ok) \<Rightarrow>
           if \<not> ok then (None, ks, db) else (Some (ch_Anchor chain, min epoch through), ks, db)))"

section \<open>Interleavings\<close>

text \<open>
  Calls begin at any time, for chains whose anchor is in \<open>A\<close>, and any call takes its next step. Epochs are 64-bit integers.
\<close>

type_synonym 'db store_state = "store_call list \<times> KeyStore \<times> 'db"

inductive ks_reachable :: "(byte list \<Rightarrow> byte list) \<Rightarrow> 'db Backend option \<Rightarrow> byte list set \<Rightarrow> 'db \<Rightarrow> 'db store_state \<Rightarrow> bool"
  for sha B A db0 where
  ks_init: "ks_reachable sha B A db0 ([], NewKeyStore, db0)"
| ks_begin: "ks_reachable sha B A db0 (cs, ks, db) \<Longrightarrow> ch_Anchor chain \<in> A \<Longrightarrow> in_i64 epoch
    \<Longrightarrow> ks_reachable sha B A db0 (cs @ [store_start ex chain now epoch key], ks, db)"
| ks_step: "ks_reachable sha B A db0 (cs, ks, db) \<Longrightarrow> i < length cs \<Longrightarrow> Store_step sha B fails (cs ! i) ks db = (c', ks', db')
    \<Longrightarrow> ks_reachable sha B A db0 (cs[i := c'], ks', db')"

section \<open>The invariant\<close>

definition verified :: "(byte list \<Rightarrow> byte list) \<Rightarrow> byte list \<Rightarrow> int \<Rightarrow> byte list \<Rightarrow> bool" where
  "verified sha anchor e k \<longleftrightarrow> 0 \<le> e \<and> in_i64 e \<and> VerifyChain sha anchor k e"

definition cell_ok :: "(byte list \<Rightarrow> byte list) \<Rightarrow> chainKeys \<Rightarrow> bool" where
  "cell_ok sha c \<longleftrightarrow> 0 \<le> ck_latest c \<and> in_i64 (ck_latest c) \<and> (ck_latest c \<noteq> 0 \<longrightarrow> ck_keys c (ck_latest c) \<noteq> None)
     \<and> (\<forall>e k. ck_keys c e = Some k \<longrightarrow> verified sha (ck_anchor c) e k \<and> e \<le> ck_latest c)"

text \<open>What the record holds; nothing without a backend.\<close>

definition on_record :: "'db Backend option \<Rightarrow> string \<Rightarrow> byte list \<Rightarrow> int \<Rightarrow> 'db \<Rightarrow> byte list option" where
  "on_record B ex a e db = (case B of None \<Rightarrow> None | Some b \<Rightarrow> bk_Get b ex a e db)"

text \<open>\<open>own\<close> names the executor for which a cell was made.\<close>

definition points_ok :: "(nat \<Rightarrow> string) \<Rightarrow> store_call \<Rightarrow> KeyStore \<Rightarrow> nat \<Rightarrow> bool" where
  "points_ok own c ks p \<longleftrightarrow> p < ks_next ks \<and> own p = sc_executor c \<and> ck_anchor (ks_cells ks p) = ch_Anchor (sc_chain c)"

fun pc_ok :: "(byte list \<Rightarrow> byte list) \<Rightarrow> 'db Backend option \<Rightarrow> (nat \<Rightarrow> string) \<Rightarrow> KeyStore \<Rightarrow> 'db \<Rightarrow> store_call \<Rightarrow> store_pc \<Rightarrow> bool" where
  "pc_ok sha B own ks db c (Installing (Some (e, k))) \<longleftrightarrow> 0 < e \<and> verified sha (ch_Anchor (sc_chain c)) e k
     \<and> on_record B (sc_executor c) (ch_Anchor (sc_chain c)) e db \<noteq> None"
| "pc_ok sha B own ks db c (Checking p) \<longleftrightarrow> points_ok own c ks p"
| "pc_ok sha B own ks db c (Comparing p) \<longleftrightarrow> points_ok own c ks p"
| "pc_ok sha B own ks db c (Conflicting p) \<longleftrightarrow> points_ok own c ks p"
| "pc_ok sha B own ks db c (Hashing p b k) \<longleftrightarrow> points_ok own c ks p \<and> verified sha (ch_Anchor (sc_chain c)) b k"
| "pc_ok sha B own ks db c (Saving p) \<longleftrightarrow> points_ok own c ks p \<and> verified sha (ch_Anchor (sc_chain c)) (sc_epoch c) (sc_key c)"
| "pc_ok sha B own ks db c (Caching p) \<longleftrightarrow> points_ok own c ks p \<and> verified sha (ch_Anchor (sc_chain c)) (sc_epoch c) (sc_key c)
     \<and> on_record B (sc_executor c) (ch_Anchor (sc_chain c)) (sc_epoch c) db \<noteq> None"
| "pc_ok sha B own ks db c _ \<longleftrightarrow> True"

definition call_ok :: "(byte list \<Rightarrow> byte list) \<Rightarrow> 'db Backend option \<Rightarrow> byte list set \<Rightarrow> (nat \<Rightarrow> string) \<Rightarrow> KeyStore \<Rightarrow> 'db \<Rightarrow> store_call \<Rightarrow> bool" where
  "call_ok sha B A own ks db c \<longleftrightarrow> ch_Anchor (sc_chain c) \<in> A \<and> in_i64 (sc_epoch c) \<and> pc_ok sha B own ks db c (sc_pc c)"

lemma points_ok_pc [simp]: "points_ok own (c\<lparr>sc_pc := x\<rparr>) ks p = points_ok own c ks p"
  by (simp add: points_ok_def)

lemma call_ok_pc:
  "call_ok sha B A own ks db c \<Longrightarrow> pc_ok sha B own' ks' db' (c\<lparr>sc_pc := x\<rparr>) x \<Longrightarrow> call_ok sha B A own' ks' db' (c\<lparr>sc_pc := x\<rparr>)"
  by (simp add: call_ok_def)

definition store_ok :: "(byte list \<Rightarrow> byte list) \<Rightarrow> 'db Backend option \<Rightarrow> (nat \<Rightarrow> string) \<Rightarrow> KeyStore \<Rightarrow> 'db \<Rightarrow> bool" where
  "store_ok sha B own ks db \<longleftrightarrow> (\<forall>p. cell_ok sha (ks_cells ks p))
     \<and> (\<forall>ex. length (ks_chains ks ex) \<le> maxChainsPerExecutor \<and> (\<forall>p \<in> set (ks_chains ks ex). p < ks_next ks \<and> own p = ex))
     \<and> (B \<noteq> None \<longrightarrow> (\<forall>p e. p < ks_next ks \<and> 0 < e \<and> ck_keys (ks_cells ks p) e \<noteq> None \<longrightarrow> on_record B (own p) (ck_anchor (ks_cells ks p)) e db \<noteq> None))"

definition record_ok :: "(byte list \<Rightarrow> byte list) \<Rightarrow> 'db Backend option \<Rightarrow> byte list set \<Rightarrow> 'db \<Rightarrow> bool" where
  "record_ok sha B A db \<longleftrightarrow> (\<forall>ex e k. \<forall>a \<in> A. on_record B ex a e db = Some k \<longrightarrow> verified sha a e k)"

definition ks_inv :: "(byte list \<Rightarrow> byte list) \<Rightarrow> 'db Backend option \<Rightarrow> byte list set \<Rightarrow> (nat \<Rightarrow> string) \<Rightarrow> store_call set \<Rightarrow> KeyStore \<Rightarrow> 'db \<Rightarrow> bool" where
  "ks_inv sha B A own C ks db \<longleftrightarrow> store_ok sha B own ks db \<and> record_ok sha B A db \<and> (\<forall>c \<in> C. call_ok sha B A own ks db c)"

text \<open>Other calls only see cells appear and the record grow.\<close>

definition extends :: "'db Backend option \<Rightarrow> (nat \<Rightarrow> string) \<Rightarrow> KeyStore \<Rightarrow> 'db \<Rightarrow> (nat \<Rightarrow> string) \<Rightarrow> KeyStore \<Rightarrow> 'db \<Rightarrow> bool" where
  "extends B own ks db own' ks' db' \<longleftrightarrow> ks_next ks \<le> ks_next ks'
     \<and> (\<forall>p < ks_next ks. own' p = own p \<and> ck_anchor (ks_cells ks' p) = ck_anchor (ks_cells ks p))
     \<and> (\<forall>ex a e. on_record B ex a e db \<noteq> None \<longrightarrow> on_record B ex a e db' \<noteq> None)"

lemma KeyStore_chain_Some:
  "KeyStore_chain ex anchor ks = Some p \<Longrightarrow> p \<in> set (ks_chains ks ex) \<and> ck_anchor (ks_cells ks p) = anchor"
  by (auto simp: KeyStore_chain_def find_Some_iff)

lemma extends_refl [simp]: "extends B own ks db own ks db"
  by (simp add: extends_def)

lemma call_ok_extends: "call_ok sha B A own ks db c \<Longrightarrow> extends B own ks db own' ks' db' \<Longrightarrow> call_ok sha B A own' ks' db' c"
  by (cases "(sha, B, own, ks, db, c, sc_pc c)" rule: pc_ok.cases) (auto simp: call_ok_def extends_def points_ok_def)

lemma points_ok_extends: "points_ok own c ks p \<Longrightarrow> extends B own ks db own' ks' db' \<Longrightarrow> points_ok own' c ks' p"
  by (auto simp: points_ok_def extends_def)

text \<open>Writing a cell: its anchor stays and its keys are verified and, with a backend, on record.\<close>

lemma set_cell_ok:
  assumes s: "store_ok sha B own ks db" and c: "cell_ok sha c" "ck_anchor c = ck_anchor (ks_cells ks p)"
    and d: "\<And>e. B \<noteq> None \<Longrightarrow> p < ks_next ks \<Longrightarrow> 0 < e \<Longrightarrow> ck_keys c e \<noteq> None \<Longrightarrow> on_record B (own p) (ck_anchor c) e db \<noteq> None"
  shows "store_ok sha B own (set_cell p c ks) db" "extends B own ks db own (set_cell p c ks) db"
  using s c d by (auto simp: store_ok_def set_cell_def extends_def)

lemma reject_ok:
  assumes "store_ok sha B own ks db"
  shows "store_ok sha B own (snd (reject p epoch reason early ks)) db" "extends B own ks db own (snd (reject p epoch reason early ks)) db"
proof -
  let ?c = "ks_cells ks p"
  have c: "cell_ok sha ?c" "\<And>e. B \<noteq> None \<Longrightarrow> p < ks_next ks \<Longrightarrow> 0 < e \<Longrightarrow> ck_keys ?c e \<noteq> None \<Longrightarrow> on_record B (own p) (ck_anchor ?c) e db \<noteq> None"
    using assms by (auto simp: store_ok_def)
  define n where "n = (if early then ?c\<lparr>ck_rejectedEarly := True\<rparr> else ?c\<lparr>ck_rejected := True\<rparr>)"
  have n: "cell_ok sha n" "ck_anchor n = ck_anchor ?c" "ck_keys n = ck_keys ?c" using c(1) by (auto simp: n_def cell_ok_def)
  have e: "snd (reject p epoch reason early ks) = set_cell p n ks" by (simp add: reject_def Let_def n_def)
  show "store_ok sha B own (snd (reject p epoch reason early ks)) db" "extends B own ks db own (snd (reject p epoch reason early ks)) db"
    unfolding e by (rule set_cell_ok [OF assms n(1,2)]; use c(2) n(2,3) in simp)+
qed

lemma cache_key_ok:
  assumes s: "store_ok sha B own ks db" and c: "points_ok own c ks p" and v: "verified sha (ch_Anchor (sc_chain c)) (sc_epoch c) (sc_key c)"
    and d: "B \<noteq> None \<Longrightarrow> on_record B (sc_executor c) (ch_Anchor (sc_chain c)) (sc_epoch c) db \<noteq> None"
  shows "store_ok sha B own (cache_key p (sc_epoch c) (sc_key c) ks) db" "extends B own ks db own (cache_key p (sc_epoch c) (sc_key c) ks) db"
proof -
  let ?c = "ks_cells ks p"
  have k: "cell_ok sha ?c" "\<And>e. B \<noteq> None \<Longrightarrow> p < ks_next ks \<Longrightarrow> 0 < e \<Longrightarrow> ck_keys ?c e \<noteq> None \<Longrightarrow> on_record B (own p) (ck_anchor ?c) e db \<noteq> None"
    using s by (auto simp: store_ok_def)
  let ?n = "?c\<lparr>ck_keys := (ck_keys ?c)(sc_epoch c \<mapsto> sc_key c), ck_latest := (if sc_epoch c > ck_latest ?c then sc_epoch c else ck_latest ?c)\<rparr>"
  have e: "cache_key p (sc_epoch c) (sc_key c) ks = set_cell p ?n ks" by (simp add: cache_key_def Let_def)
  have le: "e \<le> sc_epoch c" if "ck_keys ?c e = Some x" "ck_latest ?c < sc_epoch c" for e x using k(1) that by (force simp: cell_ok_def)
  have n: "cell_ok sha ?n" using k(1) c v le by (auto simp: cell_ok_def points_ok_def verified_def)
  show "store_ok sha B own (cache_key p (sc_epoch c) (sc_key c) ks) db" "extends B own ks db own (cache_key p (sc_epoch c) (sc_key c) ks) db"
    unfolding e by (rule set_cell_ok [OF s n]; use k(2) c d in \<open>auto simp: points_ok_def split: if_splits\<close>)+
qed

lemma cached_install_ok:
  assumes s: "store_ok sha B own ks db" and l: "case loaded of None \<Rightarrow> True | Some (e, k) \<Rightarrow> 0 < e \<and> verified sha anchor e k \<and> on_record B ex anchor e db \<noteq> None"
    and i: "cached_install ex anchor loaded ks = (p, ks')"
  obtains own' where "store_ok sha B own' ks' db" "extends B own ks db own' ks' db" "p < ks_next ks'" "own' p = ex" "ck_anchor (ks_cells ks' p) = anchor"
proof (cases "KeyStore_chain ex anchor ks")
  case (Some q)
  then show ?thesis using that [of own] KeyStore_chain_Some [OF Some] i s by (auto simp: cached_install_def store_ok_def)
next
  case None
  define q where "q = ks_next ks"
  define c where "c = (case loaded of None \<Rightarrow> \<lparr>ck_anchor = anchor, ck_keys = Map.empty, ck_latest = 0, ck_rejected = False, ck_rejectedEarly = False\<rparr>
         | Some (e, k) \<Rightarrow> \<lparr>ck_anchor = anchor, ck_keys = [e \<mapsto> k], ck_latest = e, ck_rejected = False, ck_rejectedEarly = False\<rparr>)"
  define chains where "chains = ks_chains ks ex @ [q]"
  have r: "p = q" "ks' = (set_cell q c ks)\<lparr>ks_chains := (ks_chains ks)(ex := drop (length chains - maxChainsPerExecutor) chains), ks_next := q + 1\<rparr>"
    using i None by (auto simp: cached_install_def Let_def q_def c_def chains_def)
  have c: "cell_ok sha c" "ck_anchor c = anchor" "0 < e \<Longrightarrow> ck_keys c e \<noteq> None \<Longrightarrow> on_record B ex anchor e db \<noteq> None" for e
    using l by (auto simp: c_def cell_ok_def verified_def in_i64_def i64_min_def i64_max_def split: option.splits if_splits)
  have set: "x \<in> set (ks_chains ks ex) \<or> x = q" if "x \<in> set (drop (length chains - maxChainsPerExecutor) chains)" for x
    using in_set_dropD [OF that] by (auto simp: chains_def)
  have len: "length (drop (length chains - maxChainsPerExecutor) chains) \<le> maxChainsPerExecutor" by simp
  let ?own = "own(q := ex)"
  have old: "\<And>x y. x \<in> set (ks_chains ks y) \<Longrightarrow> x < q \<and> own x = y" using s by (simp add: store_ok_def q_def)
  have "store_ok sha B ?own ks' db" unfolding store_ok_def
  proof (intro conjI allI impI ballI)
    show "cell_ok sha (ks_cells ks' x)" for x using s c(1) by (simp add: r set_cell_def store_ok_def)
    show "length (ks_chains ks' y) \<le> maxChainsPerExecutor" for y using s len by (simp add: r set_cell_def store_ok_def)
    show "x < ks_next ks'" "?own x = y" if "x \<in> set (ks_chains ks' y)" for x y
      using that old set by (fastforce simp: r set_cell_def split: if_splits)+
    show "on_record B (?own x) (ck_anchor (ks_cells ks' x)) e db \<noteq> None" if "B \<noteq> None" "x < ks_next ks' \<and> 0 < e \<and> ck_keys (ks_cells ks' x) e \<noteq> None" for x e
      using that s c(2,3) by (cases "x = q") (auto simp: r set_cell_def store_ok_def q_def)
  qed
  moreover have "extends B own ks db ?own ks' db" by (simp add: extends_def r set_cell_def q_def)
  ultimately show ?thesis using that [of ?own] c(2) r by (simp add: set_cell_def)
qed

text \<open>The base key read under the lock, and a disclosure that hashes to it.\<close>

lemma verify_reason_None:
  assumes b: "verified sha (ch_Anchor chain) base baseKey" and r: "verify_reason sha chain now epoch key base baseKey = None" and e: "in_i64 epoch" "base \<le> epoch"
  shows "verified sha (ch_Anchor chain) epoch key" "maxEpoch chain now = Some m \<Longrightarrow> epoch \<le> m"
proof -
  have i: "i64 (epoch - base) = epoch - base" using b e by (intro i64_id) (auto simp: verified_def in_i64_def i64_min_def i64_max_def)
  have k: "(sha ^^ nat (epoch - base)) key = baseKey" "0 \<le> epoch"
    using r e i by (auto simp: verify_reason_def DeriveFromDisclosed_def Let_def split: if_splits)
  have "nat epoch = nat base + nat (epoch - base)" using b e by (simp add: verified_def nat_add_distrib [symmetric])
  then have "(sha ^^ nat epoch) key = ch_Anchor chain" using k b by (simp add: funpow_add verified_def VerifyChain_def)
  then show "verified sha (ch_Anchor chain) epoch key" using k e by (simp add: verified_def VerifyChain_def)
  show "epoch \<le> m" if "maxEpoch chain now = Some m" using r that by (auto simp: verify_reason_def Let_def split: if_splits)
qed

lemma verified_derive:
  assumes v: "verified sha a m k" and u: "0 \<le> u \<and> u \<le> m"
  shows "\<exists>k'. DeriveFromDisclosed sha k m u = Some k' \<and> VerifyChain sha a k' u"
proof -
  have i: "i64 (m - u) = m - u" using v u by (intro i64_id) (auto simp: verified_def in_i64_def i64_min_def i64_max_def)
  have "nat m = nat u + nat (m - u)" using u by (simp add: nat_add_distrib [symmetric])
  then have "(sha ^^ nat u) ((sha ^^ nat (m - u)) k) = a" using v by (simp add: verified_def VerifyChain_def funpow_add)
  then show ?thesis using u i by (simp add: DeriveFromDisclosed_def VerifyChain_def)
qed

text \<open>A base key is older than a disclosure only if the disclosure did not hash to it.\<close>

lemma verify_reason_base: "verify_reason sha chain now epoch key base baseKey = None \<Longrightarrow> base \<le> epoch"
  by (auto simp: verify_reason_def DeriveFromDisclosed_def Let_def split: if_splits)

lemma store_check_ok:
  assumes s: "store_ok sha B own ks db" and c: "call_ok sha B A own ks db c" "points_ok own c ks p" and r: "store_check backend p c ks db = (c', ks', db')"
  shows "store_ok sha B own ks' db'" "extends B own ks db own ks' db'" "call_ok sha B A own ks' db' c'" "db' = db"
proof -
  have k: "cell_ok sha (ks_cells ks p)" using s by (simp add: store_ok_def)
  show "store_ok sha B own ks' db'" "extends B own ks db own ks' db'" "db' = db"
    using r reject_ok [OF s] s by (auto simp: store_check_def finish_def Let_def split: option.splits if_splits)
  have base: "verified sha (ch_Anchor (sc_chain c)) (ck_latest (ks_cells ks p))
      (if ck_latest (ks_cells ks p) = 0 then ch_Anchor (sc_chain c) else case ck_keys (ks_cells ks p) (ck_latest (ks_cells ks p)) of None \<Rightarrow> [] | Some b \<Rightarrow> b)"
    using k c(2) by (auto simp: cell_ok_def points_ok_def verified_def VerifyChain_def split: option.splits)
  show "call_ok sha B A own ks' db' c'"
    using r c(2) base by (auto simp: store_check_def finish_def Let_def split: option.splits if_splits intro!: call_ok_pc [OF c(1)])
qed

lemma store_commit_ok:
  assumes s: "store_ok sha B own ks db" and c: "call_ok sha B A own ks db c" "points_ok own c ks p" "verified sha (ch_Anchor (sc_chain c)) base baseKey"
    and r: "store_commit sha (B \<noteq> None) p base baseKey c ks db = (c', ks', db')"
  shows "store_ok sha B own ks' db' \<and> extends B own ks db own ks' db' \<and> call_ok sha B A own ks' db' c' \<and> db' = db"
proof (cases "verify_reason sha (sc_chain c) (sc_now c) (sc_epoch c) (sc_key c) base baseKey")
  case (Some reason)
  then show ?thesis using r reject_ok [OF s] by (auto simp: store_commit_def finish_def Let_def intro!: call_ok_pc [OF c(1)])
next
  case None
  have v: "verified sha (ch_Anchor (sc_chain c)) (sc_epoch c) (sc_key c)"
    using verify_reason_None(1) [OF c(3) None] verify_reason_base [OF None] c(1) by (simp add: call_ok_def)
  have st: "ch_Anchor (sc_chain c) \<in> A" "in_i64 (sc_epoch c)" using c(1) by (simp_all add: call_ok_def)
  show ?thesis
    using r None v c(2) s st reject_ok [OF s] cache_key_ok [OF s c(2) v]
    by (auto simp: store_commit_def finish_def Let_def call_ok_def split: option.splits if_splits)
qed

context key_record
begin

lemma save_record_ok:
  assumes inj: "inj_on cid A" and db: "db_ok db" "record_ok sha (Some B) A db" and sv: "bk_Save B ex c e k t db = Some db'"
    and v: "verified sha (ch_Anchor c) e k" and a: "ch_Anchor c \<in> A"
  shows "record_ok sha (Some B) A db'" "\<And>x y z. on_record (Some B) x y z db \<noteq> None \<Longrightarrow> on_record (Some B) x y z db' \<noteq> None"
    "on_record (Some B) ex (ch_Anchor c) e db' \<noteq> None"
proof -
  show "on_record (Some B) x y z db' \<noteq> None" if "on_record (Some B) x y z db \<noteq> None" for x y z
    using save_keeps [OF db(1) sv] that by (auto simp: on_record_def)
  show "on_record (Some B) ex (ch_Anchor c) e db' \<noteq> None" using save_has [OF db(1) sv] by (auto simp: on_record_def)
  show "record_ok sha (Some B) A db'" unfolding record_ok_def
  proof (intro allI ballI impI)
    fix ex' e' k' a' assume a': "a' \<in> A" and g: "on_record (Some B) ex' a' e' db' = Some k'"
    have "bk_Get B ex' a' e' db = Some k' \<or> cid a' = cid (ch_Anchor c) \<and> e' = e \<and> k' = k"
      using save [OF db(1) sv, of ex' a' e'] g by (auto simp: on_record_def split: if_splits)
    then show "verified sha a' e' k'" using db(2) v inj a a' by (auto simp: record_ok_def on_record_def dest: inj_onD)
  qed
qed

lemma Store_step_ok:
  assumes inj: "inj_on cid A" and i: "ks_inv sha (Some B) A own (insert c C) ks db" "db_ok db" and r: "Store_step sha (Some B) fails c ks db = (c', ks', db')"
  shows "\<exists>own'. ks_inv sha (Some B) A own' (insert c' C) ks' db' \<and> db_ok db'"
proof -
  have s: "store_ok sha (Some B) own ks db" and rec: "record_ok sha (Some B) A db" and c: "call_ok sha (Some B) A own ks db c"
    and C: "\<And>d. d \<in> C \<Longrightarrow> call_ok sha (Some B) A own ks db d" using i by (simp_all add: ks_inv_def)
  have keep: "\<exists>own'. ks_inv sha (Some B) A own' (insert c' C) ks' db' \<and> db_ok db'"
    if "store_ok sha (Some B) own' ks' db'" "extends (Some B) own ks db own' ks' db'" "call_ok sha (Some B) A own' ks' db' c'"
      "record_ok sha (Some B) A db'" "db_ok db'" for own'
  proof -
    have "\<forall>d \<in> insert c' C. call_ok sha (Some B) A own' ks' db' d" using that(3) call_ok_extends [OF C that(2)] by blast
    then show ?thesis using that(1,4,5) by (auto simp: ks_inv_def)
  qed
  show ?thesis
  proof (cases "sc_pc c")
    case Entering
    have "p < ks_next ks \<and> own p = sc_executor c \<and> ck_anchor (ks_cells ks p) = ch_Anchor (sc_chain c)"
      if "KeyStore_chain (sc_executor c) (ch_Anchor (sc_chain c)) ks = Some p" for p
      using KeyStore_chain_Some [OF that] s by (auto simp: store_ok_def)
    then show ?thesis using Entering r s c rec i(2)
      by (intro keep [of own]) (auto simp: Store_step_def finish_def Let_def call_ok_def points_ok_def split: if_splits option.splits)
  next
    case Loading
    have "verified sha (ch_Anchor (sc_chain c)) e k \<and> on_record (Some B) (sc_executor c) (ch_Anchor (sc_chain c)) e db \<noteq> None"
      if "bk_Latest B (sc_executor c) (ch_Anchor (sc_chain c)) db = Some (e, k)" for e k
    proof -
      have g: "bk_Get B (sc_executor c) (ch_Anchor (sc_chain c)) e db = Some k" using latest [OF i(2) that] by blast
      have "ch_Anchor (sc_chain c) \<in> A" using c by (simp add: call_ok_def)
      then show ?thesis using g rec by (simp add: record_ok_def on_record_def)
    qed
    then show ?thesis using Loading r s c rec i(2)
      by (intro keep [of own]) (auto simp: Store_step_def finish_def Let_def call_ok_def split: if_splits option.splits)
  next
    case (Installing l)
    obtain p where p: "cached_install (sc_executor c) (ch_Anchor (sc_chain c)) l ks = (p, ks')" "c' = c\<lparr>sc_pc := Checking p\<rparr>" "db' = db"
      using Installing r by (auto simp: Store_step_def Let_def split: prod.splits)
    have l: "case l of None \<Rightarrow> True | Some (e, k) \<Rightarrow> 0 < e \<and> verified sha (ch_Anchor (sc_chain c)) e k \<and> on_record (Some B) (sc_executor c) (ch_Anchor (sc_chain c)) e db \<noteq> None"
      using Installing c by (auto simp: call_ok_def split: option.splits)
    obtain own' where "store_ok sha (Some B) own' ks' db" "extends (Some B) own ks db own' ks' db" "p < ks_next ks'" "own' p = sc_executor c"
      "ck_anchor (ks_cells ks' p) = ch_Anchor (sc_chain c)" using cached_install_ok [OF s l p(1)] .
    then show ?thesis using c p rec i(2) by (intro keep [of own']) (auto simp: call_ok_def points_ok_def)
  next
    case (Checking p)
    then have "points_ok own c ks p" "store_check True p c ks db = (c', ks', db')" using c r by (simp_all add: call_ok_def Store_step_def Let_def)
    note k = store_check_ok [OF s c this]
    then show ?thesis using rec i(2) by (intro keep [of own]) auto
  next
    case (Comparing p)
    then show ?thesis using r s c rec i(2)
      by (intro keep [of own]) (auto simp: Store_step_def finish_def Let_def call_ok_def split: if_splits option.splits)
  next
    case (Conflicting p)
    then show ?thesis using r s c rec i(2) reject_ok [OF s, of p "sc_epoch c" Conflict False]
      by (intro keep [of own]) (auto simp: Store_step_def finish_def Let_def call_ok_def)
  next
    case (Hashing p base baseKey)
    then have "points_ok own c ks p" "verified sha (ch_Anchor (sc_chain c)) base baseKey" "store_commit sha (Some B \<noteq> None) p base baseKey c ks db = (c', ks', db')"
      using c r by (simp_all add: call_ok_def Store_step_def Let_def)
    note k = store_commit_ok [OF s c this]
    then show ?thesis using rec i(2) by (intro keep [of own]) auto
  next
    case (Saving p)
    show ?thesis
    proof (cases "fails \<or> bk_Save B (sc_executor c) (sc_chain c) (sc_epoch c) (sc_key c) (sc_now c) db = None")
      case True
      then show ?thesis using Saving r s c rec i(2)
        by (intro keep [of own]) (auto simp: Store_step_def finish_def Let_def call_ok_def split: if_splits option.splits)
    next
      case False
      then have sv: "bk_Save B (sc_executor c) (sc_chain c) (sc_epoch c) (sc_key c) (sc_now c) db = Some db'" and k: "ks' = ks" "c' = c\<lparr>sc_pc := Caching p\<rparr>"
        using Saving r by (auto simp: Store_step_def Let_def)
      have v: "verified sha (ch_Anchor (sc_chain c)) (sc_epoch c) (sc_key c)" "ch_Anchor (sc_chain c) \<in> A" "points_ok own c ks p" using Saving c by (simp_all add: call_ok_def)
      note sr = save_record_ok [OF inj i(2) rec sv v(1,2)]
      have "store_ok sha (Some B) own ks db'" "extends (Some B) own ks db own ks db'" using s sr(2) by (auto simp: store_ok_def extends_def)
      then show ?thesis using sr v c k save [OF i(2) sv] by (intro keep [of own]) (auto simp: call_ok_def points_ok_def)
    qed
  next
    case (Caching p)
    then have v: "points_ok own c ks p" "verified sha (ch_Anchor (sc_chain c)) (sc_epoch c) (sc_key c)"
      "on_record (Some B) (sc_executor c) (ch_Anchor (sc_chain c)) (sc_epoch c) db \<noteq> None" using c by (simp_all add: call_ok_def)
    note ck = cache_key_ok [OF s v(1,2) v(3)]
    show ?thesis using Caching r s c rec i(2) ck
      by (intro keep [of own]) (auto simp: Store_step_def finish_def Let_def call_ok_def split: if_splits)
  next
    case (Finished x)
    then show ?thesis using r s c rec i(2) by (intro keep [of own]) (auto simp: Store_step_def Let_def)
  qed
qed

lemma store_run_ok:
  assumes inj: "inj_on cid A"
  shows "ks_inv sha (Some B) A own (insert c C) ks db \<Longrightarrow> db_ok db \<Longrightarrow> store_run n sha (Some B) c ks db = (c', ks', db')
    \<Longrightarrow> \<exists>own'. ks_inv sha (Some B) A own' (insert c' C) ks' db' \<and> db_ok db'"
proof (induction n arbitrary: own c ks db)
  case (Suc n)
  obtain c1 ks1 db1 where s: "Store_step sha (Some B) False c ks db = (c1, ks1, db1)" by (cases "Store_step sha (Some B) False c ks db") auto
  obtain own1 where "ks_inv sha (Some B) A own1 (insert c1 C) ks1 db1" "db_ok db1" using Store_step_ok [OF inj Suc.prems(1,2) s] by blast
  then show ?case using Suc.IH Suc.prems(3) s by simp
qed auto

lemma reachable_inv:
  assumes inj: "inj_on cid A" and db0: "db_ok db0" "record_ok sha (Some B) A db0"
  shows "ks_reachable sha (Some B) A db0 (cs, ks, db) \<Longrightarrow> \<exists>own. ks_inv sha (Some B) A own (set cs) ks db \<and> db_ok db"
proof (induction "(cs, ks, db)" arbitrary: cs ks db rule: ks_reachable.induct)
  case ks_init
  have "ks_inv sha (Some B) A (\<lambda>_. []) {} NewKeyStore db0" using db0(2)
    by (auto simp: ks_inv_def store_ok_def NewKeyStore_def cell_ok_def in_i64_def i64_min_def i64_max_def)
  then show ?case using db0(1) by auto
next
  case (ks_begin cs ks db chain epoch ex now key)
  then show ?case by (auto simp: ks_inv_def call_ok_def store_start_def)
next
  case (ks_step cs ks db i fails c' ks' db')
  obtain own where o: "ks_inv sha (Some B) A own (set cs) ks db" "db_ok db" using ks_step.hyps(2) by blast
  have "insert (cs ! i) (set cs) = set cs" using ks_step.hyps(3) by auto
  then have "ks_inv sha (Some B) A own (insert (cs ! i) (set cs)) ks db" using o(1) by simp
  from Store_step_ok [OF inj this o(2) ks_step.hyps(4)]
  obtain own' where o': "ks_inv sha (Some B) A own' (insert c' (set cs)) ks' db'" "db_ok db'" by blast
  then have "ks_inv sha (Some B) A own' (set (cs[i := c'])) ks' db'" using set_update_subset_insert [of cs i c'] by (auto simp: ks_inv_def)
  then show ?case using o'(2) by blast
qed

text \<open>What a client reads from a store that satisfies the invariant.\<close>

lemma Get_verified:
  assumes "ks_inv sha (Some B) A own C ks db" "KeyStore_Get (Some B) fails ex anchor e ks db = Some k" "anchor \<in> A"
  shows "verified sha anchor e k"
proof (cases "Option.bind (KeyStore_chain ex anchor ks) (\<lambda>p. ck_keys (ks_cells ks p) e)")
  case None
  then show ?thesis using assms by (auto simp: KeyStore_Get_def ks_inv_def record_ok_def on_record_def split: if_splits)
next
  case (Some x)
  then obtain p where "KeyStore_chain ex anchor ks = Some p" "ck_keys (ks_cells ks p) e = Some k"
    using assms(2) by (auto simp: KeyStore_Get_def bind_eq_Some_conv)
  then show ?thesis using assms(1) KeyStore_chain_Some [of ex anchor ks p] by (auto simp: ks_inv_def store_ok_def cell_ok_def)
qed

lemma Latest_verified:
  assumes i: "ks_inv sha (Some B) A own C ks db" "db_ok db" and l: "LatestDisclosed (Some B) fails ex anchor ks db = Some (e, k)" and a: "anchor \<in> A"
  shows "0 < e" "verified sha anchor e k"
proof -
  have "0 < e \<and> verified sha anchor e k"
  proof (cases "KeyStore_chain ex anchor ks")
    case None
    then have b: "bk_Latest B ex anchor db = Some (e, k)" "0 < e" using l by (auto simp: LatestDisclosed_def split: if_splits option.splits)
    then have "on_record (Some B) ex anchor e db = Some k" using latest [OF i(2) b(1)] by (auto simp: on_record_def)
    then show ?thesis using i(1) a b(2) by (auto simp: ks_inv_def record_ok_def)
  next
    case (Some p)
    then have "e = ck_latest (ks_cells ks p)" "ck_keys (ks_cells ks p) e = Some k" "e \<noteq> 0"
      using l by (auto simp: LatestDisclosed_def Let_def split: option.splits if_splits)
    moreover have "cell_ok sha (ks_cells ks p)" using i(1) by (simp add: ks_inv_def store_ok_def)
    ultimately show ?thesis using KeyStore_chain_Some [OF Some] by (auto simp: cell_ok_def)
  qed
  then show "0 < e" "verified sha anchor e k" by simp_all
qed

lemma Durable_verified:
  assumes i: "ks_inv sha (Some B) A own C ks db" and d: "DurableThrough (Some B) ex anchor ks = (e, True)" and a: "anchor \<in> A"
  shows "0 < e" "\<exists>k. bk_Get B ex anchor e db = Some k \<and> verified sha anchor e k"
proof -
  obtain p where p: "KeyStore_chain ex anchor ks = Some p" "e = ck_latest (ks_cells ks p)" "0 < e"
    using d by (auto simp: DurableThrough_def CachedLatest_def split: option.splits)
  show "0 < e" using p(3) .
  have s: "store_ok sha (Some B) own ks db" using i by (simp add: ks_inv_def)
  have c: "p < ks_next ks" "own p = ex" "ck_anchor (ks_cells ks p) = anchor" using KeyStore_chain_Some [OF p(1)] s by (auto simp: store_ok_def)
  have "ck_keys (ks_cells ks p) e \<noteq> None" using s p by (auto simp: store_ok_def cell_ok_def)
  then have "on_record (Some B) ex anchor e db \<noteq> None" using s c p(3) by (force simp: store_ok_def)
  then show "\<exists>k. bk_Get B ex anchor e db = Some k \<and> verified sha anchor e k" using i a by (auto simp: on_record_def ks_inv_def record_ok_def)
qed

end

section \<open>Properties\<close>

text \<open>A database in which no key is recorded yet.\<close>

definition fresh_db :: "attribution_db \<Rightarrow> bool" where
  "fresh_db db \<longleftrightarrow> attribution_keys db = []"

lemma fresh_db_ok: "fresh_db db \<Longrightarrow> keys_unique db \<and> record_ok sha (Some (attributionBackend sha)) A db"
  by (simp add: fresh_db_def keys_unique_def record_ok_def on_record_def attributionBackend_def backend_Get_def GetAttributionKey_def)

text \<open>C9: However concurrent disclosures interleave, are evicted from the cache, conflict, or fail to be recorded, every key that the key store
  returns for a chain hashes to that chain's anchor in as many steps as its epoch; the latest key is of a positive epoch; what the store
  calls durable is on record; and no executor has more than four chains in the cache. Chain identifiers do not collide on the
  anchors in use.\<close>

theorem KeyStore_verified:
  assumes ids: "inj_on (ChainID sha) A" and db0: "fresh_db db0" and r: "ks_reachable sha (Some (attributionBackend sha)) A db0 (cs, ks, db)" and a: "anchor \<in> A"
  shows "(KeyStore_Get (Some (attributionBackend sha)) fails ex anchor e ks db = Some k \<longrightarrow> 0 \<le> e \<and> VerifyChain sha anchor k e)
    \<and> (LatestDisclosed (Some (attributionBackend sha)) fails ex anchor ks db = Some (e, k) \<longrightarrow> 0 < e \<and> VerifyChain sha anchor k e)
    \<and> (DurableThrough (Some (attributionBackend sha)) ex anchor ks = (e, True) \<longrightarrow> (\<exists>k. backend_Get sha ex anchor e db = Some k \<and> VerifyChain sha anchor k e))
    \<and> length (ks_chains ks ex) \<le> maxChainsPerExecutor"
proof -
  obtain own where o: "ks_inv sha (Some (attributionBackend sha)) A own (set cs) ks db" "keys_unique db"
    using rec.reachable_inv [OF ids _ _ r] fresh_db_ok [OF db0] by blast
  have "length (ks_chains ks ex) \<le> maxChainsPerExecutor" using o(1) by (simp add: ks_inv_def store_ok_def)
  then show ?thesis
    using rec.Get_verified [OF o(1) _ a, of fails ex e k] rec.Latest_verified [OF o _ a, of fails ex e k] rec.Durable_verified [OF o(1) _ a, of ex e]
    by (auto simp: verified_def attributionBackend_def)
qed

text \<open>C26: A disclosure receipt is a promise that holds: when the dispatcher acknowledges keys of an anchor through an epoch, it names no later epoch than the
  disclosed one, and a verified key of that epoch or a later one is on record, from which every earlier key is derived.\<close>

theorem storeDisclosure_receipt:
  assumes ids: "inj_on (ChainID sha) A" and db0: "fresh_db db0" and r: "ks_reachable sha (Some (attributionBackend sha)) A db0 (cs, ks, db)"
    and A: "ch_Anchor chain \<in> A" "\<forall>c. recordedChain sha ex anchor db = Some c \<longrightarrow> ch_Anchor c \<in> A" and e: "in_i64 epoch"
    and sd: "storeDisclosure sha ex chain seen anchor epoch key ks db = (Some (a, n), ks', db')"
  shows "0 < n \<and> n \<le> epoch \<and> (\<exists>m k. n \<le> m \<and> backend_Get sha ex a m db' = Some k
    \<and> (\<forall>u. 0 \<le> u \<and> u \<le> m \<longrightarrow> (\<exists>k'. DeriveFromDisclosed sha k m u = Some k' \<and> VerifyChain sha a k' u)))"
proof -
  let ?B = "attributionBackend sha"
  obtain own where o: "ks_inv sha (Some ?B) A own (set cs) ks db" "keys_unique db"
    using rec.reachable_inv [OF ids _ _ r] fresh_db_ok [OF db0] by blast
  define ch where "ch = (if length anchor > 0 \<and> length key > 0 \<and> anchor \<noteq> ch_Anchor chain then recordedChain sha ex anchor db else Some chain)"
  obtain c where c: "ch = Some c" "ch_Anchor c \<in> A" using sd A by (auto simp: storeDisclosure_def ch_def split: option.splits if_splits)
  obtain cc through where run: "store_run 8 sha (Some ?B) (store_start ex c seen epoch key) ks db = (cc, ks', db')"
    and th: "a = ch_Anchor c" "0 < epoch" "DurableThrough (Some ?B) ex a ks' = (through, True)" "n = min epoch through"
    using sd c(1) unfolding storeDisclosure_def ch_def [symmetric] KeyStore_Store_def by (auto split: prod.splits if_splits)
  have "ks_inv sha (Some ?B) A own (insert (store_start ex c seen epoch key) (set cs)) ks db"
    using o(1) c(2) e by (simp add: ks_inv_def call_ok_def store_start_def)
  then obtain own' where o': "ks_inv sha (Some ?B) A own' (insert cc (set cs)) ks' db'" using rec.store_run_ok [OF ids _ o(2) run] by blast
  obtain k where k: "0 < through" "backend_Get sha ex a through db' = Some k" "verified sha a through k"
    using rec.Durable_verified [OF o' th(3)] c(2) th(1) by (auto simp: attributionBackend_def)
  have "\<forall>u. 0 \<le> u \<and> u \<le> through \<longrightarrow> (\<exists>k'. DeriveFromDisclosed sha k through u = Some k' \<and> VerifyChain sha a k' u)"
    using verified_derive [OF k(3)] by blast
  then show ?thesis using k th by (auto intro!: exI [of _ through] exI [of _ k])
qed

definition toy_chain :: Chain where
  "toy_chain = \<lparr>ch_Anchor = [7], ch_Start = zero_time, ch_Interval = 0, ch_DisclosureDelay = 2, ch_Length = 9, ch_TagSpec = 1\<rparr>"

definition empty_db :: attribution_db where
  "empty_db = \<lparr>attribution_chains = [], attribution_keys = [], attribution_runs = [], verify_budget = [], retained_from = 0\<rparr>"

lemma toy_receipt:
  "fst (storeDisclosure (\<lambda>_. [7]) ''x'' toy_chain zero_time [] 5 [1] NewKeyStore empty_db) = Some ([7], 5)"
  by (simp add: storeDisclosure_def KeyStore_Store_def numeral_eq_Suc store_start_def Store_step_def NewKeyStore_def KeyStore_chain_def toy_chain_def
      cached_install_def set_cell_def maxChainsPerExecutor_def empty_db_def Let_def
      store_check_def finish_def store_commit_def verify_reason_def maxEpoch_def maxVerifyWalk_def DeriveFromDisclosed_def attributionBackend_def
      backend_Save_def backend_Latest_def LatestAttributionKey_def first_by_def cache_key_def RecordAttributionChain_def InsertAttributionKey_def
      chainParams_def DurableThrough_def CachedLatest_def i64_def)

theorem storeDisclosure_receipt_witness:
  "\<exists>ks' db' m k. storeDisclosure (\<lambda>_. [7]) ''x'' toy_chain zero_time [] 5 [1] NewKeyStore empty_db = (Some ([7], 5), ks', db')
     \<and> 5 \<le> m \<and> backend_Get (\<lambda>_. [7]) ''x'' [7] m db' = Some k"
proof -
  obtain ks' db' where sd: "storeDisclosure (\<lambda>_. [7]) ''x'' toy_chain zero_time [] 5 [1] NewKeyStore empty_db = (Some ([7], 5), ks', db')"
    using toy_receipt by (metis prod.collapse)
  have "fresh_db empty_db" by (simp add: fresh_db_def empty_db_def)
  from storeDisclosure_receipt [where A = "{[7]}", OF _ this ks_init _ _ _ sd] sd show ?thesis
    by (auto simp: toy_chain_def recordedChain_def in_i64_def i64_min_def i64_max_def)
qed

theorem KeyStore_verified_witness:
  "\<exists>cs ks db. ks_reachable (\<lambda>_. [7]) (Some (attributionBackend (\<lambda>_. [7]))) {[7]} empty_db (cs, ks, db) \<and> length cs = 2 \<and> length (ks_chains ks ''x'') \<le> maxChainsPerExecutor"
proof -
  let ?B = "attributionBackend (\<lambda>_. [7])" and ?c = "store_start ''x'' toy_chain zero_time 5 [1]"
  have i: "in_i64 5" "ch_Anchor toy_chain \<in> {[7]}" by (simp_all add: in_i64_def i64_min_def i64_max_def toy_chain_def)
  have "ks_reachable (\<lambda>_. [7]) (Some ?B) {[7]} empty_db ([] @ [?c], NewKeyStore, empty_db)" by (rule ks_begin [OF ks_init i(2,1)])
  from ks_begin [OF this i(2,1), of "''x''" zero_time "[1]"] have "ks_reachable (\<lambda>_. [7]) (Some ?B) {[7]} empty_db ([?c, ?c], NewKeyStore, empty_db)" by simp
  note two = this
  obtain c' ks' db' where s: "Store_step (\<lambda>_. [7]) (Some ?B) False ([?c, ?c] ! 0) NewKeyStore empty_db = (c', ks', db')" by (metis prod.exhaust)
  have r: "ks_reachable (\<lambda>_. [7]) (Some ?B) {[7]} empty_db ([?c, ?c][0 := c'], ks', db')" by (rule ks_step [OF two _ s]) simp
  have "fresh_db empty_db" by (simp add: fresh_db_def empty_db_def)
  then show ?thesis using KeyStore_verified [OF _ _ r, of "[7]" False "''x''" 5 "[1]"] r by (intro exI [of _ "[?c, ?c][0 := c']"]) auto
qed

end
