(* ===== verification/Verify_Tags.thy ===== *)
theory Verify_Tags
  imports Tesla
begin

text \<open>
  The executor's answer to a verification query before disclosure, \<^verbatim>\<open>internal/executor/verify_tags.go\<close>:
  whether exactly one candidate run reproduces the tag of every packet of a group. Whether an
  identifier is a canonical UUID (\<open>ids.ParseCanonical\<close>, which asks google/uuid) and HKDF are
  arguments, as are the installed epochs that the kernel taggers report.
\<close>

section \<open>The model\<close>

definition maxVerifyCandidates :: nat where "maxVerifyCandidates = 32"
definition maxVerifyPackets :: nat where "maxVerifyPackets = 256"
definition minVerifyPacket :: nat where "minVerifyPacket = 20"

datatype verify_reply_reason = verifyUnknownChain | verifyEpochUnavailable | verifyAttributionUnavailable | verifyTooMany | verifyMalformed

datatype verify_reply = verifyMatched string | verifyUnmatched | verifyAmbiguous | verifyUnsupported verify_reply_reason

record VerifyTagsRequest =
  req_ChainAnchor :: "byte list"
  req_Epoch :: int
  req_CandidateRunIds :: "string list"
  req_Packets :: "byte list list"

text \<open>\<open>[]byte(s)\<close>.\<close>

definition bytes_of :: "string \<Rightarrow> byte list" where
  "bytes_of s = map of_char s"

text \<open>The loop over the candidates that refuses an identifier that is not canonical or was seen before.\<close>

fun check_candidates :: "(string \<Rightarrow> bool) \<Rightarrow> string list \<Rightarrow> string set \<Rightarrow> bool" where
  "check_candidates isID [] seen = True"
| "check_candidates isID (i # is) seen = (if \<not> isID i then False else if i \<in> seen then False else check_candidates isID is (insert i seen))"

text \<open>The loop over the packets: their inputs and carried tags.\<close>

fun packet_inputs :: "byte list list \<Rightarrow> (byte list \<times> 16 word) list option" where
  "packet_inputs [] = Some []"
| "packet_inputs (p # ps) = (if length p < minVerifyPacket \<or> length p > MaxInput then None
     else case HashInput p of Inl _ \<Rightarrow> None
       | Inr inp \<Rightarrow> map_option (\<lambda>xs. (inp, case PacketID p of None \<Rightarrow> 0 | Some t \<Rightarrow> t) # xs) (packet_inputs ps))"

fun reproducesTags :: "byte list \<Rightarrow> (byte list \<times> 16 word) list \<Rightarrow> bool" where
  "reproducesTags ak [] = True"
| "reproducesTags ak ((inp, t) # xs) = (case ComputeTag ak inp of Inl _ \<Rightarrow> False | Inr tag \<Rightarrow> if tag \<noteq> t then False else reproducesTags ak xs)"

text \<open>The loop over the candidates; \<open>None\<close> is the internal error of a failed derivation.\<close>

fun count_matches :: "hkdf \<Rightarrow> byte list \<Rightarrow> string list \<Rightarrow> (byte list \<times> 16 word) list \<Rightarrow> nat \<times> string \<Rightarrow> (nat \<times> string) option" where
  "count_matches hkdf key [] xs acc = Some acc"
| "count_matches hkdf key (i # is) xs acc = (case DeriveAK hkdf key (bytes_of i) of Inl _ \<Rightarrow> None
     | Inr ak \<Rightarrow> count_matches hkdf key is xs (if reproducesTags ak xs then (fst acc + 1, i) else acc))"

definition verifyTags ::
  "hkdf \<Rightarrow> (string \<Rightarrow> bool) \<Rightarrow> ('h \<Rightarrow> int \<times> bool) \<Rightarrow> 'h list \<Rightarrow> 'h KeySchedule option \<Rightarrow> VerifyTagsRequest \<Rightarrow> instant \<Rightarrow> verify_reply option" where
  "verifyTags hkdf isID IE order sched req now =
    (let candidates = req_CandidateRunIds req; packets = req_Packets req; epoch = req_Epoch req in
     if length candidates > maxVerifyCandidates \<or> length packets > maxVerifyPackets then Some (verifyUnsupported verifyTooMany)
     else if length candidates = 0 \<or> length packets = 0 then Some (verifyUnsupported verifyMalformed)
     else if \<not> check_candidates isID candidates {} then Some (verifyUnsupported verifyMalformed)
     else case packet_inputs packets of None \<Rightarrow> Some (verifyUnsupported verifyMalformed)
     | Some inputs \<Rightarrow> (case sched of None \<Rightarrow> Some (verifyUnsupported verifyUnknownChain)
     | Some ks \<Rightarrow> if req_ChainAnchor req \<noteq> Anchor ks then Some (verifyUnsupported verifyUnknownChain)
       else let drift = Drift ks now in
       if ClockUnready (cfg ks) \<or> drift > MaxDrift ks \<or> i64 (- drift) > MaxDrift ks then Some (verifyUnsupported verifyAttributionUnavailable)
       else if epoch < 1 \<or> epoch \<ge> ChainLength (cfg ks) then Some (verifyUnsupported verifyEpochUnavailable)
       else if (case DisclosedKey IE order now ks of None \<Rightarrow> False | Some (disclosed, _) \<Rightarrow> disclosed \<ge> epoch) then Some (verifyUnsupported verifyEpochUnavailable)
       else case KeyAtEpoch ks epoch of None \<Rightarrow> Some (verifyUnsupported verifyEpochUnavailable)
       | Some key \<Rightarrow> map_option (\<lambda>(matches, matched). if matches = 0 then verifyUnmatched else if matches = 1 then verifyMatched matched else verifyAmbiguous)
           (count_matches hkdf key candidates inputs (0, []))))"

section \<open>Reproduced tags\<close>

text \<open>The run \<open>i\<close> sent the packet \<open>p\<close> with the chain key \<open>key\<close>: the tag it carries is the run's.\<close>

definition carries_tag :: "hkdf \<Rightarrow> byte list \<Rightarrow> string \<Rightarrow> byte list \<Rightarrow> bool" where
  "carries_tag hkdf key i p \<longleftrightarrow> (\<exists>ak t. DeriveAK hkdf key (bytes_of i) = Inr ak \<and> PacketTag ak p = Inr t \<and> PacketID p = Some t)"

lemma check_candidates_iff: "check_candidates isID is seen \<longleftrightarrow> (\<forall>i \<in> set is. isID i) \<and> distinct is \<and> set is \<inter> seen = {}"
  by (induction "is" arbitrary: seen) auto

lemma packet_inputs_Some:
  "packet_inputs ps = Some xs \<Longrightarrow> DeriveAK hkdf key (bytes_of i) = Inr ak \<Longrightarrow> reproducesTags ak xs \<longleftrightarrow> (\<forall>p \<in> set ps. carries_tag hkdf key i p)"
proof (induction ps arbitrary: xs)
  case (Cons p ps)
  then obtain inp ys where p: "HashInput p = Inr inp" "packet_inputs ps = Some ys" "20 \<le> length p"
    and xs: "xs = (inp, case PacketID p of None \<Rightarrow> 0 | Some t \<Rightarrow> t) # ys"
    by (auto simp: minVerifyPacket_def split: if_splits sum.splits)
  then obtain t where t: "PacketID p = Some t" by (auto simp: PacketID_def)
  have "carries_tag hkdf key i p \<longleftrightarrow> ComputeTag ak inp = Inr t" using Cons.prems(2) p(1) t by (auto simp: carries_tag_def PacketTag_def)
  then show ?case using Cons.IH [OF p(2) Cons.prems(2)] by (auto simp: xs t split: sum.splits)
qed simp

lemma count_matches_Some:
  assumes ps: "packet_inputs ps = Some xs"
  shows "count_matches hkdf key is xs (n, m) = Some (n', m') \<Longrightarrow>
    n' = n + length (filter (\<lambda>i. \<forall>p \<in> set ps. carries_tag hkdf key i p) is)
    \<and> m' = (if filter (\<lambda>i. \<forall>p \<in> set ps. carries_tag hkdf key i p) is = [] then m else last (filter (\<lambda>i. \<forall>p \<in> set ps. carries_tag hkdf key i p) is))"
proof (induction "is" arbitrary: n m)
  case (Cons i "is")
  then obtain ak where ak: "DeriveAK hkdf key (bytes_of i) = Inr ak" by (auto split: sum.splits)
  show ?case using Cons.IH [of "if reproducesTags ak xs then n + 1 else n" "if reproducesTags ak xs then i else m"] Cons.prems ak packet_inputs_Some [OF ps ak]
    by (auto split: if_splits)
qed simp

text \<open>A query that is answered with a verdict on the tags.\<close>

lemma verifyTags_answer:
  assumes a: "verifyTags hkdf isID IE order sched req now = Some r" and r: "\<And>x. r \<noteq> verifyUnsupported x"
  obtains ks key xs where "sched = Some ks" "req_ChainAnchor req = Anchor ks" "KeyAtEpoch ks (req_Epoch req) = Some key" "packet_inputs (req_Packets req) = Some xs"
    "distinct (req_CandidateRunIds req)" "req_Packets req \<noteq> []" "1 \<le> req_Epoch req" "req_Epoch req < ChainLength (cfg ks)"
    "\<And>d k. DisclosedKey IE order now ks = Some (d, k) \<Longrightarrow> d < req_Epoch req"
    "\<not> ClockUnready (cfg ks) \<and> Drift ks now \<le> MaxDrift ks \<and> i64 (- Drift ks now) \<le> MaxDrift ks"
    "r = (let f = filter (\<lambda>i. \<forall>p \<in> set (req_Packets req). carries_tag hkdf key i p) (req_CandidateRunIds req) in
       if f = [] then verifyUnmatched else if length f = 1 then verifyMatched (hd f) else verifyAmbiguous)"
proof -
  have ck: "check_candidates isID (req_CandidateRunIds req) {}" and ne: "req_Packets req \<noteq> []" using a r by (auto simp: verifyTags_def Let_def split: if_splits)
  obtain xs where xs: "packet_inputs (req_Packets req) = Some xs" using a r by (auto simp: verifyTags_def Let_def split: if_splits option.splits)
  obtain ks where ks: "sched = Some ks" "req_ChainAnchor req = Anchor ks" using a r xs by (auto simp: verifyTags_def Let_def split: if_splits option.splits)
  have g: "1 \<le> req_Epoch req" "req_Epoch req < ChainLength (cfg ks)" "\<And>d k. DisclosedKey IE order now ks = Some (d, k) \<Longrightarrow> d < req_Epoch req"
    "\<not> ClockUnready (cfg ks) \<and> Drift ks now \<le> MaxDrift ks \<and> i64 (- Drift ks now) \<le> MaxDrift ks"
    using a r xs ks by (auto simp: verifyTags_def Let_def not_le not_less split: if_splits option.splits)
  obtain key n m where key: "KeyAtEpoch ks (req_Epoch req) = Some key" "count_matches hkdf key (req_CandidateRunIds req) xs (0, []) = Some (n, m)"
    "r = (if n = 0 then verifyUnmatched else if n = 1 then verifyMatched m else verifyAmbiguous)"
    using a r xs ks by (auto simp: verifyTags_def Let_def split: if_splits option.splits)
  let ?f = "filter (\<lambda>i. \<forall>p \<in> set (req_Packets req). carries_tag hkdf key i p) (req_CandidateRunIds req)"
  have n: "n = length ?f" "m = (if ?f = [] then [] else last ?f)" using count_matches_Some [OF xs key(2)] by auto
  have "r = (if ?f = [] then verifyUnmatched else if length ?f = 1 then verifyMatched (hd ?f) else verifyAmbiguous)"
    unfolding key(3) n by (cases ?f) auto
  then show ?thesis using that ks key(1) xs ck ne g by (simp add: check_candidates_iff Let_def)
qed

section \<open>Properties\<close>

text \<open>C30: A verdict on the tags is right. The executor answers with its own chain's key of the asked epoch, on a trusted clock and before that key or a later one
  is disclosed; it names a run exactly if that run alone among the candidates reproduces the tag of every packet, says unmatched
  exactly if none does, and ambiguous exactly if several do.\<close>

theorem verifyTags_verdict:
  assumes a: "verifyTags hkdf isID IE order sched req now = Some r" and r: "\<forall>x. r \<noteq> verifyUnsupported x"
  shows "\<exists>ks key. sched = Some ks \<and> req_ChainAnchor req = Anchor ks \<and> KeyAtEpoch ks (req_Epoch req) = Some key \<and> clockReason ks (Drift ks now) = None
    \<and> (\<forall>d k. DisclosedKey IE order now ks = Some (d, k) \<longrightarrow> d < req_Epoch req)
    \<and> (let senders = {i \<in> set (req_CandidateRunIds req). \<forall>p \<in> set (req_Packets req). carries_tag hkdf key i p} in
        (\<forall>i. r = verifyMatched i \<longleftrightarrow> senders = {i}) \<and> (r = verifyUnmatched \<longleftrightarrow> senders = {}) \<and> (r = verifyAmbiguous \<longleftrightarrow> 2 \<le> card senders))"
proof -
  obtain ks key where k: "sched = Some ks" "req_ChainAnchor req = Anchor ks" "KeyAtEpoch ks (req_Epoch req) = Some key" "distinct (req_CandidateRunIds req)"
    "\<And>d k. DisclosedKey IE order now ks = Some (d, k) \<Longrightarrow> d < req_Epoch req"
    "\<not> ClockUnready (cfg ks) \<and> Drift ks now \<le> MaxDrift ks \<and> i64 (- Drift ks now) \<le> MaxDrift ks"
    and req: "r = (let f = filter (\<lambda>i. \<forall>p \<in> set (req_Packets req). carries_tag hkdf key i p) (req_CandidateRunIds req) in
       if f = [] then verifyUnmatched else if length f = 1 then verifyMatched (hd f) else verifyAmbiguous)"
    by (rule verifyTags_answer [OF a]) (use r in auto)
  define f where "f = filter (\<lambda>i. \<forall>p \<in> set (req_Packets req). carries_tag hkdf key i p) (req_CandidateRunIds req)"
  have set: "{i \<in> set (req_CandidateRunIds req). \<forall>p \<in> set (req_Packets req). carries_tag hkdf key i p} = set f" by (auto simp: f_def)
  have dist: "distinct f" using k(4) by (simp add: f_def)
  have card: "card (set f) = length f" using k(4) distinct_card [of f] by (simp add: f_def)
  have r': "r = (if f = [] then verifyUnmatched else if length f = 1 then verifyMatched (hd f) else verifyAmbiguous)" using req by (simp add: f_def Let_def)
  have "(\<forall>i. r = verifyMatched i \<longleftrightarrow> set f = {i}) \<and> (r = verifyUnmatched \<longleftrightarrow> set f = {}) \<and> (r = verifyAmbiguous \<longleftrightarrow> 2 \<le> card (set f))"
  proof (cases f)
    case (Cons x xs)
    show ?thesis
    proof (cases xs)
      case (Cons y ys)
      then show ?thesis using r' card dist \<open>f = x # xs\<close> by auto
    qed (use r' Cons in auto)
  qed (use r' in auto)
  moreover have "clockReason ks (Drift ks now) = None" using k(6) by (simp add: clockReason_def not_less)
  ultimately show ?thesis using k(1-3,5) by (intro exI [of _ ks] exI [of _ key]) (simp add: set Let_def)
qed

text \<open>A query for one run with one packet whose tag the toy functions reproduce.\<close>

definition probe :: "byte list" where
  "probe = [0x45, 0, 0, 20, 0, 0, 0, 0, 64, 17, 0, 0, 10, 0, 0, 1, 10, 0, 0, 2]"

lemma probe_inputs: "\<exists>inp. packet_inputs [probe] = Some [(inp, 0)]"
  by (simp add: probe_def minVerifyPacket_def MaxInput_def HashInput_def be16_def PacketID_def Let_def)

theorem verifyTags_verdict_witness:
  "\<exists>ks :: nat KeySchedule. NewKeySchedule toy_sha None zero_time sample_config = Inr ks
    \<and> (\<exists>key. KeyAtEpoch ks 1 = Some key \<and> \<not> carries_tag (\<lambda>_ _ _. Some []) key ''r'' probe)"
proof -
  obtain ks :: "nat KeySchedule" where ks: "NewKeySchedule toy_sha None zero_time sample_config = Inr ks" "cfg ks = sample_config\<lparr>Clock := Some hostClock\<rparr>"
    using sample_schedule by blast
  let ?now = "\<lparr>inst_wall = 110, inst_mono = Some 10\<rparr>"
  let ?req = "\<lparr>req_ChainAnchor = Anchor ks, req_Epoch = 1, req_CandidateRunIds = [''r''], req_Packets = [probe]\<rparr>"
  have el: "Elapsed ks ?now = (10, 10)" using sample_elapsed [OF ks(2), of 10] by (simp add: saturate_def i64_min_def i64_max_def)
  have key: "\<exists>key. KeyAtEpoch ks 1 = Some key" using ks(2) by (simp add: KeyAtEpoch_def keyForEpoch_def sample_config_def)
  obtain inp where inp: "packet_inputs [probe] = Some [(inp, 0)]" using probe_inputs by blast
  have d: "DisclosedKey (\<lambda>_. (0, False)) [] ?now ks = None"
    using ks(2) by (simp add: DisclosedKey_def el Let_def sample_config_def go_div_def i64_def)
  have "verifyTags (\<lambda>_ _ _. Some []) (\<lambda>_. True) (\<lambda>_. (0, False)) [] (Some ks) ?req ?now = Some verifyUnmatched"
    using key ks(2) by (auto simp: verifyTags_def Let_def maxVerifyCandidates_def maxVerifyPackets_def inp d Drift_def el MaxDrift_def sample_config_def
        go_div_def i64_def verifierClockTolerance_def Second_def DeriveAK_def ComputeTag_def simp del: packet_inputs.simps)
  from verifyTags_verdict [OF this] show ?thesis using ks(1) by (auto simp: Let_def)
qed

end
