(* ===== verification/Attribution_Verify.thy ===== *)
theory Attribution_Verify
  imports Verify_Tags Attribution_Db Net_Addr
begin

text \<open>
  Server-assisted verification on the dispatcher, \<^verbatim>\<open>internal/dispatcher/attribution_verify.go\<close>. Packets
  are grouped by source address and by the epochs of the chains their source may have used; a
  group whose key is on record is checked here, any other is asked of the executor against a
  durable budget. The database is the state; the clock reading, the session of an executor, its
  reply and the failure of an access to the database are arguments. A capture time is in nanoseconds since the Unix epoch.
\<close>

section \<open>Data\<close>

definition VerifyBudget :: int where "VerifyBudget = 16"
definition MaxVerifyGroups :: nat where "MaxVerifyGroups = 16"
definition maxVerifyRuns :: nat where "maxVerifyRuns = 32"
definition maxVerifyDerivation :: int where "maxVerifyDerivation = 1048576"
definition verifyDisclosureGrace :: int where "verifyDisclosureGrace = 2 * Minute"
definition verifyNoRunWindow :: int where "verifyNoRunWindow = Second"

datatype verdict = VerifyVerified | VerifyInvalid | VerifyPending | VerifyMissing | VerifyUnsupported

datatype verify_error = ErrTooManyVerifyGroups | LookupFailed

record VerifyPacket =
  vp_Data :: "byte list"
  vp_CapturedAt :: int

record VerifyBudgetState =
  vb_Limit :: int
  vb_Remaining :: int
  vb_ResetsAt :: int

text \<open>A verdict that is still the empty string is \<open>None\<close>.\<close>

record VerifyGroupResult =
  vg_Source :: string
  vg_ChainID :: string
  vg_ExecutorID :: string
  vg_RunID :: string
  vg_Epoch :: int
  vg_Verdict :: "verdict option"
  vg_Reason :: string
  vg_Method :: string
  vg_Packets :: "nat list"
  vg_Budget :: "VerifyBudgetState option"
  vg_PendingUntil :: "int option"

definition new_result :: "string \<Rightarrow> nat list \<Rightarrow> VerifyGroupResult" where
  "new_result src ps = \<lparr>vg_Source = src, vg_ChainID = [], vg_ExecutorID = [], vg_RunID = [], vg_Epoch = 0, vg_Verdict = None, vg_Reason = [], vg_Method = [],
     vg_Packets = ps, vg_Budget = None, vg_PendingUntil = None\<rparr>"

record verifyChain =
  vc_row :: AttributionChain
  vc_runs :: "string list"

definition chain_epochOf :: "AttributionChain \<Rightarrow> int \<Rightarrow> int" where
  "chain_epochOf c at = (let d = i64 (i64 at - cr_t0 c); i = cr_interval c; e = go_div d i in
     if go_rem d i \<noteq> 0 \<and> d < 0 then i64 (e - 1) else e)"

definition epochStart :: "AttributionChain \<Rightarrow> int \<Rightarrow> int" where
  "epochStart c e = i64 (cr_t0 c + i64 (e * cr_interval c))"

definition usableInterval :: "int \<Rightarrow> bool" where
  "usableInterval ns \<longleftrightarrow> ns \<ge> Second \<and> ns \<le> 1048576 * Second"

text \<open>\<open>netip.AddrFrom4(p[12:16])\<close> and its text.\<close>

definition source_of :: "byte list \<Rightarrow> byte list" where
  "source_of p = take 4 (drop 12 p)"

definition source_text :: "byte list \<Rightarrow> string" where
  "source_text a = string4 (map uint a)"

fun unsupported_text :: "Unsupported \<Rightarrow> string" where
  "unsupported_text UnsupportedIPv6 = ''ipv6''"
| "unsupported_text UnsupportedNotIPv4 = ''not_ipv4''"
| "unsupported_text UnsupportedTooShort = ''too_short''"
| "unsupported_text UnsupportedMalformed = ''malformed''"
| "unsupported_text UnsupportedFragment = ''fragment''"

section \<open>Checking against a disclosed key\<close>

definition run_matches :: "hkdf \<Rightarrow> byte list \<Rightarrow> byte list \<Rightarrow> string \<Rightarrow> bool" where
  "run_matches hkdf key data run = (case DeriveAK hkdf key (bytes_of run) of Inl _ \<Rightarrow> False
     | Inr ak \<Rightarrow> (let inp = (case HashInput data of Inl _ \<Rightarrow> [] | Inr x \<Rightarrow> x); i = (case PacketID data of None \<Rightarrow> 0 | Some x \<Rightarrow> x) in
         case ComputeTag ak inp of Inl _ \<Rightarrow> False | Inr tag \<Rightarrow> tag = i))"

text \<open>The runs common to all matched packets, and how many packets are matched.\<close>

definition common_step :: "string list \<Rightarrow> string list \<times> nat \<Rightarrow> string list \<times> nat" where
  "common_step m acc = (case acc of (common, matched) \<Rightarrow>
     if m = [] then acc else (if matched = 0 then m else filter (\<lambda>r. r \<in> set m) common, matched + 1))"

datatype assigned = ToRun string | Ambiguous | Unmatched

definition assign :: "string list \<Rightarrow> string list \<Rightarrow> assigned" where
  "assign common m = (if m = [] then Unmatched else if length common = 1 then ToRun (hd common)
     else if common = [] \<and> length m = 1 then ToRun (hd m) else Ambiguous)"

definition matchRuns :: "hkdf \<Rightarrow> byte list \<Rightarrow> string list \<Rightarrow> VerifyGroupResult \<Rightarrow> VerifyPacket list \<Rightarrow> VerifyGroupResult list" where
  "matchRuns hkdf key runs base packets =
    (let ms = map (\<lambda>i. filter (run_matches hkdf key (vp_Data (packets ! i))) runs) (vg_Packets base);
         (common, matched) = fold common_step ms ([], 0) in
     if matched = 0 then [base\<lparr>vg_Verdict := Some VerifyInvalid, vg_Reason := ''tag_mismatch''\<rparr>]
     else let tagged = zip (vg_Packets base) (map (assign common) ms);
       of_kind = (\<lambda>a. map fst (filter (\<lambda>x. snd x = a) tagged));
       matchedRuns = sort (remdups (concat (map (\<lambda>x. case snd x of ToRun r \<Rightarrow> [r] | _ \<Rightarrow> []) tagged)))
     in map (\<lambda>r. base\<lparr>vg_Packets := of_kind (ToRun r), vg_RunID := r, vg_Verdict := Some VerifyVerified\<rparr>) matchedRuns
       @ (if of_kind Ambiguous = [] then [] else [base\<lparr>vg_Packets := of_kind Ambiguous, vg_Verdict := Some VerifyUnsupported, vg_Reason := ''ambiguous''\<rparr>])
       @ (if of_kind Unmatched = [] then [] else [base\<lparr>vg_Packets := of_kind Unmatched, vg_Verdict := Some VerifyUnsupported, vg_Reason := ''unmatched''\<rparr>]))"

definition recordedEpochKey :: "(byte list \<Rightarrow> byte list) \<Rightarrow> string \<Rightarrow> string \<Rightarrow> int \<Rightarrow> attribution_db \<Rightarrow> byte list option" where
  "recordedEpochKey sha ex cid epoch db = (case NextAttributionKey ex cid epoch db of None \<Rightarrow> None
     | Some (e, k) \<Rightarrow> if i64 (e - epoch) > maxVerifyDerivation then None else Some ((sha ^^ nat (e - epoch)) k))"

section \<open>Asking the executor\<close>

datatype spend_result = Spent int | NoRows | SpendFailed

definition spendVerifyBudget :: "bool \<Rightarrow> string \<Rightarrow> string \<Rightarrow> int \<Rightarrow> int \<Rightarrow> int \<Rightarrow> attribution_db \<Rightarrow> spend_result \<times> attribution_db" where
  "spendVerifyBudget fails ex cid epoch trials now db =
    (if trials < 1 \<or> trials > VerifyBudget then (NoRows, db)
     else if fails then (SpendFailed, db)
     else case SpendAttributionVerifyBudget ex cid epoch trials (PruneAttributionVerifyBudget now db) of
       None \<Rightarrow> (NoRows, db) | Some (used, db') \<Rightarrow> (Spent used, db'))"

record verify_response =
  rp_Verdict :: string
  rp_Reason :: string
  rp_RunId :: string

definition executorReasons :: "string list" where
  "executorReasons = [''unknown_chain'', ''epoch_unavailable'', ''attribution_unavailable'', ''too_many'', ''malformed'']"

text \<open>\<open>None\<close>: the executor could not be asked or did not answer.\<close>

definition relayVerify :: "string list \<Rightarrow> verify_response option \<Rightarrow> verdict \<times> string \<times> string \<times> bool" where
  "relayVerify runs reply = (case reply of None \<Rightarrow> (VerifyPending, ''executor_unavailable'', [], False)
     | Some r \<Rightarrow>
       if rp_Verdict r = ''matched'' \<and> rp_RunId r \<in> set runs then (VerifyVerified, [], rp_RunId r, True)
       else if rp_Verdict r = ''unmatched'' then (VerifyPending, ''unmatched'', [], True)
       else if rp_Verdict r = ''ambiguous'' then (VerifyUnsupported, ''ambiguous'', [], True)
       else if rp_Verdict r = ''unsupported'' \<and> rp_Reason r \<in> set executorReasons then (VerifyUnsupported, rp_Reason r, [], True)
       else (VerifyPending, ''executor_unavailable'', [], False))"

text \<open>
  What a request meets: hash functions, the clock, whether an executor has an available session that
  announced an anchor, the reply to a query, and which accesses to the database fail.
\<close>

datatype db_access = ReadBudget | ReadKey | SpendTrials

record verify_env =
  ve_hkdf :: hkdf
  ve_sha :: "byte list \<Rightarrow> byte list"
  ve_now :: int
  ve_owner :: "string \<Rightarrow> byte list \<Rightarrow> bool"
  ve_reply :: "byte list \<Rightarrow> int \<Rightarrow> string list \<Rightarrow> byte list list \<Rightarrow> verify_response option"
  ve_fails :: "db_access \<Rightarrow> bool"

text \<open>The boolean is whether the executor was asked.\<close>

definition verifyGroup :: "verify_env \<Rightarrow> verifyChain \<Rightarrow> int \<Rightarrow> nat list \<Rightarrow> VerifyPacket list \<Rightarrow> attribution_db \<Rightarrow> VerifyGroupResult list \<times> bool \<times> attribution_db" where
  "verifyGroup env c epoch indices packets db =
    (let row = vc_row c; src = source_text (source_of (vp_Data (packets ! hd indices)));
         out = (new_result src indices)\<lparr>vg_ChainID := cr_chain_id row, vg_ExecutorID := cr_executor row, vg_Epoch := epoch\<rparr>;
         due = epochStart row (i64 (epoch + cr_delay row)) in
     if cr_tag_spec row \<noteq> 1 then ([out\<lparr>vg_Verdict := Some VerifyUnsupported, vg_Reason := ''tag_spec''\<rparr>], False, db)
     else if cr_delay row < MinDisclosureDelay then ([out\<lparr>vg_Verdict := Some VerifyUnsupported, vg_Reason := ''disclosure_delay''\<rparr>], False, db)
     else if epoch < 1 \<or> (cr_length row > 0 \<and> epoch \<ge> cr_length row) then ([out\<lparr>vg_Verdict := Some VerifyUnsupported, vg_Reason := ''no_signing_key''\<rparr>], False, db)
     else let remaining = (if ve_fails env ReadBudget then VerifyBudget else case GetAttributionVerifyBudget (cr_executor row) (cr_chain_id row) epoch db of
           None \<Rightarrow> VerifyBudget | Some used \<Rightarrow> max (VerifyBudget - used) 0);
         budget = \<lparr>vb_Limit = VerifyBudget, vb_Remaining = remaining, vb_ResetsAt = due\<rparr>; out = out\<lparr>vg_Budget := Some budget\<rparr> in
     if ve_fails env ReadKey then ([out\<lparr>vg_Verdict := Some VerifyPending, vg_Reason := ''executor_unavailable''\<rparr>], False, db)
     else case recordedEpochKey (ve_sha env) (cr_executor row) (cr_chain_id row) epoch db of
       Some key \<Rightarrow> (matchRuns (ve_hkdf env) key (vc_runs c) (out\<lparr>vg_Method := ''offline''\<rparr>) packets, False, db)
     | None \<Rightarrow>
       if ve_now env \<ge> due then
         ([if ve_now env < due + verifyDisclosureGrace then out\<lparr>vg_Verdict := Some VerifyPending, vg_Reason := ''not_disclosed''\<rparr>
           else out\<lparr>vg_Verdict := Some VerifyMissing, vg_Reason := ''keys_missing''\<rparr>], False, db)
       else if \<not> ve_owner env (cr_executor row) (cr_anchor row)
         then ([out\<lparr>vg_Verdict := Some VerifyPending, vg_Reason := ''executor_unavailable'', vg_PendingUntil := Some due\<rparr>], False, db)
       else case spendVerifyBudget (ve_fails env SpendTrials) (cr_executor row) (cr_chain_id row) epoch (int (length (vc_runs c))) (ve_now env) db of
         (NoRows, db) \<Rightarrow> ([out\<lparr>vg_Verdict := Some VerifyPending, vg_Reason := ''budget_exhausted'', vg_PendingUntil := Some due\<rparr>], False, db)
       | (SpendFailed, db) \<Rightarrow> ([out\<lparr>vg_Verdict := Some VerifyPending, vg_Reason := ''executor_unavailable''\<rparr>], False, db)
       | (Spent used, db) \<Rightarrow>
         (case relayVerify (vc_runs c) (ve_reply env (cr_anchor row) epoch (vc_runs c) (map (\<lambda>i. vp_Data (packets ! i)) indices)) of
           (v, reason, run, answered) \<Rightarrow>
             ([out\<lparr>vg_Verdict := Some v, vg_Reason := reason, vg_RunID := run, vg_Budget := Some (budget\<lparr>vb_Remaining := max (VerifyBudget - used) 0\<rparr>),
                vg_Method := (if answered then ''server'' else []), vg_PendingUntil := (if v = VerifyPending then Some due else None)\<rparr>], True, db)))"

section \<open>Forming the groups\<close>

fun add_run :: "AttributionChain \<Rightarrow> string \<Rightarrow> verifyChain list \<Rightarrow> verifyChain list" where
  "add_run c run [] = [\<lparr>vc_row = c, vc_runs = [run]\<rparr>]"
| "add_run c run (x # xs) = (if chain_is (cr_executor c) (cr_chain_id c) (vc_row x) then x\<lparr>vc_runs := vc_runs x @ [run]\<rparr> # xs else x # add_run c run xs)"

definition add_row :: "int \<Rightarrow> AttributionRun \<times> AttributionChain \<Rightarrow> int \<times> verifyChain list \<Rightarrow> int \<times> verifyChain list" where
  "add_row at rc acc = (case (rc, acc) of ((r, c), (e, vcs)) \<Rightarrow>
     if \<not> usableInterval (cr_interval c) then (e, vcs)
     else let ce = epochStart c (i64 (chain_epochOf c at + 1)) in (if ce < e \<or> vcs = [] then ce else e, add_run c (rr_uuid r) vcs))"

record chainGroup =
  cg_chain :: verifyChain
  cg_epoch :: int
  cg_packets :: "nat list"

text \<open>One lookup: the window it covers, and either a decided result or one group per chain.\<close>

definition form_window :: "VerifyPacket list \<Rightarrow> string \<Rightarrow> int \<Rightarrow> (AttributionRun \<times> AttributionChain) list \<Rightarrow> nat list \<Rightarrow> nat \<times> VerifyGroupResult list \<times> chainGroup list" where
  "form_window packets src retainedFrom rows idx =
    (let at = vp_CapturedAt (packets ! hd idx);
         (e, vcs) = fold (add_row at) rows (at + verifyNoRunWindow, []);
         n = max (length (takeWhile (\<lambda>i. vp_CapturedAt (packets ! i) < e) idx)) 1;
         window = take n idx; base = new_result src window in
     if length rows > maxVerifyRuns then (n, [base\<lparr>vg_Verdict := Some VerifyUnsupported, vg_Reason := ''too_many_candidates''\<rparr>], [])
     else if length rows = 0 \<and> at < retainedFrom then (n, [base\<lparr>vg_Verdict := Some VerifyMissing, vg_Reason := ''not_retained''\<rparr>], [])
     else if length rows = 0 then (n, [base\<lparr>vg_Verdict := Some VerifyInvalid, vg_Reason := ''no_run'', vg_Method := ''offline''\<rparr>], [])
     else if length vcs = 0 then (n, [base\<lparr>vg_Verdict := Some VerifyUnsupported, vg_Reason := ''schedule''\<rparr>], [])
     else (n, [], map (\<lambda>c. \<lparr>cg_chain = c, cg_epoch = chain_epochOf (vc_row c) at, cg_packets = window\<rparr>) vcs))"

text \<open>\<open>lookup\<close> is \<open>verifyCandidates\<close>; \<open>None\<close> is its error.\<close>

function form_source :: "VerifyPacket list \<Rightarrow> (string \<Rightarrow> int \<Rightarrow> (int \<times> (AttributionRun \<times> AttributionChain) list) option) \<Rightarrow> string \<Rightarrow> nat list
    \<Rightarrow> nat \<times> VerifyGroupResult list \<times> chainGroup list \<Rightarrow> verify_error + nat \<times> VerifyGroupResult list \<times> chainGroup list" where
  "form_source packets lookup src [] acc = Inr acc"
| "form_source packets lookup src (i # is) (formed, out, grps) =
    (if formed \<ge> MaxVerifyGroups then Inl ErrTooManyVerifyGroups
     else case lookup src (vp_CapturedAt (packets ! i)) of None \<Rightarrow> Inl LookupFailed
     | Some (retainedFrom, rows) \<Rightarrow> (case form_window packets src retainedFrom rows (i # is) of (n, rs, gs) \<Rightarrow>
         let formed = formed + length rs + length gs in
         if formed > MaxVerifyGroups then Inl ErrTooManyVerifyGroups
         else form_source packets lookup src (drop n (i # is)) (formed, out @ rs, grps @ gs)))"
  by pat_completeness auto
termination
  by (relation "measure (\<lambda>(_, _, _, idx, _). length idx)") (auto simp: form_window_def Let_def split: prod.splits if_splits)

fun form_sources :: "VerifyPacket list \<Rightarrow> (string \<Rightarrow> int \<Rightarrow> (int \<times> (AttributionRun \<times> AttributionChain) list) option) \<Rightarrow> (byte list \<Rightarrow> nat list) \<Rightarrow> byte list list
    \<Rightarrow> nat \<times> VerifyGroupResult list \<times> chainGroup list \<Rightarrow> verify_error + nat \<times> VerifyGroupResult list \<times> chainGroup list" where
  "form_sources packets lookup bySource [] acc = Inr acc"
| "form_sources packets lookup bySource (a # as) acc =
    res_bind (form_source packets lookup (source_text a) (sort_key (\<lambda>i. vp_CapturedAt (packets ! i)) (bySource a)) acc) (form_sources packets lookup bySource as)"

fun verify_groups :: "verify_env \<Rightarrow> VerifyPacket list \<Rightarrow> chainGroup list \<Rightarrow> VerifyGroupResult list \<Rightarrow> attribution_db \<Rightarrow> (verify_error + VerifyGroupResult list) \<times> attribution_db" where
  "verify_groups env packets [] out db = (Inr out, db)"
| "verify_groups env packets (g # gs) out db = (case verifyGroup env (cg_chain g) (cg_epoch g) (cg_packets g) packets db of (rs, _, db) \<Rightarrow>
     if length (out @ rs) > MaxVerifyGroups then (Inl ErrTooManyVerifyGroups, db) else verify_groups env packets gs (out @ rs) db)"

text \<open>The key of a packet that has no tag: its source, if it has one, and the reason.\<close>

definition unsupported_key :: "byte list \<Rightarrow> (string \<times> string) option" where
  "unsupported_key p = (case HashInput p of Inr _ \<Rightarrow> None
     | Inl u \<Rightarrow> Some (if length p \<ge> 20 \<and> drop_bit 4 (p ! 0) = 4 then source_text (source_of p) else [], unsupported_text u))"

definition VerifyAttribution ::
  "verify_env \<Rightarrow> (string \<Rightarrow> int \<Rightarrow> (int \<times> (AttributionRun \<times> AttributionChain) list) option) \<Rightarrow> VerifyPacket list \<Rightarrow> attribution_db
    \<Rightarrow> (verify_error + VerifyGroupResult list) \<times> attribution_db" where
  "VerifyAttribution env lookup packets db =
    (let idx = [0..<length packets]; key = (\<lambda>i. unsupported_key (vp_Data (packets ! i)));
         ukeys = sort_key (\<lambda>k. fst k @ CHR 0x00 # snd k) (remdups (List.map_filter key idx));
         out = map (\<lambda>k. (new_result (fst k) (filter (\<lambda>i. key i = Some k) idx))\<lparr>vg_Verdict := Some VerifyUnsupported, vg_Reason := snd k\<rparr>) ukeys in
     if length out > MaxVerifyGroups then (Inl ErrTooManyVerifyGroups, db)
     else let good = filter (\<lambda>i. key i = None) idx; src = (\<lambda>i. source_of (vp_Data (packets ! i)));
         sources = sort (remdups (map src good)) in
       case form_sources packets lookup (\<lambda>a. filter (\<lambda>i. src i = a) good) sources (length out, out, []) of
         Inl e \<Rightarrow> (Inl e, db)
       | Inr (_, out, grps) \<Rightarrow> verify_groups env packets grps out db)"

definition verifyCandidates :: "attribution_db \<Rightarrow> string \<Rightarrow> int \<Rightarrow> (int \<times> (AttributionRun \<times> AttributionChain) list) option" where
  "verifyCandidates db ip at = Some (retained_from db, ListAttributionCandidates ip (i64 at) (maxVerifyRuns + 1) db)"

section \<open>Matching\<close>

lemma run_matches_iff:
  assumes "HashInput p = Inr inp"
  shows "run_matches hkdf key p i \<longleftrightarrow> carries_tag hkdf key i p"
proof -
  have "6 \<le> length p" using assms by (auto simp: HashInput_def Let_def split: if_splits)
  then obtain t where "PacketID p = Some t" by (auto simp: PacketID_def)
  then show ?thesis using assms by (auto simp: run_matches_def carries_tag_def PacketTag_def split: sum.splits)
qed

lemma common_step_first: "common_step [] acc = acc" "m \<noteq> [] \<Longrightarrow> common_step m ([], 0) = (m, Suc 0)"
  by (simp_all add: common_step_def)

lemma common_fold_later:
  "fold common_step ms (c0, Suc n0) = (c, n) \<Longrightarrow> n \<noteq> 0 \<and> set c = {r \<in> set c0. \<forall>m \<in> set ms. m \<noteq> [] \<longrightarrow> r \<in> set m}"
  by (induction ms arbitrary: c0 n0) (auto simp: common_step_def split: if_splits)

lemma common_fold:
  assumes "fold common_step ms ([], 0) = (c, n)"
  shows "n = 0 \<longleftrightarrow> (\<forall>m \<in> set ms. m = [])" "n \<noteq> 0 \<Longrightarrow> set c = {r. \<forall>m \<in> set ms. m \<noteq> [] \<longrightarrow> r \<in> set m}"
proof -
  have "(n = 0 \<longleftrightarrow> (\<forall>m \<in> set ms. m = [])) \<and> (n \<noteq> 0 \<longrightarrow> set c = {r. \<forall>m \<in> set ms. m \<noteq> [] \<longrightarrow> r \<in> set m})" using assms
  proof (induction ms)
    case (Cons m ms)
    show ?case
    proof (cases "m = []")
      case True
      then show ?thesis using Cons by (auto simp: common_step_first)
    next
      case False
      then have "fold common_step ms (m, Suc 0) = (c, n)" using Cons.prems by (simp add: common_step_first)
      from common_fold_later [OF this] show ?thesis using False by auto
    qed
  qed simp
  then show "n = 0 \<longleftrightarrow> (\<forall>m \<in> set ms. m = [])" "n \<noteq> 0 \<Longrightarrow> set c = {r. \<forall>m \<in> set ms. m \<noteq> [] \<longrightarrow> r \<in> set m}" by auto
qed

lemma partition_by_kind:
  "distinct ks \<Longrightarrow> mset (concat (map (\<lambda>k. filter (\<lambda>x. f x = k) xs) ks)) = filter_mset (\<lambda>x. f x \<in> set ks) (mset xs)"
proof (induction ks)
  case (Cons k ks)
  then have "filter_mset (\<lambda>x. f x \<in> set (k # ks)) (mset xs) = filter_mset (\<lambda>x. f x = k) (mset xs) + filter_mset (\<lambda>x. f x \<in> set ks) (mset xs)"
    by (auto simp: multiset_eq_iff)
  then show ?case using Cons by simp
qed simp

text \<open>The parts of \<open>matchRuns\<close>.\<close>

definition run_lists :: "hkdf \<Rightarrow> byte list \<Rightarrow> string list \<Rightarrow> VerifyPacket list \<Rightarrow> nat list \<Rightarrow> string list list" where
  "run_lists hkdf key runs packets idx = map (\<lambda>i. filter (run_matches hkdf key (vp_Data (packets ! i))) runs) idx"

definition tagged_as :: "string list \<Rightarrow> string list list \<Rightarrow> nat list \<Rightarrow> assigned \<Rightarrow> nat list" where
  "tagged_as common ms idx a = map fst (filter (\<lambda>x. snd x = a) (zip idx (map (assign common) ms)))"

definition matched_runs :: "string list \<Rightarrow> string list list \<Rightarrow> string list" where
  "matched_runs common ms = sort (remdups (concat (map (\<lambda>m. case assign common m of ToRun r \<Rightarrow> [r] | _ \<Rightarrow> []) ms)))"

lemma matchRuns_parts:
  assumes ms: "ms = run_lists hkdf key runs packets (vg_Packets base)" and f: "fold common_step ms ([], 0) = (common, matched)"
  shows "matchRuns hkdf key runs base packets =
    (if matched = 0 then [base\<lparr>vg_Verdict := Some VerifyInvalid, vg_Reason := ''tag_mismatch''\<rparr>]
     else map (\<lambda>r. base\<lparr>vg_Packets := tagged_as common ms (vg_Packets base) (ToRun r), vg_RunID := r, vg_Verdict := Some VerifyVerified\<rparr>) (matched_runs common ms)
       @ (let ps = tagged_as common ms (vg_Packets base) Ambiguous in if ps = [] then [] else [base\<lparr>vg_Packets := ps, vg_Verdict := Some VerifyUnsupported, vg_Reason := ''ambiguous''\<rparr>])
       @ (let ps = tagged_as common ms (vg_Packets base) Unmatched in if ps = [] then [] else [base\<lparr>vg_Packets := ps, vg_Verdict := Some VerifyUnsupported, vg_Reason := ''unmatched''\<rparr>]))"
proof -
  have len: "length (vg_Packets base) = length ms" by (simp add: ms run_lists_def)
  have "map (\<lambda>x. case snd x of ToRun r \<Rightarrow> [r] | _ \<Rightarrow> []) (zip (vg_Packets base) (map (assign common) ms)) = map (\<lambda>a. case a of ToRun r \<Rightarrow> [r] | _ \<Rightarrow> []) (map snd (zip (vg_Packets base) (map (assign common) ms)))"
    by simp
  also have "\<dots> = map (\<lambda>m. case assign common m of ToRun r \<Rightarrow> [r] | _ \<Rightarrow> []) ms" using len by (simp add: o_def)
  finally show ?thesis unfolding matchRuns_def run_lists_def [symmetric] ms [symmetric]
    using f by (simp add: Let_def tagged_as_def matched_runs_def)
qed

lemma tagged_as_set:
  assumes "ms = run_lists hkdf key runs packets idx"
  shows "i \<in> set (tagged_as common ms idx a) \<Longrightarrow> assign common (filter (run_matches hkdf key (vp_Data (packets ! i))) runs) = a \<and> i \<in> set idx"
  unfolding assms run_lists_def tagged_as_def by (auto simp: set_zip)

lemma assign_run: "assign common m = ToRun r \<Longrightarrow> (m \<noteq> [] \<Longrightarrow> set common \<subseteq> set m) \<Longrightarrow> r \<in> set m"
  by (cases m; cases common) (auto simp: assign_def split: if_splits)

lemma tagged_as_all:
  assumes len: "length idx = length ms"
  shows "mset (concat (map (tagged_as common ms idx) (map ToRun (matched_runs common ms) @ [Ambiguous, Unmatched]))) = mset idx"
proof -
  define zs where "zs = zip idx (map (assign common) ms)"
  define ks where "ks = map ToRun (matched_runs common ms) @ [Ambiguous, Unmatched]"
  have d: "distinct ks" by (auto simp: ks_def matched_runs_def distinct_map inj_on_def)
  have all: "snd z \<in> set ks" if z: "z \<in> set zs" for z
  proof -
    have "snd z \<in> set (map (assign common) ms)" using z unfolding zs_def by (metis prod.collapse set_zip_rightD)
    then obtain m where m: "m \<in> set ms" "snd z = assign common m" by auto
    then show ?thesis by (cases "assign common m") (force simp: ks_def matched_runs_def)+
  qed
  have "tagged_as common ms idx = (\<lambda>a. map fst (filter (\<lambda>x. snd x = a) zs))" by (simp add: tagged_as_def [abs_def] zs_def)
  then have "concat (map (tagged_as common ms idx) ks) = map fst (concat (map (\<lambda>k. filter (\<lambda>x. snd x = k) zs) ks))" by (simp add: map_concat o_def)
  also have "mset \<dots> = image_mset fst (filter_mset (\<lambda>x. snd x \<in> set ks) (mset zs))" using partition_by_kind [OF d, of snd zs] by simp
  also have "filter_mset (\<lambda>x. snd x \<in> set ks) (mset zs) = mset zs" using all by (auto simp: filter_mset_eq_conv)
  finally show ?thesis using len by (simp add: ks_def zs_def flip: mset_map)
qed

text \<open>A single run that reproduces every packet takes them all.\<close>

lemma common_distinct: "fold common_step ms (c0, n0) = (c, n) \<Longrightarrow> distinct c0 \<Longrightarrow> \<forall>m \<in> set ms. distinct m \<Longrightarrow> distinct c"
  by (induction ms arbitrary: c0 n0) (auto simp: common_step_def split: if_splits)

lemma matchRuns_single:
  assumes d: "distinct runs" and ne: "vg_Packets base \<noteq> []"
    and one: "{r \<in> set runs. \<forall>i \<in> set (vg_Packets base). run_matches hkdf key (vp_Data (packets ! i)) r} = {run}"
  shows "matchRuns hkdf key runs base packets = [base\<lparr>vg_RunID := run, vg_Verdict := Some VerifyVerified\<rparr>]"
proof -
  define ms where "ms = run_lists hkdf key runs packets (vg_Packets base)"
  obtain common matched where f: "fold common_step ms ([], 0) = (common, matched)" by (metis prod.exhaust)
  have "run \<in> {r \<in> set runs. \<forall>i \<in> set (vg_Packets base). run_matches hkdf key (vp_Data (packets ! i)) r}"
    unfolding one by simp
  then have run: "run \<in> set m" if "m \<in> set ms" for m using that by (auto simp: ms_def run_lists_def)
  have len: "length (vg_Packets base) = length ms" by (simp add: ms_def run_lists_def)
  then have ms: "ms \<noteq> []" using ne by auto
  have ex: "m \<noteq> []" if "m \<in> set ms" for m using run [OF that] by auto
  have nz: "matched \<noteq> 0"
  proof -
    obtain m where "m \<in> set ms" using ms by (cases ms) auto
    then show ?thesis using common_fold(1) [OF f] ex by blast
  qed
  have "set common = {r. \<forall>m \<in> set ms. r \<in> set m}" using common_fold(2) [OF f nz] ex by simp
  also have "\<dots> = {r \<in> set runs. \<forall>i \<in> set (vg_Packets base). run_matches hkdf key (vp_Data (packets ! i)) r}"
    using ne by (cases "vg_Packets base") (auto simp: ms_def run_lists_def)
  also note one
  finally have common_set: "set common = {run}" .
  have "distinct common" using common_distinct [OF f] d by (auto simp: ms_def run_lists_def)
  then have "length common = 1" using common_set distinct_card [of common] by simp
  then obtain x where "common = [x]" by (auto simp: length_Suc_conv)
  then have common_run: "common = [run]" using common_set by simp
  have as: "map (assign common) ms = replicate (length ms) (ToRun run)"
  proof (intro replicate_eqI)
    fix y assume "y \<in> set (map (assign common) ms)"
    then obtain m where "m \<in> set ms" "y = assign common m" by auto
    then show "y = ToRun run" using ex by (simp add: common_run assign_def)
  qed simp
  have "matched_runs common ms = sort (remdups (concat (map (\<lambda>a. case a of ToRun r \<Rightarrow> [r] | _ \<Rightarrow> []) (map (assign common) ms))))" by (simp add: matched_runs_def o_def)
  also have "\<dots> = [run]"
  proof -
    have "remdups (replicate n x) = [x]" if "n \<noteq> 0" for n and x :: string using that by (induction n) (auto split: if_splits)
    moreover have "concat (replicate n [x]) = replicate n x" for n and x :: string by (induction n) auto
    ultimately show ?thesis unfolding as using ms by simp
  qed
  finally have runs: "matched_runs common ms = [run]" .
  have all: "tagged_as common ms (vg_Packets base) a = (if a = ToRun run then vg_Packets base else [])" for a
  proof -
    have z: "zip xs (replicate (length xs) (ToRun run)) = map (\<lambda>x. (x, ToRun run)) xs" for xs :: "nat list" by (induction xs) auto
    show ?thesis unfolding tagged_as_def as len [symmetric] z by (simp add: filter_map o_def)
  qed
  show ?thesis using matchRuns_parts [OF ms_def f] nz by (simp add: runs all)
qed

text \<open>Whether there is a match or not, the results partition the packets.\<close>

lemma matchRuns_mset: "mset (concat (map vg_Packets (matchRuns hkdf key runs base packets))) = mset (vg_Packets base)"
proof -
  define ms where "ms = run_lists hkdf key runs packets (vg_Packets base)"
  obtain common matched where f: "fold common_step ms ([], 0) = (common, matched)" by (metis prod.exhaust)
  note parts = matchRuns_parts [OF ms_def f]
  have len: "length (vg_Packets base) = length ms" by (simp add: ms_def run_lists_def)
  show ?thesis
  proof (cases "matched = 0")
    case False
    then have "concat (map vg_Packets (matchRuns hkdf key runs base packets))
      = concat (map (tagged_as common ms (vg_Packets base)) (map ToRun (matched_runs common ms) @ [Ambiguous, Unmatched]))"
      unfolding parts by (simp add: Let_def o_def)
    then show ?thesis using tagged_as_all [OF len] by simp
  qed (simp add: parts)
qed

section \<open>Properties\<close>


text \<open>A group keeps its packets, whatever its verdict.\<close>

definition packets_of :: "VerifyGroupResult list \<Rightarrow> nat set" where
  "packets_of rs = (\<Union>r \<in> set rs. set (vg_Packets r))"

lemma packets_of_simps [simp]: "packets_of [] = {}" "packets_of (r # rs) = set (vg_Packets r) \<union> packets_of rs" "packets_of (rs @ ss) = packets_of rs \<union> packets_of ss"
  by (auto simp: packets_of_def)

lemma matchRuns_packets: "packets_of (matchRuns hkdf key runs base packets) = set (vg_Packets base)"
proof -
  have "set_mset (mset (concat (map vg_Packets (matchRuns hkdf key runs base packets)))) = set_mset (mset (vg_Packets base))"
    using matchRuns_mset by metis
  then show ?thesis by (simp add: packets_of_def)
qed

lemma verifyGroup_packets:
  assumes "verifyGroup env c epoch indices packets db = (rs, asked, db')"
  shows "packets_of rs = set indices"
  using assms by (auto simp: verifyGroup_def Let_def new_result_def matchRuns_packets
      split: if_splits option.splits prod.splits spend_result.splits)

lemma verify_groups_packets:
  "verify_groups env packets gs out db = (Inr rs, db') \<Longrightarrow> packets_of rs = packets_of out \<union> (\<Union>g \<in> set gs. set (cg_packets g)) \<and> (gs = [] \<longrightarrow> rs = out)
    \<and> (gs \<noteq> [] \<longrightarrow> length rs \<le> MaxVerifyGroups)"
proof (induction gs arbitrary: out db)
  case (Cons g gs)
  obtain rs1 asked db1 where v: "verifyGroup env (cg_chain g) (cg_epoch g) (cg_packets g) packets db = (rs1, asked, db1)" by (metis prod_cases3)
  then have r: "length (out @ rs1) \<le> MaxVerifyGroups" "verify_groups env packets gs (out @ rs1) db1 = (Inr rs, db')"
    using Cons.prems by (auto split: if_splits)
  show ?case using Cons.IH [OF r(2)] verifyGroup_packets [OF v] r(1) by (cases "gs = []") auto
qed simp

lemma form_window_packets:
  assumes "form_window packets src retainedFrom rows idx = (n, rs, gs)" "idx \<noteq> []"
  shows "packets_of rs \<union> (\<Union>g \<in> set gs. set (cg_packets g)) = set (take n idx)" "0 < n"
proof -
  have "packets_of rs \<union> (\<Union>g \<in> set gs. set (cg_packets g)) = set (take n idx) \<and> 0 < n"
    using assms by (auto simp: form_window_def Let_def new_result_def split: prod.splits if_splits)
  then show "packets_of rs \<union> (\<Union>g \<in> set gs. set (cg_packets g)) = set (take n idx)" "0 < n" by auto
qed

definition covered :: "nat \<times> VerifyGroupResult list \<times> chainGroup list \<Rightarrow> nat set" where
  "covered acc = packets_of (fst (snd acc)) \<union> (\<Union>g \<in> set (snd (snd acc)). set (cg_packets g))"

definition counted :: "nat \<times> VerifyGroupResult list \<times> chainGroup list \<Rightarrow> bool" where
  "counted acc \<longleftrightarrow> fst acc = length (fst (snd acc)) + length (snd (snd acc)) \<and> fst acc \<le> MaxVerifyGroups"

lemma form_source_packets:
  "form_source packets lookup src idx acc = Inr acc' \<Longrightarrow> counted acc \<Longrightarrow> counted acc' \<and> covered acc' = covered acc \<union> set idx"
proof (induction packets lookup src idx acc arbitrary: acc' rule: form_source.induct)
  case (2 packets lookup src i "is" formed out grps)
  obtain ret rows where l: "lookup src (vp_CapturedAt (packets ! i)) = Some (ret, rows)" "\<not> formed \<ge> MaxVerifyGroups"
    using "2.prems"(1) by (auto split: if_splits option.splits)
  obtain n rs gs where w: "form_window packets src ret rows (i # is) = (n, rs, gs)" by (metis prod_cases3)
  have r: "\<not> formed + length rs + length gs > MaxVerifyGroups"
    "form_source packets lookup src (drop n (i # is)) (formed + length rs + length gs, out @ rs, grps @ gs) = Inr acc'"
    using "2.prems"(1) l w by (auto simp: Let_def split: if_splits)
  have c: "counted (formed + length rs + length gs, out @ rs, grps @ gs)" using "2.prems"(2) r(1) by (auto simp: counted_def)
  have "counted acc' \<and> covered acc' = covered (formed + length rs + length gs, out @ rs, grps @ gs) \<union> set (drop n (i # is))"
    by (rule "2.IH" [OF l(2) l(1) refl w [symmetric] refl refl r(1) r(2) c])
  moreover have "covered (formed + length rs + length gs, out @ rs, grps @ gs) = covered (formed, out, grps) \<union> set (take n (i # is))"
    using form_window_packets [OF w] by (auto simp: covered_def)
  moreover have "set (take n (i # is)) \<union> set (drop n (i # is)) = set (i # is)" by (metis append_take_drop_id set_append)
  ultimately show ?case by auto
qed simp

lemma form_sources_packets:
  "form_sources packets lookup bySource as acc = Inr acc' \<Longrightarrow> counted acc \<Longrightarrow> counted acc' \<and> covered acc' = covered acc \<union> (\<Union>a \<in> set as. set (bySource a))"
proof (induction "as" arbitrary: acc)
  case (Cons a "as")
  then obtain acc1 where s: "form_source packets lookup (source_text a) (sort_key (\<lambda>i. vp_CapturedAt (packets ! i)) (bySource a)) acc = Inr acc1"
    "form_sources packets lookup bySource as acc1 = Inr acc'" by (auto simp: res_bind_Inr_iff)
  show ?case using form_source_packets [OF s(1) Cons.prems(2)] Cons.IH [OF s(2)] by auto
qed simp

text \<open>A verification that succeeds answers for every packet of the request: each occurs in a result, no result names another index, and there are at most
  sixteen results.\<close>

theorem VerifyAttribution_covers:
  assumes "VerifyAttribution env lookup packets db = (Inr rs, db')"
  shows "packets_of rs = {..<length packets} \<and> length rs \<le> MaxVerifyGroups"
proof -
  define idx where "idx = [0..<length packets]"
  define key where "key = (\<lambda>i. unsupported_key (vp_Data (packets ! i)))"
  define ukeys where "ukeys = sort_key (\<lambda>k. fst k @ CHR 0x00 # snd k) (remdups (List.map_filter key idx))"
  define out where "out = map (\<lambda>k. (new_result (fst k) (filter (\<lambda>i. key i = Some k) idx))\<lparr>vg_Verdict := Some VerifyUnsupported, vg_Reason := snd k\<rparr>) ukeys"
  define good where "good = filter (\<lambda>i. key i = None) idx"
  define src where "src = (\<lambda>i. source_of (vp_Data (packets ! i)))"
  note defs = idx_def [symmetric] key_def [symmetric] ukeys_def [symmetric] out_def [symmetric] good_def [symmetric] src_def [symmetric]
  have len: "length out \<le> MaxVerifyGroups" using assms unfolding VerifyAttribution_def Let_def defs by (auto split: if_splits)
  obtain formed out' grps where f: "form_sources packets lookup (\<lambda>a. filter (\<lambda>i. src i = a) good) (sort (remdups (map src good))) (length out, out, []) = Inr (formed, out', grps)"
    "verify_groups env packets grps out' db = (Inr rs, db')"
    using assms len unfolding VerifyAttribution_def Let_def defs by (auto split: if_splits sum.splits)
  have "counted (length out, out, [])" using len by (simp add: counted_def)
  from form_sources_packets [OF f(1) this] have c: "counted (formed, out', grps)" "covered (formed, out', grps) = covered (length out, out, []) \<union> set good" by auto
  have "covered (length out, out, []) = {i \<in> set idx. key i \<noteq> None}"
    by (auto simp: covered_def out_def packets_of_def new_result_def ukeys_def List.map_filter_def)
  then have "covered (formed, out', grps) = {..<length packets}" using c(2) by (auto simp: good_def idx_def)
  moreover have "packets_of rs = covered (formed, out', grps)" using verify_groups_packets [OF f(2)] by (simp add: covered_def)
  moreover have "length rs \<le> MaxVerifyGroups" using verify_groups_packets [OF f(2)] c(1) by (cases "grps = []") (auto simp: counted_def)
  ultimately show ?thesis by simp
qed

section \<open>The budget\<close>

definition used_of :: "string \<Rightarrow> string \<Rightarrow> int \<Rightarrow> attribution_db \<Rightarrow> int" where
  "used_of ex cid e db = (case GetAttributionVerifyBudget ex cid e db of None \<Rightarrow> 0 | Some u \<Rightarrow> u)"

lemma find_filter: "(\<And>x. P x \<Longrightarrow> Q x) \<Longrightarrow> find P (filter Q xs) = find P xs"
  by (induction xs) auto

lemma find_SomeD: "find P xs = Some x \<Longrightarrow> P x"
  by (auto simp: find_Some_iff)

lemma find_map: "(\<And>x. P (f x) = P x) \<Longrightarrow> find P (map f xs) = map_option f (find P xs)"
  by (induction xs) auto

lemma spend_same:
  assumes "SpendAttributionVerifyBudget ex cid e t db = Some (u, db')"
  shows "used_of ex cid e db' = used_of ex cid e db + t" "u = used_of ex cid e db'" "t \<le> 16 \<Longrightarrow> u \<le> 16" "attribution_chains db' = attribution_chains db"
proof -
  let ?is = "\<lambda>b. br_executor b = ex \<and> br_chain_id b = cid \<and> br_epoch b = e"
  have m: "find ?is (map (\<lambda>b. if ?is b then b\<lparr>br_used := v\<rparr> else b) xs) = map_option (\<lambda>b. if ?is b then b\<lparr>br_used := v\<rparr> else b) (find ?is xs)" for v xs
    by (rule find_map) simp
  show "used_of ex cid e db' = used_of ex cid e db + t" "u = used_of ex cid e db'" "t \<le> 16 \<Longrightarrow> u \<le> 16" "attribution_chains db' = attribution_chains db"
    using assms m [of _ "verify_budget db"]
    by (auto simp: SpendAttributionVerifyBudget_def used_of_def GetAttributionVerifyBudget_def find_append split: option.splits if_splits dest: find_SomeD)
qed

lemma spend_other:
  assumes "SpendAttributionVerifyBudget ex cid e t db = Some (u, db')" "(ex', cid', e') \<noteq> (ex, cid, e)"
  shows "used_of ex' cid' e' db' = used_of ex' cid' e' db"
proof -
  let ?is = "\<lambda>b. br_executor b = ex' \<and> br_chain_id b = cid' \<and> br_epoch b = e'"
  let ?f = "\<lambda>v b. if br_executor b = ex \<and> br_chain_id b = cid \<and> br_epoch b = e then b\<lparr>br_used := v\<rparr> else b"
  have m: "map_option br_used (find ?is (map (?f v) xs)) = map_option br_used (find ?is xs)" for v xs
    using assms(2) by (induction xs) auto
  have "GetAttributionVerifyBudget ex' cid' e' db' = GetAttributionVerifyBudget ex' cid' e' db"
  proof (cases "GetAttributionVerifyBudget ex cid e db")
    case None
    then show ?thesis using assms by (cases "find ?is (verify_budget db)") (auto simp: SpendAttributionVerifyBudget_def GetAttributionVerifyBudget_def find_append)
  next
    case (Some v)
    then show ?thesis using assms(1) m [of _ "verify_budget db"] by (auto simp: SpendAttributionVerifyBudget_def GetAttributionVerifyBudget_def split: if_splits)
  qed
  then show ?thesis by (simp add: used_of_def)
qed

lemma prune_budget:
  assumes "c \<in> set (attribution_chains db)" "0 < cr_interval c" "now < cr_t0 c + (e + cr_delay c) * cr_interval c"
  shows "used_of (cr_executor c) (cr_chain_id c) e (PruneAttributionVerifyBudget now db) = used_of (cr_executor c) (cr_chain_id c) e db"
proof -
  have "find (\<lambda>b. br_executor b = cr_executor c \<and> br_chain_id b = cr_chain_id c \<and> br_epoch b = e) (verify_budget (PruneAttributionVerifyBudget now db))
    = find (\<lambda>b. br_executor b = cr_executor c \<and> br_chain_id b = cr_chain_id c \<and> br_epoch b = e) (verify_budget db)"
    unfolding PruneAttributionVerifyBudget_def using assms by (simp, intro find_filter) (auto simp: chain_is_def)
  then show ?thesis by (simp add: used_of_def GetAttributionVerifyBudget_def)
qed

lemma prune_budget_any: "used_of ex cid e (PruneAttributionVerifyBudget now db) \<in> {0, used_of ex cid e db}"
proof -
  let ?is = "\<lambda>b. br_executor b = ex \<and> br_chain_id b = cid \<and> br_epoch b = e"
  let ?keep = "\<lambda>b. \<exists>c \<in> set (attribution_chains db). chain_is (br_executor b) (br_chain_id b) c \<and> cr_interval c > 0 \<and> cr_t0 c + (br_epoch b + cr_delay c) * cr_interval c > now"
  have "find ?is (filter ?keep xs) = find ?is xs \<or> find ?is (filter ?keep xs) = None" for xs
  proof (cases "\<exists>c \<in> set (attribution_chains db). chain_is ex cid c \<and> cr_interval c > 0 \<and> cr_t0 c + (e + cr_delay c) * cr_interval c > now")
    case True
    then have "find ?is (filter ?keep xs) = find ?is xs" by (intro find_filter) blast
    then show ?thesis ..
  next
    case False
    then have "find ?is (filter ?keep xs) = None" by (auto simp: find_None_iff)
    then show ?thesis ..
  qed
  from this [of "verify_budget db"] show ?thesis
    by (elim disjE) (simp_all add: used_of_def GetAttributionVerifyBudget_def PruneAttributionVerifyBudget_def)
qed

lemma verifyGroup_asked:
  assumes "verifyGroup env c epoch indices packets db = (rs, asked, db')"
  shows "asked \<Longrightarrow> ve_now env < epochStart (vc_row c) (i64 (epoch + cr_delay (vc_row c))) \<and> length (vc_runs c) \<le> 16
      \<and> recordedEpochKey (ve_sha env) (cr_executor (vc_row c)) (cr_chain_id (vc_row c)) epoch db = None
      \<and> (\<exists>u. SpendAttributionVerifyBudget (cr_executor (vc_row c)) (cr_chain_id (vc_row c)) epoch (int (length (vc_runs c))) (PruneAttributionVerifyBudget (ve_now env) db) = Some (u, db'))"
    and "\<not> asked \<Longrightarrow> db' = db"
  using assms by (auto simp: verifyGroup_def Let_def spendVerifyBudget_def VerifyBudget_def split: if_splits option.splits prod.splits spend_result.splits)

text \<open>A sequence of verifications, and the trials that the executor made for one chain and epoch.\<close>

record verify_call =
  vl_env :: verify_env
  vl_chain :: verifyChain
  vl_epoch :: int
  vl_indices :: "nat list"
  vl_packets :: "VerifyPacket list"

fun trials :: "string \<Rightarrow> string \<Rightarrow> int \<Rightarrow> verify_call list \<Rightarrow> attribution_db \<Rightarrow> int" where
  "trials ex cid e [] db = 0"
| "trials ex cid e (v # vs) db = (case verifyGroup (vl_env v) (vl_chain v) (vl_epoch v) (vl_indices v) (vl_packets v) db of (_, asked, db') \<Rightarrow>
     (if asked \<and> chain_is ex cid (vc_row (vl_chain v)) \<and> vl_epoch v = e then int (length (vc_runs (vl_chain v))) else 0) + trials ex cid e vs db')"

definition no_wrap :: "AttributionChain \<Rightarrow> int \<Rightarrow> bool" where
  "no_wrap c e \<longleftrightarrow> in_i64 (e + cr_delay c) \<and> in_i64 ((e + cr_delay c) * cr_interval c) \<and> in_i64 (cr_t0 c + (e + cr_delay c) * cr_interval c)"

lemma trials_bound:
  assumes c: "chains_unique db" "c \<in> set (attribution_chains db)" "0 < cr_interval c" "no_wrap c e"
    and vs: "\<forall>v \<in> set vs. vc_row (vl_chain v) \<in> set (attribution_chains db)" "sorted (map (\<lambda>v. ve_now (vl_env v)) vs)" "used_of (cr_executor c) (cr_chain_id c) e db \<le> 16"
  shows "trials (cr_executor c) (cr_chain_id c) e vs db \<le> 16 - used_of (cr_executor c) (cr_chain_id c) e db
    \<and> ((\<forall>v \<in> set vs. cr_t0 c + (e + cr_delay c) * cr_interval c \<le> ve_now (vl_env v)) \<longrightarrow> trials (cr_executor c) (cr_chain_id c) e vs db = 0)"
  using c(1,2) vs
proof (induction vs arbitrary: db)
  case (Cons v vs)
  let ?due = "cr_t0 c + (e + cr_delay c) * cr_interval c" and ?now = "ve_now (vl_env v)" and ?u = "used_of (cr_executor c) (cr_chain_id c) e"
  let ?mine = "chain_is (cr_executor c) (cr_chain_id c) (vc_row (vl_chain v)) \<and> vl_epoch v = e"
  have row: "vc_row (vl_chain v) = c" if "chain_is (cr_executor c) (cr_chain_id c) (vc_row (vl_chain v))"
    using GetAttributionChain_unique [OF Cons.prems(1)] that Cons.prems(2,3) by (metis chain_is_def list.set_intros(1) option.inject)
  have due: "epochStart c (i64 (e + cr_delay c)) = ?due" using c(4) by (simp add: epochStart_def no_wrap_def i64_id)
  obtain rs asked db' where g: "verifyGroup (vl_env v) (vl_chain v) (vl_epoch v) (vl_indices v) (vl_packets v) db = (rs, asked, db')" by (metis prod_cases3)
  note a = verifyGroup_asked [OF g]
  have same: "chains_unique db'" "attribution_chains db' = attribution_chains db"
    using a spend_same(4) Cons.prems(1) by (cases asked; fastforce simp: chains_unique_def PruneAttributionVerifyBudget_def)+
  have mine: "?now < ?due" if "asked" "?mine" using a(1) that row due by auto
  have early: "?u db' = ?u db + (if asked \<and> ?mine then int (length (vc_runs (vl_chain v))) else 0) \<and> ?u db' \<le> 16" if "?now < ?due"
  proof (cases asked)
    case True
    then obtain x where s: "SpendAttributionVerifyBudget (cr_executor (vc_row (vl_chain v))) (cr_chain_id (vc_row (vl_chain v))) (vl_epoch v)
        (int (length (vc_runs (vl_chain v)))) (PruneAttributionVerifyBudget ?now db) = Some (x, db')" and len: "length (vc_runs (vl_chain v)) \<le> 16" using a(1) by blast
    note p = prune_budget [OF Cons.prems(2) c(3) that]
    show ?thesis
    proof (cases ?mine)
      case True
      then have "cr_executor (vc_row (vl_chain v)) = cr_executor c" "cr_chain_id (vc_row (vl_chain v)) = cr_chain_id c" "vl_epoch v = e" by (simp_all add: chain_is_def)
      then show ?thesis using spend_same [OF s] p len \<open>asked\<close> True by simp
    next
      case False
      then have "(cr_executor c, cr_chain_id c, e) \<noteq> (cr_executor (vc_row (vl_chain v)), cr_chain_id (vc_row (vl_chain v)), vl_epoch v)" by (auto simp: chain_is_def)
      then show ?thesis using spend_other [OF s] p Cons.prems(5) False by auto
    qed
  qed (use a(2) Cons.prems(5) in simp)
  have late: "\<forall>w \<in> set (v # vs). ?due \<le> ve_now (vl_env w)" if "?due \<le> ?now" using that Cons.prems(4) by auto
  show ?case
  proof (cases "?now < ?due")
    case True
    have "trials (cr_executor c) (cr_chain_id c) e vs db' \<le> 16 - ?u db'"
      using Cons.IH [of db'] same Cons.prems early [OF True] by auto
    then show ?thesis using g early [OF True] True by auto
  next
    case False
    then have n: "\<not> (asked \<and> ?mine)" using mine by auto
    have l: "\<forall>w \<in> set vs. ?due \<le> ve_now (vl_env w)" using late False by auto
    have "?u db' \<le> 16"
    proof (cases asked)
      case True
      then obtain x where s: "SpendAttributionVerifyBudget (cr_executor (vc_row (vl_chain v))) (cr_chain_id (vc_row (vl_chain v))) (vl_epoch v)
          (int (length (vc_runs (vl_chain v)))) (PruneAttributionVerifyBudget ?now db) = Some (x, db')" using a(1) by blast
      have "(cr_executor c, cr_chain_id c, e) \<noteq> (cr_executor (vc_row (vl_chain v)), cr_chain_id (vc_row (vl_chain v)), vl_epoch v)" using n True by (auto simp: chain_is_def)
      then show ?thesis using spend_other [OF s] prune_budget_any [of "cr_executor c" "cr_chain_id c" e ?now db] Cons.prems(5) by auto
    qed (use a(2) Cons.prems(5) in simp)
    then have "trials (cr_executor c) (cr_chain_id c) e vs db' = 0" using Cons.IH [of db'] same Cons.prems l by auto
    then show ?thesis using g n Cons.prems(5) by auto
  qed
qed simp

text \<open>C17: The budget holds. Over any sequence of verifications with a clock that does not go back, the executor tests at most sixteen candidates for one chain
  and epoch in total, although the counts of epochs that are due are dropped on the way, and it is never asked from the instant at which the key
  is due for disclosure.\<close>

theorem VerifyBudget_total:
  assumes "chains_unique db" "c \<in> set (attribution_chains db)" "0 < cr_interval c" "no_wrap c e" "GetAttributionVerifyBudget (cr_executor c) (cr_chain_id c) e db = None"
    and "\<forall>v \<in> set vs. vc_row (vl_chain v) \<in> set (attribution_chains db)" "sorted (map (\<lambda>v. ve_now (vl_env v)) vs)"
  shows "trials (cr_executor c) (cr_chain_id c) e vs db \<le> VerifyBudget
    \<and> ((\<forall>v \<in> set vs. cr_t0 c + (e + cr_delay c) * cr_interval c \<le> ve_now (vl_env v)) \<longrightarrow> trials (cr_executor c) (cr_chain_id c) e vs db = 0)"
proof -
  have "used_of (cr_executor c) (cr_chain_id c) e db = 0" using assms(5) by (simp add: used_of_def)
  then show ?thesis using trials_bound [OF assms(1-4,6,7)] by (simp add: VerifyBudget_def)
qed

section \<open>Instances\<close>

definition toy_env :: verify_env where
  "toy_env = \<lparr>ve_hkdf = (\<lambda>_ _ _. None), ve_sha = (\<lambda>x. x), ve_now = 45, ve_owner = (\<lambda>_ _. True), ve_reply = (\<lambda>_ _ _ _. None), ve_fails = (\<lambda>_. False)\<rparr>"

definition toy_call :: verify_call where
  "toy_call = \<lparr>vl_env = toy_env, vl_chain = \<lparr>vc_row = sample_chain, vc_runs = [''r'', ''s'']\<rparr>, vl_epoch = 3, vl_indices = [0], vl_packets = [\<lparr>vp_Data = probe, vp_CapturedAt = 35\<rparr>]\<rparr>"


theorem VerifyAttribution_covers_witness:
  "\<exists>rs. fst (VerifyAttribution toy_env (\<lambda>_ _. None) [\<lparr>vp_Data = [], vp_CapturedAt = 35\<rparr>] sample_db) = Inr rs \<and> packets_of rs = {..<1}"
proof -
  obtain rs db where "VerifyAttribution toy_env (\<lambda>_ _. None) [\<lparr>vp_Data = [], vp_CapturedAt = 35\<rparr>] sample_db = (Inr rs, db)"
    by (simp add: VerifyAttribution_def unsupported_key_def HashInput_def List.map_filter_def Let_def MaxVerifyGroups_def)
  then show ?thesis using VerifyAttribution_covers [of toy_env "\<lambda>_ _. None" "[\<lparr>vp_Data = [], vp_CapturedAt = 35\<rparr>]" sample_db rs db] by simp
qed

theorem VerifyBudget_total_witness: "trials ''x'' ''c'' 3 (replicate 20 toy_call) sample_db \<le> VerifyBudget"
proof -
  have c: "cr_executor sample_chain = ''x''" "cr_chain_id sample_chain = ''c''" "0 < cr_interval sample_chain" by (simp_all add: sample_chain_def)
  have "no_wrap sample_chain 3" by (simp add: no_wrap_def sample_chain_def in_i64_def i64_min_def i64_max_def)
  moreover have "chains_unique sample_db" "sample_chain \<in> set (attribution_chains sample_db)" "GetAttributionVerifyBudget (cr_executor sample_chain) (cr_chain_id sample_chain) 3 sample_db = None"
    by (simp_all add: chains_unique_def sample_db_def GetAttributionVerifyBudget_def)
  moreover have "\<forall>v \<in> set (replicate 20 toy_call). vc_row (vl_chain v) \<in> set (attribution_chains sample_db)" by (simp add: toy_call_def sample_db_def)
  moreover have "sorted (map (\<lambda>v. ve_now (vl_env v)) (replicate 20 toy_call))" by (simp add: map_replicate)
  ultimately show ?thesis using VerifyBudget_total [of sample_db sample_chain 3 "replicate 20 toy_call"] c by simp
qed

end
