(* ===== verification/Net_Policy.thy ===== *)
theory Net_Policy
  imports Net_Addr Tesla
begin

text \<open>
  The executor's half of the network policy that every guest connection passes, \<^verbatim>\<open>policy.go\<close> and \<^verbatim>\<open>egress.go\<close> of
  \<^verbatim>\<open>internal/executor/debuglet/netpolicy\<close>: the operator's denied destinations, permitted ports and transports, the
  destinations that the dispatcher revoked, and the allowance of an egress grant. The prefixes of
  \<open>net/netip\<close> are written out first. An error is the list of the sentinels it wraps, in the order in which
  \<open>errors.Join\<close> and \<open>%w\<close> add them, so that \<open>[]\<close> is \<open>nil\<close>; the text of messages is left out. The revocations are
  shared by all policies of a session and are passed as their current value. The token buckets
  of golang.org/x/time/rate answer through an argument.
\<close>

section \<open>Prefixes of the Go library\<close>

datatype prefix = Prefix (prefix_Addr: ip_addr) (prefix_Bits: nat)

fun addr_bytes :: "ip_addr \<Rightarrow> int list" where
  "addr_bytes (IPv4 bs) = bs"
| "addr_bytes (IPv6 bs _) = bs"

fun Is4 :: "ip_addr \<Rightarrow> bool" where
  "Is4 (IPv4 _) = True"
| "Is4 (IPv6 _ _) = False"

fun Addr_Zone :: "ip_addr \<Rightarrow> string" where
  "Addr_Zone (IPv4 _) = []"
| "Addr_Zone (IPv6 _ z) = z"

definition BitLen :: "ip_addr \<Rightarrow> nat" where
  "BitLen a = (if Is4 a then 32 else 128)"

definition Is4In6 :: "ip_addr \<Rightarrow> bool" where
  "Is4In6 a \<longleftrightarrow> \<not> Is4 a \<and> take 12 (addr_bytes a) = replicate 10 0 @ [255, 255]"

definition bytes_value :: "int list \<Rightarrow> int" where
  "bytes_value bs = foldl (\<lambda>v b. v * 256 + b) 0 bs"

definition PrefixFrom :: "ip_addr \<Rightarrow> nat \<Rightarrow> prefix" where
  "PrefixFrom a bits = Prefix (WithZone [] a) bits"

text \<open>The families agree, there is no zone, and the leading bits are the same.\<close>

definition Prefix_Contains :: "prefix \<Rightarrow> ip_addr \<Rightarrow> bool" where
  "Prefix_Contains p a \<longleftrightarrow> Is4 (prefix_Addr p) = Is4 a \<and> Addr_Zone a = []
     \<and> (let rest = 2 ^ (BitLen a - prefix_Bits p) in bytes_value (addr_bytes (prefix_Addr p)) div rest = bytes_value (addr_bytes a) div rest)"

definition ParsePrefix :: "string \<Rightarrow> prefix option" where
  "ParsePrefix s = (case last_index_of CHR ''/'' s of None \<Rightarrow> None
   | Some i \<Rightarrow> (case ParseAddr (take i s) of None \<Rightarrow> None
   | Some ip \<Rightarrow> let b = drop (i + 1) s in
       if Addr_Zone ip \<noteq> [] then None
       else if length b > 1 \<and> (byte (hd b) < 49 \<or> byte (hd b) > 57) then None
       else (case Atoi b of None \<Rightarrow> None
         | Some n \<Rightarrow> if n < 0 \<or> n > int (BitLen ip) then None else Some (PrefixFrom ip (nat n)))))"

text \<open>The byte at position \<open>i\<close> with the bits from \<open>bits\<close> on cleared.\<close>

definition mask_byte :: "nat \<Rightarrow> nat \<Rightarrow> int \<Rightarrow> int" where
  "mask_byte bits i b = (let k = 8 - min 8 (bits - 8 * i) in b div 2 ^ k * 2 ^ k)"

definition mask_bytes :: "nat \<Rightarrow> int list \<Rightarrow> int list" where
  "mask_bytes bits bs = map (\<lambda>i. mask_byte bits i (bs ! i)) [0..<length bs]"

definition Masked :: "prefix \<Rightarrow> prefix" where
  "Masked p = (case prefix_Addr p of IPv4 bs \<Rightarrow> Prefix (IPv4 (mask_bytes (prefix_Bits p) bs)) (prefix_Bits p)
     | IPv6 bs _ \<Rightarrow> Prefix (IPv6 (mask_bytes (prefix_Bits p) bs) []) (prefix_Bits p))"

section \<open>The operator's policy\<close>

datatype Transport = TCP | TLS | UDP | ICMP | SCION | Inbound

datatype refusal = ErrTransportUnavailable | ErrDenied | ErrNotInPolicy | ErrUntagged | ErrDestinationDenied
  | BadTarget host_error | ResolveFailed string | NoPrivilege

type_synonym errs = "refusal list"

text \<open>\<open>errors.Is\<close>; \<open>ErrDestinationDenied\<close> wraps \<open>ErrDenied\<close>.\<close>

definition errors_Is :: "errs \<Rightarrow> refusal \<Rightarrow> bool" where
  "errors_Is e r \<longleftrightarrow> r \<in> set e \<or> r = ErrDenied \<and> ErrDestinationDenied \<in> set e"

record NetSpec =
  ns_TCP :: bool
  ns_TLS :: bool
  ns_UDP :: bool
  ns_ICMP :: bool
  ns_SCION :: bool
  ns_Inbound :: bool
  ns_LocalTargets :: bool
  ns_DeniedDestinations :: string
  ns_PermittedPorts :: string

definition Defaults :: NetSpec where
  "Defaults = \<lparr>ns_TCP = True, ns_TLS = True, ns_UDP = True, ns_ICMP = True, ns_SCION = False, ns_Inbound = True, ns_LocalTargets = False,
     ns_DeniedDestinations = [], ns_PermittedPorts = []\<rparr>"

record Operator =
  op_enabled :: "Transport \<Rightarrow> bool"
  op_localTargets :: bool
  op_denied :: "prefix list"
  op_deniedHosts :: "string list"
  op_ports :: "(int \<times> int) list"

definition mustPrefixes :: "string list \<Rightarrow> prefix list" where
  "mustPrefixes texts = map (\<lambda>t. the (ParsePrefix t)) texts"

definition reserved :: "prefix list" where
  "reserved = mustPrefixes [''0.0.0.0/8'', ''10.0.0.0/8'', ''100.64.0.0/10'', ''127.0.0.0/8'', ''169.254.0.0/16'', ''172.16.0.0/12'', ''192.0.0.0/24'', ''192.0.2.0/24'',
     ''192.88.99.0/24'', ''192.168.0.0/16'', ''198.18.0.0/15'', ''198.51.100.0/24'', ''203.0.113.0/24'', ''224.0.0.0/4'', ''240.0.0.0/4'',
     ''::/128'', ''::1/128'', ''2001:db8::/32'', ''fc00::/7'', ''fe80::/10'', ''ff00::/8'']"

definition loopback :: "prefix list" where
  "loopback = mustPrefixes [''127.0.0.0/8'', ''::1/128'']"

definition nat64 :: prefix where "nat64 = the (ParsePrefix ''64:ff9b::/96'')"
definition sixToFour :: prefix where "sixToFour = the (ParsePrefix ''2002::/16'')"
definition compatible :: prefix where "compatible = the (ParsePrefix ''::/96'')"

definition splitList :: "string \<Rightarrow> string list" where
  "splitList s = filter (\<lambda>e. e \<noteq> []) (map TrimSpace (split_on CHR '','' s))"

definition policy_parsePort :: "string \<Rightarrow> port_error + int" where
  "policy_parsePort t = (case Atoi (TrimSpace t) of None \<Rightarrow> Inl (BadNumber (TrimSpace t))
     | Some p \<Rightarrow> if p < 1 \<or> p > 65535 then Inl (OutOfRange p) else Inr p)"

fun policy_parsePortRanges :: "string list \<Rightarrow> port_error + (int \<times> int) list" where
  "policy_parsePortRanges [] = Inr []"
| "policy_parsePortRanges (part # parts) =
    res_bind (policy_parsePort (takeWhile (\<lambda>c. c \<noteq> CHR ''-'') part)) (\<lambda>low.
    res_bind (case index_of CHR ''-'' part of None \<Rightarrow> Inr low | Some i \<Rightarrow> policy_parsePort (drop (i + 1) part)) (\<lambda>high.
    if low > high then Inl (BackwardRange low high)
    else res_bind (policy_parsePortRanges parts) (\<lambda>rs. Inr ((low, high) # rs))))"

datatype spec_error = NotCIDR string | NotDestination string | PermittedPorts port_error

fun parse_denied :: "string list \<Rightarrow> Operator \<Rightarrow> spec_error + Operator" where
  "parse_denied [] op = Inr op"
| "parse_denied (entry # entries) op =
    (if CHR ''/'' \<in> set entry then (case ParsePrefix entry of None \<Rightarrow> Inl (NotCIDR entry)
       | Some p \<Rightarrow> parse_denied entries (op\<lparr>op_denied := op_denied op @ [Masked p]\<rparr>))
     else (case ParseAddr entry of
       Some a \<Rightarrow> parse_denied entries (op\<lparr>op_denied := op_denied op @ [PrefixFrom (Unmap a) (BitLen (Unmap a))]\<rparr>)
     | None \<Rightarrow> let host = ToLower (TrimDot entry) in
         if host = [] \<or> set host \<inter> {CHR '' '', CHR ''/'', CHR '':'', CHR '',''} \<noteq> {} then Inl (NotDestination entry)
         else parse_denied entries (op\<lparr>op_deniedHosts := op_deniedHosts op @ [host]\<rparr>)))"

definition Parse :: "NetSpec \<Rightarrow> spec_error + Operator" where
  "Parse spec =
    (let on = (\<lambda>t. case t of TCP \<Rightarrow> ns_TCP spec | TLS \<Rightarrow> ns_TLS spec | UDP \<Rightarrow> ns_UDP spec | ICMP \<Rightarrow> ns_ICMP spec | SCION \<Rightarrow> ns_SCION spec | Inbound \<Rightarrow> ns_Inbound spec) in
     res_bind (parse_denied (splitList (ns_DeniedDestinations spec))
       \<lparr>op_enabled = on, op_localTargets = ns_LocalTargets spec, op_denied = [], op_deniedHosts = [], op_ports = []\<rparr>) (\<lambda>op.
     case policy_parsePortRanges (splitList (ns_PermittedPorts spec)) of
       Inl e \<Rightarrow> Inl (PermittedPorts e) | Inr ports \<Rightarrow> Inr (op\<lparr>op_ports := ports\<rparr>)))"

section \<open>Revocations\<close>

text \<open>A watcher is the run it belongs to, known by the address of its registration.\<close>

record Revocations =
  rv_denied :: "string set"
  rv_watchers :: "nat \<rightharpoonup> string"
  rv_refusedAdmissions :: "64 word"
  rv_revokedSockets :: "64 word"

definition NewRevocations :: Revocations where
  "NewRevocations = \<lparr>rv_denied = {}, rv_watchers = Map.empty, rv_refusedAdmissions = 0, rv_revokedSockets = 0\<rparr>"

text \<open>
  \<open>Update\<close> changes the set under the lock and takes the watchers (\<open>order\<close>, as the loop over the map finds them); then each
  closes what it has to close, and is counted.
\<close>

definition Update_begin :: "nat list \<Rightarrow> string list \<Rightarrow> bool \<Rightarrow> Revocations \<Rightarrow> nat list \<times> Revocations" where
  "Update_begin order destinations replace r =
    (let r = r\<lparr>rv_denied := (if replace then {} else rv_denied r) \<union> {k \<in> set (map DestinationKey destinations). k \<noteq> []}\<rparr> in
     (if rv_denied r = {} then [] else order, r))"

fun Update_close :: "(nat \<Rightarrow> int) \<Rightarrow> nat list \<Rightarrow> (nat \<rightharpoonup> string) \<Rightarrow> Revocations \<Rightarrow> (string \<times> int) list \<times> Revocations" where
  "Update_close closed [] ws r = ([], r)"
| "Update_close closed (w # order) ws r =
    (if closed w > 0 then (case Update_close closed order ws (r\<lparr>rv_revokedSockets := rv_revokedSockets r + of_int (closed w)\<rparr>) of
         (rs, r) \<Rightarrow> ((the (ws w), closed w) # rs, r))
     else Update_close closed order ws r)"

definition Revocations_Update :: "nat list \<Rightarrow> (nat \<Rightarrow> int) \<Rightarrow> string list \<Rightarrow> bool \<Rightarrow> Revocations \<Rightarrow> (string \<times> int) list \<times> Revocations" where
  "Revocations_Update order closed destinations replace r =
    (case Update_begin order destinations replace r of (ws, r') \<Rightarrow> Update_close closed ws (rv_watchers r) r')"

definition observeAdmission :: "errs \<Rightarrow> Revocations option \<Rightarrow> Revocations option" where
  "observeAdmission e rv = (case rv of None \<Rightarrow> None
     | Some r \<Rightarrow> if errors_Is e ErrDenied \<or> errors_Is e ErrNotInPolicy \<or> errors_Is e ErrUntagged \<or> errors_Is e ErrTransportUnavailable
         then Some (r\<lparr>rv_refusedAdmissions := rv_refusedAdmissions r + 1\<rparr>) else Some r)"

definition rv_watch :: "nat \<Rightarrow> string \<Rightarrow> Revocations \<Rightarrow> Revocations" where
  "rv_watch w run r = r\<lparr>rv_watchers := (rv_watchers r)(w \<mapsto> run)\<rparr>"

definition rv_stop :: "nat \<Rightarrow> Revocations \<Rightarrow> Revocations" where
  "rv_stop w r = r\<lparr>rv_watchers := (rv_watchers r)(w := None)\<rparr>"

definition checkDeclared :: "Revocations option \<Rightarrow> string \<Rightarrow> errs" where
  "checkDeclared rv destination = (let key = DestinationKey destination in
     case rv of None \<Rightarrow> [] | Some r \<Rightarrow> if key = [] then [] else if key \<in> rv_denied r then [ErrDestinationDenied] else [])"

text \<open>\<open>order\<close> is the order in which the loop over the map finds the denied keys.\<close>

definition rv_hosts :: "string list \<Rightarrow> Revocations option \<Rightarrow> string list" where
  "rv_hosts order rv = (case rv of None \<Rightarrow> [] | Some r \<Rightarrow> filter (\<lambda>k. ParseAddr k = None) order)"

section \<open>Checks\<close>

definition prefixes_contain :: "prefix list \<Rightarrow> ip_addr \<Rightarrow> bool" where
  "prefixes_contain ps a \<longleftrightarrow> list_ex (\<lambda>p. Prefix_Contains p a) ps"

definition checkOne :: "Operator \<Rightarrow> ip_addr \<Rightarrow> errs" where
  "checkOne op a = (if prefixes_contain (op_denied op) a then [ErrDenied]
     else if op_localTargets op \<and> prefixes_contain loopback a then []
     else if prefixes_contain reserved a then [ErrDenied] else [])"

definition embeddedV4 :: "ip_addr \<Rightarrow> ip_addr option" where
  "embeddedV4 a = (let bs = addr_bytes a in
     if Is4 a then None
     else if Prefix_Contains nat64 a then Some (IPv4 (take 4 (drop 12 bs)))
     else if Prefix_Contains sixToFour a then Some (IPv4 (take 4 (drop 2 bs)))
     else if Prefix_Contains compatible a
       then (if take 4 (drop 12 bs) = [0, 0, 0, 0] \<or> take 4 (drop 12 bs) = [0, 0, 0, 1] then None else Some (IPv4 (take 4 (drop 12 bs))))
     else None)"

definition aliases :: "ip_addr \<Rightarrow> ip_addr list" where
  "aliases a = (let n = Normalize a in n # (case embeddedV4 n of None \<Rightarrow> [] | Some e \<Rightarrow> [e]))"

fun check_aliases :: "Operator \<Rightarrow> Revocations option \<Rightarrow> ip_addr list \<Rightarrow> errs" where
  "check_aliases op rv [] = []"
| "check_aliases op rv (a # as) = (if checkOne op a \<noteq> [] then checkOne op a
     else if checkDeclared rv (Addr_String a) \<noteq> [] then checkDeclared rv (Addr_String a)
     else check_aliases op rv as)"

text \<open>\<open>None\<close> is the zero \<open>netip.Addr\<close>.\<close>

definition CheckAddr :: "Operator \<Rightarrow> Revocations option \<Rightarrow> ip_addr option \<Rightarrow> errs" where
  "CheckAddr op rv addr = (case addr of None \<Rightarrow> [ErrDenied] | Some a \<Rightarrow> check_aliases op rv (aliases a))"

definition CheckHost :: "Operator \<Rightarrow> Revocations option \<Rightarrow> string \<Rightarrow> errs" where
  "CheckHost op rv name = (let name = ToLower (TrimDot name) in
     if name \<in> set (op_deniedHosts op) then [ErrDenied] else checkDeclared rv name)"

definition CheckPort :: "Operator \<Rightarrow> int \<Rightarrow> errs" where
  "CheckPort op port = (if port = 0 \<or> op_ports op = [] then []
     else if list_ex (\<lambda>(lo, hi). port \<ge> lo \<and> port \<le> hi) (op_ports op) then [] else [ErrDenied])"

definition MatchesPrefix :: "prefix \<Rightarrow> ip_addr \<Rightarrow> bool" where
  "MatchesPrefix p a = (let p = (if Is4In6 (prefix_Addr p) \<and> prefix_Bits p \<ge> 96 then PrefixFrom (Unmap (prefix_Addr p)) (prefix_Bits p - 96) else p) in
     list_ex (Prefix_Contains p) (aliases a))"

section \<open>The egress grant\<close>

record EgressGrant =
  gr_Version :: int
  gr_BitsPerSecond :: int
  gr_BurstBytes :: int
  gr_Bytes :: int
  gr_AttemptsPerSecond :: int
  gr_AttemptBurst :: int
  gr_Attempts :: int
  gr_NotBeforeUnix :: int
  gr_ExpiresUnix :: int
  gr_Addresses :: "string list"

fun check_pinned :: "string list \<Rightarrow> ip_addr set \<Rightarrow> errs" where
  "check_pinned [] seen = []"
| "check_pinned (t # ts) seen = (case ParseAddr t of None \<Rightarrow> [ErrDenied]
     | Some a \<Rightarrow> if Addr_String (Normalize a) \<noteq> t \<or> a \<in> seen then [ErrDenied] else check_pinned ts (insert a seen))"

definition ValidateEgressGrant :: "EgressGrant option \<Rightarrow> errs" where
  "ValidateEgressGrant og = (case og of None \<Rightarrow> [] | Some g \<Rightarrow>
     if gr_Version g \<noteq> 1 \<or> gr_BitsPerSecond g < 1 \<or> gr_BitsPerSecond g > 1099511627776
       \<or> gr_BurstBytes g < 1 \<or> gr_BurstBytes g > 16777216 \<or> gr_Bytes g < 1 \<or> gr_Bytes g > 1125899906842624
       \<or> gr_AttemptsPerSecond g < 1 \<or> gr_AttemptsPerSecond g > 1000000
       \<or> gr_AttemptBurst g < 1 \<or> gr_AttemptBurst g > 1000000 \<or> gr_Attempts g < 1 \<or> gr_Attempts g > 1000000
       \<or> gr_NotBeforeUnix g < 0 \<or> gr_ExpiresUnix g \<le> gr_NotBeforeUnix g \<or> i64 (gr_ExpiresUnix g - gr_NotBeforeUnix g) > 86400
       \<or> length (gr_Addresses g) = 0 \<or> length (gr_Addresses g) > 256 then [ErrDenied]
     else check_pinned (gr_Addresses g) {})"

text \<open>The grant is not read while \<open>eg_err\<close> is set; the code leaves it nil then.\<close>

record Egress =
  eg_err :: errs
  eg_deadline :: instant
  eg_expired :: bool
  eg_grant :: EgressGrant
  eg_addresses :: "ip_addr list"
  eg_bytes :: int
  eg_attempts :: int

definition time_Unix :: "int \<Rightarrow> instant" where
  "time_Unix s = \<lparr>inst_wall = s * 1000000000, inst_mono = None\<rparr>"

definition Unix :: "instant \<Rightarrow> int" where
  "Unix t = inst_wall t div 1000000000"

definition NewEgress :: "instant \<Rightarrow> EgressGrant option \<Rightarrow> Egress option" where
  "NewEgress now og = (case og of None \<Rightarrow> None
     | Some g \<Rightarrow> let e = ValidateEgressGrant (Some g) in
       Some (if e \<noteq> [] then \<lparr>eg_err = e, eg_deadline = zero_time, eg_expired = False, eg_grant = g, eg_addresses = [], eg_bytes = 0, eg_attempts = 0\<rparr>
         else \<lparr>eg_err = [], eg_deadline = time_Add now (time_Sub (time_Unix (gr_ExpiresUnix g)) now), eg_expired = False, eg_grant = g,
           eg_addresses = map (\<lambda>t. the (ParseAddr t)) (gr_Addresses g), eg_bytes = 0, eg_attempts = 0\<rparr>))"

definition activeAt :: "instant \<Rightarrow> Egress \<Rightarrow> errs \<times> Egress" where
  "activeAt now e = (if eg_err e \<noteq> [] then (eg_err e, e)
     else let e = (if \<not> time_Before now (eg_deadline e) \<or> Unix now \<ge> gr_ExpiresUnix (eg_grant e) then e\<lparr>eg_expired := True\<rparr> else e) in
       if eg_expired e \<or> Unix now < gr_NotBeforeUnix (eg_grant e) then ([ErrDenied], e) else ([], e))"

definition egress_CheckAddress :: "instant \<Rightarrow> ip_addr \<Rightarrow> Egress option \<Rightarrow> errs \<times> Egress option" where
  "egress_CheckAddress now a eo = (case eo of None \<Rightarrow> ([], None)
     | Some e \<Rightarrow> (case activeAt now e of (err, e) \<Rightarrow>
         (if err \<noteq> [] then err else if Normalize a \<notin> set (eg_addresses e) then [ErrDenied] else [], Some e)))"

text \<open>\<open>allow\<close> is the answer of the token bucket.\<close>

definition egress_Connect :: "instant \<Rightarrow> bool \<Rightarrow> ip_addr \<Rightarrow> Egress option \<Rightarrow> errs \<times> Egress option" where
  "egress_Connect now allow a eo = (case egress_CheckAddress now a eo of (err, eo) \<Rightarrow>
     (case eo of None \<Rightarrow> ([], None)
      | Some e \<Rightarrow> if err \<noteq> [] then (err, Some e)
          else if eg_attempts e \<ge> gr_Attempts (eg_grant e) \<or> \<not> allow then ([ErrDenied], Some e)
          else ([], Some (e\<lparr>eg_attempts := eg_attempts e + 1\<rparr>))))"

definition egress_Charge :: "instant \<Rightarrow> bool \<Rightarrow> int \<Rightarrow> Egress option \<Rightarrow> errs \<times> Egress option" where
  "egress_Charge now allow n eo = (case eo of None \<Rightarrow> ([], None)
     | Some e \<Rightarrow> if n = 0 then ([], Some e)
       else (case activeAt now e of (err, e) \<Rightarrow>
         if err \<noteq> [] then (err, Some e)
         else if n < 0 \<or> n > i64 (gr_Bytes (eg_grant e) - eg_bytes e) \<or> \<not> allow then ([ErrDenied], Some e)
         else ([], Some (e\<lparr>eg_bytes := eg_bytes e + n\<rparr>))))"

section \<open>Values and prefixes\<close>

definition is_bytes :: "int list \<Rightarrow> bool" where
  "is_bytes bs \<longleftrightarrow> (\<forall>b \<in> set bs. 0 \<le> b \<and> b < 256)"

lemma bytes_value_snoc: "bytes_value (xs @ [x]) = bytes_value xs * 256 + x"
  by (simp add: bytes_value_def)

lemma bytes_value_append: "bytes_value (xs @ ys) = bytes_value xs * 256 ^ length ys + bytes_value ys"
proof (induction ys rule: rev_induct)
  case (snoc y ys)
  have "bytes_value (xs @ ys @ [y]) = bytes_value (xs @ ys) * 256 + y" using bytes_value_snoc [of "xs @ ys"] by simp
  then show ?case using snoc by (simp add: bytes_value_snoc algebra_simps)
qed (simp add: bytes_value_def)

lemma bytes_value_Nil [simp]: "bytes_value [] = 0"
  by (simp add: bytes_value_def)

lemma bytes_value_bounds: "is_bytes xs \<Longrightarrow> 0 \<le> bytes_value xs \<and> bytes_value xs < 256 ^ length xs"
  by (induction xs rule: rev_induct) (auto simp: is_bytes_def bytes_value_snoc)

lemma last_digit: "u * k + x = w * k + z \<longleftrightarrow> u = w \<and> x = z" if "0 \<le> x" "x < k" "0 \<le> z" "z < k" for u w x z k :: int
proof
  assume e: "u * k + x = w * k + z"
  then have "(u * k + x) mod k = (w * k + z) mod k" by simp
  moreover have "(u * k + x) mod k = x" "(w * k + z) mod k = z" using that by simp_all
  ultimately have "x = z" by simp
  then show "u = w \<and> x = z" using e that by simp
qed simp

lemma bytes_value_inj: "is_bytes xs \<Longrightarrow> is_bytes ys \<Longrightarrow> length xs = length ys \<Longrightarrow> bytes_value xs = bytes_value ys \<longleftrightarrow> xs = ys"
proof (induction xs arbitrary: ys rule: rev_induct)
  case (snoc x xs)
  obtain zs z where ys: "ys = zs @ [z]" using snoc.prems(3) by (cases ys rule: rev_cases) auto
  have b: "is_bytes xs" "is_bytes zs" "0 \<le> x" "x < 256" "0 \<le> z" "z < 256" "length xs = length zs" using snoc.prems by (auto simp: ys is_bytes_def)
  show ?case unfolding ys bytes_value_snoc last_digit [OF b(3-6)] snoc.IH [OF b(1,2,7)] by simp
qed simp

lemma bytes_value_div:
  assumes "is_bytes xs" "k \<le> length xs" "n = 8 * (length xs - k)"
  shows "bytes_value xs div 2 ^ n = bytes_value (take k xs)"
proof -
  have "bytes_value xs = bytes_value (take k xs) * 256 ^ (length xs - k) + bytes_value (drop k xs)"
    using bytes_value_append [of "take k xs" "drop k xs"] by simp
  moreover have "(2 :: int) ^ n = 256 ^ (length xs - k)" using power_mult [of "2 :: int" 8 "length xs - k"] assms(3) by simp
  moreover have "0 \<le> bytes_value (drop k xs) \<and> bytes_value (drop k xs) < 256 ^ (length xs - k)"
    using bytes_value_bounds [of "drop k xs"] assms(1) by (auto simp: is_bytes_def dest: in_set_dropD)
  ultimately show ?thesis by simp
qed

text \<open>A prefix of whole bytes.\<close>

lemma Contains_bytes:
  assumes "is_bytes ps" "is_bytes xs" "length ps = 16" "length xs = 16" "k \<le> 16" "8 * k = bits"
  shows "Prefix_Contains (Prefix (IPv6 ps []) bits) (IPv6 xs []) \<longleftrightarrow> take k ps = take k xs"
proof -
  have "128 - bits = 8 * (16 - k)" using assms(6) by simp
  then have "bytes_value ps div 2 ^ (128 - bits) = bytes_value (take k ps)" "bytes_value xs div 2 ^ (128 - bits) = bytes_value (take k xs)"
    using assms bytes_value_div [of ps k "128 - bits"] bytes_value_div [of xs k "128 - bits"] by simp_all
  moreover have "is_bytes (take k ps)" "is_bytes (take k xs)" using assms by (auto simp: is_bytes_def dest: in_set_takeD)
  ultimately show ?thesis using bytes_value_inj [of "take k ps" "take k xs"] assms by (simp add: Prefix_Contains_def BitLen_def)
qed

lemma Contains_family: "\<not> Prefix_Contains (Prefix (IPv6 ps z) bits) (IPv4 xs)" "\<not> Prefix_Contains (Prefix (IPv4 ps) bits) (IPv6 xs z)"
  by (simp_all add: Prefix_Contains_def)

lemma embedding_prefixes:
  "nat64 = Prefix (IPv6 [0, 0x64, 0xff, 0x9b, 0, 0, 0, 0, 0, 0, 0, 0, 0, 0, 0, 0] []) 96"
  "sixToFour = Prefix (IPv6 [0x20, 0x02, 0, 0, 0, 0, 0, 0, 0, 0, 0, 0, 0, 0, 0, 0] []) 16"
  "compatible = Prefix (IPv6 [0, 0, 0, 0, 0, 0, 0, 0, 0, 0, 0, 0, 0, 0, 0, 0] []) 96"
  unfolding nat64_def sixToFour_def compatible_def by code_simp+

lemma reserved_eq: "reserved = [Prefix (IPv4 [0, 0, 0, 0]) 8, Prefix (IPv4 [10, 0, 0, 0]) 8, Prefix (IPv4 [100, 64, 0, 0]) 10, Prefix (IPv4 [127, 0, 0, 0]) 8,
    Prefix (IPv4 [169, 254, 0, 0]) 16, Prefix (IPv4 [172, 16, 0, 0]) 12, Prefix (IPv4 [192, 0, 0, 0]) 24, Prefix (IPv4 [192, 0, 2, 0]) 24,
    Prefix (IPv4 [192, 88, 99, 0]) 24, Prefix (IPv4 [192, 168, 0, 0]) 16, Prefix (IPv4 [198, 18, 0, 0]) 15, Prefix (IPv4 [198, 51, 100, 0]) 24,
    Prefix (IPv4 [203, 0, 113, 0]) 24, Prefix (IPv4 [224, 0, 0, 0]) 4, Prefix (IPv4 [240, 0, 0, 0]) 4,
    Prefix (IPv6 (replicate 16 0) []) 128, Prefix (IPv6 (replicate 15 0 @ [1]) []) 128, Prefix (IPv6 ([0x20, 0x01, 0x0d, 0xb8] @ replicate 12 0) []) 32,
    Prefix (IPv6 (0xfc # replicate 15 0) []) 7, Prefix (IPv6 ([0xfe, 0x80] @ replicate 14 0) []) 10, Prefix (IPv6 (0xff # replicate 15 0) []) 8]"
  unfolding reserved_def by code_simp

lemma loopback_eq: "loopback = [Prefix (IPv4 [127, 0, 0, 0]) 8, Prefix (IPv6 (replicate 15 0 @ [1]) []) 128]"
  unfolding loopback_def by code_simp

text \<open>The reserved IPv4 ranges, by octets.\<close>

fun reserved4 :: "int list \<Rightarrow> bool" where
  "reserved4 [a, b, c, d] \<longleftrightarrow> a \<in> {0, 10, 127} \<or> 224 \<le> a \<or> a = 100 \<and> b div 64 = 1 \<or> a = 169 \<and> b = 254 \<or> a = 172 \<and> b div 16 = 1
     \<or> a = 192 \<and> (b = 0 \<and> c \<in> {0, 2} \<or> b = 88 \<and> c = 99 \<or> b = 168) \<or> a = 198 \<and> (b div 2 = 9 \<or> b = 51 \<and> c = 100) \<or> a = 203 \<and> b = 0 \<and> c = 113"
| "reserved4 _ \<longleftrightarrow> False"

lemma value4_div:
  assumes "is_bytes [a, b, c, d]"
  shows "bytes_value [a, b, c, d] div 268435456 = a div 16" "bytes_value [a, b, c, d] div 16777216 = a" "bytes_value [a, b, c, d] div 4194304 = a * 4 + b div 64"
    "bytes_value [a, b, c, d] div 1048576 = a * 16 + b div 16" "bytes_value [a, b, c, d] div 131072 = a * 128 + b div 2" "bytes_value [a, b, c, d] div 65536 = a * 256 + b"
    "bytes_value [a, b, c, d] div 256 = (a * 256 + b) * 256 + c"
proof -
  have v: "bytes_value [a, b, c, d] = ((a * 256 + b) * 256 + c) * 256 + d" by (simp add: bytes_value_def)
  have r: "0 \<le> a" "a < 256" "0 \<le> b" "b < 256" "0 \<le> c" "c < 256" "0 \<le> d" "d < 256" using assms by (simp_all add: is_bytes_def)
  have q: "(x * k + y) div k = x" if "0 \<le> y" "y < k" for x y k :: int using that by simp
  show "bytes_value [a, b, c, d] div 16777216 = a" "bytes_value [a, b, c, d] div 65536 = a * 256 + b" "bytes_value [a, b, c, d] div 256 = (a * 256 + b) * 256 + c"
    using q [of "(b * 256 + c) * 256 + d" 16777216 a] q [of "c * 256 + d" 65536 "a * 256 + b"] q [of d 256 "(a * 256 + b) * 256 + c"] r unfolding v
    by (simp_all add: algebra_simps)
  show "bytes_value [a, b, c, d] div 268435456 = a div 16"
    using q [of "((a mod 16 * 256 + b) * 256 + c) * 256 + d" 268435456 "a div 16"] r mult_div_mod_eq [of 16 a] unfolding v by (simp add: algebra_simps) 
  show "bytes_value [a, b, c, d] div 4194304 = a * 4 + b div 64"
    using q [of "(b mod 64 * 256 + c) * 256 + d" 4194304 "a * 4 + b div 64"] r mult_div_mod_eq [of 64 b] unfolding v by (simp add: algebra_simps)
  show "bytes_value [a, b, c, d] div 1048576 = a * 16 + b div 16"
    using q [of "(b mod 16 * 256 + c) * 256 + d" 1048576 "a * 16 + b div 16"] r mult_div_mod_eq [of 16 b] unfolding v by (simp add: algebra_simps)
  show "bytes_value [a, b, c, d] div 131072 = a * 128 + b div 2"
    using q [of "(b mod 2 * 256 + c) * 256 + d" 131072 "a * 128 + b div 2"] r mult_div_mod_eq [of 2 b] unfolding v by (simp add: algebra_simps)
qed


lemma Contains4:
  assumes "is_bytes [a, b, c, d]" "is_bytes [p, q, r, s]"
  shows "Prefix_Contains (Prefix (IPv4 [p, q, r, s]) 4) (IPv4 [a, b, c, d]) \<longleftrightarrow> p div 16 = a div 16"
    "Prefix_Contains (Prefix (IPv4 [p, q, r, s]) 8) (IPv4 [a, b, c, d]) \<longleftrightarrow> p = a"
    "Prefix_Contains (Prefix (IPv4 [p, q, r, s]) 10) (IPv4 [a, b, c, d]) \<longleftrightarrow> p = a \<and> q div 64 = b div 64"
    "Prefix_Contains (Prefix (IPv4 [p, q, r, s]) 12) (IPv4 [a, b, c, d]) \<longleftrightarrow> p = a \<and> q div 16 = b div 16"
    "Prefix_Contains (Prefix (IPv4 [p, q, r, s]) 15) (IPv4 [a, b, c, d]) \<longleftrightarrow> p = a \<and> q div 2 = b div 2"
    "Prefix_Contains (Prefix (IPv4 [p, q, r, s]) 16) (IPv4 [a, b, c, d]) \<longleftrightarrow> p = a \<and> q = b"
    "Prefix_Contains (Prefix (IPv4 [p, q, r, s]) 24) (IPv4 [a, b, c, d]) \<longleftrightarrow> p = a \<and> q = b \<and> r = c"
proof -
  have n: "Prefix_Contains (Prefix (IPv4 [p, q, r, s]) n) (IPv4 [a, b, c, d]) \<longleftrightarrow> bytes_value [p, q, r, s] div 2 ^ (32 - n) = bytes_value [a, b, c, d] div 2 ^ (32 - n)" for n
    by (simp add: Prefix_Contains_def BitLen_def Let_def)
  note v = value4_div [OF assms(1)] value4_div [OF assms(2)]
  have b: "0 \<le> b" "b < 256" "0 \<le> c" "c < 256" "0 \<le> q" "q < 256" "0 \<le> r" "r < 256" using assms by (simp_all add: is_bytes_def)
  have d: "0 \<le> b div 64" "b div 64 < 4" "0 \<le> q div 64" "q div 64 < 4" "0 \<le> b div 16" "b div 16 < 16" "0 \<le> q div 16" "q div 16 < 16"
    "0 \<le> b div 2" "b div 2 < 128" "0 \<le> q div 2" "q div 2 < 128" using b by simp_all
  show "Prefix_Contains (Prefix (IPv4 [p, q, r, s]) 4) (IPv4 [a, b, c, d]) \<longleftrightarrow> p div 16 = a div 16" using n [of 4] v(1,8) by simp
  show "Prefix_Contains (Prefix (IPv4 [p, q, r, s]) 8) (IPv4 [a, b, c, d]) \<longleftrightarrow> p = a" using n [of 8] v(2,9) by simp
  show "Prefix_Contains (Prefix (IPv4 [p, q, r, s]) 10) (IPv4 [a, b, c, d]) \<longleftrightarrow> p = a \<and> q div 64 = b div 64" using n [of 10] v(3,10) last_digit [OF d(3,4,1,2)] by simp
  show "Prefix_Contains (Prefix (IPv4 [p, q, r, s]) 12) (IPv4 [a, b, c, d]) \<longleftrightarrow> p = a \<and> q div 16 = b div 16" using n [of 12] v(4,11) last_digit [OF d(7,8,5,6)] by simp
  show "Prefix_Contains (Prefix (IPv4 [p, q, r, s]) 15) (IPv4 [a, b, c, d]) \<longleftrightarrow> p = a \<and> q div 2 = b div 2" using n [of 15] v(5,12) last_digit [OF d(11,12,9,10)] by simp
  show "Prefix_Contains (Prefix (IPv4 [p, q, r, s]) 16) (IPv4 [a, b, c, d]) \<longleftrightarrow> p = a \<and> q = b" using n [of 16] v(6,13) last_digit [OF b(5,6,1,2)] by simp
  show "Prefix_Contains (Prefix (IPv4 [p, q, r, s]) 24) (IPv4 [a, b, c, d]) \<longleftrightarrow> p = a \<and> q = b \<and> r = c"
    using n [of 24] v(7,14) last_digit [OF b(7,8,3,4), of "p * 256 + q" "a * 256 + b"] last_digit [OF b(5,6,1,2), of p a] by simp
qed

lemma list4: "length x = 4 \<Longrightarrow> \<exists>a b c d. x = [a, b, c, d]"
  by (auto simp: length_Suc_conv numeral_eq_Suc)

lemma reserved_iff:
  assumes "is_bytes x" "length x = 4"
  shows "prefixes_contain reserved (IPv4 x) \<longleftrightarrow> reserved4 x" "prefixes_contain loopback (IPv4 x) \<longleftrightarrow> hd x = 127"
proof -
  obtain a b c d where x: "x = [a, b, c, d]" using list4 [OF assms(2)] by blast
  have ok: "is_bytes [a, b, c, d]" using assms(1) by (simp add: x)
  then have r: "0 \<le> a" "a < 256" by (simp_all add: is_bytes_def)
  have p: "is_bytes [p, q, r, s]" if "p \<in> {0..255}" "q \<in> {0..255}" "r \<in> {0..255}" "s \<in> {0..255}" for p q r s using that by (auto simp: is_bytes_def)
  have hi: "14 = a div 16 \<or> 15 = a div 16 \<longleftrightarrow> 224 \<le> a" using r by auto
  show "prefixes_contain reserved (IPv4 x) \<longleftrightarrow> reserved4 x"
    unfolding x reserved_eq prefixes_contain_def using hi by (auto simp: Contains4 [OF ok p] Contains_family)
  show "prefixes_contain loopback (IPv4 x) \<longleftrightarrow> hd x = 127"
    unfolding x loopback_eq prefixes_contain_def by (auto simp: Contains4 [OF ok p] Contains_family)
qed


section \<open>Spellings of an address\<close>

text \<open>The forms in which a packet to the IPv4 address \<open>x\<close> can be addressed.\<close>

definition spells :: "int list \<Rightarrow> ip_addr \<Rightarrow> bool" where
  "spells x a \<longleftrightarrow> a = IPv4 x \<or> (\<exists>z. a = IPv6 (replicate 10 0 @ [255, 255] @ x) z) \<or> (\<exists>z. a = IPv6 ([0, 0x64, 0xff, 0x9b] @ replicate 8 0 @ x) z)
     \<or> (\<exists>rest z. is_bytes rest \<and> length rest = 10 \<and> a = IPv6 ([0x20, 0x02] @ x @ rest) z)
     \<or> x \<noteq> [0, 0, 0, 0] \<and> x \<noteq> [0, 0, 0, 1] \<and> (\<exists>z. a = IPv6 (replicate 12 0 @ x) z)"

lemma spells_alias:
  assumes x: "is_bytes x" "length x = 4" and s: "spells x a"
  shows "IPv4 x \<in> set (aliases a)"
proof -
  obtain p q r t where e: "x = [p, q, r, t]" using list4 [OF x(2)] by blast
  have ok: "is_bytes [p, q, r, t]" using x(1) by (simp add: e)
  have nat: "is_bytes [0, 0x64, 0xff, 0x9b, 0, 0, 0, 0, 0, 0, 0, 0, 0, 0, 0, 0]" and six: "is_bytes [0x20, 0x02, 0, 0, 0, 0, 0, 0, 0, 0, 0, 0, 0, 0, 0, 0]"
    and zero: "is_bytes [0, 0, 0, 0, 0, 0, 0, 0, 0, 0, 0, 0, 0, 0, 0, 0]" by (simp_all add: is_bytes_def)
  have n96: "Prefix_Contains nat64 (IPv6 bs []) \<longleftrightarrow> take 12 bs = [0, 0x64, 0xff, 0x9b, 0, 0, 0, 0, 0, 0, 0, 0]"
    and n16: "Prefix_Contains sixToFour (IPv6 bs []) \<longleftrightarrow> take 2 bs = [0x20, 0x02]" and n0: "Prefix_Contains compatible (IPv6 bs []) \<longleftrightarrow> take 12 bs = replicate 12 0"
    if "is_bytes bs" "length bs = 16" for bs
    using Contains_bytes [OF nat that(1) _ that(2), of 12 96] Contains_bytes [OF six that(1) _ that(2), of 2 16] Contains_bytes [OF zero that(1) _ that(2), of 12 96]
    by (auto simp: embedding_prefixes numeral_eq_Suc)
  consider "a = IPv4 x" | z where "a = IPv6 (replicate 10 0 @ [255, 255] @ x) z" | z where "a = IPv6 ([0, 0x64, 0xff, 0x9b] @ replicate 8 0 @ x) z"
    | rest z where "is_bytes rest" "length rest = 10" "a = IPv6 ([0x20, 0x02] @ x @ rest) z"
    | z where "x \<noteq> [0, 0, 0, 0]" "x \<noteq> [0, 0, 0, 1]" "a = IPv6 (replicate 12 0 @ x) z"
    using s by (auto simp: spells_def)
  then show ?thesis
  proof cases
    case 1
    then show ?thesis by (simp add: aliases_def Normalize_def Let_def)
  next
    case 2
    then show ?thesis by (simp add: aliases_def Normalize_def Let_def)
  next
    case 3
    have b: "is_bytes ([0, 0x64, 0xff, 0x9b] @ replicate 8 0 @ x)" using ok by (simp add: e is_bytes_def)
    then show ?thesis using 3 n96 [OF b] x(2) by (simp add: aliases_def Normalize_def embeddedV4_def Let_def e numeral_eq_Suc)
  next
    case (4 rest)
    have b: "is_bytes ([0x20, 0x02] @ x @ rest)" using ok 4(1) by (auto simp: e is_bytes_def)
    then show ?thesis using 4 n96 [OF b] n16 [OF b] x(2) by (simp add: aliases_def Normalize_def embeddedV4_def Let_def e numeral_eq_Suc)
  next
    case 5
    have b: "is_bytes (replicate 12 0 @ x)" using ok by (simp add: e is_bytes_def)
    then show ?thesis using 5 n96 [OF b] n16 [OF b] n0 [OF b] x(2) by (simp add: aliases_def Normalize_def embeddedV4_def Let_def e numeral_eq_Suc)
  qed
qed

lemma check_aliases_nil: "check_aliases op rv as = [] \<longleftrightarrow> (\<forall>a \<in> set as. checkOne op a = [] \<and> checkDeclared rv (Addr_String a) = [])"
  by (induction as) auto

lemma CheckAddr_nil: "CheckAddr op rv (Some a) = [] \<longleftrightarrow> (\<forall>b \<in> set (aliases a). checkOne op b = [] \<and> checkDeclared rv (Addr_String b) = [])"
  by (simp add: CheckAddr_def check_aliases_nil)

lemma checkDeclared_nil: "checkDeclared rv d = [] \<longleftrightarrow> (\<forall>r. rv = Some r \<longrightarrow> DestinationKey d = [] \<or> DestinationKey d \<notin> rv_denied r)"
  by (auto simp: checkDeclared_def Let_def split: option.splits)

lemma text4:
  assumes "is_bytes x" "length x = 4"
  shows "DestinationKey (string4 x) = string4 x" "string4 x \<noteq> []" "ParseAddr (string4 x) = Some (IPv4 x)"
proof -
  obtain a b c d where x: "x = [a, b, c, d]" using list4 [OF assms(2)] by blast
  have o: "octets [a, b, c, d]" using assms(1) by (auto simp: is_bytes_def x)
  show "DestinationKey (string4 x) = string4 x" "string4 x \<noteq> []" "ParseAddr (string4 x) = Some (IPv4 x)"
    using DestinationKey_string4 [OF o] ParseAddr_string4 [OF o] by (simp_all add: x string4_expand)
qed

section \<open>Uses of a grant\<close>

datatype egress_op = DoCheck instant ip_addr | DoConnect instant bool ip_addr | DoCharge instant bool int

fun egress_act :: "egress_op \<Rightarrow> Egress option \<Rightarrow> errs \<times> Egress option" where
  "egress_act (DoCheck now a) e = egress_CheckAddress now a e"
| "egress_act (DoConnect now allow a) e = egress_Connect now allow a e"
| "egress_act (DoCharge now allow n) e = egress_Charge now allow n e"

fun egress_run :: "egress_op list \<Rightarrow> Egress option \<Rightarrow> (egress_op \<times> errs) list \<times> Egress option" where
  "egress_run [] e = ([], e)"
| "egress_run (c # cs) e = (case egress_act c e of (err, e) \<Rightarrow> case egress_run cs e of (log, e) \<Rightarrow> ((c, err) # log, e))"

text \<open>What the calls that succeeded took of the grant.\<close>

fun op_bytes :: "egress_op \<times> errs \<Rightarrow> int" where
  "op_bytes (DoCharge now allow n, []) = n"
| "op_bytes _ = 0"

fun op_attempts :: "egress_op \<times> errs \<Rightarrow> int" where
  "op_attempts (DoConnect now allow a, []) = 1"
| "op_attempts _ = 0"

fun op_time :: "egress_op \<Rightarrow> instant option" where
  "op_time (DoCheck now a) = Some now"
| "op_time (DoConnect now allow a) = Some now"
| "op_time (DoCharge now allow n) = (if n = 0 then None else Some now)"

definition egress_ok :: "EgressGrant \<Rightarrow> Egress \<Rightarrow> bool" where
  "egress_ok g e \<longleftrightarrow> eg_err e = [] \<and> eg_grant e = g \<and> eg_addresses e = map (\<lambda>t. the (ParseAddr t)) (gr_Addresses g)
     \<and> 0 \<le> eg_bytes e \<and> eg_bytes e \<le> gr_Bytes g \<and> 0 \<le> eg_attempts e \<and> eg_attempts e \<le> gr_Attempts g \<and> gr_Bytes g \<le> 1125899906842624"

lemma NewEgress_ok:
  assumes "ValidateEgressGrant (Some g) = []"
  obtains e where "NewEgress now (Some g) = Some e" "egress_ok g e" "eg_bytes e = 0" "eg_attempts e = 0"
  using assms by (auto simp: NewEgress_def egress_ok_def ValidateEgressGrant_def split: if_splits)

lemma activeAt_cases:
  assumes "egress_ok g e"
  obtains (refused) e' where "activeAt now e = ([ErrDenied], e')" "e' = e \<or> e' = e\<lparr>eg_expired := True\<rparr>" "gr_ExpiresUnix g \<le> Unix now \<longrightarrow> eg_expired e'"
    | (active) "activeAt now e = ([], e)" "\<not> eg_expired e" "gr_NotBeforeUnix g \<le> Unix now" "Unix now < gr_ExpiresUnix g"
proof (cases "\<not> time_Before now (eg_deadline e) \<or> Unix now \<ge> gr_ExpiresUnix g")
  case True
  then have "activeAt now e = ([ErrDenied], e\<lparr>eg_expired := True\<rparr>)" using assms by (simp add: activeAt_def egress_ok_def)
  then show ?thesis using refused by simp
next
  case False
  then have "activeAt now e = (if eg_expired e \<or> Unix now < gr_NotBeforeUnix g then ([ErrDenied], e) else ([], e))"
    using assms by (simp add: activeAt_def egress_ok_def)
  then show ?thesis using False refused active by (cases "eg_expired e \<or> Unix now < gr_NotBeforeUnix g") auto
qed

text \<open>One call: what it takes, that an expired grant stays so and gives nothing, and which connection is let through.\<close>

definition pinned :: "EgressGrant \<Rightarrow> ip_addr set" where
  "pinned g = (\<lambda>t. the (ParseAddr t)) ` set (gr_Addresses g)"

definition let_through :: "EgressGrant \<Rightarrow> egress_op \<times> errs \<Rightarrow> bool" where
  "let_through g l \<longleftrightarrow> (\<forall>now allow x. l = (DoConnect now allow x, []) \<longrightarrow> Normalize x \<in> pinned g \<and> gr_NotBeforeUnix g \<le> Unix now \<and> Unix now < gr_ExpiresUnix g)"

definition use_ok :: "EgressGrant \<Rightarrow> egress_op \<Rightarrow> Egress \<Rightarrow> errs \<Rightarrow> Egress \<Rightarrow> bool" where
  "use_ok g c e err e' \<longleftrightarrow> egress_ok g e' \<and> eg_bytes e' = eg_bytes e + op_bytes (c, err) \<and> eg_attempts e' = eg_attempts e + op_attempts (c, err)
     \<and> (eg_expired e \<longrightarrow> eg_expired e') \<and> (op_time c \<noteq> None \<and> eg_expired e \<longrightarrow> err \<noteq> [])
     \<and> (\<forall>t. op_time c = Some t \<and> gr_ExpiresUnix g \<le> Unix t \<longrightarrow> eg_expired e' \<and> err \<noteq> []) \<and> let_through g (c, err)"

lemma egress_ok_same: "egress_ok g e \<Longrightarrow> e' = e \<or> e' = e\<lparr>eg_expired := True\<rparr> \<Longrightarrow> egress_ok g e' \<and> eg_bytes e' = eg_bytes e \<and> eg_attempts e' = eg_attempts e \<and> (eg_expired e \<longrightarrow> eg_expired e')"
  by (auto simp: egress_ok_def)

lemma use_refused:
  assumes "egress_ok g e" "e' = e \<or> e' = e\<lparr>eg_expired := True\<rparr>" "\<forall>t. op_time c = Some t \<and> gr_ExpiresUnix g \<le> Unix t \<longrightarrow> eg_expired e'"
  shows "use_ok g c e [r] e'"
  using egress_ok_same [OF assms(1,2)] assms(3) by (cases c) (auto simp: use_ok_def let_through_def)

lemma egress_act_ok:
  assumes ok: "egress_ok g e"
  shows "\<exists>err e'. egress_act c (Some e) = (err, Some e') \<and> use_ok g c e err e'"
proof (cases "\<exists>t. op_time c = Some t")
  case False
  then obtain now allow where "c = DoCharge now allow 0" by (cases c) (auto split: if_splits)
  then show ?thesis using ok by (simp add: egress_Charge_def use_ok_def let_through_def)
next
  case True
  then obtain now where now: "op_time c = Some now" by blast
  show ?thesis
  proof (rule activeAt_cases [OF ok, of now])
    fix e' assume a: "activeAt now e = ([ErrDenied], e')" "e' = e \<or> e' = e\<lparr>eg_expired := True\<rparr>" "gr_ExpiresUnix g \<le> Unix now \<longrightarrow> eg_expired e'"
    have "egress_act c (Some e) = ([ErrDenied], Some e')"
      using now a(1) by (cases c) (auto simp: egress_CheckAddress_def egress_Connect_def egress_Charge_def split: if_splits)
    then show ?thesis using use_refused [OF ok a(2)] a(3) now by auto
  next
    assume a: "activeAt now e = ([], e)" "\<not> eg_expired e" "gr_NotBeforeUnix g \<le> Unix now" "Unix now < gr_ExpiresUnix g"
    have live: "op_time c = Some t \<Longrightarrow> \<not> gr_ExpiresUnix g \<le> Unix t" for t using now a(4) by simp
    then have stop: "use_ok g c e [r] e" for r using use_refused [OF ok, of e] by blast
    show ?thesis
    proof (cases c)
      case (DoCheck t x)
      then have "egress_act c (Some e) = (if Normalize x \<notin> set (eg_addresses e) then [ErrDenied] else [], Some e)"
        using now a(1) by (simp add: egress_CheckAddress_def)
      moreover have "use_ok g c e [] e" using ok a(2) live DoCheck by (auto simp: use_ok_def let_through_def)
      ultimately show ?thesis using stop by auto
    next
      case (DoConnect t allow x)
      then have act: "egress_act c (Some e) = (if Normalize x \<notin> pinned g \<or> gr_Attempts g \<le> eg_attempts e \<or> \<not> allow then ([ErrDenied], Some e)
          else ([], Some (e\<lparr>eg_attempts := eg_attempts e + 1\<rparr>)))"
        using now a(1) ok by (simp add: egress_Connect_def egress_CheckAddress_def egress_ok_def pinned_def)
      have "use_ok g c e [] (e\<lparr>eg_attempts := eg_attempts e + 1\<rparr>)" if "Normalize x \<in> pinned g" "\<not> gr_Attempts g \<le> eg_attempts e"
        using that ok a DoConnect now by (auto simp: use_ok_def let_through_def egress_ok_def)
      then show ?thesis using act stop by auto
    next
      case (DoCharge t allow n)
      have i: "i64 (gr_Bytes g - eg_bytes e) = gr_Bytes g - eg_bytes e" using ok by (intro i64_id) (simp add: egress_ok_def in_i64_def i64_min_def i64_max_def)
      have n: "n \<noteq> 0" using DoCharge now by (auto split: if_splits)
      then have act: "egress_act c (Some e) = (if n < 0 \<or> n > gr_Bytes g - eg_bytes e \<or> \<not> allow then ([ErrDenied], Some e) else ([], Some (e\<lparr>eg_bytes := eg_bytes e + n\<rparr>)))"
        using DoCharge now a(1) ok i by (simp add: egress_Charge_def egress_ok_def)
      have "use_ok g c e [] (e\<lparr>eg_bytes := eg_bytes e + n\<rparr>)" if "\<not> n < 0" "\<not> n > gr_Bytes g - eg_bytes e"
        using that ok a DoCharge now n by (auto simp: use_ok_def let_through_def egress_ok_def)
      then show ?thesis using act stop by auto
    qed
  qed
qed

lemma egress_run_ok:
  assumes "egress_ok g e"
  shows "\<exists>log e'. egress_run cs (Some e) = (log, Some e') \<and> map fst log = cs \<and> egress_ok g e' \<and> eg_bytes e' = eg_bytes e + sum_list (map op_bytes log)
    \<and> eg_attempts e' = eg_attempts e + sum_list (map op_attempts log) \<and> list_all (let_through g) log
    \<and> (eg_expired e \<longrightarrow> eg_expired e' \<and> list_all (\<lambda>(c, err). op_time c \<noteq> None \<longrightarrow> err \<noteq> []) log)
    \<and> (\<forall>i < length log. \<forall>t. op_time (cs ! i) = Some t \<and> gr_ExpiresUnix g \<le> Unix t \<longrightarrow> list_all (\<lambda>(c, err). op_time c \<noteq> None \<longrightarrow> err \<noteq> []) (drop i log))"
  using assms
proof (induction cs arbitrary: e)
  case (Cons c cs)
  obtain err e1 where a: "egress_act c (Some e) = (err, Some e1)" "use_ok g c e err e1" using egress_act_ok [OF Cons.prems] by blast
  then have "egress_ok g e1" by (simp add: use_ok_def)
  from Cons.IH [OF this] obtain log e' where r: "egress_run cs (Some e1) = (log, Some e')" "map fst log = cs" "egress_ok g e'" "eg_bytes e' = eg_bytes e1 + sum_list (map op_bytes log)"
    "eg_attempts e' = eg_attempts e1 + sum_list (map op_attempts log)" "list_all (let_through g) log"
    "eg_expired e1 \<longrightarrow> eg_expired e' \<and> list_all (\<lambda>(c, err). op_time c \<noteq> None \<longrightarrow> err \<noteq> []) log"
    "\<forall>i < length log. \<forall>t. op_time (cs ! i) = Some t \<and> gr_ExpiresUnix g \<le> Unix t \<longrightarrow> list_all (\<lambda>(c, err). op_time c \<noteq> None \<longrightarrow> err \<noteq> []) (drop i log)"
    by blast
  have "list_all (\<lambda>(c, err). op_time c \<noteq> None \<longrightarrow> err \<noteq> []) (drop i ((c, err) # log))"
    if "i < length ((c, err) # log)" "op_time ((c # cs) ! i) = Some t" "gr_ExpiresUnix g \<le> Unix t" for i t
    using that a(2) r(7,8) by (cases i) (auto simp: use_ok_def)
  then show ?case using a r by (intro exI [of _ "(c, err) # log"] exI [of _ e']) (auto simp: use_ok_def)
qed simp

section \<open>Properties\<close>

text \<open>C13: No spelling steps around a denial. If the operator's policy lets a guest reach an address that carries an IPv4 address \<open>x\<close>, as itself or mapped, through
  NAT64, 6to4 or as a compatible IPv6 address, then it lets the guest reach \<open>x\<close>; \<open>x\<close> is in none of the denied blocks and in no reserved
  range, loopback aside where the operator allows it; and the dispatcher has not revoked it.\<close>

theorem CheckAddr_spellings:
  assumes x: "is_bytes x" "length x = 4" and s: "spells x a" and ok: "CheckAddr op rv (Some a) = []"
  shows "CheckAddr op rv (Some (IPv4 x)) = [] \<and> \<not> prefixes_contain (op_denied op) (IPv4 x) \<and> (reserved4 x \<longrightarrow> op_localTargets op \<and> hd x = 127)
    \<and> (\<forall>r. rv = Some r \<longrightarrow> string4 x \<notin> rv_denied r)"
proof -
  have one: "checkOne op (IPv4 x) = []" "checkDeclared rv (string4 x) = []" using ok spells_alias [OF x s] by (auto simp: CheckAddr_nil)
  have "aliases (IPv4 x) = [IPv4 x]" by (simp add: aliases_def Normalize_def embeddedV4_def Let_def)
  then have "CheckAddr op rv (Some (IPv4 x)) = []" using one by (simp add: CheckAddr_nil)
  then show ?thesis using one reserved_iff [OF x] text4 [OF x] by (auto simp: checkOne_def checkDeclared_nil split: if_splits)
qed


text \<open>C16: A grant is never overspent. Whatever a run's sockets do with it, in whatever order and at whatever times, the payload bytes and the connection
  attempts that were let through stay within the grant, each connection goes to a pinned address within the validity window, and from the
  first call at or after the expiry on nothing is let through, even if the clock is set back.\<close>

theorem Egress_allowance:
  assumes "ValidateEgressGrant (Some g) = []"
  shows "\<exists>e log e'. NewEgress now (Some g) = Some e \<and> egress_run cs (Some e) = (log, Some e') \<and> map fst log = cs
    \<and> sum_list (map op_bytes log) \<le> gr_Bytes g \<and> sum_list (map op_attempts log) \<le> gr_Attempts g \<and> list_all (let_through g) log
    \<and> (\<forall>i < length log. \<forall>t. op_time (cs ! i) = Some t \<and> gr_ExpiresUnix g \<le> Unix t \<longrightarrow> list_all (\<lambda>(c, err). op_time c \<noteq> None \<longrightarrow> err \<noteq> []) (drop i log))"
proof -
  obtain e where e: "NewEgress now (Some g) = Some e" "egress_ok g e" "eg_bytes e = 0" "eg_attempts e = 0" using NewEgress_ok [OF assms] by blast
  from egress_run_ok [OF e(2), of cs] show ?thesis using e by (auto simp: egress_ok_def)
qed


section \<open>Instances\<close>

definition sample_grant :: EgressGrant where
  "sample_grant = \<lparr>gr_Version = 1, gr_BitsPerSecond = 8000, gr_BurstBytes = 1500, gr_Bytes = 3000, gr_AttemptsPerSecond = 10, gr_AttemptBurst = 10, gr_Attempts = 2,
     gr_NotBeforeUnix = 100, gr_ExpiresUnix = 200, gr_Addresses = [''8.8.8.8'', ''2001:4860::8888'']\<rparr>"

theorem Egress_allowance_witness:
  "\<exists>e log e'. NewEgress (time_Unix 100) (Some sample_grant) = Some e
    \<and> egress_run (replicate 9 (DoCharge (time_Unix 150) True 1000) @ replicate 9 (DoConnect (time_Unix 150) True (IPv4 [8, 8, 8, 8]))) (Some e) = (log, Some e')
    \<and> sum_list (map op_bytes log) \<le> 3000 \<and> sum_list (map op_attempts log) \<le> 2"
proof -
  have "ValidateEgressGrant (Some sample_grant) = []" by code_simp
  from Egress_allowance [OF this, of "time_Unix 100" "replicate 9 (DoCharge (time_Unix 150) True 1000) @ replicate 9 (DoConnect (time_Unix 150) True (IPv4 [8, 8, 8, 8]))"]
  show ?thesis by (auto simp: sample_grant_def)
qed

theorem CheckAddr_spellings_witness:
  "\<exists>op. Parse Defaults = Inr op \<and> CheckAddr op None (Some (IPv6 [0, 0x64, 0xff, 0x9b, 0, 0, 0, 0, 0, 0, 0, 0, 8, 8, 8, 8] [])) = []
    \<and> CheckAddr op None (Some (IPv4 [8, 8, 8, 8])) = [] \<and> \<not> reserved4 [8, 8, 8, 8]"
proof -
  have "(case Parse Defaults of Inl _ \<Rightarrow> False | Inr op \<Rightarrow> CheckAddr op None (Some (IPv6 [0, 0x64, 0xff, 0x9b, 0, 0, 0, 0, 0, 0, 0, 0, 8, 8, 8, 8] [])) = [])" by code_simp
  then obtain op where op: "Parse Defaults = Inr op" "CheckAddr op None (Some (IPv6 [0, 0x64, 0xff, 0x9b, 0, 0, 0, 0, 0, 0, 0, 0, 8, 8, 8, 8] [])) = []" by (auto split: sum.splits)
  have "spells [8, 8, 8, 8] (IPv6 [0, 0x64, 0xff, 0x9b, 0, 0, 0, 0, 0, 0, 0, 0, 8, 8, 8, 8] [])" by (simp add: spells_def numeral_eq_Suc)
  from CheckAddr_spellings [OF _ _ this op(2)] op show ?thesis by (auto simp: is_bytes_def)
qed

end
