(* ===== verification/Net_Admission.thy ===== *)
theory Net_Admission
  imports Net_Policy
begin

text \<open>
  Admission of a run's connections, \<^verbatim>\<open>admission.go\<close> of \<^verbatim>\<open>internal/executor/debuglet/netpolicy\<close>: the operator's policy and the
  destinations that the job declared, checked together. Names are resolved with a cache whose entries live for a short
  time. The clock, the resolver and the privilege probe are a \<open>world\<close>: the \<open>k\<close>-th reading of the clock or answer of the resolver is
  its value at \<open>k\<close>, and \<open>po_tick\<close> counts the readings, so that no two of them need agree. \<open>po_log\<close> is not in
  the code: it records the questions asked of the resolver. The pointer to the grant is its current value,
  in the policy.
\<close>

section \<open>State\<close>

record resolution =
  rs_addrs :: "ip_addr list"
  rs_err :: errs
  rs_at :: instant

record NetRun =
  nr_Addresses :: "string list"
  nr_RequireICMP :: bool
  nr_ListenTCP :: bool
  nr_ListenUDP :: bool
  nr_ListenSCION :: bool
  nr_RefuseIPv6 :: bool

record NetPolicy =
  po_op :: Operator
  po_run :: NetRun
  po_egress :: "Egress option"
  po_ttl :: int
  po_cache :: "string \<rightharpoonup> resolution"
  po_seen :: "string \<Rightarrow> ip_addr set"
  po_tick :: nat
  po_log :: "(string \<times> instant) list"

record world =
  wd_now :: "nat \<Rightarrow> instant"
  wd_lookup :: "nat \<Rightarrow> string \<Rightarrow> string + ip_addr list"
  wd_icmp :: "nat \<Rightarrow> bool"

definition resolveTTL :: int where
  "resolveTTL = 2 * Second"

definition NetPolicy_New :: "Operator \<Rightarrow> NetRun \<Rightarrow> Egress option \<Rightarrow> NetPolicy" where
  "NetPolicy_New op run e = \<lparr>po_op = op, po_run = run, po_egress = e, po_ttl = resolveTTL, po_cache = Map.empty, po_seen = (\<lambda>_. {}), po_tick = 0, po_log = []\<rparr>"

definition tick :: "NetPolicy \<Rightarrow> NetPolicy" where
  "tick p = p\<lparr>po_tick := po_tick p + 1\<rparr>"

section \<open>Transports\<close>

text \<open>A nil policy is \<open>None\<close>.\<close>

definition Available :: "bool \<Rightarrow> Transport \<Rightarrow> NetPolicy option \<Rightarrow> errs" where
  "Available icmp t po = (case po of None \<Rightarrow> [ErrTransportUnavailable]
     | Some p \<Rightarrow> if t = SCION \<and> po_egress p \<noteq> None then [ErrTransportUnavailable]
       else if \<not> op_enabled (po_op p) t then [ErrTransportUnavailable]
       else if t = ICMP then (if \<not> nr_RequireICMP (po_run p) then [ErrTransportUnavailable] else if \<not> icmp then [ErrTransportUnavailable, NoPrivilege] else [])
       else [])"

definition AvailableListener :: "bool \<Rightarrow> Transport \<Rightarrow> NetPolicy \<Rightarrow> errs" where
  "AvailableListener icmp t p = (if Available icmp Inbound (Some p) \<noteq> [] then Available icmp Inbound (Some p)
     else if t = SCION \<and> Available icmp SCION (Some p) \<noteq> [] then Available icmp SCION (Some p)
     else if (case t of TCP \<Rightarrow> nr_ListenTCP (po_run p) | TLS \<Rightarrow> nr_ListenTCP (po_run p) | UDP \<Rightarrow> nr_ListenUDP (po_run p) | SCION \<Rightarrow> nr_ListenSCION (po_run p) | _ \<Rightarrow> False)
       then [] else [ErrTransportUnavailable])"

definition checkFamily :: "Transport \<Rightarrow> ip_addr option \<Rightarrow> NetPolicy \<Rightarrow> errs" where
  "checkFamily t addr p = (if \<not> nr_RefuseIPv6 (po_run p) \<or> t = SCION \<or> (case addr of Some a \<Rightarrow> Is4 a | None \<Rightarrow> False) then [] else [ErrUntagged])"

section \<open>Resolution\<close>

definition cached :: "world \<Rightarrow> string \<Rightarrow> NetPolicy \<Rightarrow> resolution option \<times> NetPolicy" where
  "cached w host p = (if po_ttl p \<le> 0 then (None, p)
     else case po_cache p host of None \<Rightarrow> (None, p)
       | Some entry \<Rightarrow> (if time_Sub (wd_now w (po_tick p)) (rs_at entry) \<ge> po_ttl p then None else Some entry, tick p))"

definition see :: "string \<Rightarrow> ip_addr list \<Rightarrow> NetPolicy \<Rightarrow> NetPolicy" where
  "see host addrs p = (let key = DestinationKey host in p\<lparr>po_seen := (po_seen p)(key := po_seen p key \<union> set addrs)\<rparr>)"

definition remember :: "string \<Rightarrow> resolution \<Rightarrow> NetPolicy \<Rightarrow> NetPolicy" where
  "remember host entry p = (if po_ttl p \<le> 0 then p else p\<lparr>po_cache := (po_cache p)(host \<mapsto> entry)\<rparr>)"

definition lookup :: "world \<Rightarrow> string \<Rightarrow> NetPolicy \<Rightarrow> resolution \<times> NetPolicy" where
  "lookup w host p = (let at = wd_now w (po_tick p); p = tick p; answer = wd_lookup w (po_tick p) host; p = (tick p)\<lparr>po_log := po_log p @ [(host, at)]\<rparr> in
     case answer of Inl e \<Rightarrow> (\<lparr>rs_addrs = [], rs_err = [ResolveFailed e], rs_at = at\<rparr>, p)
     | Inr addrs \<Rightarrow> (\<lparr>rs_addrs = map Normalize addrs, rs_err = [], rs_at = at\<rparr>, see host (map Normalize addrs) p))"

definition resolve :: "world \<Rightarrow> string \<Rightarrow> NetPolicy \<Rightarrow> (errs + ip_addr list) \<times> NetPolicy" where
  "resolve w host p = (case ParseAddr host of Some a \<Rightarrow> (Inr [Normalize a], p)
   | None \<Rightarrow> let answer = (\<lambda>entry. if rs_err entry = [] then Inr (rs_addrs entry) else Inl (rs_err entry)) in
     (case cached w host p of (Some entry, p) \<Rightarrow> (answer entry, p)
      | (None, p) \<Rightarrow> (case lookup w host p of (entry, p) \<Rightarrow> (answer entry, remember host entry p))))"

text \<open>The first name that has an address keeps it.\<close>

definition add_new :: "'v \<Rightarrow> ip_addr list \<Rightarrow> (ip_addr \<times> 'v) list \<Rightarrow> (ip_addr \<times> 'v) list" where
  "add_new v addrs m = fold (\<lambda>a m. if map_of m a = None then (a, v) # m else m) addrs m"

fun allow_loop :: "world \<Rightarrow> string list \<Rightarrow> (ip_addr \<times> string) list \<Rightarrow> errs \<Rightarrow> NetPolicy \<Rightarrow> (ip_addr \<times> string) list \<times> errs \<times> NetPolicy" where
  "allow_loop w [] allowed refs p = (allowed, refs, p)"
| "allow_loop w (d # ds) allowed refs p = (if DeclaredHost d = [] then allow_loop w ds allowed refs p
     else case resolve w (DeclaredHost d) p of
       (Inl e, p) \<Rightarrow> allow_loop w ds allowed (refs @ e) p
     | (Inr addrs, p) \<Rightarrow> allow_loop w ds (add_new d addrs allowed) refs p)"

definition allowlist :: "world \<Rightarrow> NetPolicy \<Rightarrow> (errs + (ip_addr \<times> string) list) \<times> NetPolicy" where
  "allowlist w p = (case allow_loop w (nr_Addresses (po_run p)) [] [] p of (allowed, refs, p) \<Rightarrow>
     (if allowed = [] then Inl (ErrNotInPolicy # refs) else Inr allowed, p))"

fun deny_loop :: "world \<Rightarrow> (string \<times> errs) list \<Rightarrow> (ip_addr \<times> errs) list \<Rightarrow> NetPolicy \<Rightarrow> (ip_addr \<times> errs) list \<times> NetPolicy" where
  "deny_loop w [] m p = (m, p)"
| "deny_loop w ((host, e) # hs) m p = (case resolve w host p of (Inl _, p) \<Rightarrow> deny_loop w hs m p | (Inr addrs, p) \<Rightarrow> deny_loop w hs (add_new e addrs m) p)"

text \<open>\<open>order\<close> is the order in which the loop over the revoked destinations finds them.\<close>

definition deniedAddrs :: "world \<Rightarrow> string list \<Rightarrow> Revocations option \<Rightarrow> NetPolicy \<Rightarrow> (ip_addr \<times> errs) list \<times> NetPolicy" where
  "deniedAddrs w order rv p =
     deny_loop w (map (\<lambda>h. (h, [ErrDenied])) (op_deniedHosts (po_op p)) @ map (\<lambda>h. (h, [ErrDestinationDenied])) (rv_hosts order rv)) [] p"

section \<open>Outbound destinations\<close>

record Destination =
  ds_Addrs :: "(ip_addr \<times> int) list"
  ds_Key :: string
  ds_ServerName :: string

definition splitTarget :: "Transport \<Rightarrow> string \<Rightarrow> errs + string \<times> int" where
  "splitTarget t text = (let target = TrimSpace text in
     if target = [] then Inl [ErrNotInPolicy]
     else if t = ICMP then (case SplitHostPort target of Inr (host, _) \<Rightarrow> if host \<noteq> [] then Inr (host, 0) else Inr (target, 0) | Inl _ \<Rightarrow> Inr (target, 0))
     else case SplitHostPort target of Inl e \<Rightarrow> Inl [ErrNotInPolicy, BadTarget e]
       | Inr (host, port) \<Rightarrow> if host = [] then Inl [ErrNotInPolicy] else Inr (host, port))"

definition isAddrLiteral :: "string \<Rightarrow> bool" where
  "isAddrLiteral host \<longleftrightarrow> ParseAddr (trim_brackets host) \<noteq> None"

text \<open>\<open>p.run.Egress.CheckAddress\<close>, which reads the clock if there is a grant.\<close>

definition check_grant :: "world \<Rightarrow> ip_addr \<Rightarrow> NetPolicy \<Rightarrow> errs \<times> NetPolicy" where
  "check_grant w a p = (case po_egress p of None \<Rightarrow> ([], p)
     | Some e \<Rightarrow> (case egress_CheckAddress (wd_now w (po_tick p)) a (Some e) of (err, e) \<Rightarrow> (err, (tick p)\<lparr>po_egress := e\<rparr>)))"

text \<open>One address of the target: a refusal, or the declared destination that admits it.\<close>

definition admit_candidate :: "world \<Rightarrow> Transport \<Rightarrow> Revocations option \<Rightarrow> (ip_addr \<times> errs) list \<Rightarrow> (ip_addr \<times> string) list \<Rightarrow> ip_addr \<Rightarrow> NetPolicy \<Rightarrow> (errs + string) \<times> NetPolicy" where
  "admit_candidate w t rv dn allowed a p =
    (if t = ICMP \<and> \<not> Is4 a then (Inl [ErrDenied], p)
     else if checkFamily t (Some a) p \<noteq> [] then (Inl (checkFamily t (Some a) p), p)
     else case map_of dn a of Some e \<Rightarrow> (Inl e, p)
     | None \<Rightarrow> if CheckAddr (po_op p) rv (Some a) \<noteq> [] then (Inl (CheckAddr (po_op p) rv (Some a)), p)
       else case check_grant w a p of (err, p) \<Rightarrow>
         if err \<noteq> [] then (Inl err, p)
         else case map_of allowed a of None \<Rightarrow> (Inl [ErrNotInPolicy], p)
           | Some key \<Rightarrow> if checkDeclared rv key \<noteq> [] then (Inl (checkDeclared rv key), p) else (Inr key, p))"

fun admit_loop :: "world \<Rightarrow> Transport \<Rightarrow> Revocations option \<Rightarrow> (ip_addr \<times> errs) list \<Rightarrow> (ip_addr \<times> string) list \<Rightarrow> int \<Rightarrow> ip_addr list \<Rightarrow> errs \<Rightarrow> Destination \<Rightarrow> NetPolicy
    \<Rightarrow> errs \<times> Destination \<times> NetPolicy" where
  "admit_loop w t rv dn allowed port [] refs d p = (refs, d, p)"
| "admit_loop w t rv dn allowed port (a # as) refs d p = (case admit_candidate w t rv dn allowed a p of
     (Inl e, p) \<Rightarrow> admit_loop w t rv dn allowed port as (refs @ e) d p
   | (Inr key, p) \<Rightarrow> admit_loop w t rv dn allowed port as refs
       (d\<lparr>ds_Key := (if ds_Key d = [] then key else ds_Key d), ds_Addrs := ds_Addrs d @ [(a, port mod 65536)]\<rparr>) p)"

definition admit_target :: "world \<Rightarrow> string list \<Rightarrow> Transport \<Rightarrow> string \<Rightarrow> Revocations option \<Rightarrow> NetPolicy \<Rightarrow> (errs + Destination) \<times> NetPolicy" where
  "admit_target w order t target rv p0 =
    (let e = Available (wd_icmp w (po_tick p0)) t (Some p0); p = tick p0 in
     if e \<noteq> [] then (Inl e, p)
     else case splitTarget t target of Inl e \<Rightarrow> (Inl e, p)
     | Inr (host, port) \<Rightarrow>
       if CheckPort (po_op p) port \<noteq> [] then (Inl (CheckPort (po_op p) port), p)
       else if CheckHost (po_op p) rv host \<noteq> [] then (Inl (CheckHost (po_op p) rv host), p)
       else case resolve w host p of (Inl e, p) \<Rightarrow> (Inl e, p)
       | (Inr candidates, p) \<Rightarrow> (case allowlist w p of (Inl e, p) \<Rightarrow> (Inl e, p)
         | (Inr allowed, p) \<Rightarrow> (case deniedAddrs w order rv p of (dn, p) \<Rightarrow>
             (case admit_loop w t rv dn allowed port candidates [] \<lparr>ds_Addrs = [], ds_Key = [], ds_ServerName = (if isAddrLiteral host then [] else host)\<rparr> p of
               (refs, d, p) \<Rightarrow> (if ds_Addrs d \<noteq> [] then Inr d else if refs = [] then Inl [ErrNotInPolicy] else Inl refs, p)))))"

definition AdmitDestination :: "world \<Rightarrow> string list \<Rightarrow> Transport \<Rightarrow> string \<Rightarrow> Revocations option \<Rightarrow> NetPolicy option
    \<Rightarrow> (errs + Destination) \<times> Revocations option \<times> NetPolicy option" where
  "AdmitDestination w order t target rv po = (case po of None \<Rightarrow> (Inl [ErrTransportUnavailable], rv, None)
     | Some p \<Rightarrow> (case admit_target w order t target rv p of (r, p) \<Rightarrow>
         (r, observeAdmission (case r of Inl e \<Rightarrow> e | Inr _ \<Rightarrow> []) rv, Some p)))"

definition CheckSocket :: "Operator \<Rightarrow> Revocations option \<Rightarrow> instant \<Rightarrow> bool \<Rightarrow> string \<Rightarrow> Destination \<Rightarrow> Egress option \<Rightarrow> errs \<times> Egress option" where
  "CheckSocket op rv now allow address d eo =
    (case SplitHostPort address of Inl e \<Rightarrow> ([ErrDenied, BadTarget e], eo)
     | Inr (host, port) \<Rightarrow> (case ParseAddr host of None \<Rightarrow> ([ErrDenied], eo)
     | Some a \<Rightarrow> let addr = Normalize a in
       if checkDeclared rv (ds_Key d) \<noteq> [] then (checkDeclared rv (ds_Key d), eo)
       else if \<not> list_ex (\<lambda>(c, q). c = addr \<and> \<not> (port \<noteq> 0 \<and> q \<noteq> 0 \<and> port \<noteq> q)) (ds_Addrs d) then ([ErrDenied], eo)
       else if CheckPort op port \<noteq> [] then (CheckPort op port, eo)
       else if CheckAddr op rv (Some addr) \<noteq> [] then (CheckAddr op rv (Some addr), eo)
       else egress_Connect now allow addr eo))"

section \<open>Peers\<close>

definition admit_peer :: "world \<Rightarrow> string list \<Rightarrow> Transport \<Rightarrow> ip_addr option \<Rightarrow> int \<Rightarrow> Revocations option \<Rightarrow> NetPolicy \<Rightarrow> (errs + string) \<times> NetPolicy" where
  "admit_peer w order t addr port rv p0 =
    (let e = Available (wd_icmp w (po_tick p0)) t (Some p0); p = tick p0; peer = map_option Normalize addr in
     if e \<noteq> [] then (Inl e, p)
     else if checkFamily t peer p \<noteq> [] then (Inl (checkFamily t peer p), p)
     else if t \<noteq> Inbound \<and> CheckPort (po_op p) port \<noteq> [] then (Inl (CheckPort (po_op p) port), p)
     else case deniedAddrs w order rv p of (dn, p) \<Rightarrow> (case Option.bind peer (map_of dn) of Some e \<Rightarrow> (Inl e, p)
     | None \<Rightarrow> if CheckAddr (po_op p) rv peer \<noteq> [] then (Inl (CheckAddr (po_op p) rv peer), p)
       else case allowlist w p of (Inl e, p) \<Rightarrow> (Inl e, p)
       | (Inr allowed, p) \<Rightarrow> (case Option.bind peer (map_of allowed) of None \<Rightarrow> (Inl [ErrNotInPolicy], p)
         | Some key \<Rightarrow> if checkDeclared rv key \<noteq> [] then (Inl (checkDeclared rv key), p)
           else (case check_grant w (the peer) p of (err, p) \<Rightarrow> (if err \<noteq> [] then Inl err else Inr key, p)))))"

definition AdmitAddr :: "world \<Rightarrow> string list \<Rightarrow> Transport \<Rightarrow> ip_addr option \<Rightarrow> int \<Rightarrow> Revocations option \<Rightarrow> NetPolicy option
    \<Rightarrow> (errs + string) \<times> Revocations option \<times> NetPolicy option" where
  "AdmitAddr w order t addr port rv po = (case po of None \<Rightarrow> (Inl [ErrTransportUnavailable], rv, None)
     | Some p \<Rightarrow> (case admit_peer w order t addr port rv p of (r, p) \<Rightarrow>
         (r, observeAdmission (case r of Inl e \<Rightarrow> e | Inr _ \<Rightarrow> []) rv, Some p)))"

definition Revoked :: "string list \<Rightarrow> Revocations option \<Rightarrow> string \<Rightarrow> NetPolicy \<Rightarrow> bool" where
  "Revoked order rv remote p = (if rv = None then False
     else case SplitHostPort remote of Inl _ \<Rightarrow> False
     | Inr (host, _) \<Rightarrow> (case ParseAddr host of None \<Rightarrow> False
       | Some a \<Rightarrow> list_ex (\<lambda>b. checkDeclared rv (Addr_String b) \<noteq> []) (aliases a) \<or> list_ex (\<lambda>name. Normalize a \<in> po_seen p name) (rv_hosts order rv)))"

section \<open>What resolution remembers\<close>

text \<open>The run has had the address from the name, or the text is the address.\<close>

definition resolved :: "NetPolicy \<Rightarrow> string \<Rightarrow> ip_addr \<Rightarrow> bool" where
  "resolved p host a \<longleftrightarrow> (case ParseAddr host of Some x \<Rightarrow> a = Normalize x | None \<Rightarrow> a \<in> po_seen p (DestinationKey host))"

definition policy_ok :: "NetPolicy \<Rightarrow> bool" where
  "policy_ok p \<longleftrightarrow> (\<forall>host entry a. po_cache p host = Some entry \<and> a \<in> set (rs_addrs entry) \<longrightarrow> a \<in> po_seen p (DestinationKey host))
     \<and> (\<forall>k. \<forall>a \<in> po_seen p k. Normalize a = a)"

definition grows :: "NetPolicy \<Rightarrow> NetPolicy \<Rightarrow> bool" where
  "grows p q \<longleftrightarrow> (\<forall>k. po_seen p k \<subseteq> po_seen q k) \<and> po_op q = po_op p \<and> po_run q = po_run p \<and> po_ttl q = po_ttl p
     \<and> map_option eg_addresses (po_egress q) = map_option eg_addresses (po_egress p)"

lemma grows_refl [simp]: "grows p p"
  by (simp add: grows_def)

lemma grows_trans [trans]: "grows p q \<Longrightarrow> grows q r \<Longrightarrow> grows p r"
  unfolding grows_def by (metis subset_trans)

lemma grows_tick [simp]: "grows p (tick p)" "policy_ok (tick p) = policy_ok p"
  by (simp_all add: grows_def tick_def policy_ok_def)

lemma grows_resolved: "grows p q \<Longrightarrow> resolved p host a \<Longrightarrow> resolved q host a"
  by (auto simp: grows_def resolved_def split: option.splits)

lemma Normalize_idem [simp]: "Normalize (Normalize a) = Normalize a"
  by (cases a) (auto simp: Normalize_def)

lemma lookup_ok:
  assumes "policy_ok p" "lookup w host p = (entry, q)"
  shows "policy_ok q" "grows p q" "set (rs_addrs entry) \<subseteq> po_seen q (DestinationKey host)"
  using assms by (auto simp: lookup_def see_def tick_def policy_ok_def grows_def Let_def subset_iff split: sum.splits if_splits) metis+

lemma cached_ok:
  assumes "policy_ok p" "cached w host p = (r, q)"
  shows "policy_ok q" "grows p q" "r = Some entry \<Longrightarrow> set (rs_addrs entry) \<subseteq> po_seen q (DestinationKey host)"
  using assms by (auto simp: subset_iff cached_def tick_def policy_ok_def grows_def split: if_splits option.splits)

lemma remember_ok:
  assumes "policy_ok p" "set (rs_addrs entry) \<subseteq> po_seen p (DestinationKey host)"
  shows "policy_ok (remember host entry p)" "grows p (remember host entry p)"
  using assms by (auto simp: remember_def policy_ok_def grows_def)

lemma resolve_ok:
  assumes ok: "policy_ok p" and r: "resolve w host p = (r, q)"
  shows "policy_ok q" "grows p q" "r = Inr as \<Longrightarrow> a \<in> set as \<Longrightarrow> resolved q host a \<and> Normalize a = a"
proof -
  have "policy_ok q \<and> grows p q \<and> (\<forall>as. r = Inr as \<longrightarrow> (\<forall>a \<in> set as. resolved q host a))"
  proof (cases "ParseAddr host")
    case (Some x)
    then show ?thesis using r ok by (auto simp: resolve_def resolved_def)
  next
    case None
    obtain e p1 where c: "cached w host p = (e, p1)" by fastforce
    note c1 = cached_ok [OF ok c]
    show ?thesis
    proof (cases e)
      case (Some entry)
      then show ?thesis using r None c c1 c1(3) [OF Some] by (auto simp: resolve_def resolved_def split: if_splits)
    next
      case nocache: None
      obtain entry p2 where l: "lookup w host p1 = (entry, p2)" by fastforce
      note l1 = lookup_ok [OF c1(1) l] and m = remember_ok [OF lookup_ok(1,3) [OF c1(1) l]]
      have q: "q = remember host entry p2" "\<forall>as. r = Inr as \<longrightarrow> as = rs_addrs entry" using r None c nocache l by (auto simp: resolve_def split: if_splits)
      have "grows p q" using grows_trans [OF c1(2) grows_trans [OF l1(2) m(2)]] q by simp
      moreover have "resolved q host a" if "a \<in> set (rs_addrs entry)" for a
        using that l1(3) m(2) None q by (auto simp: resolved_def grows_def)
      ultimately show ?thesis using q m(1) by auto
    qed
  qed
  then show "policy_ok q" "grows p q" "r = Inr as \<Longrightarrow> a \<in> set as \<Longrightarrow> resolved q host a \<and> Normalize a = a"
    by (auto simp: resolved_def policy_ok_def split: option.splits)
qed


lemma add_new_Some: "map_of (add_new v as m) a = Some x \<Longrightarrow> map_of m a = Some x \<or> x = v \<and> a \<in> set as"
  unfolding add_new_def by (induction as arbitrary: m) (fastforce split: if_splits)+

lemma allow_loop_ok:
  assumes "policy_ok p" "allow_loop w ds m refs p = (m', refs', q)"
  shows "policy_ok q \<and> grows p q \<and> (\<forall>a d. map_of m' a = Some d \<longrightarrow> map_of m a = Some d \<or> d \<in> set ds \<and> resolved q (DeclaredHost d) a)"
  using assms
proof (induction ds arbitrary: m refs p)
  case (Cons d ds)
  show ?case
  proof (cases "DeclaredHost d = []")
    case True
    then show ?thesis using Cons by fastforce
  next
    case False
    obtain r p1 where r: "resolve w (DeclaredHost d) p = (r, p1)" by fastforce
    note r1 = resolve_ok [OF Cons.prems(1) r]
    show ?thesis
    proof (cases r)
      case (Inl e)
      then have "allow_loop w ds m (refs @ e) p1 = (m', refs', q)" using Cons.prems(2) False r by simp
      from Cons.IH [OF r1(1) this] show ?thesis using grows_trans [OF r1(2)] by auto
    next
      case (Inr as)
      then have "allow_loop w ds (add_new d as m) refs p1 = (m', refs', q)" using Cons.prems(2) False r by simp
      from Cons.IH [OF r1(1) this] have i: "policy_ok q" "grows p1 q" "\<And>a x. map_of m' a = Some x \<Longrightarrow> map_of (add_new d as m) a = Some x \<or> x \<in> set ds \<and> resolved q (DeclaredHost x) a" by auto
      have res: "resolved q (DeclaredHost d) a" if "a \<in> set as" for a using grows_resolved [OF i(2)] r1(3) [OF Inr that] by simp
      have "map_of m a = Some x \<or> x \<in> set (d # ds) \<and> resolved q (DeclaredHost x) a" if "map_of m' a = Some x" for a x
        using i(3) [OF that] add_new_Some [of d as m a x] res [of a] by auto
      then show ?thesis using i(1,2) grows_trans [OF r1(2)] by blast
    qed
  qed
qed simp

lemma allowlist_ok:
  assumes "policy_ok p" "allowlist w p = (r, q)"
  shows "policy_ok q" "grows p q" "r = Inr m \<Longrightarrow> map_of m a = Some d \<Longrightarrow> d \<in> set (nr_Addresses (po_run p)) \<and> resolved q (DeclaredHost d) a"
proof -
  obtain m' refs where l: "allow_loop w (nr_Addresses (po_run p)) [] [] p = (m', refs, q)" using assms(2) by (auto simp: allowlist_def split: prod.splits)
  note l1 = allow_loop_ok [OF assms(1) l]
  show "policy_ok q" "grows p q" using l1 by auto
  show "d \<in> set (nr_Addresses (po_run p)) \<and> resolved q (DeclaredHost d) a" if "r = Inr m" "map_of m a = Some d"
    using that l1 assms(2) l by (auto simp: allowlist_def split: if_splits)
qed

lemma deny_loop_ok:
  assumes "policy_ok p" "deny_loop w hs m p = (m', q)"
  shows "policy_ok q \<and> grows p q"
  using assms
proof (induction hs arbitrary: m p)
  case (Cons h hs)
  obtain host e where h: "h = (host, e)" by fastforce
  obtain r p1 where r: "resolve w host p = (r, p1)" by fastforce
  note r1 = resolve_ok [OF Cons.prems(1) r]
  obtain m1 where "deny_loop w hs m1 p1 = (m', q)" using Cons.prems(2) r h by (cases r) auto
  from Cons.IH [OF r1(1) this] show ?case using grows_trans [OF r1(2)] by auto
qed simp

lemma deniedAddrs_ok: "policy_ok p \<Longrightarrow> deniedAddrs w order rv p = (dn, q) \<Longrightarrow> policy_ok q \<and> grows p q"
  unfolding deniedAddrs_def by (rule deny_loop_ok)

lemma check_grant_ok:
  assumes "policy_ok p" "check_grant w a p = (err, q)"
  shows "policy_ok q" "grows p q" "err = [] \<Longrightarrow> po_egress p = Some e \<Longrightarrow> Normalize a \<in> set (eg_addresses e)"
  using assms by (auto simp: check_grant_def egress_CheckAddress_def activeAt_def tick_def policy_ok_def grows_def Let_def split: option.splits prod.splits if_splits)

text \<open>What holds of every address that is let through, with the state in which it was decided.\<close>

definition admitted :: "Transport \<Rightarrow> Revocations option \<Rightarrow> NetPolicy \<Rightarrow> ip_addr \<Rightarrow> string \<Rightarrow> bool" where
  "admitted t rv p a d \<longleftrightarrow> (nr_RefuseIPv6 (po_run p) \<and> t \<noteq> SCION \<longrightarrow> Is4 a) \<and> CheckAddr (po_op p) rv (Some a) = []
     \<and> d \<in> set (nr_Addresses (po_run p)) \<and> resolved p (DeclaredHost d) a \<and> checkDeclared rv d = []
     \<and> (\<forall>e. po_egress p = Some e \<longrightarrow> Normalize a \<in> set (eg_addresses e))"

lemma grows_admitted:
  assumes "grows p q" "admitted t rv p a d"
  shows "admitted t rv q a d"
proof -
  have "Normalize a \<in> set (eg_addresses e)" if "po_egress q = Some e" for e
    using assms that by (cases "po_egress p") (auto simp: grows_def admitted_def)
  then show ?thesis using assms grows_resolved [OF assms(1)] by (auto simp: grows_def admitted_def)
qed

lemma admit_candidate_ok:
  assumes ok: "policy_ok p" and r: "admit_candidate w t rv dn m a p = (r, q)"
    and m: "\<And>a d. map_of m a = Some d \<Longrightarrow> d \<in> set (nr_Addresses (po_run p)) \<and> resolved p (DeclaredHost d) a"
  shows "policy_ok q \<and> grows p q \<and> (\<forall>d. r = Inr d \<longrightarrow> admitted t rv q a d \<and> map_of dn a = None \<and> (t = ICMP \<longrightarrow> Is4 a))"
proof (cases "(t = ICMP \<and> \<not> Is4 a) \<or> checkFamily t (Some a) p \<noteq> [] \<or> map_of dn a \<noteq> None \<or> CheckAddr (po_op p) rv (Some a) \<noteq> []")
  case True
  then show ?thesis using r ok by (auto simp: admit_candidate_def split: if_splits option.splits)
next
  case False
  obtain err p1 where g: "check_grant w a p = (err, p1)" by fastforce
  note g1 = check_grant_ok [OF ok g]
  have q: "q = p1" "\<forall>d. r = Inr d \<longrightarrow> err = [] \<and> map_of m a = Some d \<and> checkDeclared rv d = []"
    using r False g by (auto simp: admit_candidate_def split: if_splits option.splits)
  have "admitted t rv p a d" if "r = Inr d" for d
    using that q(2) False m [of a d] g1(3) by (auto simp: admitted_def checkFamily_def split: if_splits)
  then show ?thesis using g1(1,2) q grows_admitted [OF g1(2)] False by auto
qed

lemma admit_loop_ok:
  assumes "policy_ok p" "admit_loop w t rv dn m port as refs d p = (refs', d', q)"
    and "\<And>a d. map_of m a = Some d \<Longrightarrow> d \<in> set (nr_Addresses (po_run p)) \<and> resolved p (DeclaredHost d) a"
  shows "policy_ok q \<and> grows p q \<and> (\<forall>(a, n) \<in> set (ds_Addrs d'). (a, n) \<in> set (ds_Addrs d) \<or> a \<in> set as \<and> n = port mod 65536 \<and> map_of dn a = None \<and> (t = ICMP \<longrightarrow> Is4 a) \<and> (\<exists>k. admitted t rv q a k))
    \<and> ds_ServerName d' = ds_ServerName d"
  using assms
proof (induction as arbitrary: refs d p)
  case (Cons a as)
  obtain r p1 where r: "admit_candidate w t rv dn m a p = (r, p1)" by fastforce
  note r1 = admit_candidate_ok [OF Cons.prems(1) r Cons.prems(3)]
  have m: "k \<in> set (nr_Addresses (po_run p1)) \<and> resolved p1 (DeclaredHost k) b" if "map_of m b = Some k" for b k
    using Cons.prems(3) [OF that] r1 grows_resolved [of p p1] by (auto simp: grows_def)
  obtain refs1 d1 where l: "admit_loop w t rv dn m port as refs1 d1 p1 = (refs', d', q)"
    and d1: "d1 = (case r of Inl _ \<Rightarrow> d | Inr key \<Rightarrow> d\<lparr>ds_Key := (if ds_Key d = [] then key else ds_Key d), ds_Addrs := ds_Addrs d @ [(a, port mod 65536)]\<rparr>)"
    using Cons.prems(2) r by (cases r) auto
  have p1: "policy_ok p1" "grows p p1" using r1 by auto
  have i: "policy_ok q \<and> grows p1 q \<and> (\<forall>(a, n) \<in> set (ds_Addrs d'). (a, n) \<in> set (ds_Addrs d1) \<or> a \<in> set as \<and> n = port mod 65536 \<and> map_of dn a = None \<and> (t = ICMP \<longrightarrow> Is4 a) \<and> (\<exists>k. admitted t rv q a k))
    \<and> ds_ServerName d' = ds_ServerName d1" by (rule Cons.IH [OF p1(1) l m])
  have "(b, n) \<in> set (ds_Addrs d) \<or> b \<in> set (a # as) \<and> n = port mod 65536 \<and> map_of dn b = None \<and> (t = ICMP \<longrightarrow> Is4 b) \<and> (\<exists>k. admitted t rv q b k)" if b: "(b, n) \<in> set (ds_Addrs d')" for b n
  proof (cases "(b, n) \<in> set (ds_Addrs d1)")
    case True
    show ?thesis
    proof (cases r)
      case (Inr key)
      then have "admitted t rv q a key" "map_of dn a = None" "t = ICMP \<longrightarrow> Is4 a" using r1 grows_admitted [of p1 q] i by auto
      then show ?thesis using True d1 Inr by auto
    qed (use True d1 in auto)
  next
    case False
    then show ?thesis using i b by auto
  qed
  moreover have "ds_ServerName d' = ds_ServerName d" using i d1 by (cases r) auto
  ultimately show ?case using i grows_trans [OF p1(2)] by blast
qed simp


lemma splitTarget_port: "splitTarget t target = Inr (host, port) \<Longrightarrow> 0 \<le> port \<and> port < 65536"
  by (auto simp: splitTarget_def SplitHostPort_def Let_def split: if_splits sum.splits option.splits prod.splits)

lemma admit_target_ok:
  assumes ok: "policy_ok p" and a: "admit_target w order t target rv p = (r, q)"
  shows "policy_ok q \<and> grows p q \<and> (\<forall>d. r = Inr d \<longrightarrow> op_enabled (po_op p) t \<and> ds_Addrs d \<noteq> []
    \<and> (\<exists>host port. splitTarget t target = Inr (host, port) \<and> CheckPort (po_op p) port = [] \<and> CheckHost (po_op p) rv host = []
      \<and> (\<forall>(a, n) \<in> set (ds_Addrs d). n = port \<and> resolved q host a \<and> (t = ICMP \<longrightarrow> Is4 a) \<and> (\<exists>k. admitted t rv q a k))))"
proof (cases "Available (wd_icmp w (po_tick p)) t (Some p) \<noteq> [] \<or> (case splitTarget t target of Inl _ \<Rightarrow> True
    | Inr (host, port) \<Rightarrow> CheckPort (po_op p) port \<noteq> [] \<or> CheckHost (po_op p) rv host \<noteq> [])")
  case True
  have o: "po_op (tick p) = po_op p" by (simp add: tick_def)
  then have "q = tick p \<and> (\<exists>e. r = Inl e)" using True a by (auto simp: admit_target_def Let_def split: if_splits sum.splits prod.splits)
  then show ?thesis using ok by auto
next
  case False
  then obtain host port where h: "splitTarget t target = Inr (host, port)" "CheckPort (po_op p) port = []" "CheckHost (po_op p) rv host = []"
    and av: "Available (wd_icmp w (po_tick p)) t (Some p) = []" by (auto split: sum.splits)
  have o: "po_op (tick p) = po_op p" by (simp add: tick_def)
  have ok0: "policy_ok (tick p)" "grows p (tick p)" using ok by simp_all
  obtain c p1 where c: "resolve w host (tick p) = (c, p1)" by fastforce
  note c1 = resolve_ok [OF ok0(1) c]
  have g1: "grows p p1" using grows_trans [OF ok0(2) c1(2)] .
  show ?thesis
  proof (cases c)
    case (Inl e)
    then have "r = Inl e" "q = p1" using a h av c o by (auto simp: admit_target_def Let_def)
    then show ?thesis using c1(1) g1 by auto
  next
    case (Inr cands)
    obtain l p2 where l: "allowlist w p1 = (l, p2)" by fastforce
    note l1 = allowlist_ok [OF c1(1) l]
    have g2: "grows p p2" using grows_trans [OF g1 l1(2)] .
    show ?thesis
    proof (cases l)
      case (Inl e)
      then have "r = Inl e" "q = p2" using a h av c o Inr l by (auto simp: admit_target_def Let_def)
      then show ?thesis using l1(1) g2 by auto
    next
      case allowed: (Inr m)
      obtain dn p3 where dn: "deniedAddrs w order rv p2 = (dn, p3)" by fastforce
      note d1 = deniedAddrs_ok [OF l1(1) dn]
      let ?d0 = "\<lparr>ds_Addrs = [], ds_Key = [], ds_ServerName = (if isAddrLiteral host then [] else host)\<rparr>"
      obtain refs d where loop: "admit_loop w t rv dn m port cands [] ?d0 p3 = (refs, d, q)"
        and r: "r = (if ds_Addrs d \<noteq> [] then Inr d else if refs = [] then Inl [ErrNotInPolicy] else Inl refs)"
        using a h av c o Inr l allowed dn by (auto simp: admit_target_def Let_def split: prod.splits)
      have m: "k \<in> set (nr_Addresses (po_run p3)) \<and> resolved p3 (DeclaredHost k) b" if "map_of m b = Some k" for b k
        using l1(3) [OF allowed that] d1 l1(2) grows_resolved [of p2 p3] by (auto simp: grows_def)
      have p3: "policy_ok p3" using d1 by simp
      note adm = admit_loop_ok [OF p3 loop m]
      have q: "policy_ok q" "grows p q" "grows p1 q" using adm d1 grows_trans [OF g2] grows_trans [OF l1(2)] grows_trans [of p2 p3 q] by auto
      have port: "port mod 65536 = port" using splitTarget_port [OF h(1)] by simp
      have "n = port \<and> resolved q host b \<and> (t = ICMP \<longrightarrow> Is4 b) \<and> (\<exists>k. admitted t rv q b k)" if "(b, n) \<in> set (ds_Addrs d)" for b n
        using adm that port c1(3) [OF Inr, of b] grows_resolved [OF q(3)] by auto
      then show ?thesis using q r h av by (auto simp: Available_def split: if_splits)
    qed
  qed
qed

lemma admit_peer_ok:
  assumes ok: "policy_ok p" and a: "admit_peer w order t addr port rv p = (Inr key, q)"
  shows "grows p q \<and> op_enabled (po_op p) t \<and> (t \<noteq> Inbound \<longrightarrow> CheckPort (po_op p) port = []) \<and> (\<exists>x. addr = Some x \<and> admitted t rv q (Normalize x) key)"
proof -
  have o: "po_op (tick p) = po_op p" "\<And>t x. checkFamily t x (tick p) = checkFamily t x p" by (simp_all add: tick_def checkFamily_def)
  obtain dn p1 where dn: "deniedAddrs w order rv (tick p) = (dn, p1)" by fastforce
  have p1: "policy_ok p1" "grows p p1" using deniedAddrs_ok [OF _ dn] ok grows_trans [OF grows_tick(1)] by auto
  have o1: "po_op p1 = po_op p" "po_run p1 = po_run p" using p1(2) by (simp_all add: grows_def)
  obtain l p2 where l: "allowlist w p1 = (l, p2)" by fastforce
  note l1 = allowlist_ok [OF p1(1) l]
  have av: "Available (wd_icmp w (po_tick p)) t (Some p) = []" "checkFamily t (map_option Normalize addr) p = []" "t \<noteq> Inbound \<longrightarrow> CheckPort (po_op p) port = []"
    using a o by (auto simp: admit_peer_def Let_def split: if_splits)
  have ad: "Option.bind (map_option Normalize addr) (map_of dn) = None" "CheckAddr (po_op p) rv (map_option Normalize addr) = []"
    using a o av dn o1 by (auto simp: admit_peer_def Let_def split: if_splits option.splits)
  obtain x where x: "addr = Some x" using ad(2) by (cases addr) (auto simp: CheckAddr_def)
  obtain m where m: "l = Inr m" using a o av dn o1 ad l x by (cases l) (auto simp: admit_peer_def Let_def)
  obtain err p3 where g: "check_grant w (Normalize x) p2 = (err, p3)" by fastforce
  note g1 = check_grant_ok [OF l1(1) g]
  have k: "map_of m (Normalize x) = Some key" "checkDeclared rv key = []" "err = []" "q = p3"
    using a o av dn o1 ad l x m g by (auto simp: admit_peer_def Let_def split: option.splits if_splits)
  have g2: "grows p p2" using grows_trans [OF p1(2) l1(2)] .
  then have o2: "po_op p2 = po_op p" "po_run p2 = po_run p" by (simp_all add: grows_def)
  have "Normalize x \<in> set (eg_addresses e)" if "po_egress p2 = Some e" for e using g1(3) [OF k(3) that] by simp
  then have "admitted t rv p2 (Normalize x) key"
    using k l1(3) [OF m k(1)] o1 o2 ad(2) av(2) x by (auto simp: admitted_def checkFamily_def split: if_splits)
  then show ?thesis using grows_admitted [OF g1(2)] grows_trans [OF g2 g1(2)] k(4) av x by (auto simp: Available_def split: if_splits)
qed

section \<open>Revocation\<close>

lemma Update_close_denied: "rv_denied (snd (Update_close closed ws m r)) = rv_denied r"
  by (induction ws arbitrary: r) (auto split: prod.splits, (metis Revocations.select_convs(1) Revocations.surjective Revocations.update_convs(4) snd_conv)+)

lemma Update_denies:
  assumes "Revocations_Update order closed dests replace r = (rs, r')"
  shows "rv_denied r' = (if replace then {} else rv_denied r) \<union> {k \<in> DestinationKey ` set dests. k \<noteq> []}"
proof -
  obtain ws r1 where u: "Update_begin order dests replace r = (ws, r1)" by fastforce
  then have "rv_denied r1 = (if replace then {} else rv_denied r) \<union> {k \<in> DestinationKey ` set dests. k \<noteq> []}" by (auto simp: Update_begin_def Let_def)
  moreover have "r' = snd (Update_close closed ws (rv_watchers r) r1)" using assms u by (simp add: Revocations_Update_def)
  ultimately show ?thesis by (simp add: Update_close_denied)
qed

section \<open>Questions asked of the resolver\<close>

text \<open>What admissions do to the state, however many there are and however they interleave between their resolutions.\<close>

inductive pol_reaches :: "world \<Rightarrow> NetPolicy \<Rightarrow> NetPolicy \<Rightarrow> bool" for w where
  pr_refl: "pol_reaches w p p"
| pr_tick: "pol_reaches w p q \<Longrightarrow> pol_reaches w p (tick q)"
| pr_resolve: "pol_reaches w p q \<Longrightarrow> resolve w host q = (r, q') \<Longrightarrow> pol_reaches w p q'"
| pr_grant: "pol_reaches w p q \<Longrightarrow> check_grant w a q = (e, q') \<Longrightarrow> pol_reaches w p q'"

lemma pr_trans: "pol_reaches w q r \<Longrightarrow> pol_reaches w p q \<Longrightarrow> pol_reaches w p r"
  by (induction rule: pol_reaches.induct) (auto intro: pol_reaches.intros)

lemma allow_loop_reaches: "allow_loop w ds m refs q = (m', refs', q') \<Longrightarrow> pol_reaches w p q \<Longrightarrow> pol_reaches w p q'"
proof (induction ds arbitrary: m refs q)
  case (Cons d ds)
  obtain r q1 where r: "resolve w (DeclaredHost d) q = (r, q1)" by fastforce
  have "pol_reaches w p q1" using pr_resolve [OF Cons.prems(2) r] .
  then show ?case using Cons r by (cases r) (auto split: if_splits)
qed simp

lemma deny_loop_reaches: "deny_loop w hs m q = (m', q') \<Longrightarrow> pol_reaches w p q \<Longrightarrow> pol_reaches w p q'"
proof (induction hs arbitrary: m q)
  case (Cons h hs)
  obtain host e where h: "h = (host, e)" by fastforce
  obtain r q1 where r: "resolve w host q = (r, q1)" by fastforce
  have "pol_reaches w p q1" using pr_resolve [OF Cons.prems(2) r] .
  then show ?case using Cons r h by (cases r) auto
qed simp

lemma admit_loop_reaches: "admit_loop w t rv dn m port as refs d q = (refs', d', q') \<Longrightarrow> pol_reaches w p q \<Longrightarrow> pol_reaches w p q'"
proof (induction as arbitrary: refs d q)
  case (Cons a as)
  obtain r q1 where c: "admit_candidate w t rv dn m a q = (r, q1)" by fastforce
  have "pol_reaches w p q1" using c Cons.prems(2) by (auto simp: admit_candidate_def split: if_splits option.splits prod.splits intro: pr_grant)
  then show ?case using Cons c by (cases r) auto
qed simp

lemma allowlist_reaches: "allowlist w q = (r, q') \<Longrightarrow> pol_reaches w p q \<Longrightarrow> pol_reaches w p q'"
  by (auto simp: allowlist_def split: prod.splits dest: allow_loop_reaches)

lemma deniedAddrs_reaches: "deniedAddrs w order rv q = (dn, q') \<Longrightarrow> pol_reaches w p q \<Longrightarrow> pol_reaches w p q'"
  unfolding deniedAddrs_def by (rule deny_loop_reaches)

lemma admit_target_reaches:
  assumes "admit_target w order t target rv q = (r, q')" "pol_reaches w p q"
  shows "pol_reaches w p q'"
proof -
  have t: "pol_reaches w p (tick q)" using assms(2) by (rule pr_tick)
  show ?thesis
  proof (cases "splitTarget t target")
    case (Inr hp)
    obtain host port where hp: "hp = (host, port)" by fastforce
    obtain c q1 where c: "resolve w host (tick q) = (c, q1)" by fastforce
    have q1: "pol_reaches w p q1" using pr_resolve [OF t c] .
    obtain l q2 where l: "allowlist w q1 = (l, q2)" by fastforce
    have q2: "pol_reaches w p q2" using allowlist_reaches [OF l q1] .
    obtain dn q3 where dn: "deniedAddrs w order rv q2 = (dn, q3)" by fastforce
    have q3: "pol_reaches w p q3" using deniedAddrs_reaches [OF dn q2] .
    show ?thesis using assms(1) t q1 q2 admit_loop_reaches [OF _ q3] c l dn Inr hp
      by (auto simp: admit_target_def Let_def split: if_splits sum.splits prod.splits)
  qed (use assms(1) t in \<open>auto simp: admit_target_def Let_def split: if_splits\<close>)
qed

text \<open>A monotonic clock, and the times at which the resolver was asked for a name.\<close>

definition clock_ok :: "world \<Rightarrow> (nat \<Rightarrow> int) \<Rightarrow> bool" where
  "clock_ok w f \<longleftrightarrow> mono f \<and> (\<forall>k. inst_mono (wd_now w k) = Some (f k) \<and> 0 \<le> f k \<and> f k \<le> i64_max)"

definition asked :: "string \<Rightarrow> NetPolicy \<Rightarrow> int list" where
  "asked host p = map (\<lambda>x. the (inst_mono (snd x))) (filter (\<lambda>x. fst x = host) (po_log p))"

definition last_kept :: "world \<Rightarrow> (nat \<Rightarrow> int) \<Rightarrow> string \<Rightarrow> NetPolicy \<Rightarrow> bool" where
  "last_kept w f host p \<longleftrightarrow> (\<exists>e k. po_cache p host = Some e \<and> rs_at e = wd_now w k \<and> k < po_tick p \<and> f k = last (asked host p))"

definition paced :: "world \<Rightarrow> (nat \<Rightarrow> int) \<Rightarrow> NetPolicy \<Rightarrow> bool" where
  "paced w f p \<longleftrightarrow> 0 < po_ttl p \<and> (\<forall>host. successively (\<lambda>s t. po_ttl p \<le> t - s) (asked host p) \<and> (asked host p \<noteq> [] \<longrightarrow> last_kept w f host p))"

lemma paced_same:
  assumes "paced w f p" "po_ttl q = po_ttl p" "po_log q = po_log p" "po_cache q = po_cache p" "po_tick p \<le> po_tick q"
  shows "paced w f q"
proof -
  have a: "asked host q = asked host p" for host using assms(3) by (simp add: asked_def)
  have "last_kept w f host q" if "last_kept w f host p" for host
  proof -
    obtain e k where "po_cache p host = Some e" "rs_at e = wd_now w k" "k < po_tick p" "f k = last (asked host p)" using \<open>last_kept w f host p\<close> by (auto simp: last_kept_def)
    then show ?thesis using assms(4,5) a unfolding last_kept_def by (intro exI [of _ e] exI [of _ k]) simp
  qed
  then show ?thesis using assms(1,2) a by (simp add: paced_def)
qed

lemma paced_resolve:
  assumes c: "clock_ok w f" and p: "paced w f p" and r: "resolve w host p = (r, q)"
  shows "paced w f q"
proof (cases "ParseAddr host")
  case (Some x)
  then show ?thesis using p r by (simp add: resolve_def)
next
  case None
  have ttl: "0 < po_ttl p" using p by (simp add: paced_def)
  obtain e p1 where ca: "cached w host p = (e, p1)" by fastforce
  then have same: "po_ttl p1 = po_ttl p" "po_log p1 = po_log p" "po_cache p1 = po_cache p" "po_tick p \<le> po_tick p1"
    by (auto simp: cached_def tick_def split: if_splits option.splits)
  show ?thesis
  proof (cases e)
    case (Some entry)
    then have "q = p1" using r None ca by (simp add: resolve_def)
    then show ?thesis using paced_same [OF p same] by simp
  next
    case miss: None
    let ?at = "wd_now w (po_tick p1)"
    obtain entry p2 where l: "lookup w host p1 = (entry, p2)" by fastforce
    then have l2: "rs_at entry = ?at" "po_ttl p2 = po_ttl p" "po_log p2 = po_log p @ [(host, ?at)]" "po_cache p2 = po_cache p" "po_tick p2 = po_tick p1 + 2"
      using same by (auto simp: lookup_def see_def tick_def Let_def split: sum.splits)
    have q: "q = p2\<lparr>po_cache := (po_cache p)(host \<mapsto> entry)\<rparr>" using r None ca miss l l2 ttl by (simp add: resolve_def remember_def)
    have other: "asked h q = asked h p" if "h \<noteq> host" for h using that by (simp add: asked_def q l2)
    have own: "asked host q = asked host p @ [f (po_tick p1)]" using c by (simp add: asked_def q l2 clock_ok_def)
    have gap: "po_ttl p \<le> f (po_tick p1) - last (asked host p)" if ne: "asked host p \<noteq> []"
    proof -
      obtain e' k where e': "po_cache p host = Some e'" "rs_at e' = wd_now w k" "f k = last (asked host p)"
        using p ne unfolding paced_def last_kept_def by blast
      then have "po_ttl p \<le> time_Sub (wd_now w (po_tick p)) (wd_now w k)" using ca miss ttl by (auto simp: cached_def split: if_splits)
      moreover have "time_Sub (wd_now w (po_tick p)) (wd_now w k) = f (po_tick p) - f k"
      proof -
        have b: "0 \<le> f j \<and> f j \<le> i64_max" "inst_mono (wd_now w j) = Some (f j)" for j using c by (simp_all add: clock_ok_def)
        show ?thesis using b(1) [of k] b(1) [of "po_tick p"] by (simp add: time_Sub_def b(2) saturate_def i64_min_def i64_max_def)
      qed
      moreover have "f (po_tick p) \<le> f (po_tick p1)" using c same(4) by (auto simp: clock_ok_def dest: monoD)
      ultimately show ?thesis using e'(3) by simp
    qed
    have "successively (\<lambda>s t. po_ttl p \<le> t - s) (asked host q)"
      unfolding own using p gap by (auto simp: paced_def successively_append_iff)
    moreover have "last_kept w f host q"
      unfolding last_kept_def own using l2 by (intro exI [of _ entry] exI [of _ "po_tick p1"]) (simp add: q)
    moreover have "last_kept w f h q" if h: "h \<noteq> host" "asked h q \<noteq> []" for h
    proof -
      obtain e' k where "po_cache p h = Some e'" "rs_at e' = wd_now w k" "k < po_tick p" "f k = last (asked h p)"
        using p h other [OF h(1)] unfolding paced_def last_kept_def by metis
      then show ?thesis unfolding last_kept_def other [OF h(1)] using h(1) same(4) l2 by (intro exI [of _ e'] exI [of _ k]) (simp add: q)
    qed
    moreover have "successively (\<lambda>s t. po_ttl p \<le> t - s) (asked h q)" if "h \<noteq> host" for h using p other [OF that] by (simp add: paced_def)
    moreover have "po_ttl q = po_ttl p" using l2 by (simp add: q)
    ultimately show ?thesis using ttl unfolding paced_def by metis
  qed
qed

lemma paced_reaches: "pol_reaches w p q \<Longrightarrow> clock_ok w f \<Longrightarrow> paced w f p \<Longrightarrow> paced w f q"
proof (induction rule: pol_reaches.induct)
  case (pr_tick p q)
  then show ?case by (auto intro!: paced_same [of w f q] simp: tick_def)
next
  case (pr_resolve p q host r q')
  then show ?case using paced_resolve by blast
next
  case (pr_grant p q a e q')
  then show ?case by (auto intro!: paced_same [of w f q] simp: check_grant_def tick_def split: option.splits prod.splits)
qed

lemma admit_peer_reaches:
  assumes "admit_peer w order t addr port rv q = (r, q')" "pol_reaches w p q"
  shows "pol_reaches w p q'"
proof -
  obtain dn q1 where dn: "deniedAddrs w order rv (tick q) = (dn, q1)" by fastforce
  have q1: "pol_reaches w p (tick q)" "pol_reaches w p q1" using pr_tick [OF assms(2)] deniedAddrs_reaches [OF dn pr_tick [OF assms(2)]] by simp_all
  obtain l q2 where l: "allowlist w q1 = (l, q2)" by fastforce
  have q2: "pol_reaches w p q2" using allowlist_reaches [OF l q1(2)] .
  obtain e q3 where g: "check_grant w (the (map_option Normalize addr)) q2 = (e, q3)" by fastforce
  show ?thesis using assms(1) q1 q2 pr_grant [OF q2 g] dn l g by (auto simp: admit_peer_def Let_def split: if_splits sum.splits option.splits)
qed

text \<open>A sequence of admissions by one run, each under the revocations of its moment.\<close>

datatype admission = Target Transport string "string list" "Revocations option" | Peer Transport "ip_addr option" int "string list" "Revocations option"

fun admit_one :: "world \<Rightarrow> admission \<Rightarrow> NetPolicy option \<Rightarrow> NetPolicy option" where
  "admit_one w (Target t target order rv) po = snd (snd (AdmitDestination w order t target rv po))"
| "admit_one w (Peer t addr port order rv) po = snd (snd (AdmitAddr w order t addr port rv po))"

lemma admissions_reach: "\<exists>q. fold (admit_one w) cs (Some p) = Some q \<and> pol_reaches w p q"
proof (induction cs rule: rev_induct)
  case (snoc c cs)
  then obtain q where q: "fold (admit_one w) cs (Some p) = Some q" "pol_reaches w p q" by blast
  have "\<exists>q'. admit_one w c (Some q) = Some q' \<and> pol_reaches w p q'"
  proof (cases c)
    case (Target t target order rv)
    obtain r q' where a: "admit_target w order t target rv q = (r, q')" by fastforce
    show ?thesis using admit_target_reaches [OF a q(2)] a by (simp add: Target AdmitDestination_def)
  next
    case (Peer t addr port order rv)
    obtain r q' where a: "admit_peer w order t addr port rv q = (r, q')" by fastforce
    show ?thesis using admit_peer_reaches [OF a q(2)] a by (simp add: Peer AdmitAddr_def)
  qed
  then show ?case using q by simp
qed (use pr_refl in auto)

section \<open>Properties\<close>

text \<open>C3: What a guest is let to connect to. A destination is admitted only on an enabled transport, a permitted port and a name that is not opted out, and each of its addresses was
  obtained for that name, is permitted by the operator's policy in every spelling, is one that a declared destination of the job has too, is not
  of a declared destination that was revoked, is in the grant if there is one, and is IPv4 where the run must be tagged.\<close>

theorem AdmitDestination_safe:
  assumes "policy_ok p" "AdmitDestination w order t target rv (Some p) = (Inr d, rv', po)"
  shows "\<exists>q host port. po = Some q \<and> policy_ok q \<and> grows p q \<and> splitTarget t target = Inr (host, port) \<and> op_enabled (po_op p) t
    \<and> CheckPort (po_op p) port = [] \<and> CheckHost (po_op p) rv host = [] \<and> ds_Addrs d \<noteq> []
    \<and> (\<forall>(a, n) \<in> set (ds_Addrs d). n = port \<and> resolved q host a \<and> (t = ICMP \<or> nr_RefuseIPv6 (po_run p) \<and> t \<noteq> SCION \<longrightarrow> Is4 a)
        \<and> CheckAddr (po_op p) rv (Some a) = [] \<and> (\<forall>e. po_egress p = Some e \<longrightarrow> Normalize a \<in> set (eg_addresses e))
        \<and> (\<exists>k \<in> set (nr_Addresses (po_run p)). resolved q (DeclaredHost k) a \<and> checkDeclared rv k = []))"
proof -
  obtain q where q: "admit_target w order t target rv p = (Inr d, q)" "po = Some q" using assms(2) by (auto simp: AdmitDestination_def split: prod.splits)
  note a = admit_target_ok [OF assms(1) q(1)]
  then obtain host port where h: "splitTarget t target = Inr (host, port)" "CheckPort (po_op p) port = []" "CheckHost (po_op p) rv host = []"
    and all: "\<forall>(a, n) \<in> set (ds_Addrs d). n = port \<and> resolved q host a \<and> (t = ICMP \<longrightarrow> Is4 a) \<and> (\<exists>k. admitted t rv q a k)" by blast
  have ad: "n = port \<and> resolved q host a \<and> (t = ICMP \<longrightarrow> Is4 a) \<and> (\<exists>k. admitted t rv q a k)" if "(a, n) \<in> set (ds_Addrs d)" for a n using all that by auto
  have g: "po_op q = po_op p" "po_run q = po_run p" "map_option eg_addresses (po_egress q) = map_option eg_addresses (po_egress p)" using a by (simp_all add: grows_def)
  have "n = port \<and> resolved q host b \<and> (t = ICMP \<or> nr_RefuseIPv6 (po_run p) \<and> t \<noteq> SCION \<longrightarrow> Is4 b) \<and> CheckAddr (po_op p) rv (Some b) = []
      \<and> (\<forall>e. po_egress p = Some e \<longrightarrow> Normalize b \<in> set (eg_addresses e)) \<and> (\<exists>k \<in> set (nr_Addresses (po_run p)). resolved q (DeclaredHost k) b \<and> checkDeclared rv k = [])"
    if b: "(b, n) \<in> set (ds_Addrs d)" for b n
  proof -
    obtain k where k: "admitted t rv q b k" using ad [OF b] by blast
    have "Normalize b \<in> set (eg_addresses e)" if "po_egress p = Some e" for e
      using that k g(3) by (cases "po_egress q") (simp_all add: admitted_def)
    moreover have "k \<in> set (nr_Addresses (po_run p))" "resolved q (DeclaredHost k) b" "checkDeclared rv k = []" "CheckAddr (po_op p) rv (Some b) = []"
      "nr_RefuseIPv6 (po_run p) \<and> t \<noteq> SCION \<longrightarrow> Is4 b" using k by (simp_all add: admitted_def g)
    ultimately show ?thesis using ad [OF b] by blast
  qed
  then show ?thesis using q(2) a h by blast
qed


text \<open>A peer that is let in, the sender of a datagram or a SCION destination is on an enabled transport, is permitted by the operator's policy in every spelling of its address, and
  belongs to a declared destination that was not revoked, and to the grant if there is one; the ports are checked unless the peer chose its own.\<close>

theorem AdmitAddr_safe:
  assumes "policy_ok p" "AdmitAddr w order t addr port rv (Some p) = (Inr key, rv', po)"
  shows "\<exists>q a. po = Some q \<and> grows p q \<and> addr = Some a \<and> op_enabled (po_op p) t \<and> (t \<noteq> Inbound \<longrightarrow> CheckPort (po_op p) port = [])
    \<and> (nr_RefuseIPv6 (po_run p) \<and> t \<noteq> SCION \<longrightarrow> Is4 (Normalize a)) \<and> CheckAddr (po_op p) rv (Some (Normalize a)) = []
    \<and> key \<in> set (nr_Addresses (po_run p)) \<and> resolved q (DeclaredHost key) (Normalize a) \<and> checkDeclared rv key = []
    \<and> (\<forall>e. po_egress p = Some e \<longrightarrow> Normalize a \<in> set (eg_addresses e))"
proof -
  obtain q where q: "admit_peer w order t addr port rv p = (Inr key, q)" "po = Some q" using assms(2) by (auto simp: AdmitAddr_def split: prod.splits)
  note a = admit_peer_ok [OF assms(1) q(1)]
  then obtain x where x: "addr = Some x" "admitted t rv q (Normalize x) key" by blast
  have g: "po_op q = po_op p" "po_run q = po_run p" "map_option eg_addresses (po_egress q) = map_option eg_addresses (po_egress p)" using a by (simp_all add: grows_def)
  have "Normalize x \<in> set (eg_addresses e)" if "po_egress p = Some e" for e
    using that x(2) g(3) by (cases "po_egress q") (simp_all add: admitted_def)
  then show ?thesis using q(2) a x g by (intro exI [of _ q] exI [of _ x]) (simp add: admitted_def)
qed






section \<open>Instances\<close>

definition toy_world :: world where
  "toy_world = \<lparr>wd_now = (\<lambda>_. \<lparr>inst_wall = 5, inst_mono = Some 5\<rparr>), wd_lookup = (\<lambda>_ _. Inr [IPv4 [8, 8, 8, 8]]), wd_icmp = (\<lambda>_. True)\<rparr>"

definition toy_policy :: NetPolicy where
  "toy_policy = NetPolicy_New (case Parse Defaults of Inr op \<Rightarrow> op)
     \<lparr>nr_Addresses = [''a.net''], nr_RequireICMP = False, nr_ListenTCP = True, nr_ListenUDP = False, nr_ListenSCION = False, nr_RefuseIPv6 = True\<rparr> None"

lemma toy_policy_ok: "policy_ok toy_policy"
  by (simp add: policy_ok_def toy_policy_def NetPolicy_New_def)

lemma toy_admits: "fst (AdmitDestination toy_world [] UDP ''a.net:53'' None (Some toy_policy)) = Inr \<lparr>ds_Addrs = [(IPv4 [8, 8, 8, 8], 53)], ds_Key = ''a.net'', ds_ServerName = ''a.net''\<rparr>"
  by code_simp


theorem AdmitDestination_safe_witness:
  "\<exists>d rv po q. AdmitDestination toy_world [] UDP ''a.net:53'' None (Some toy_policy) = (Inr d, rv, po) \<and> po = Some q \<and> ds_Addrs d = [(IPv4 [8, 8, 8, 8], 53)]
    \<and> resolved q ''a.net'' (IPv4 [8, 8, 8, 8]) \<and> CheckAddr (po_op toy_policy) None (Some (IPv4 [8, 8, 8, 8])) = []"
proof -
  obtain d rv po where a: "AdmitDestination toy_world [] UDP ''a.net:53'' None (Some toy_policy) = (Inr d, rv, po)" "ds_Addrs d = [(IPv4 [8, 8, 8, 8], 53)]"
    using toy_admits by (cases "AdmitDestination toy_world [] UDP ''a.net:53'' None (Some toy_policy)") auto
  have "splitTarget UDP ''a.net:53'' = Inr (''a.net'', 53)" by code_simp
  then show ?thesis using AdmitDestination_safe [OF toy_policy_ok a(1)] a by auto
qed

lemma toy_accepts: "fst (AdmitAddr toy_world [] Inbound (Some (IPv4 [8, 8, 8, 8])) 999 None (Some toy_policy)) = Inr ''a.net''"
  by code_simp

theorem AdmitAddr_safe_witness:
  "\<exists>rv q. AdmitAddr toy_world [] Inbound (Some (IPv4 [8, 8, 8, 8])) 999 None (Some toy_policy) = (Inr ''a.net'', rv, Some q)
    \<and> resolved q (DeclaredHost ''a.net'') (Normalize (IPv4 [8, 8, 8, 8]))"
proof -
  obtain rv po where a: "AdmitAddr toy_world [] Inbound (Some (IPv4 [8, 8, 8, 8])) 999 None (Some toy_policy) = (Inr ''a.net'', rv, po)"
    using toy_accepts by (cases "AdmitAddr toy_world [] Inbound (Some (IPv4 [8, 8, 8, 8])) 999 None (Some toy_policy)") auto
  show ?thesis using AdmitAddr_safe [OF toy_policy_ok a] a by auto
qed



end
