(* ===== verification/Session_Owner.thy ===== *)
theory Session_Owner
  imports Tesla
begin

text \<open>
  One control session of an executor on the dispatcher: \<^verbatim>\<open>internal/dispatcher/transport/rpc/session.go\<close>
  (the owner, its lease and its retirement), \<^verbatim>\<open>mutation.go\<close> (the work admitted on it) and the lease timing
  and bindings of \<^verbatim>\<open>internal/controlsession\<close>. Every operation is one critical section of the owner's mutex, except
  \<open>Finish\<close>, which has two with the join of the watcher between them; the sections of any number of
  callers interleave in \<open>owner_run\<close>. Closing a channel twice panics. The identity of a mutation
  is its position in \<open>so_muts\<close>; the UUID package enters as the functions that parse and print.
\<close>

section \<open>Lease timing and bindings\<close>

definition Millisecond :: int where "Millisecond = 1000000"

definition MinLeaseDuration :: int where "MinLeaseDuration = Second"
definition MaxLeaseDuration :: int where "MaxLeaseDuration = 5 * Minute"

record LeaseTiming =
  lt_Duration :: int
  lt_RenewInterval :: int
  lt_RequestTimeout :: int
  lt_WatchdogInterval :: int

definition NewLeaseTiming :: "int \<Rightarrow> LeaseTiming option" where
  "NewLeaseTiming d = (if d < MinLeaseDuration \<or> d > MaxLeaseDuration \<or> go_rem d Millisecond \<noteq> 0 then None
     else Some \<lparr>lt_Duration = d, lt_RenewInterval = go_div d 5, lt_RequestTimeout = min (2 * Second) (go_div d 5),
       lt_WatchdogInterval = min (250 * Millisecond) (go_div d 20)\<rparr>)"

definition LeaseTimingFromMillis :: "int \<Rightarrow> LeaseTiming option" where
  "LeaseTimingFromMillis ms = (if ms < go_div MinLeaseDuration Millisecond \<or> ms > go_div MaxLeaseDuration Millisecond then None
     else NewLeaseTiming (i64 (ms * Millisecond)))"

definition ParseCanonical :: "(string \<Rightarrow> uuid option) \<Rightarrow> (uuid \<Rightarrow> string) \<Rightarrow> string \<Rightarrow> uuid option" where
  "ParseCanonical parse str v = (case parse v of None \<Rightarrow> None
     | Some i \<Rightarrow> if i = 0 \<or> str i \<noteq> v then None else Some i)"

record Binding =
  Incarnation :: string
  SessionID :: string

definition Binding_Valid :: "(string \<Rightarrow> uuid option) \<Rightarrow> (uuid \<Rightarrow> string) \<Rightarrow> Binding \<Rightarrow> bool" where
  "Binding_Valid parse str b \<longleftrightarrow> ParseCanonical parse str (Incarnation b) \<noteq> None \<and> ParseCanonical parse str (SessionID b) \<noteq> None"

section \<open>The owner and its mutations\<close>

datatype cancel_cause = ErrSessionRetired | ContextCanceled | CallerDone

record Mutation =
  mu_setup :: bool
  mu_cause :: "cancel_cause option"
  mu_watcherDone :: bool
  mu_finished :: bool
  mu_finishedDone :: bool

text \<open>The two bits of \<open>state\<close> are \<open>so_active\<close> and \<open>so_reg\<close>; the three channels are whether they are closed.\<close>

record SessionOwner =
  so_executorID :: string
  so_binding :: Binding
  so_active :: bool
  so_reg :: bool
  so_registered :: bool
  so_done :: bool
  so_drained :: bool
  so_mutations :: "64 word"
  so_lease :: LeaseTiming
  so_deadline :: instant
  so_sequence :: "64 word"
  so_muts :: "Mutation list"

datatype owner_error = NoLease | NoID | BadBinding

definition NewSessionOwnerWithClock :: "(string \<Rightarrow> uuid option) \<Rightarrow> (uuid \<Rightarrow> string) \<Rightarrow> string \<Rightarrow> Binding \<Rightarrow> int \<Rightarrow> owner_error + SessionOwner" where
  "NewSessionOwnerWithClock parse str executorID binding duration =
     (case NewLeaseTiming duration of None \<Rightarrow> Inl NoLease
      | Some lease \<Rightarrow> if executorID = [] then Inl NoID
          else if \<not> Binding_Valid parse str binding then Inl BadBinding
          else Inr \<lparr>so_executorID = executorID, so_binding = binding, so_active = True, so_reg = False, so_registered = False, so_done = False,
            so_drained = False, so_mutations = 0, so_lease = lease, so_deadline = zero_time, so_sequence = 0, so_muts = []\<rparr>)"

datatype owner_panic = CloseOfClosedChannel | CloseOfClosedFinished

definition close_registered :: "SessionOwner \<Rightarrow> owner_panic + SessionOwner" where
  "close_registered s = (if so_registered s then Inl CloseOfClosedChannel else Inr (s\<lparr>so_registered := True\<rparr>))"

definition close_done :: "SessionOwner \<Rightarrow> owner_panic + SessionOwner" where
  "close_done s = (if so_done s then Inl CloseOfClosedChannel else Inr (s\<lparr>so_done := True\<rparr>))"

definition close_drained :: "SessionOwner \<Rightarrow> owner_panic + SessionOwner" where
  "close_drained s = (if so_drained s then Inl CloseOfClosedChannel else Inr (s\<lparr>so_drained := True\<rparr>))"

definition availableLocked :: "instant \<Rightarrow> SessionOwner \<Rightarrow> bool" where
  "availableLocked now s \<longleftrightarrow> so_active s \<and> so_reg s \<and> time_Before now (so_deadline s)"

definition MarkRegistered :: "instant \<Rightarrow> SessionOwner \<Rightarrow> owner_panic + bool \<times> SessionOwner" where
  "MarkRegistered now s = (if \<not> so_active s then Inr (False, s)
     else if so_reg s then Inr (availableLocked now s, s)
     else (case close_registered (s\<lparr>so_deadline := time_Add now (lt_Duration (so_lease s)), so_reg := True\<rparr>) of
         Inl p \<Rightarrow> Inl p | Inr s \<Rightarrow> Inr (True, s)))"

definition retireLocked :: "SessionOwner \<Rightarrow> owner_panic + bool \<times> SessionOwner" where
  "retireLocked s = (if \<not> so_active s then Inr (False, s)
     else (case close_done (s\<lparr>so_active := False\<rparr>) of Inl p \<Rightarrow> Inl p
       | Inr s \<Rightarrow> if so_mutations s = 0 then (case close_drained s of Inl p \<Rightarrow> Inl p | Inr s \<Rightarrow> Inr (True, s)) else Inr (True, s)))"

definition commitLease :: "instant \<Rightarrow> bool \<Rightarrow> 64 word \<Rightarrow> SessionOwner \<Rightarrow> bool \<times> SessionOwner" where
  "commitLease now ctxDone sequence s =
     (if ctxDone \<or> sequence = 0 \<or> sequence \<le> so_sequence s \<or> \<not> (so_active s \<and> so_reg s) \<or> \<not> time_Before now (so_deadline s) then (False, s)
      else (True, s\<lparr>so_sequence := sequence, so_deadline := time_Add now (lt_Duration (so_lease s))\<rparr>))"

definition ExpireLease :: "instant \<Rightarrow> SessionOwner \<Rightarrow> owner_panic + bool \<times> SessionOwner" where
  "ExpireLease now s = (if \<not> (so_active s \<and> so_reg s) \<or> time_Before now (so_deadline s) then Inr (False, s) else retireLocked s)"

text \<open>
  \<open>reserveMutationLocked\<close> and \<open>start\<close>: the fresh context is not cancelled and its watcher runs. Nothing
  outside the call reaches the mutation before \<open>start\<close> has returned.
\<close>

definition reserveMutation :: "bool \<Rightarrow> SessionOwner \<Rightarrow> SessionOwner" where
  "reserveMutation setup s = s\<lparr>so_mutations := so_mutations s + 1,
     so_muts := so_muts s @ [\<lparr>mu_setup = setup, mu_cause = None, mu_watcherDone = False, mu_finished = False, mu_finishedDone = False\<rparr>]\<rparr>"

datatype admit_error = ContextDone | SessionRetired | SessionUnavailable | MutationFinished

definition admit :: "instant \<Rightarrow> bool \<Rightarrow> bool \<Rightarrow> SessionOwner \<Rightarrow> (admit_error + nat) \<times> SessionOwner" where
  "admit now ctxDone setup s = (if ctxDone then (Inl ContextDone, s)
     else if \<not> so_active s then (Inl SessionRetired, s)
     else if \<not> setup \<and> \<not> availableLocked now s then (Inl SessionUnavailable, s)
     else (Inr (length (so_muts s)), reserveMutation setup s))"

definition Fork :: "bool \<Rightarrow> nat \<Rightarrow> SessionOwner \<Rightarrow> (admit_error + nat) \<times> SessionOwner" where
  "Fork ctxDone m s = (if mu_finished (so_muts s ! m) then (Inl MutationFinished, s)
     else if ctxDone then (Inl ContextDone, s)
     else (Inr (length (so_muts s)), reserveMutation (mu_setup (so_muts s ! m)) s))"

definition upd_mut :: "nat \<Rightarrow> (Mutation \<Rightarrow> Mutation) \<Rightarrow> SessionOwner \<Rightarrow> SessionOwner" where
  "upd_mut m f s = s\<lparr>so_muts := (so_muts s)[m := f (so_muts s ! m)]\<rparr>"

text \<open>A context keeps its first cause.\<close>

definition cancel_mut :: "cancel_cause \<Rightarrow> Mutation \<Rightarrow> Mutation" where
  "cancel_mut c mu = (case mu_cause mu of None \<Rightarrow> mu\<lparr>mu_cause := Some c\<rparr> | Some _ \<Rightarrow> mu)"

text \<open>The watcher's \<open>select\<close>: it ends once the owner is retired or the context is done.\<close>

definition watch :: "nat \<Rightarrow> SessionOwner \<Rightarrow> SessionOwner" where
  "watch m s = (if mu_cause (so_muts s ! m) \<noteq> None then upd_mut m (\<lambda>mu. mu\<lparr>mu_watcherDone := True\<rparr>) s
     else if so_done s then upd_mut m (\<lambda>mu. (cancel_mut ErrSessionRetired mu)\<lparr>mu_watcherDone := True\<rparr>) s
     else s)"

text \<open>The first section of \<open>Finish\<close> and the cancellation after it; whether this caller is the one that finishes.\<close>

definition Finish_begin :: "nat \<Rightarrow> SessionOwner \<Rightarrow> bool \<times> SessionOwner" where
  "Finish_begin m s = (if mu_finished (so_muts s ! m) then (False, s)
     else (True, upd_mut m (\<lambda>mu. cancel_mut ContextCanceled (mu\<lparr>mu_finished := True\<rparr>)) s))"

text \<open>The last section, entered by that caller once the watcher has ended.\<close>

definition Finish_end :: "nat \<Rightarrow> SessionOwner \<Rightarrow> owner_panic + SessionOwner" where
  "Finish_end m s = (let s = s\<lparr>so_mutations := so_mutations s - 1\<rparr> in
     if mu_finishedDone (so_muts s ! m) then Inl CloseOfClosedFinished
     else let s = upd_mut m (\<lambda>mu. mu\<lparr>mu_finishedDone := True\<rparr>) s in
       if so_mutations s = 0 \<and> \<not> so_active s then close_drained s else Inr s)"


section \<open>Interleavings\<close>

text \<open>
  The second component of a state holds the callers between the two sections of \<open>Finish\<close>; \<open>OpWatch\<close> is a
  step of a watcher, \<open>OpCtxDone\<close> the end of the context a mutation was derived from. A step of a
  caller that waits, or of a mutation that does not exist, leaves the state as it is.
\<close>

datatype owner_op = OpMark instant | OpRetire | OpCommit instant bool "64 word" | OpExpire instant | OpAdmit instant bool bool
  | OpFork bool nat | OpCtxDone nat | OpWatch nat | OpFinish nat | OpJoin nat

type_synonym owner_state = "SessionOwner \<times> nat list"

definition lift_result :: "nat list \<Rightarrow> owner_panic + bool \<times> SessionOwner \<Rightarrow> owner_panic + bool \<times> owner_state" where
  "lift_result fin r = (case r of Inl p \<Rightarrow> Inl p | Inr (b, s) \<Rightarrow> Inr (b, s, fin))"

fun owner_step :: "owner_op \<Rightarrow> owner_state \<Rightarrow> owner_panic + bool \<times> owner_state" where
  "owner_step (OpMark now) (s, fin) = lift_result fin (MarkRegistered now s)"
| "owner_step OpRetire (s, fin) = lift_result fin (retireLocked s)"
| "owner_step (OpCommit now ctxDone q) (s, fin) = lift_result fin (Inr (commitLease now ctxDone q s))"
| "owner_step (OpExpire now) (s, fin) = lift_result fin (ExpireLease now s)"
| "owner_step (OpAdmit now ctxDone setup) (s, fin) = (case admit now ctxDone setup s of (r, s) \<Rightarrow> Inr (\<not> isl r, s, fin))"
| "owner_step (OpFork ctxDone m) (s, fin) = (if m < length (so_muts s) then (case Fork ctxDone m s of (r, s) \<Rightarrow> Inr (\<not> isl r, s, fin)) else Inr (False, s, fin))"
| "owner_step (OpCtxDone m) (s, fin) = Inr (True, (if m < length (so_muts s) then upd_mut m (cancel_mut CallerDone) s else s), fin)"
| "owner_step (OpWatch m) (s, fin) = Inr (True, (if m < length (so_muts s) then watch m s else s), fin)"
| "owner_step (OpFinish m) (s, fin) = (if m < length (so_muts s) then (case Finish_begin m s of (b, s) \<Rightarrow> Inr (b, s, if b then m # fin else fin)) else Inr (False, s, fin))"
| "owner_step (OpJoin m) (s, fin) = (if m \<in> set fin \<and> mu_watcherDone (so_muts s ! m)
     then (case Finish_end m s of Inl p \<Rightarrow> Inl p | Inr s \<Rightarrow> Inr (True, s, remove1 m fin)) else Inr (False, s, fin))"

fun owner_run :: "owner_op list \<Rightarrow> owner_state \<Rightarrow> owner_panic + (owner_op \<times> bool) list \<times> owner_state" where
  "owner_run [] st = Inr ([], st)"
| "owner_run (x # xs) st = (case owner_step x st of Inl p \<Rightarrow> Inl p
     | Inr (b, st) \<Rightarrow> (case owner_run xs st of Inl p \<Rightarrow> Inl p | Inr (l, st) \<Rightarrow> Inr ((x, b) # l, st)))"

section \<open>The count of mutations\<close>

definition counted :: "SessionOwner \<Rightarrow> nat" where
  "counted s = length (filter (\<lambda>mu. \<not> mu_finishedDone mu) (so_muts s))"

text \<open>A mutation is either running, finishing (one caller is between the sections) or finished.\<close>

definition mut_ok :: "bool \<Rightarrow> Mutation \<Rightarrow> bool" where
  "mut_ok finishing mu \<longleftrightarrow> (finishing \<longleftrightarrow> mu_finished mu \<and> \<not> mu_finishedDone mu) \<and> (mu_finishedDone mu \<longrightarrow> mu_finished mu)
     \<and> (mu_finished mu \<longrightarrow> mu_cause mu \<noteq> None)"

definition owner_inv :: "owner_state \<Rightarrow> bool" where
  "owner_inv st \<longleftrightarrow> (case st of (s, fin) \<Rightarrow> so_done s = (\<not> so_active s) \<and> so_registered s = so_reg s
     \<and> so_mutations s = of_nat (counted s) \<and> so_drained s = (\<not> so_active s \<and> counted s = 0)
     \<and> distinct fin \<and> set fin \<subseteq> {..<length (so_muts s)} \<and> (\<forall>m < length (so_muts s). mut_ok (m \<in> set fin) (so_muts s ! m)))"

lemma length_filter_update:
  "m < length xs \<Longrightarrow> length (filter P (xs[m := y])) + (if P (xs ! m) then 1 else 0) = length (filter P xs) + (if P y then 1 else 0)"
proof (induction xs arbitrary: m)
  case (Cons x xs)
  then show ?case by (cases m) auto
qed simp

lemma of_nat_64_zero: "n < 2 ^ 64 \<Longrightarrow> (of_nat n :: 64 word) = 0 \<longleftrightarrow> n = 0"
  by (auto simp: word_of_nat_eq_0_iff dest: dvd_imp_le)

lemma upd_mut_simps [simp]:
  "so_active (upd_mut m f s) = so_active s" "so_reg (upd_mut m f s) = so_reg s" "so_registered (upd_mut m f s) = so_registered s"
  "so_done (upd_mut m f s) = so_done s" "so_drained (upd_mut m f s) = so_drained s" "so_mutations (upd_mut m f s) = so_mutations s"
  "so_deadline (upd_mut m f s) = so_deadline s" "so_sequence (upd_mut m f s) = so_sequence s" "so_lease (upd_mut m f s) = so_lease s"
  "so_muts (upd_mut m f s) = (so_muts s)[m := f (so_muts s ! m)]"
  by (simp_all add: upd_mut_def)

lemma cancel_mut_simps [simp]:
  "mu_setup (cancel_mut c mu) = mu_setup mu" "mu_watcherDone (cancel_mut c mu) = mu_watcherDone mu" "mu_finished (cancel_mut c mu) = mu_finished mu"
  "mu_finishedDone (cancel_mut c mu) = mu_finishedDone mu" "mu_cause (cancel_mut c mu) \<noteq> None"
  by (simp_all add: cancel_mut_def split: option.splits)

lemma counted_upd: "m < length (so_muts s) \<Longrightarrow> mu_finishedDone (f (so_muts s ! m)) = mu_finishedDone (so_muts s ! m) \<Longrightarrow> counted (upd_mut m f s) = counted s"
  using length_filter_update [of m "so_muts s" "\<lambda>mu. \<not> mu_finishedDone mu" "f (so_muts s ! m)"] by (simp add: counted_def)

lemma counted_cong: "so_muts s' = so_muts s \<Longrightarrow> counted s' = counted s"
  by (simp add: counted_def)

lemma counted_le: "counted s \<le> length (so_muts s)"
  by (simp add: counted_def)

text \<open>A change of one mutation that keeps its standing keeps the invariant.\<close>

lemma owner_inv_upd:
  assumes inv: "owner_inv (s, fin)" and m: "m < length (so_muts s)"
    and f: "mut_ok (m \<in> set fin) (f (so_muts s ! m))" "mu_finishedDone (f (so_muts s ! m)) = mu_finishedDone (so_muts s ! m)"
  shows "owner_inv (upd_mut m f s, fin)"
  using inv counted_upd [where f = f, OF m f(2)] f(1) m by (auto simp: owner_inv_def nth_list_update)

lemma owner_inv_reserve:
  assumes "owner_inv (s, fin)" and ok: "so_active s \<or> counted s \<noteq> 0"
  shows "owner_inv (reserveMutation b s, fin)"
proof -
  have "counted (reserveMutation b s) = Suc (counted s)" by (simp add: counted_def reserveMutation_def)
  moreover have "mut_ok (m \<in> set fin) (so_muts (reserveMutation b s) ! m)" if "m < Suc (length (so_muts s))" for m
    using assms that by (cases "m < length (so_muts s)") (auto simp: owner_inv_def reserveMutation_def nth_append mut_ok_def less_Suc_eq)
  ultimately show ?thesis using assms by (auto simp: owner_inv_def reserveMutation_def)
qed

lemma retireLocked_inv:
  assumes inv: "owner_inv (s, fin)" and few: "counted s < 2 ^ 64"
  shows "\<exists>b s'. retireLocked s = Inr (b, s') \<and> owner_inv (s', fin) \<and> so_muts s' = so_muts s \<and> b = so_active s \<and> \<not> so_active s'
    \<and> so_reg s' = so_reg s \<and> so_deadline s' = so_deadline s \<and> so_sequence s' = so_sequence s \<and> so_lease s' = so_lease s"
proof -
  have z: "so_mutations s = 0 \<longleftrightarrow> counted s = 0"
    using inv few by (simp add: owner_inv_def of_nat_64_zero)
  have c: "counted (s\<lparr>so_active := a, so_done := d\<rparr>) = counted s" "counted (s\<lparr>so_active := a, so_done := d, so_drained := r\<rparr>) = counted s" for a d r
    by (simp_all add: counted_def)
  show ?thesis
    using inv z by (cases "so_active s"; cases "counted s = 0") (auto simp: retireLocked_def close_done_def close_drained_def owner_inv_def c)
qed


lemma MarkRegistered_inv:
  assumes "owner_inv (s, fin)"
  shows "\<exists>b s'. MarkRegistered now s = Inr (b, s') \<and> owner_inv (s', fin) \<and> so_muts s' = so_muts s"
proof -
  have c: "counted (s\<lparr>so_deadline := d, so_reg := r, so_registered := q\<rparr>) = counted s" for d r q by (simp add: counted_def)
  show ?thesis using assms
    by (cases "so_active s"; cases "so_reg s") (auto simp: MarkRegistered_def close_registered_def owner_inv_def c)
qed

lemma commitLease_inv:
  assumes "owner_inv (s, fin)"
  shows "owner_inv (snd (commitLease now c q s), fin) \<and> so_muts (snd (commitLease now c q s)) = so_muts s"
proof -
  have c: "counted (s\<lparr>so_sequence := q', so_deadline := d\<rparr>) = counted s" for d q' by (simp add: counted_def)
  show ?thesis using assms by (auto simp: commitLease_def owner_inv_def c)
qed

text \<open>The last section of \<open>Finish\<close> closes each channel once: the caller is the only one for its mutation.\<close>

lemma Finish_end_inv:
  assumes inv: "owner_inv (s, fin)" and few: "counted s < 2 ^ 64" and m: "m \<in> set fin"
  shows "\<exists>s'. Finish_end m s = Inr s' \<and> owner_inv (s', remove1 m fin) \<and> so_muts s' = (so_muts s)[m := (so_muts s ! m)\<lparr>mu_finishedDone := True\<rparr>]
    \<and> so_active s' = so_active s"
proof -
  define s2 where "s2 = upd_mut m (\<lambda>mu. mu\<lparr>mu_finishedDone := True\<rparr>) (s\<lparr>so_mutations := so_mutations s - 1\<rparr>)"
  have ml: "m < length (so_muts s)" and ok: "mut_ok True (so_muts s ! m)" using inv m by (auto simp: owner_inv_def)
  then have nd: "\<not> mu_finishedDone (so_muts s ! m)" by (simp add: mut_ok_def)
  have s2: "so_muts s2 = (so_muts s)[m := (so_muts s ! m)\<lparr>mu_finishedDone := True\<rparr>]" "so_active s2 = so_active s" "so_reg s2 = so_reg s"
    "so_registered s2 = so_registered s" "so_done s2 = so_done s" "so_drained s2 = so_drained s" "so_mutations s2 = so_mutations s - 1"
    by (simp_all add: s2_def)
  have c2: "counted s = Suc (counted s2)"
    using length_filter_update [OF ml, of "\<lambda>mu. \<not> mu_finishedDone mu" "(so_muts s ! m)\<lparr>mu_finishedDone := True\<rparr>"] nd by (simp add: counted_def s2(1))
  then have w: "so_mutations s2 = of_nat (counted s2)" using inv by (simp add: owner_inv_def s2)
  then have z: "so_mutations s2 = 0 \<longleftrightarrow> counted s2 = 0" using few c2 by (simp add: of_nat_64_zero)
  have dr: "\<not> so_drained s" using inv c2 by (auto simp: owner_inv_def)
  have muts: "mut_ok (n \<in> set (remove1 m fin)) (so_muts s2 ! n)" if "n < length (so_muts s)" for n
    using inv ok ml that by (cases "n = m") (auto simp: owner_inv_def mut_ok_def s2)
  have cd: "counted (s2\<lparr>so_drained := r\<rparr>) = counted s2" for r by (simp add: counted_def)
  have rest: "so_done s = (\<not> so_active s)" "so_registered s = so_reg s" "distinct (remove1 m fin)" "set (remove1 m fin) \<subseteq> {..<length (so_muts s)}"
    using inv by (auto simp: owner_inv_def dest: notin_set_remove1)
  have e: "Finish_end m s = (if so_mutations s2 = 0 \<and> \<not> so_active s2 then close_drained s2 else Inr s2)"
    using nd by (simp add: Finish_end_def Let_def s2_def)
  show ?thesis
  proof (cases "counted s2 = 0 \<and> \<not> so_active s")
    case True
    then have "Finish_end m s = Inr (s2\<lparr>so_drained := True\<rparr>)" using dr z by (simp add: e close_drained_def s2(2,6))
    moreover have "owner_inv (s2\<lparr>so_drained := True\<rparr>, remove1 m fin)" using True rest muts w by (simp add: owner_inv_def cd s2)
    ultimately show ?thesis by (simp add: s2)
  next
    case False
    then have "Finish_end m s = Inr s2" using z by (auto simp: e s2(2))
    moreover have "owner_inv (s2, remove1 m fin)" using False rest muts w dr by (auto simp: owner_inv_def s2)
    ultimately show ?thesis by (simp add: s2)
  qed
qed

lemma Fork_inv:
  assumes inv: "owner_inv (s, fin)" and m: "m < length (so_muts s)" and f: "\<not> mu_finished (so_muts s ! m)"
  shows "owner_inv (reserveMutation b s, fin)"
proof -
  have "so_muts s ! m \<in> set (filter (\<lambda>mu. \<not> mu_finishedDone mu) (so_muts s))" using inv m f by (auto simp: owner_inv_def mut_ok_def)
  then have "counted s \<noteq> 0" unfolding counted_def by (metis length_0_conv list.set(1) empty_iff)
  then show ?thesis using owner_inv_reserve [OF inv] by blast
qed

lemma mut_okD: "owner_inv (s, fin) \<Longrightarrow> m < length (so_muts s) \<Longrightarrow> mut_ok (m \<in> set fin) (so_muts s ! m)"
  by (simp add: owner_inv_def)

lemma watch_inv: "owner_inv (s, fin) \<Longrightarrow> m < length (so_muts s) \<Longrightarrow> owner_inv (watch m s, fin)"
  unfolding watch_def by (auto intro!: owner_inv_upd simp: mut_ok_def dest: mut_okD)

lemma Finish_begin_inv:
  assumes inv: "owner_inv (s, fin)" and m: "m < length (so_muts s)" and f: "\<not> mu_finished (so_muts s ! m)"
  shows "owner_inv (upd_mut m (\<lambda>mu. cancel_mut ContextCanceled (mu\<lparr>mu_finished := True\<rparr>)) s, m # fin)"
proof -
  let ?f = "\<lambda>mu. cancel_mut ContextCanceled (mu\<lparr>mu_finished := True\<rparr>)"
  have ok: "mut_ok (m \<in> set fin) (so_muts s ! m)" using mut_okD [OF inv m] .
  then have nf: "m \<notin> set fin" "\<not> mu_finishedDone (so_muts s ! m)" using f by (auto simp: mut_ok_def)
  have c: "counted (upd_mut m ?f s) = counted s" by (rule counted_upd [OF m]) simp
  have "mut_ok (n \<in> set (m # fin)) (so_muts (upd_mut m ?f s) ! n)" if "n < length (so_muts s)" for n
    using mut_okD [OF inv that] nf m that by (cases "n = m") (simp_all add: mut_ok_def)
  then show ?thesis using inv c nf m by (auto simp: owner_inv_def)
qed

lemma owner_step_inv:
  assumes inv: "owner_inv (s, fin)" and few: "length (so_muts s) < 2 ^ 64"
  shows "\<exists>b s' fin'. owner_step x (s, fin) = Inr (b, s', fin') \<and> owner_inv (s', fin') \<and> length (so_muts s') \<le> Suc (length (so_muts s))"
proof -
  have c: "counted s < 2 ^ 64" using few counted_le [of s] by simp
  show ?thesis
  proof (cases x)
    case (OpMark now)
    then show ?thesis using MarkRegistered_inv [OF inv, of now] by (auto simp: lift_result_def)
  next
    case OpRetire
    then show ?thesis using retireLocked_inv [OF inv c] by (auto simp: lift_result_def)
  next
    case (OpCommit now d q)
    then show ?thesis using commitLease_inv [OF inv, of now d q] by (cases "commitLease now d q s") (simp add: lift_result_def)
  next
    case (OpExpire now)
    then show ?thesis using retireLocked_inv [OF inv c] inv by (auto simp: lift_result_def ExpireLease_def)
  next
    case (OpAdmit now d b)
    then show ?thesis using inv owner_inv_reserve [OF inv, of b] by (auto simp: admit_def reserveMutation_def)
  next
    case (OpFork d m)
    then show ?thesis using inv Fork_inv [OF inv] by (auto simp: Fork_def reserveMutation_def)
  next
    case (OpCtxDone m)
    have "owner_inv (upd_mut m (cancel_mut CallerDone) s, fin)" if "m < length (so_muts s)"
      using mut_okD [OF inv that] by (intro owner_inv_upd [OF inv that]) (simp_all add: mut_ok_def)
    then show ?thesis using OpCtxDone inv by auto
  next
    case (OpWatch m)
    then show ?thesis using inv watch_inv [OF inv, of m] by (auto simp: watch_def)
  next
    case (OpFinish m)
    then show ?thesis using inv Finish_begin_inv [OF inv, of m] by (auto simp: Finish_begin_def)
  next
    case (OpJoin m)
    show ?thesis
    proof (cases "m \<in> set fin \<and> mu_watcherDone (so_muts s ! m)")
      case True
      then obtain s' where "Finish_end m s = Inr s'" "owner_inv (s', remove1 m fin)" "length (so_muts s') = length (so_muts s)"
        using Finish_end_inv [OF inv c, of m] by (auto simp del: remove1.simps)
      then show ?thesis using True OpJoin by (intro exI [of _ True] exI [of _ s'] exI [of _ "remove1 m fin"]) simp
    next
      case False
      then show ?thesis using inv OpJoin by (intro exI [of _ False] exI [of _ s] exI [of _ fin]) auto
    qed
  qed
qed


lemma owner_run_inv:
  "owner_inv (s, fin) \<Longrightarrow> length (so_muts s) + length xs < 2 ^ 64 \<Longrightarrow>
   \<exists>l s' fin'. owner_run xs (s, fin) = Inr (l, s', fin') \<and> owner_inv (s', fin') \<and> length (so_muts s') \<le> length (so_muts s) + length xs"
proof (induction xs arbitrary: s fin)
  case (Cons x xs)
  obtain b s1 fin1 where 1: "owner_step x (s, fin) = Inr (b, s1, fin1)" "owner_inv (s1, fin1)" "length (so_muts s1) \<le> Suc (length (so_muts s))"
    using owner_step_inv [OF Cons.prems(1), of x] Cons.prems(2) by auto
  then obtain l s' fin' where "owner_run xs (s1, fin1) = Inr (l, s', fin')" "owner_inv (s', fin')" "length (so_muts s') \<le> length (so_muts s1) + length xs"
    using Cons.IH [OF 1(2)] Cons.prems(2) by force
  then show ?case using 1 by simp
qed simp

lemma New_inv: "NewSessionOwnerWithClock parse str e b d = Inr s \<Longrightarrow> owner_inv (s, []) \<and> so_muts s = [] \<and> so_active s \<and> \<not> so_reg s"
  by (auto simp: NewSessionOwnerWithClock_def owner_inv_def counted_def split: option.splits if_splits)

lemma counted_zero: "owner_inv (s, fin) \<Longrightarrow> counted s = 0 \<longleftrightarrow> (\<forall>mu \<in> set (so_muts s). mu_finishedDone mu)"
  by (auto simp: counted_def filter_empty_conv)

text \<open>A drained owner stays as it is in everything a mutation can change.\<close>

lemma owner_step_drained:
  assumes inv: "owner_inv (s, fin)" and dr: "so_drained s"
  shows "\<exists>b s'. owner_step x (s, fin) = Inr (b, s', fin) \<and> so_drained s' \<and> length (so_muts s') = length (so_muts s)
    \<and> (case x of OpAdmit _ _ _ \<Rightarrow> \<not> b | OpFork _ _ \<Rightarrow> \<not> b | _ \<Rightarrow> True)"
proof -
  have na: "\<not> so_active s" and all: "\<forall>mu \<in> set (so_muts s). mu_finishedDone mu" using inv dr counted_zero [OF inv] by (auto simp: owner_inv_def)
  have f: "mu_finished (so_muts s ! m)" "m \<notin> set fin" if "m < length (so_muts s)" for m
    using all mut_okD [OF inv that] that by (auto simp: mut_ok_def)
  have "set fin \<subseteq> {..<length (so_muts s)}" using inv by (simp add: owner_inv_def)
  then have fin: "fin = []" using f(2) by (cases fin) auto
  show ?thesis
    using dr na f(1) by (cases x) (auto simp: lift_result_def MarkRegistered_def retireLocked_def commitLease_def ExpireLease_def admit_def Fork_def
      watch_def Finish_begin_def fin)
qed

lemma owner_run_drained:
  "owner_inv (s, fin) \<Longrightarrow> so_drained s \<Longrightarrow> length (so_muts s) + length xs < 2 ^ 64 \<Longrightarrow>
   \<exists>l s'. owner_run xs (s, fin) = Inr (l, s', fin) \<and> so_drained s' \<and> length (so_muts s') = length (so_muts s)"
proof (induction xs arbitrary: s)
  case (Cons x xs)
  obtain b s1 where 1: "owner_step x (s, fin) = Inr (b, s1, fin)" "so_drained s1" "length (so_muts s1) = length (so_muts s)"
    using owner_step_drained [OF Cons.prems(1,2), of x] by blast
  have "owner_inv (s1, fin)" using owner_step_inv [OF Cons.prems(1), of x] Cons.prems(3) 1(1) by auto
  then show ?case using Cons.IH [of s1] 1 Cons.prems(3) by auto
qed simp

section \<open>The lease\<close>

text \<open>What a log says of the lease: the instant of the registration or of the last committed renewal.\<close>

definition log_grant :: "instant option \<Rightarrow> owner_op \<times> bool \<Rightarrow> instant option" where
  "log_grant g e = (case e of (OpMark now, True) \<Rightarrow> if g = None then Some now else g | (OpCommit now _ _, True) \<Rightarrow> Some now | _ \<Rightarrow> g)"

definition granted_at :: "(owner_op \<times> bool) list \<Rightarrow> instant option" where
  "granted_at l = foldl log_grant None l"

fun log_retires :: "owner_op \<times> bool \<Rightarrow> bool" where
  "log_retires (OpRetire, b) = True"
| "log_retires (OpExpire now, b) = b"
| "log_retires (x, b) = False"

definition renewals :: "(owner_op \<times> bool) list \<Rightarrow> 64 word list" where
  "renewals l = List.map_filter (\<lambda>e. case e of (OpCommit _ _ q, True) \<Rightarrow> Some q | _ \<Rightarrow> None) l"

text \<open>Every committed renewal came while the lease it renews was still held.\<close>

definition renewed_in_time :: "int \<Rightarrow> (owner_op \<times> bool) list \<Rightarrow> bool" where
  "renewed_in_time d l \<longleftrightarrow> (\<forall>p now c q r. l = p @ (OpCommit now c q, True) # r
     \<longrightarrow> (\<exists>t. granted_at p = Some t \<and> time_Before now (time_Add t d)) \<and> (\<forall>x \<in> set p. \<not> log_retires x))"

lemma renewed_snoc:
  "renewed_in_time d (l @ [e]) \<longleftrightarrow> renewed_in_time d l
     \<and> (\<forall>now c q. e = (OpCommit now c q, True) \<longrightarrow> (\<exists>t. granted_at l = Some t \<and> time_Before now (time_Add t d)) \<and> (\<forall>x \<in> set l. \<not> log_retires x))"
proof -
  have snoc: "l @ [e] = p @ x # r \<longleftrightarrow> l = p \<and> e = x \<and> r = [] \<or> (\<exists>r'. r = r' @ [e] \<and> l = p @ x # r')" for p x and r :: "(owner_op \<times> bool) list"
    by (cases r rule: rev_cases) auto
  show ?thesis (is "?L \<longleftrightarrow> ?R \<and> ?E")
  proof (intro iffI conjI)
    assume L: ?L
    show ?R unfolding renewed_in_time_def
    proof (intro allI impI)
      fix p now c q r assume "l = p @ (OpCommit now c q, True) # r"
      then have "l @ [e] = p @ (OpCommit now c q, True) # (r @ [e])" by simp
      then show "(\<exists>t. granted_at p = Some t \<and> time_Before now (time_Add t d)) \<and> (\<forall>x \<in> set p. \<not> log_retires x)"
        using L unfolding renewed_in_time_def by blast
    qed
    show ?E
    proof (intro allI impI)
      fix now c q assume "e = (OpCommit now c q, True)"
      then have "l @ [e] = l @ (OpCommit now c q, True) # []" by simp
      then show "(\<exists>t. granted_at l = Some t \<and> time_Before now (time_Add t d)) \<and> (\<forall>x \<in> set l. \<not> log_retires x)"
        using L unfolding renewed_in_time_def by blast
    qed
  next
    assume R: "?R \<and> ?E"
    show ?L unfolding renewed_in_time_def snoc
    proof (intro allI impI)
      fix p now c q r
      assume "l = p \<and> e = (OpCommit now c q, True) \<and> r = [] \<or> (\<exists>r'. r = r' @ [e] \<and> l = p @ (OpCommit now c q, True) # r')"
      then show "(\<exists>t. granted_at p = Some t \<and> time_Before now (time_Add t d)) \<and> (\<forall>x \<in> set p. \<not> log_retires x)"
        using R unfolding renewed_in_time_def by (elim disjE) (simp, blast)
    qed
  qed
qed

definition lease_inv :: "int \<Rightarrow> (owner_op \<times> bool) list \<Rightarrow> SessionOwner \<Rightarrow> bool" where
  "lease_inv d l s \<longleftrightarrow> lt_Duration (so_lease s) = d
     \<and> (so_reg s = (granted_at l \<noteq> None)) \<and> (\<forall>t. granted_at l = Some t \<longrightarrow> so_deadline s = time_Add t d)
     \<and> (so_active s = (\<forall>e \<in> set l. \<not> log_retires e))
     \<and> sorted_wrt (<) (renewals l) \<and> (\<forall>q \<in> set (renewals l). 0 < q \<and> q \<le> so_sequence s)
     \<and> renewed_in_time d l"


lemma log_snoc:
  "granted_at (l @ [e]) = log_grant (granted_at l) e"
  "renewals (l @ [e]) = renewals l @ (case e of (OpCommit _ _ q, True) \<Rightarrow> [q] | _ \<Rightarrow> [])"
  by (auto simp: granted_at_def renewals_def map_filter_def split: owner_op.splits prod.splits bool.splits)

lemma lease_inv_keep:
  assumes "lease_inv d l s" "so_lease s' = so_lease s" "so_reg s' = so_reg s" "so_deadline s' = so_deadline s" "so_sequence s' = so_sequence s"
    "so_active s' = (so_active s \<and> \<not> log_retires e)" "log_grant (granted_at l) e = granted_at l" "(case e of (OpCommit _ _ q, True) \<Rightarrow> [q] | _ \<Rightarrow> []) = []"
  shows "lease_inv d (l @ [e]) s'"
  using assms unfolding lease_inv_def log_snoc renewed_snoc by auto

lemma reserve_keeps [simp]:
  "so_lease (reserveMutation b s) = so_lease s" "so_reg (reserveMutation b s) = so_reg s" "so_deadline (reserveMutation b s) = so_deadline s"
  "so_sequence (reserveMutation b s) = so_sequence s" "so_active (reserveMutation b s) = so_active s"
  by (simp_all add: reserveMutation_def)

lemma MarkRegistered_lease:
  assumes inv: "owner_inv (s, fin)" and l: "lease_inv d l s" and st: "MarkRegistered now s = Inr (b, s')"
  shows "lease_inv d (l @ [(OpMark now, b)]) s'"
proof (cases "so_active s \<and> \<not> so_reg s")
  case True
  then have "b" "s' = s\<lparr>so_deadline := time_Add now (lt_Duration (so_lease s)), so_reg := True, so_registered := True\<rparr>"
    using st inv by (auto simp: MarkRegistered_def close_registered_def owner_inv_def)
  then show ?thesis using l True by (auto simp: lease_inv_def log_snoc renewed_snoc log_grant_def)
next
  case False
  then have "s' = s" "b \<longrightarrow> so_reg s" using st by (auto simp: MarkRegistered_def split: if_splits)
  then show ?thesis using l by (intro lease_inv_keep [OF l]) (auto simp: log_grant_def lease_inv_def split: bool.splits)
qed

lemma commitLease_lease:
  assumes l: "lease_inv d l s" and st: "commitLease now c q s = (b, s')"
  shows "lease_inv d (l @ [(OpCommit now c q, b)]) s'"
proof (cases b)
  case True
  then have q: "q \<noteq> 0" "so_sequence s < q" "so_reg s \<and> so_active s \<and> time_Before now (so_deadline s)" "s' = s\<lparr>so_sequence := q, so_deadline := time_Add now (lt_Duration (so_lease s))\<rparr>"
    using st by (auto simp: commitLease_def split: if_splits)
  moreover have "0 < q" using q(1) by (simp add: word_gt_0)
  moreover have "\<forall>r \<in> set (renewals l). r < q" using l q(2) by (auto simp: lease_inv_def)
  ultimately show ?thesis using l True by (auto simp: lease_inv_def log_snoc renewed_snoc log_grant_def sorted_wrt_append)
next
  case False
  then have "s' = s" using st by (auto simp: commitLease_def split: if_splits)
  then show ?thesis using False by (intro lease_inv_keep [OF l]) (auto simp: log_grant_def)
qed

lemma owner_step_lease:
  assumes inv: "owner_inv (s, fin)" and few: "length (so_muts s) < 2 ^ 64" and l: "lease_inv d l s" and st: "owner_step x (s, fin) = Inr (b, s', fin')"
  shows "lease_inv d (l @ [(x, b)]) s'"
proof -
  have c: "counted s < 2 ^ 64" using few counted_le [of s] by simp
  note keep = lease_inv_keep [OF l]
  show ?thesis
  proof (cases x)
    case (OpMark now)
    then show ?thesis using MarkRegistered_lease [OF inv l, of now b s'] st by (auto simp: lift_result_def split: sum.splits)
  next
    case OpRetire
    then show ?thesis using st retireLocked_inv [OF inv c] by (intro keep) (auto simp: lift_result_def log_grant_def)
  next
    case (OpCommit now e q)
    then show ?thesis using commitLease_lease [OF l, of now e q b s'] st by (auto simp: lift_result_def split: prod.splits)
  next
    case (OpExpire now)
    then show ?thesis using st retireLocked_inv [OF inv c] by (intro keep) (auto simp: lift_result_def log_grant_def ExpireLease_def split: if_splits)
  next
    case (OpAdmit now e b')
    then show ?thesis using st by (intro keep) (auto simp: admit_def log_grant_def split: if_splits)
  next
    case (OpFork e m)
    then show ?thesis using st by (intro keep) (auto simp: Fork_def log_grant_def split: if_splits)
  next
    case (OpCtxDone m)
    then show ?thesis using st by (intro keep) (auto simp: log_grant_def split: if_splits)
  next
    case (OpWatch m)
    then show ?thesis using st by (intro keep) (auto simp: watch_def log_grant_def split: if_splits)
  next
    case (OpFinish m)
    then show ?thesis using st by (intro keep) (auto simp: Finish_begin_def log_grant_def split: if_splits)
  next
    case (OpJoin m)
    then show ?thesis using st
      by (intro keep) (auto simp: Finish_end_def Let_def close_drained_def log_grant_def split: if_splits)
  qed
qed

lemma owner_run_lease:
  "owner_inv (s, fin) \<Longrightarrow> length (so_muts s) + length xs < 2 ^ 64 \<Longrightarrow> lease_inv d l0 s \<Longrightarrow> owner_run xs (s, fin) = Inr (l, s', fin') \<Longrightarrow> lease_inv d (l0 @ l) s'"
proof (induction xs arbitrary: s fin l0 l)
  case (Cons x xs)
  obtain b s1 fin1 where 1: "owner_step x (s, fin) = Inr (b, s1, fin1)" "owner_inv (s1, fin1)" "length (so_muts s1) \<le> Suc (length (so_muts s))"
    using owner_step_inv [OF Cons.prems(1), of x] Cons.prems(2) by auto
  have 2: "lease_inv d (l0 @ [(x, b)]) s1" using owner_step_lease [OF Cons.prems(1) _ Cons.prems(3) 1(1)] Cons.prems(2) by simp
  obtain l1 where "owner_run xs (s1, fin1) = Inr (l1, s', fin')" "l = (x, b) # l1"
    using Cons.prems(4) 1(1) by (auto split: sum.splits)
  then show ?case using Cons.IH [OF 1(2) _ 2, of l1] 1(3) Cons.prems(2) by simp
qed simp


section \<open>Draining\<close>

text \<open>Every caller finishes its mutation: it calls \<open>Finish\<close>, the watcher ends, the caller joins it.\<close>

definition finish_all :: "SessionOwner \<Rightarrow> owner_op list" where
  "finish_all s = concat (map (\<lambda>m. [OpFinish m, OpWatch m, OpJoin m]) [0..<length (so_muts s)])"

definition released :: "SessionOwner \<Rightarrow> nat set" where
  "released s = {m. m < length (so_muts s) \<and> mu_finishedDone (so_muts s ! m)}"

lemma owner_run_append:
  "owner_run xs st = Inr (l, st1) \<Longrightarrow> owner_run (xs @ ys) st = (case owner_run ys st1 of Inl p \<Rightarrow> Inl p | Inr (l', st') \<Rightarrow> Inr (l @ l', st'))"
  by (induction xs arbitrary: st l) (auto split: sum.splits)

lemma finish_one:
  assumes inv: "owner_inv (s, fin)" and few: "length (so_muts s) < 2 ^ 64" and m: "m < length (so_muts s)"
  shows "\<exists>l s' fin'. owner_run [OpFinish m, OpWatch m, OpJoin m] (s, fin) = Inr (l, s', fin') \<and> owner_inv (s', fin') \<and> so_active s' = so_active s
    \<and> length (so_muts s') = length (so_muts s) \<and> insert m (released s) \<subseteq> released s'"
proof -
  obtain b1 s1 fin1 where 1: "owner_step (OpFinish m) (s, fin) = Inr (b1, s1, fin1)" "owner_inv (s1, fin1)"
    using owner_step_inv [OF inv few, of "OpFinish m"] by blast
  have e1: "so_active s1 = so_active s" "length (so_muts s1) = length (so_muts s)" "released s1 = released s" "mu_finished (so_muts s1 ! m)"
    using 1(1) m by (auto simp: Finish_begin_def released_def nth_list_update split: if_splits)
  have 2: "owner_inv (watch m s1, fin1)" using watch_inv [OF 1(2)] m e1(2) by simp
  have "mu_cause (so_muts s1 ! m) \<noteq> None" using mut_okD [OF 1(2)] m e1 by (simp add: mut_ok_def)
  then have e2: "so_active (watch m s1) = so_active s" "length (so_muts (watch m s1)) = length (so_muts s)" "released (watch m s1) = released s"
    "mu_watcherDone (so_muts (watch m s1) ! m)" "mu_finished (so_muts (watch m s1) ! m)"
    using m e1 by (auto simp: watch_def released_def nth_list_update split: if_splits)
  show ?thesis
  proof (cases "m \<in> set fin1")
    case True
    have "counted (watch m s1) < 2 ^ 64" using counted_le [of "watch m s1"] e2(2) few by simp
    then obtain s3 where 3: "Finish_end m (watch m s1) = Inr s3" "owner_inv (s3, remove1 m fin1)" "so_active s3 = so_active s"
      "so_muts s3 = (so_muts (watch m s1))[m := (so_muts (watch m s1) ! m)\<lparr>mu_finishedDone := True\<rparr>]"
      using Finish_end_inv [OF 2 _ True] e2(1) by auto
    have "insert m (released s) \<subseteq> released s3" using m e2 3(4) by (auto simp: released_def nth_list_update simp flip: e2(3))
    then show ?thesis using 1(1) 3 True m e1(2) e2 by (simp del: owner_step.simps(9)) 
  next
    case False
    then have "m \<in> released (watch m s1)" using mut_okD [OF 2, of m] m e2 by (auto simp: released_def mut_ok_def)
    then show ?thesis using 1(1) 2 False m e1(2) e2 by (simp del: owner_step.simps(9))
  qed
qed

lemma finish_many:
  "owner_inv (s, fin) \<Longrightarrow> length (so_muts s) < 2 ^ 64 \<Longrightarrow> set ms \<subseteq> {..<length (so_muts s)} \<Longrightarrow>
   \<exists>l s' fin'. owner_run (concat (map (\<lambda>m. [OpFinish m, OpWatch m, OpJoin m]) ms)) (s, fin) = Inr (l, s', fin') \<and> owner_inv (s', fin')
     \<and> so_active s' = so_active s \<and> length (so_muts s') = length (so_muts s) \<and> set ms \<union> released s \<subseteq> released s'"
proof (induction ms arbitrary: s fin)
  case (Cons m ms)
  obtain l1 s1 fin1 where 1: "owner_run [OpFinish m, OpWatch m, OpJoin m] (s, fin) = Inr (l1, s1, fin1)" "owner_inv (s1, fin1)" "so_active s1 = so_active s"
    "length (so_muts s1) = length (so_muts s)" "insert m (released s) \<subseteq> released s1"
    using finish_one [OF Cons.prems(1,2), of m] Cons.prems(3) by auto
  then obtain l2 s2 fin2 where "owner_run (concat (map (\<lambda>m. [OpFinish m, OpWatch m, OpJoin m]) ms)) (s1, fin1) = Inr (l2, s2, fin2)" "owner_inv (s2, fin2)"
    "so_active s2 = so_active s" "length (so_muts s2) = length (so_muts s)" "set ms \<union> released s1 \<subseteq> released s2"
    using Cons.IH [OF 1(2)] Cons.prems(2,3) by auto
  then show ?case using owner_run_append [OF 1(1)] 1(5) by (simp del: owner_run.simps) blast
qed simp

section \<open>Properties\<close>

text \<open>C7: A session drains exactly when it should. Whatever the callers, watchers and retirements of a
  session interleave, no channel is closed twice; \<open>MutationsDrained\<close> is closed exactly when the owner
  is retired and every mutation admitted on it, forks included, has finished; the counter is the
  number of those that have not; and a drained owner admits and forks nothing, ever again.
\<close>

theorem session_drain_exact:
  assumes new: "NewSessionOwnerWithClock parse str e b d = Inr s0" and few: "length xs + length ys < 2 ^ 64"
  shows "\<exists>l s fin. owner_run xs (s0, []) = Inr (l, s, fin)
    \<and> so_drained s = (\<not> so_active s \<and> (\<forall>mu \<in> set (so_muts s). mu_finishedDone mu))
    \<and> so_mutations s = of_nat (length (filter (\<lambda>mu. \<not> mu_finishedDone mu) (so_muts s)))
    \<and> (so_drained s \<longrightarrow> (\<exists>l' s'. owner_run ys (s, fin) = Inr (l', s', fin) \<and> so_drained s' \<and> length (so_muts s') = length (so_muts s)))"
proof -
  obtain l s fin where r: "owner_run xs (s0, []) = Inr (l, s, fin)" "owner_inv (s, fin)" "length (so_muts s) \<le> length xs"
    using owner_run_inv [of s0 "[]" xs] New_inv [OF new] few by auto
  have "so_drained s = (\<not> so_active s \<and> (\<forall>mu \<in> set (so_muts s). mu_finishedDone mu))"
    "so_mutations s = of_nat (length (filter (\<lambda>mu. \<not> mu_finishedDone mu) (so_muts s)))"
    using r(2) counted_zero [OF r(2)] by (auto simp: owner_inv_def counted_def)
  then show ?thesis using r owner_run_drained [OF r(2), of ys] few by auto
qed

text \<open>A session for the samples below: a five-second lease, a parser that knows one identity.\<close>

definition sample_parse :: "string \<Rightarrow> uuid option" where
  "sample_parse v = (if v = ''u'' then Some 1 else None)"

definition sample_print :: "uuid \<Rightarrow> string" where
  "sample_print i = ''u''"

definition sample_session :: SessionOwner where
  "sample_session = (case NewSessionOwnerWithClock sample_parse sample_print ''e'' \<lparr>Incarnation = ''u'', SessionID = ''u''\<rparr> (5 * Second) of Inr s \<Rightarrow> s)"

lemma sample_new: "NewSessionOwnerWithClock sample_parse sample_print ''e'' \<lparr>Incarnation = ''u'', SessionID = ''u''\<rparr> (5 * Second) = Inr sample_session"
  by code_simp

definition at_second :: "int \<Rightarrow> instant" where
  "at_second n = \<lparr>inst_wall = n * Second, inst_mono = None\<rparr>"

definition sample_work :: "owner_op list" where
  "sample_work = [OpMark (at_second 1), OpAdmit (at_second 2) False False, OpFork False 0, OpCommit (at_second 3) False 7]"

definition sample_end :: "owner_op list" where
  "sample_end = [OpRetire, OpFinish 0, OpWatch 0, OpJoin 0, OpWatch 1, OpFinish 1, OpJoin 1]"

theorem session_drain_exact_witness:
  "\<exists>l s fin. owner_run (sample_work @ sample_end) (sample_session, []) = Inr (l, s, fin) \<and> so_drained s \<and> length (so_muts s) = 2
     \<and> (\<exists>l' s'. owner_run [OpAdmit (at_second 4) False False, OpFork False 1] (s, fin) = Inr (l', s', fin) \<and> length (so_muts s') = 2)"
proof -
  have "case owner_run (sample_work @ sample_end) (sample_session, []) of Inl _ \<Rightarrow> False | Inr (l, s, fin) \<Rightarrow> so_drained s \<and> length (so_muts s) = 2"
    by code_simp
  moreover have "length (sample_work @ sample_end) + length [OpAdmit (at_second 4) False False, OpFork False 1] < 2 ^ 64" by (simp add: sample_work_def sample_end_def)
  ultimately show ?thesis
    using session_drain_exact [OF sample_new, of "sample_work @ sample_end" "[OpAdmit (at_second 4) False False, OpFork False 1]"]
    by (auto simp del: owner_run.simps)
qed

text \<open>C8: The lease is the authority. After any interleaving, ordinary work is admitted at an instant
  exactly if the caller's context stands, nothing has retired the owner, and the instant lies
  before the lease duration has passed since the registration or the last committed renewal;
  every committed renewal came while the lease it extends was still held, and the committed sequences
  are positive and strictly increasing.
\<close>

theorem lease_authority:
  assumes new: "NewSessionOwnerWithClock parse str e b d = Inr s0" and few: "length xs < 2 ^ 64"
    and run: "owner_run xs (s0, []) = Inr (l, s, fin)"
  shows "((\<exists>m s'. admit now ctxDone False s = (Inr m, s'))
      \<longleftrightarrow> \<not> ctxDone \<and> (\<exists>t. granted_at l = Some t \<and> time_Before now (time_Add t d)) \<and> (\<forall>x \<in> set l. \<not> log_retires x))
    \<and> renewed_in_time d l \<and> sorted_wrt (<) (renewals l) \<and> 0 \<notin> set (renewals l) \<and> Second \<le> d \<and> d \<le> 5 * Minute"
proof -
  have s0: "lt_Duration (so_lease s0) = d" "so_sequence s0 = 0" "Second \<le> d" "d \<le> 5 * Minute"
    using new by (auto simp: NewSessionOwnerWithClock_def NewLeaseTiming_def MinLeaseDuration_def MaxLeaseDuration_def split: option.splits if_splits)
  have "lease_inv d [] s0" using New_inv [OF new] s0 by (simp add: lease_inv_def granted_at_def renewals_def map_filter_def renewed_in_time_def)
  then have inv: "lease_inv d l s" using owner_run_lease [of s0 "[]" xs d "[]" l s fin] New_inv [OF new] few run by simp
  then have "(\<exists>m s'. admit now ctxDone False s = (Inr m, s'))
      \<longleftrightarrow> \<not> ctxDone \<and> (\<exists>t. granted_at l = Some t \<and> time_Before now (time_Add t d)) \<and> (\<forall>x \<in> set l. \<not> log_retires x)"
    by (auto simp: admit_def availableLocked_def lease_inv_def)
  then show ?thesis using inv s0 by (auto simp: lease_inv_def)
qed

theorem lease_authority_witness:
  "\<exists>l s fin m s'. owner_run sample_work (sample_session, []) = Inr (l, s, fin) \<and> granted_at l = Some (at_second 3) \<and> renewals l = [7]
     \<and> admit (at_second 7) False False s = (Inr m, s') \<and> (\<nexists>m s'. admit (at_second 8) False False s = (Inr m, s'))"
proof -
  have "case owner_run sample_work (sample_session, []) of Inl _ \<Rightarrow> False | Inr (l, s, fin) \<Rightarrow>
    granted_at l = Some (at_second 3) \<and> renewals l = [7] \<and> list_all (\<lambda>x. \<not> log_retires x) l" by code_simp
  then obtain l s fin where r: "owner_run sample_work (sample_session, []) = Inr (l, s, fin)" "granted_at l = Some (at_second 3)" "renewals l = [7]"
    "\<forall>x \<in> set l. \<not> log_retires x" by (auto simp: list_all_iff split: sum.splits)
  have "length sample_work < 2 ^ 64" by (simp add: sample_work_def sample_end_def)
  note a = lease_authority [OF sample_new this r(1)]
  have "time_Before (at_second 7) (time_Add (at_second 3) (5 * Second))" "\<not> time_Before (at_second 8) (time_Add (at_second 3) (5 * Second))" by code_simp+
  then show ?thesis using a [of "at_second 7" False] a [of "at_second 8" False] r by auto
qed





end
