(* ===== verification/Control_Sessions.thy ===== *)
theory Control_Sessions
  imports Session_Owner
begin

text \<open>
  The dispatcher's control sessions: which session of an executor is the current one, how a
  reconnecting executor replaces it, and when its own work may begin. \<^verbatim>\<open>transport/rpc/bidi.go\<close> gives
  \<open>registerExecutor\<close>, \<open>handleSession\<close>, \<open>RemoveClient\<close> and \<open>Close\<close>, \<^verbatim>\<open>negotiation.go\<close> the lanes, \<open>waitPredecessors\<close>,
  \<open>confirm\<close> and \<open>admitted\<close>, \<^verbatim>\<open>lease.go\<close> the renewal. The server's mutex guards all of its maps, so a step is one of its
  critical sections or one section of an owner. A session, its offer and the owner it publishes
  are one record, named by its position; \<open>se_stage\<close> is where its \<open>handleSession\<close> stands. Hello, the
  registration callback, the probes, the network and the contexts enter as what they returned.
\<close>

section \<open>State\<close>

record Credentials =
  cr_Binding :: Binding
  cr_Token :: string

definition Credentials_Matches :: "Credentials \<Rightarrow> Credentials \<Rightarrow> bool" where
  "Credentials_Matches c d \<longleftrightarrow> cr_Binding c = cr_Binding d \<and> cr_Token c = cr_Token d"

datatype stage = Offered | Published | Waiting | Connecting | Connected | Serving | Ending | Gone

record session =
  se_credentials :: Credentials
  se_fingerprint :: string
  se_published :: bool
  se_confirmed :: bool
  se_activated :: bool
  se_confirmation :: bool
  se_owner :: "owner_state option"
  se_stage :: stage

record sessionLane =
  ln_current :: "nat option"
  ln_predecessors :: "nat list"

record BidiServer =
  bs_incarnation :: string
  bs_duration :: int
  bs_sessions :: "session list"
  bs_offers :: "nat list"
  bs_clients :: "string \<rightharpoonup> nat"
  bs_lanes :: "string \<rightharpoonup> sessionLane"
  bs_closed :: bool

datatype bidi_panic = OwnerPanic owner_panic | NilLane | OfferChannelClosed

definition NewBidiServer :: "string \<Rightarrow> int \<Rightarrow> BidiServer" where
  "NewBidiServer incarnation duration = \<lparr>bs_incarnation = incarnation, bs_duration = duration, bs_sessions = [], bs_offers = [],
     bs_clients = Map.empty, bs_lanes = Map.empty, bs_closed = False\<rparr>"

definition own :: "BidiServer \<Rightarrow> nat \<Rightarrow> owner_state option" where
  "own w i = (if i < length (bs_sessions w) then se_owner (bs_sessions w ! i) else None)"

definition stage_of :: "BidiServer \<Rightarrow> nat \<Rightarrow> stage" where
  "stage_of w i = (if i < length (bs_sessions w) then se_stage (bs_sessions w ! i) else Gone)"

definition upd_session :: "nat \<Rightarrow> (session \<Rightarrow> session) \<Rightarrow> BidiServer \<Rightarrow> BidiServer" where
  "upd_session i f w = w\<lparr>bs_sessions := (bs_sessions w)[i := f (bs_sessions w ! i)]\<rparr>"

definition goto :: "stage \<Rightarrow> nat \<Rightarrow> BidiServer \<Rightarrow> BidiServer" where
  "goto g i w = upd_session i (\<lambda>se. se\<lparr>se_stage := g\<rparr>) w"

definition with_owner :: "nat \<Rightarrow> owner_op \<Rightarrow> BidiServer \<Rightarrow> bidi_panic + bool \<times> BidiServer" where
  "with_owner i x w = (case own w i of None \<Rightarrow> Inr (False, w)
     | Some st \<Rightarrow> (case owner_step x st of Inl p \<Rightarrow> Inl (OwnerPanic p)
         | Inr (b, st) \<Rightarrow> Inr (b, upd_session i (\<lambda>se. se\<lparr>se_owner := Some st\<rparr>) w)))"

section \<open>Lanes\<close>

definition is_drained :: "BidiServer \<Rightarrow> nat \<Rightarrow> bool" where
  "is_drained w i = (case own w i of None \<Rightarrow> False | Some (s, fin) \<Rightarrow> so_drained s)"

definition owned_by :: "BidiServer \<Rightarrow> nat \<Rightarrow> string \<Rightarrow> bool" where
  "owned_by w i e = (case own w i of None \<Rightarrow> False | Some (s, fin) \<Rightarrow> so_executorID s = e)"

definition sweepLaneLocked :: "string \<Rightarrow> BidiServer \<Rightarrow> BidiServer" where
  "sweepLaneLocked e w = (case bs_lanes w e of None \<Rightarrow> w
     | Some ln \<Rightarrow> let ps = filter (\<lambda>i. \<not> is_drained w i) (ln_predecessors ln);
           w' = w\<lparr>bs_lanes := (bs_lanes w)(e \<mapsto> ln\<lparr>ln_predecessors := ps\<rparr>)\<rparr> in
         if ln_current ln \<noteq> None \<or> ps \<noteq> [] then w'
         else if list_ex (\<lambda>i. owned_by w i e) (bs_offers w) then w'
         else w\<lparr>bs_lanes := (bs_lanes w)(e := None)\<rparr>)"

definition lane_or_new :: "BidiServer \<Rightarrow> string \<Rightarrow> sessionLane" where
  "lane_or_new w e = (case bs_lanes w e of None \<Rightarrow> \<lparr>ln_current = None, ln_predecessors = []\<rparr> | Some ln \<Rightarrow> ln)"

definition bidi_retireLocked :: "nat \<Rightarrow> BidiServer \<Rightarrow> bidi_panic + BidiServer" where
  "bidi_retireLocked i w = (case own w i of None \<Rightarrow> Inr w
     | Some (s, fin) \<Rightarrow> let e = so_executorID s in
       (case with_owner i OpRetire w of Inl p \<Rightarrow> Inl p
        | Inr (_, w) \<Rightarrow>
            let w = (if bs_clients w e = Some i then w\<lparr>bs_clients := (bs_clients w)(e := None)\<rparr> else w);
                ln = lane_or_new w e;
                ln = (if ln_current ln = Some i then ln\<lparr>ln_current := None\<rparr> else ln);
                ln = ln\<lparr>ln_predecessors := List.insert i (ln_predecessors ln)\<rparr>
            in Inr (sweepLaneLocked e (w\<lparr>bs_lanes := (bs_lanes w)(e \<mapsto> ln)\<rparr>))))"

definition RemoveClient :: "nat \<Rightarrow> BidiServer \<Rightarrow> bidi_panic + BidiServer" where
  "RemoveClient i w = (case own w i of None \<Rightarrow> Inr w
     | Some (s, fin) \<Rightarrow> if bs_clients w (so_executorID s) = Some i then bidi_retireLocked i w else Inr w)"

fun retire_clients :: "nat list \<Rightarrow> BidiServer \<Rightarrow> bidi_panic + BidiServer" where
  "retire_clients [] w = Inr w"
| "retire_clients (i # is) w = (case RemoveClient i w of Inl p \<Rightarrow> Inl p | Inr w \<Rightarrow> retire_clients is w)"

definition BidiServer_Close :: "BidiServer \<Rightarrow> bidi_panic + BidiServer" where
  "BidiServer_Close w = retire_clients [0..<length (bs_sessions w)] (w\<lparr>bs_closed := True\<rparr>)"

section \<open>A session\<close>

text \<open>The first section of \<open>registerExecutor\<close>. Session identities are fresh random ones.\<close>

definition register_offer :: "Credentials \<Rightarrow> string \<Rightarrow> bool \<Rightarrow> BidiServer \<Rightarrow> BidiServer" where
  "register_offer c fp ctxDone w = (if bs_closed w \<or> ctxDone \<or> Incarnation (cr_Binding c) \<noteq> bs_incarnation w
      \<or> list_ex (\<lambda>se. SessionID (cr_Binding (se_credentials se)) = SessionID (cr_Binding c)) (bs_sessions w) then w
     else w\<lparr>bs_offers := bs_offers w @ [length (bs_sessions w)],
       bs_sessions := bs_sessions w @ [\<lparr>se_credentials = c, se_fingerprint = fp, se_published = False, se_confirmed = False, se_activated = False,
         se_confirmation = False, se_owner = None, se_stage = Offered\<rparr>]\<rparr>)"

definition close_published :: "nat \<Rightarrow> BidiServer \<Rightarrow> bidi_panic + BidiServer" where
  "close_published i w = (if se_published (bs_sessions w ! i) then Inl OfferChannelClosed else Inr (upd_session i (\<lambda>se. se\<lparr>se_published := True\<rparr>) w))"

text \<open>Its deferred section when nothing was published.\<close>

definition register_abandon :: "nat \<Rightarrow> BidiServer \<Rightarrow> bidi_panic + BidiServer" where
  "register_abandon i w = close_published i (goto Gone i (w\<lparr>bs_offers := remove1 i (bs_offers w)\<rparr>))"

text \<open>The last section, for the executor \<open>e\<close> that answered Hello; an owner that is not published is retired and dropped.\<close>

definition register_publish :: "(string \<Rightarrow> uuid option) \<Rightarrow> (uuid \<Rightarrow> string) \<Rightarrow> nat \<Rightarrow> string \<Rightarrow> bool \<Rightarrow> BidiServer \<Rightarrow> bidi_panic + BidiServer" where
  "register_publish parse str i e ctxDone w =
     (case NewSessionOwnerWithClock parse str e (cr_Binding (se_credentials (bs_sessions w ! i))) (bs_duration w) of
        Inl _ \<Rightarrow> register_abandon i w
      | Inr s \<Rightarrow> if bs_closed w \<or> ctxDone then register_abandon i w
          else (case (case bs_clients w e of None \<Rightarrow> Inr w | Some old \<Rightarrow> bidi_retireLocked old w) of Inl p \<Rightarrow> Inl p
            | Inr w \<Rightarrow> close_published i (goto Published i (upd_session i (\<lambda>se. se\<lparr>se_owner := Some (s, [])\<rparr>)
                (w\<lparr>bs_lanes := (bs_lanes w)(e \<mapsto> (lane_or_new w e)\<lparr>ln_current := Some i\<rparr>), bs_clients := (bs_clients w)(e \<mapsto> i)\<rparr>)))))"

text \<open>One round of \<open>waitPredecessors\<close>; a round that finds predecessors waits and comes again.\<close>

definition wait_round :: "nat \<Rightarrow> SessionOwner \<Rightarrow> BidiServer \<Rightarrow> bidi_panic + BidiServer" where
  "wait_round i s w = (let e = so_executorID s in
     if bs_clients w e \<noteq> Some i \<or> \<not> so_active s then Inr (goto Ending i w)
     else let w = sweepLaneLocked e w in
       (case bs_lanes w e of None \<Rightarrow> Inl NilLane
        | Some ln \<Rightarrow> if ln_predecessors ln = [] then Inr (goto Connecting i w) else Inr w))"

text \<open>The section of \<open>handleSession\<close> after the confirmation: only the session that is still current is marked registered.\<close>

definition activate :: "nat \<Rightarrow> instant \<Rightarrow> bool \<Rightarrow> SessionOwner \<Rightarrow> BidiServer \<Rightarrow> bidi_panic + BidiServer" where
  "activate i now ctxDone s w =
     (if bs_clients w (so_executorID s) = Some i \<and> \<not> ctxDone
      then (case with_owner i (OpMark now) w of Inl p \<Rightarrow> Inl p
        | Inr (b, w) \<Rightarrow> if \<not> b then Inr (goto Ending i w)
            else if se_activated (bs_sessions w ! i) then Inl OfferChannelClosed
            else Inr (goto Serving i (upd_session i (\<lambda>se. se\<lparr>se_activated := True\<rparr>) w)))
      else Inr (goto Ending i w))"

text \<open>The section of \<open>confirm\<close> that records the confirmation.\<close>

definition confirm :: "nat \<Rightarrow> SessionOwner \<Rightarrow> BidiServer \<Rightarrow> bidi_panic + BidiServer" where
  "confirm i s w = (if bs_clients w (so_executorID s) = Some i \<and> so_active s \<and> \<not> se_confirmation (bs_sessions w ! i)
     then if se_confirmed (bs_sessions w ! i) then Inl OfferChannelClosed
       else Inr (upd_session i (\<lambda>se. se\<lparr>se_confirmation := True, se_confirmed := True\<rparr>) w)
     else Inr w)"

text \<open>The end of the teardown, after its \<open>RemoveClient\<close> and once the owner has drained.\<close>

definition forget :: "nat \<Rightarrow> SessionOwner \<Rightarrow> BidiServer \<Rightarrow> BidiServer" where
  "forget i s w = sweepLaneLocked (so_executorID s) (goto Gone i (w\<lparr>bs_offers := remove1 i (bs_offers w)\<rparr>))"

section \<open>Requests\<close>

datatype rpc_refusal = Unavailable | PermissionDenied

text \<open>
  What \<open>admitted\<close> looks up: \<open>caller\<close> is the certificate fingerprint of the request, absent where enrollment is not enforced.
\<close>

definition find_offer :: "Credentials \<Rightarrow> BidiServer \<Rightarrow> nat option" where
  "find_offer c w = List.find (\<lambda>i. SessionID (cr_Binding (se_credentials (bs_sessions w ! i))) = SessionID (cr_Binding c)) (bs_offers w)"

definition boundNode :: "string option \<Rightarrow> string \<Rightarrow> bool" where
  "boundNode caller fp = (case caller of None \<Rightarrow> True | Some f \<Rightarrow> fp \<noteq> [] \<and> fp = f)"

definition admitted_owner :: "Credentials \<Rightarrow> string option \<Rightarrow> string \<Rightarrow> BidiServer \<Rightarrow> rpc_refusal + nat" where
  "admitted_owner c caller e w = (case find_offer c w of None \<Rightarrow> Inl Unavailable
     | Some i \<Rightarrow> (case own w i of None \<Rightarrow> Inl Unavailable
         | Some (s, fin) \<Rightarrow>
             if bs_closed w \<or> \<not> Credentials_Matches (se_credentials (bs_sessions w ! i)) c \<or> bs_clients w (so_executorID s) \<noteq> Some i then Inl Unavailable
             else if \<not> boundNode caller (se_fingerprint (bs_sessions w ! i)) then Inl PermissionDenied
             else if e \<noteq> [] \<and> e \<noteq> so_executorID s then Inl PermissionDenied
             else Inr i))"

text \<open>The commit of \<open>renewLease\<close>, after the reverse probe was answered.\<close>

definition renew_commit :: "nat \<Rightarrow> instant \<Rightarrow> bool \<Rightarrow> 64 word \<Rightarrow> SessionOwner \<Rightarrow> BidiServer \<Rightarrow> bidi_panic + BidiServer" where
  "renew_commit i now ctxDone q s w = (if \<not> bs_closed w \<and> bs_clients w (so_executorID s) = Some i \<and> \<not> ctxDone
     then (case with_owner i (OpCommit now ctxDone q) w of Inl p \<Rightarrow> Inl p | Inr (_, w) \<Rightarrow> Inr w) else Inr w)"

section \<open>Interleavings\<close>

text \<open>
  \<open>Work\<close> is any section of an owner but the two that have guards of their own: an admission, a
  fork, the two halves of \<open>Finish\<close>, a watcher, the registry's \<open>Retire\<close> and \<open>ExpireLease\<close>. A step that is not enabled
  leaves the server as it is.
\<close>

datatype bidi_op = Offer Credentials string bool | Abandon nat | Publish nat string bool | SetUp nat instant bool | WaitRound nat
  | Connect nat bool | Confirm nat | Activate nat instant bool | Renew nat instant bool "64 word" | Work nat owner_op | Remove nat | Leave nat | Forget nat | CloseServer

fun work_op :: "owner_op \<Rightarrow> bool" where
  "work_op (OpMark _) = False"
| "work_op (OpCommit _ _ _) = False"
| "work_op _ = True"

definition drop_flag :: "bidi_panic + bool \<times> BidiServer \<Rightarrow> bidi_panic + BidiServer" where
  "drop_flag r = (case r of Inl p \<Rightarrow> Inl p | Inr (_, w) \<Rightarrow> Inr w)"

definition on_owner :: "nat \<Rightarrow> (SessionOwner \<Rightarrow> BidiServer \<Rightarrow> bidi_panic + BidiServer) \<Rightarrow> BidiServer \<Rightarrow> bidi_panic + BidiServer" where
  "on_owner i f w = (case own w i of None \<Rightarrow> Inr w | Some (s, fin) \<Rightarrow> f s w)"

fun bidi_step :: "(string \<Rightarrow> uuid option) \<Rightarrow> (uuid \<Rightarrow> string) \<Rightarrow> bidi_op \<Rightarrow> BidiServer \<Rightarrow> bidi_panic + BidiServer" where
  "bidi_step parse str (Offer c fp d) w = Inr (register_offer c fp d w)"
| "bidi_step parse str (Abandon i) w = (if stage_of w i = Offered then register_abandon i w else Inr w)"
| "bidi_step parse str (Publish i e d) w = (if stage_of w i = Offered then register_publish parse str i e d w else Inr w)"
| "bidi_step parse str (SetUp i now d) w = (if stage_of w i = Published
     then (case with_owner i (OpAdmit now d True) w of Inl p \<Rightarrow> Inl p | Inr (b, w) \<Rightarrow> Inr (goto (if b then Waiting else Ending) i w)) else Inr w)"
| "bidi_step parse str (WaitRound i) w = (if stage_of w i = Waiting then on_owner i (wait_round i) w else Inr w)"
| "bidi_step parse str (Connect i ok) w = Inr (if stage_of w i = Connecting then goto (if ok then Connected else Ending) i w else w)"
| "bidi_step parse str (Confirm i) w = on_owner i (confirm i) w"
| "bidi_step parse str (Activate i now d) w = (if stage_of w i = Connected \<and> se_confirmed (bs_sessions w ! i) then on_owner i (activate i now d) w else Inr w)"
| "bidi_step parse str (Renew i now d q) w = on_owner i (renew_commit i now d q) w"
| "bidi_step parse str (Work i x) w = (if work_op x then drop_flag (with_owner i x w) else Inr w)"
| "bidi_step parse str (Remove i) w = RemoveClient i w"
| "bidi_step parse str (Leave i) w = Inr (if stage_of w i \<in> {Waiting, Connected, Serving} then goto Ending i w else w)"
| "bidi_step parse str (Forget i) w = Inr (if stage_of w i = Ending then (case own w i of None \<Rightarrow> w | Some (s, fin) \<Rightarrow> if so_drained s \<and> bs_clients w (so_executorID s) \<noteq> Some i then forget i s w else w) else w)"
| "bidi_step parse str CloseServer w = BidiServer_Close w"

fun bidi_run :: "(string \<Rightarrow> uuid option) \<Rightarrow> (uuid \<Rightarrow> string) \<Rightarrow> bidi_op list \<Rightarrow> BidiServer \<Rightarrow> bidi_panic + BidiServer" where
  "bidi_run parse str [] w = Inr w"
| "bidi_run parse str (x # xs) w = (case bidi_step parse str x w of Inl p \<Rightarrow> Inl p | Inr w \<Rightarrow> bidi_run parse str xs w)"


section \<open>The invariant\<close>

definition owners_ok :: "nat \<Rightarrow> BidiServer \<Rightarrow> bool" where
  "owners_ok n w \<longleftrightarrow> (\<forall>i s fin. own w i = Some (s, fin) \<longrightarrow> owner_inv (s, fin) \<and> length (so_muts s) \<le> n \<and> ((\<exists>mu \<in> set (so_muts s). \<not> mu_setup mu) \<longrightarrow> so_reg s))"

text \<open>An owner is the current one of its executor, or waits in the lane, or has drained.\<close>

definition placed :: "BidiServer \<Rightarrow> bool" where
  "placed w \<longleftrightarrow> (\<forall>i s fin. own w i = Some (s, fin) \<longrightarrow> bs_clients w (so_executorID s) = Some i \<or> so_drained s
     \<or> (\<exists>ln. bs_lanes w (so_executorID s) = Some ln \<and> i \<in> set (ln_predecessors ln)))"

definition clients_ok :: "BidiServer \<Rightarrow> bool" where
  "clients_ok w \<longleftrightarrow> (\<forall>e i. bs_clients w e = Some i \<longrightarrow> owned_by w i e \<and> (\<exists>ln. bs_lanes w e = Some ln \<and> ln_current ln = Some i))"

text \<open>A current session that has waited for its predecessors is the only one that has not drained.\<close>

definition passed :: "stage \<Rightarrow> bool" where
  "passed g \<longleftrightarrow> g \<in> {Connecting, Connected, Serving}"

definition alone :: "BidiServer \<Rightarrow> nat \<Rightarrow> string \<Rightarrow> bool" where
  "alone w i e \<longleftrightarrow> (\<forall>j. j \<noteq> i \<longrightarrow> owned_by w j e \<longrightarrow> is_drained w j)"

definition passed_alone :: "BidiServer \<Rightarrow> bool" where
  "passed_alone w \<longleftrightarrow> (\<forall>i e. bs_clients w e = Some i \<longrightarrow> passed (stage_of w i) \<longrightarrow> alone w i e)"

definition is_registered :: "BidiServer \<Rightarrow> nat \<Rightarrow> bool" where
  "is_registered w i = (case own w i of None \<Rightarrow> False | Some (s, fin) \<Rightarrow> so_reg s)"

definition one_registered :: "BidiServer \<Rightarrow> bool" where
  "one_registered w \<longleftrightarrow> (\<forall>i j e. i \<noteq> j \<longrightarrow> owned_by w i e \<longrightarrow> owned_by w j e \<longrightarrow> is_registered w i \<longrightarrow> is_registered w j \<longrightarrow> is_drained w i \<or> is_drained w j)"

text \<open>The channels of an offer are closed once, in its stage.\<close>

definition offer_ok :: "session \<Rightarrow> bool" where
  "offer_ok se \<longleftrightarrow> (se_published se = (se_stage se \<noteq> Offered)) \<and> (se_stage se = Offered \<longrightarrow> se_owner se = None) \<and> (se_confirmed se = se_confirmation se)
     \<and> (se_activated se \<longrightarrow> se_stage se \<in> {Serving, Ending, Gone})"

definition bidi_inv :: "nat \<Rightarrow> BidiServer \<Rightarrow> bool" where
  "bidi_inv n w \<longleftrightarrow> owners_ok n w \<and> placed w \<and> clients_ok w \<and> passed_alone w \<and> one_registered w \<and> (\<forall>se \<in> set (bs_sessions w). offer_ok se)"

lemmas bidi_inv_defs = bidi_inv_def owners_ok_def placed_def clients_ok_def passed_alone_def one_registered_def alone_def

lemma own_upd [simp]: "own (upd_session i f w) j = (if j = i \<and> i < length (bs_sessions w) then se_owner (f (bs_sessions w ! i)) else own w j)"
  by (simp add: own_def upd_session_def)

lemma stage_upd [simp]: "stage_of (upd_session i f w) j = (if j = i \<and> i < length (bs_sessions w) then se_stage (f (bs_sessions w ! i)) else stage_of w j)"
  by (simp add: stage_of_def upd_session_def)

lemma upd_session_simps [simp]:
  "bs_clients (upd_session i f w) = bs_clients w" "bs_lanes (upd_session i f w) = bs_lanes w" "bs_offers (upd_session i f w) = bs_offers w"
  "length (bs_sessions (upd_session i f w)) = length (bs_sessions w)" "bs_closed (upd_session i f w) = bs_closed w"
  "bs_sessions (upd_session i f w) = (bs_sessions w)[i := f (bs_sessions w ! i)]"
  by (simp_all add: upd_session_def)

lemma own_cong [simp]: "own (w\<lparr>bs_clients := c\<rparr>) = own w" "own (w\<lparr>bs_lanes := l\<rparr>) = own w" "own (w\<lparr>bs_offers := f\<rparr>) = own w" "own (w\<lparr>bs_closed := b\<rparr>) = own w"
  "stage_of (w\<lparr>bs_clients := c\<rparr>) = stage_of w" "stage_of (w\<lparr>bs_lanes := l\<rparr>) = stage_of w" "stage_of (w\<lparr>bs_offers := f\<rparr>) = stage_of w" "stage_of (w\<lparr>bs_closed := b\<rparr>) = stage_of w"
  by (simp_all add: own_def stage_of_def fun_eq_iff)

lemma owned_by_length: "owned_by w i e \<Longrightarrow> i < length (bs_sessions w)"
  by (simp add: owned_by_def own_def split: if_splits)

lemma own_length: "own w i = Some st \<Longrightarrow> i < length (bs_sessions w)"
  by (simp add: own_def split: if_splits)

lemma own_goto [simp]: "own (goto g i w) = own w"
proof (rule ext)
  show "own (goto g i w) j = own w j" for j by (cases "j = i") (simp_all add: goto_def own_def)
qed

lemma view_cong:
  assumes "own w' = own w"
  shows "is_drained w' = is_drained w" "owned_by w' = owned_by w" "is_registered w' = is_registered w"
  using assms by (simp_all add: is_drained_def owned_by_def is_registered_def fun_eq_iff)

text \<open>What a section of an owner keeps of it.\<close>

lemmas owner_op_defs = lift_result_def MarkRegistered_def close_registered_def retireLocked_def close_done_def close_drained_def commitLease_def
  ExpireLease_def admit_def Fork_def watch_def Finish_begin_def Finish_end_def upd_mut_def reserveMutation_def

lemma owner_step_static:
  assumes "owner_step x (s, fin) = Inr (b, s', fin')"
  shows "so_executorID s' = so_executorID s" "work_op x \<Longrightarrow> so_reg s' = so_reg s" "so_reg s \<Longrightarrow> so_reg s'"
    "x = OpCommit now d q \<Longrightarrow> so_reg s' = so_reg s"
  using assms by (cases x; auto simp: owner_op_defs Let_def split: if_splits sum.splits)+

lemma setup_upd: "mu_setup y = mu_setup (xs ! m) \<Longrightarrow> map mu_setup (xs[m := y]) = map mu_setup xs"
proof (cases "m < length xs")
  case True
  assume "mu_setup y = mu_setup (xs ! m)"
  then have "map mu_setup (xs[m := y]) = (map mu_setup xs)[m := map mu_setup xs ! m]" using True by (simp add: map_update)
  then show ?thesis by simp
qed (simp add: list_update_beyond)

lemma owner_step_setup:
  assumes st: "owner_step x (s, fin) = Inr (b, s', fin')" and reg: "False \<in> set (map mu_setup (so_muts s)) \<longrightarrow> so_reg s"
  shows "False \<in> set (map mu_setup (so_muts s')) \<longrightarrow> so_reg s'"
proof -
  show ?thesis
  proof (cases x)
    case (OpAdmit now d q)
    then show ?thesis using st reg
      by (auto simp: admit_def reserveMutation_def availableLocked_def image_iff split: if_splits)
  next
    case (OpFork d m)
    then show ?thesis using st reg
      by (auto simp: Fork_def reserveMutation_def image_iff split: if_splits)
  next
    case (OpCtxDone m)
    then have "map mu_setup (so_muts s') = map mu_setup (so_muts s)" "so_reg s' = so_reg s" using st
      by (auto simp: setup_upd split: if_splits)
    then show ?thesis using reg by simp
  next
    case (OpWatch m)
    then have "map mu_setup (so_muts s') = map mu_setup (so_muts s)" "so_reg s' = so_reg s" using st
      by (auto simp: watch_def setup_upd split: if_splits)
    then show ?thesis using reg by simp
  next
    case (OpFinish m)
    then have "map mu_setup (so_muts s') = map mu_setup (so_muts s)" "so_reg s' = so_reg s" using st
      by (auto simp: Finish_begin_def setup_upd split: if_splits)
    then show ?thesis using reg by simp
  next
    case (OpJoin m)
    then have "map mu_setup (so_muts s') = map mu_setup (so_muts s)" "so_reg s' = so_reg s" using st
      by (auto simp: Finish_end_def Let_def close_drained_def setup_upd split: if_splits)
    then show ?thesis using reg by simp
  qed (use st reg owner_step_static(3) [OF st] in \<open>auto simp: owner_op_defs Let_def split: if_splits sum.splits\<close>)
qed


lemma bidi_inv_mono: "bidi_inv n w \<Longrightarrow> n \<le> m \<Longrightarrow> bidi_inv m w"
  unfolding bidi_inv_def owners_ok_def by (meson order_trans)

text \<open>Any section of an owner keeps the invariant of the server, a registration if the session is alone.\<close>

definition reg_step :: "owner_op \<Rightarrow> bool" where
  "reg_step x \<longleftrightarrow> (\<exists>now. x = OpMark now)"

lemma with_owner_ok:
  assumes inv: "bidi_inv n w" and few: "n < 2 ^ 64" and x: "reg_step x \<Longrightarrow> \<forall>e. owned_by w i e \<longrightarrow> alone w i e"
  shows "\<exists>b w'. with_owner i x w = Inr (b, w') \<and> bidi_inv (if x = OpRetire then n else Suc n) w' \<and> bs_clients w' = bs_clients w \<and> bs_lanes w' = bs_lanes w
    \<and> owned_by w' = owned_by w \<and> stage_of w' = stage_of w \<and> length (bs_sessions w') = length (bs_sessions w)
    \<and> (\<forall>j. is_drained w j \<longrightarrow> is_drained w' j) \<and> (\<forall>j. j \<noteq> i \<longrightarrow> own w' j = own w j)"
proof (cases "own w i")
  case None
  moreover have "bidi_inv (Suc n) w" by (rule bidi_inv_mono [OF inv]) simp
  ultimately show ?thesis using inv by (intro exI [of _ False] exI [of _ w]) (simp add: with_owner_def)
next
  case (Some st)
  obtain s fin where st: "st = (s, fin)" by (cases st)
  have i: "i < length (bs_sessions w)" using own_length [OF Some] .
  have o: "owner_inv (s, fin)" "length (so_muts s) \<le> n" "(\<exists>mu \<in> set (so_muts s). \<not> mu_setup mu) \<longrightarrow> so_reg s"
    using inv Some st by (auto simp: bidi_inv_def owners_ok_def)
  obtain b s' fin' where s': "owner_step x (s, fin) = Inr (b, s', fin')" "owner_inv (s', fin')" "length (so_muts s') \<le> Suc (length (so_muts s))"
    using owner_step_inv [OF o(1), of x] o(2) few by auto
  define w' where "w' = upd_session i (\<lambda>se. se\<lparr>se_owner := Some (s', fin')\<rparr>) w"
  have o': "own w' = (own w)(i \<mapsto> (s', fin'))" using i by (auto simp: w'_def fun_eq_iff)
  have reg: "so_reg s' = so_reg s" if "\<not> reg_step x"
    using that owner_step_static(2,4) [OF s'(1)] by (cases x) (auto simp: reg_step_def)
  have len: "length (so_muts s') \<le> (if x = OpRetire then n else Suc n)"
    using s' o(1,2) few retireLocked_inv [OF o(1)] counted_le [of s] by (auto simp: lift_result_def)
  have e: "so_executorID s' = so_executorID s" using owner_step_static(1) [OF s'(1)] .
  have dr: "so_drained s \<Longrightarrow> so_drained s'" using owner_step_drained [OF o(1), of x] s'(1) by auto
  have or': "(\<exists>mu \<in> set (so_muts s'). \<not> mu_setup mu) \<longrightarrow> so_reg s'"
    using owner_step_setup [OF s'(1)] o(3) by (auto simp: image_iff)
  have v: "owned_by w' = owned_by w" "\<And>j. j \<noteq> i \<or> \<not> reg_step x \<Longrightarrow> is_registered w' j = is_registered w j" "\<And>j. is_drained w j \<Longrightarrow> is_drained w' j"
    using Some st e reg dr by (auto simp: owned_by_def is_registered_def is_drained_def o' fun_eq_iff)
  have g: "stage_of w' = stage_of w"
  proof (rule ext)
    show "stage_of w' j = stage_of w j" for j by (cases "j = i") (simp_all add: w'_def stage_of_def)
  qed
  have s: "bs_clients w' = bs_clients w" "bs_lanes w' = bs_lanes w" by (simp_all add: w'_def)
  have "owners_ok (if x = OpRetire then n else Suc n) w'" unfolding owners_ok_def
  proof (intro allI impI)
    fix j sj fj assume "own w' j = Some (sj, fj)"
    then show "owner_inv (sj, fj) \<and> length (so_muts sj) \<le> (if x = OpRetire then n else Suc n) \<and> ((\<exists>mu \<in> set (so_muts sj). \<not> mu_setup mu) \<longrightarrow> so_reg sj)"
      using inv s' len or' unfolding o' bidi_inv_def owners_ok_def by (cases "j = i") (simp, fastforce)
  qed
  moreover have "placed w'" unfolding placed_def s
  proof (intro allI impI)
    fix j sj fj assume oj: "own w' j = Some (sj, fj)"
    have p: "own w j = Some (sk, fk) \<Longrightarrow> bs_clients w (so_executorID sk) = Some j \<or> so_drained sk \<or> (\<exists>ln. bs_lanes w (so_executorID sk) = Some ln \<and> j \<in> set (ln_predecessors ln))" for sk fk
      using inv unfolding bidi_inv_def placed_def by blast
    show "bs_clients w (so_executorID sj) = Some j \<or> so_drained sj \<or> (\<exists>ln. bs_lanes w (so_executorID sj) = Some ln \<and> j \<in> set (ln_predecessors ln))"
    proof (cases "j = i")
      case True
      then have "sj = s'" using oj by (simp add: o')
      then show ?thesis using p [of s fin] True Some st e dr by metis
    next
      case False
      then show ?thesis using p [of sj fj] oj by (simp add: o')
    qed
  qed
  moreover have "clients_ok w'" using inv by (simp add: bidi_inv_def clients_ok_def s v(1))
  moreover have "passed_alone w'"
  proof -
    have "passed_alone w" using inv by (simp add: bidi_inv_def)
    then show ?thesis unfolding passed_alone_def alone_def s g v(1) by (intro allI impI v(3)) metis
  qed
  moreover have "one_registered w'"
  proof -
    have "one_registered w" using inv by (simp add: bidi_inv_def)
    then show ?thesis unfolding one_registered_def v(1) using x v(2,3) by (intro allI impI) (metis alone_def)
  qed
  moreover have "\<forall>se \<in> set (bs_sessions w'). offer_ok se"
  proof -
    have "offer_ok (bs_sessions w ! i)" using inv i by (simp add: bidi_inv_def)
    then have "offer_ok ((bs_sessions w ! i)\<lparr>se_owner := Some (s', fin')\<rparr>)" using Some i by (auto simp: offer_ok_def own_def)
    then show ?thesis using inv set_update_subset_insert [of "bs_sessions w" i] by (auto simp: bidi_inv_def w'_def)
  qed
  ultimately have "bidi_inv (if x = OpRetire then n else Suc n) w'" by (simp only: bidi_inv_def)
  moreover have "with_owner i x w = Inr (b, w')" using Some st s'(1) by (simp add: with_owner_def w'_def)
  ultimately show ?thesis using s v(1,3) g o' by (simp add: w'_def)
qed


text \<open>A sweep drops drained owners only, and never the lane of a current session.\<close>

lemma sweepLaneLocked_simps [simp]:
  "own (sweepLaneLocked e w) = own w" "stage_of (sweepLaneLocked e w) = stage_of w" "bs_clients (sweepLaneLocked e w) = bs_clients w"
  "bs_sessions (sweepLaneLocked e w) = bs_sessions w"
  by (auto simp: sweepLaneLocked_def Let_def split: option.splits)

lemma sweep_lanes:
  "d \<noteq> e \<Longrightarrow> bs_lanes (sweepLaneLocked e w) d = bs_lanes w d"
  "bs_lanes w e = Some ln \<Longrightarrow> ln_current ln \<noteq> None \<Longrightarrow> bs_lanes (sweepLaneLocked e w) e = Some (ln\<lparr>ln_predecessors := filter (\<lambda>i. \<not> is_drained w i) (ln_predecessors ln)\<rparr>)"
  "bs_lanes w e = Some ln \<Longrightarrow> i \<in> set (ln_predecessors ln) \<Longrightarrow> \<not> is_drained w i \<Longrightarrow> \<exists>ln'. bs_lanes (sweepLaneLocked e w) e = Some ln' \<and> i \<in> set (ln_predecessors ln')"
  by (auto simp: sweepLaneLocked_def Let_def filter_empty_conv split: option.splits)

lemma sweep_placed:
  assumes "\<forall>i s fin. own w i = Some (s, fin) \<longrightarrow> P i s \<or> so_drained s \<or> (\<exists>ln. bs_lanes w (so_executorID s) = Some ln \<and> i \<in> set (ln_predecessors ln))"
  shows "\<forall>i s fin. own w i = Some (s, fin) \<longrightarrow> P i s \<or> so_drained s \<or> (\<exists>ln. bs_lanes (sweepLaneLocked e w) (so_executorID s) = Some ln \<and> i \<in> set (ln_predecessors ln))"
proof (intro allI impI)
  fix i s fin
  assume o: "own w i = Some (s, fin)"
  then consider "P i s \<or> so_drained s" | ln where "\<not> so_drained s" "bs_lanes w (so_executorID s) = Some ln" "i \<in> set (ln_predecessors ln)" using assms by blast
  then show "P i s \<or> so_drained s \<or> (\<exists>ln. bs_lanes (sweepLaneLocked e w) (so_executorID s) = Some ln \<and> i \<in> set (ln_predecessors ln))"
  proof cases
    case 2
    then have "\<not> is_drained w i" using o by (simp add: is_drained_def)
    then show ?thesis using 2 sweep_lanes(1) [of "so_executorID s" e w] sweep_lanes(3) [of w e ln i] by (cases "so_executorID s = e") auto
  qed blast
qed

lemma sweep_clients:
  assumes "\<forall>d i. bs_clients w d = Some i \<longrightarrow> owned_by w i d \<and> (\<exists>ln. bs_lanes w d = Some ln \<and> ln_current ln = Some i)"
  shows "clients_ok (sweepLaneLocked e w)"
  unfolding clients_ok_def
proof (intro allI impI)
  fix d i
  assume "bs_clients (sweepLaneLocked e w) d = Some i"
  then have d: "owned_by w i d" "\<exists>ln. bs_lanes w d = Some ln \<and> ln_current ln = Some i" using assms by auto
  then show "owned_by (sweepLaneLocked e w) i d \<and> (\<exists>ln. bs_lanes (sweepLaneLocked e w) d = Some ln \<and> ln_current ln = Some i)"
    using sweep_lanes(1) [of d e w] sweep_lanes(2) [of w e] by (cases "d = e") (auto simp: view_cong(2) [OF sweepLaneLocked_simps(1)])
qed

lemma sweep_ok:
  assumes "bidi_inv n w"
  shows "bidi_inv n (sweepLaneLocked e w)"
proof -
  note v = view_cong [OF sweepLaneLocked_simps(1), of e w]
  have "placed (sweepLaneLocked e w)"
    using assms sweep_placed [of w "\<lambda>i s. bs_clients w (so_executorID s) = Some i" e] by (simp add: bidi_inv_def placed_def)
  moreover have "clients_ok (sweepLaneLocked e w)" using assms sweep_clients [of w e] by (simp add: bidi_inv_def clients_ok_def)
  ultimately show ?thesis using assms by (simp add: bidi_inv_def owners_ok_def passed_alone_def alone_def one_registered_def v)
qed

lemma bidi_retire_ok:
  assumes inv: "bidi_inv n w" and few: "n < 2 ^ 64"
  shows "\<exists>w'. bidi_retireLocked i w = Inr w' \<and> bidi_inv n w' \<and> stage_of w' = stage_of w \<and> owned_by w' = owned_by w
    \<and> length (bs_sessions w') = length (bs_sessions w) \<and> (\<forall>d. bs_clients w' d = (if bs_clients w d = Some i \<and> owned_by w i d then None else bs_clients w d))
    \<and> (\<forall>j. j \<noteq> i \<longrightarrow> own w' j = own w j)"
proof (cases "own w i")
  case None
  then show ?thesis using inv by (simp add: bidi_retireLocked_def owned_by_def)
next
  case (Some st)
  obtain s fin where st: "st = (s, fin)" by (cases st)
  define e where "e = so_executorID s"
  obtain b w1 where w1: "with_owner i OpRetire w = Inr (b, w1)" "bidi_inv n w1" "bs_clients w1 = bs_clients w" "bs_lanes w1 = bs_lanes w"
    "owned_by w1 = owned_by w" "stage_of w1 = stage_of w" "length (bs_sessions w1) = length (bs_sessions w)" "\<forall>j. j \<noteq> i \<longrightarrow> own w1 j = own w j"
    using with_owner_ok [OF inv few, of OpRetire i] by (auto simp: reg_step_def)
  have oi: "owned_by w i d \<longleftrightarrow> d = e" for d using Some st by (auto simp: owned_by_def e_def)
  define w2 where "w2 = (if bs_clients w1 e = Some i then w1\<lparr>bs_clients := (bs_clients w1)(e := None)\<rparr> else w1)"
  have c2: "bs_clients w2 d = (if bs_clients w d = Some i \<and> d = e then None else bs_clients w d)" for d using w1(3) by (auto simp: w2_def)
  have v2: "own w2 = own w1" "stage_of w2 = stage_of w1" "bs_lanes w2 = bs_lanes w1" "bs_sessions w2 = bs_sessions w1" by (simp_all add: w2_def)
  define l0 where "l0 = lane_or_new w2 e"
  define l1 where "l1 = (if ln_current l0 = Some i then l0\<lparr>ln_current := None\<rparr> else l0)\<lparr>ln_predecessors := List.insert i (ln_predecessors l0)\<rparr>"
  define w3 where "w3 = w2\<lparr>bs_lanes := (bs_lanes w2)(e \<mapsto> l1)\<rparr>"
  have e3: "bidi_retireLocked i w = Inr (sweepLaneLocked e w3)"
    using Some st w1(1) by (simp add: bidi_retireLocked_def Let_def w3_def l1_def l0_def w2_def e_def)
  note v3 = view_cong [of w3 w1]
  have o3: "own w3 = own w1" by (simp add: w3_def v2)
  have pr: "set (ln_predecessors l1) = insert i (set (ln_predecessors l0))" by (auto simp: l1_def)
  have l0: "bs_lanes w1 e = Some ln \<Longrightarrow> l0 = ln" for ln by (simp add: l0_def lane_or_new_def v2)
  have p3: "\<forall>j s fin. own w3 j = Some (s, fin) \<longrightarrow> bs_clients w3 (so_executorID s) = Some j \<or> so_drained s \<or> (\<exists>ln. bs_lanes w3 (so_executorID s) = Some ln \<and> j \<in> set (ln_predecessors ln))"
  proof (intro allI impI)
    fix j sj finj assume oj: "own w3 j = Some (sj, finj)"
    have w: "bs_clients w1 (so_executorID sj) = Some j \<or> so_drained sj \<or> (\<exists>ln. bs_lanes w1 (so_executorID sj) = Some ln \<and> j \<in> set (ln_predecessors ln))"
      using w1(2) oj by (auto simp: bidi_inv_def placed_def o3)
    show "bs_clients w3 (so_executorID sj) = Some j \<or> so_drained sj \<or> (\<exists>ln. bs_lanes w3 (so_executorID sj) = Some ln \<and> j \<in> set (ln_predecessors ln))"
    proof (cases "so_executorID sj = e")
      case True
      then show ?thesis using w l0 pr c2 w1(3) by (cases "j = i") (auto simp: w3_def)
    next
      case False
      then show ?thesis using w c2 w1(3) by (auto simp: w3_def v2)
    qed
  qed
  have q3: "\<forall>d j. bs_clients w3 d = Some j \<longrightarrow> owned_by w3 j d \<and> (\<exists>ln. bs_lanes w3 d = Some ln \<and> ln_current ln = Some j)"
  proof (intro allI impI)
    fix d j assume cj: "bs_clients w3 d = Some j"
    then have d: "bs_clients w d = Some j" "\<not> (j = i \<and> d = e)" using c2 by (auto simp: w3_def split: if_splits)
    then have "owned_by w1 j d" "\<exists>ln. bs_lanes w1 d = Some ln \<and> ln_current ln = Some j" using w1(2,3) by (auto simp: bidi_inv_def clients_ok_def)
    then show "owned_by w3 j d \<and> (\<exists>ln. bs_lanes w3 d = Some ln \<and> ln_current ln = Some j)"
      using d l0 v3(2) [OF o3] by (cases "d = e") (auto simp: w3_def v2 l1_def)
  qed
  have "bidi_inv n w3"
  proof -
    have "placed w3" using p3 by (simp add: placed_def)
    moreover have "clients_ok w3" using q3 by (simp add: clients_ok_def)
    moreover have "passed_alone w3"
      using w1(2,3) c2 v3 [OF o3] by (auto simp: bidi_inv_def passed_alone_def alone_def w3_def v2 split: if_splits)
    ultimately show ?thesis using w1(2) v3 [OF o3] by (simp add: bidi_inv_def owners_ok_def one_registered_def o3 w3_def v2)
  qed
  then have "bidi_inv n (sweepLaneLocked e w3)" by (rule sweep_ok)
  moreover have "stage_of (sweepLaneLocked e w3) = stage_of w" "bs_clients (sweepLaneLocked e w3) = bs_clients w2" "own (sweepLaneLocked e w3) = own w1"
    "length (bs_sessions (sweepLaneLocked e w3)) = length (bs_sessions w)" using w1 by (simp_all add: w3_def v2)
  ultimately show ?thesis using e3 w1(5,8) c2 oi view_cong(2) [of "sweepLaneLocked e w3" w1] by (auto simp: fun_eq_iff)
qed


text \<open>A change of a session that leaves its owner alone.\<close>

lemma session_ok:
  assumes inv: "bidi_inv n w" and i: "i < length (bs_sessions w)" and f: "se_owner (f (bs_sessions w ! i)) = se_owner (bs_sessions w ! i)"
    and ok: "offer_ok (f (bs_sessions w ! i))" and g: "passed (se_stage (f (bs_sessions w ! i))) \<Longrightarrow> passed (stage_of w i) \<or> (\<forall>e. bs_clients w e = Some i \<longrightarrow> alone w i e)"
  shows "bidi_inv n (upd_session i f w)"
proof -
  have o: "own (upd_session i f w) = own w"
  proof (rule ext)
    show "own (upd_session i f w) j = own w j" for j using f i by (cases "j = i") (simp_all add: own_def)
  qed
  note v = view_cong [OF o]
  have "passed_alone (upd_session i f w)" using inv g i by (auto simp: bidi_inv_def passed_alone_def alone_def v)
  moreover have "\<forall>se \<in> set (bs_sessions (upd_session i f w)). offer_ok se"
    using inv ok set_update_subset_insert [of "bs_sessions w" i] by (auto simp: bidi_inv_def)
  ultimately show ?thesis using inv by (simp add: bidi_inv_def owners_ok_def placed_def clients_ok_def one_registered_def o v)
qed

lemma stage_length: "stage_of w i = g \<Longrightarrow> g \<noteq> Gone \<Longrightarrow> i < length (bs_sessions w) \<and> se_stage (bs_sessions w ! i) = g"
  by (simp add: stage_of_def split: if_splits)

lemma inv_offer: "bidi_inv n w \<Longrightarrow> i < length (bs_sessions w) \<Longrightarrow> offer_ok (bs_sessions w ! i)"
  by (simp add: bidi_inv_def)

lemma goto_ok:
  assumes inv: "bidi_inv n w" and i: "i < length (bs_sessions w)" and h: "stage_of w i \<noteq> Offered" and g: "g \<noteq> Offered"
    and a: "se_activated (bs_sessions w ! i) \<Longrightarrow> g \<in> {Serving, Ending, Gone}" and p: "passed g \<Longrightarrow> passed (stage_of w i) \<or> (\<forall>e. bs_clients w e = Some i \<longrightarrow> alone w i e)"
  shows "bidi_inv n (goto g i w)"
  unfolding goto_def using inv_offer [OF inv i] h g a i p by (intro session_ok [OF inv i]) (auto simp: offer_ok_def stage_of_def)

lemma cong_ok: "bidi_inv n w \<Longrightarrow> bidi_inv n (w\<lparr>bs_offers := f\<rparr>)" "bidi_inv n w \<Longrightarrow> bidi_inv n (w\<lparr>bs_closed := b\<rparr>)"
  by (simp_all add: bidi_inv_def owners_ok_def placed_def clients_ok_def passed_alone_def alone_def one_registered_def is_drained_def owned_by_def is_registered_def)

lemma register_offer_ok:
  assumes inv: "bidi_inv n w"
  shows "bidi_inv n (register_offer c fp d w)"
proof -
  define se where "se = \<lparr>se_credentials = c, se_fingerprint = fp, se_published = False, se_confirmed = False, se_activated = False,
    se_confirmation = False, se_owner = None, se_stage = Offered\<rparr>"
  define w' where "w' = w\<lparr>bs_offers := bs_offers w @ [length (bs_sessions w)], bs_sessions := bs_sessions w @ [se]\<rparr>"
  have o: "own w' = own w" by (auto simp: fun_eq_iff own_def w'_def se_def nth_append)
  note v = view_cong [OF o]
  have g: "passed (stage_of w' i) \<longleftrightarrow> passed (stage_of w i)" for i by (auto simp: stage_of_def w'_def se_def nth_append passed_def)
  have "bs_clients w' = bs_clients w" "bs_lanes w' = bs_lanes w" "\<forall>x \<in> set (bs_sessions w'). offer_ok x"
    using inv by (auto simp: w'_def bidi_inv_def se_def offer_ok_def)
  then have "bidi_inv n w'" using inv by (simp add: bidi_inv_def owners_ok_def placed_def clients_ok_def passed_alone_def alone_def one_registered_def o v g)
  then show ?thesis using inv by (simp add: register_offer_def w'_def se_def)
qed

lemma register_abandon_ok:
  assumes inv: "bidi_inv n w" and st: "stage_of w i = Offered"
  shows "\<exists>w'. register_abandon i w = Inr w' \<and> bidi_inv n w'"
proof -
  have i: "i < length (bs_sessions w)" "se_stage (bs_sessions w ! i) = Offered" using stage_length [OF st] by simp_all
  have o: "offer_ok (bs_sessions w ! i)" using inv_offer [OF inv i(1)] .
  let ?w = "w\<lparr>bs_offers := remove1 i (bs_offers w)\<rparr>"
  have "bidi_inv n (upd_session i (\<lambda>se. se\<lparr>se_stage := Gone, se_published := True\<rparr>) ?w)"
    using o i by (intro session_ok [OF cong_ok(1) [OF inv]]) (auto simp: offer_ok_def passed_def)
  moreover have "register_abandon i w = Inr (upd_session i (\<lambda>se. se\<lparr>se_stage := Gone, se_published := True\<rparr>) ?w)"
    using o i by (simp add: register_abandon_def close_published_def goto_def upd_session_def offer_ok_def)
  ultimately show ?thesis by simp
qed

text \<open>Publication: the owner it replaces is retired into the lane first.\<close>

lemma publish_new_ok:
  assumes inv: "bidi_inv n w" and st: "stage_of w i = Offered" and free: "bs_clients w e = None"
    and new: "NewSessionOwnerWithClock parse str e c d = Inr s"
  shows "bidi_inv n (upd_session i (\<lambda>se. se\<lparr>se_owner := Some (s, []), se_stage := Published, se_published := True\<rparr>)
    (w\<lparr>bs_lanes := (bs_lanes w)(e \<mapsto> (lane_or_new w e)\<lparr>ln_current := Some i\<rparr>), bs_clients := (bs_clients w)(e \<mapsto> i)\<rparr>))" (is "bidi_inv n ?w")
proof -
  have i: "i < length (bs_sessions w)" "se_stage (bs_sessions w ! i) = Offered" using stage_length [OF st] by simp_all
  have none: "own w i = None" "offer_ok (bs_sessions w ! i)" using inv_offer [OF inv i(1)] i by (auto simp: offer_ok_def own_def)
  have s: "owner_inv (s, [])" "so_muts s = []" "\<not> so_reg s" "so_executorID s = e" using New_inv [OF new] new
    by (auto simp: NewSessionOwnerWithClock_def split: option.splits if_splits)
  have o: "own ?w = (own w)(i \<mapsto> (s, []))" using i by (auto simp: fun_eq_iff)
  have v: "owned_by ?w j d \<longleftrightarrow> (if j = i then d = e else owned_by w j d)" "is_drained ?w j \<longleftrightarrow> j \<noteq> i \<and> is_drained w j \<or> j = i \<and> so_drained s"
    "is_registered ?w j \<longleftrightarrow> j \<noteq> i \<and> is_registered w j" for j d
    using s none by (auto simp: owned_by_def is_drained_def is_registered_def o)
  have g: "stage_of ?w j = (if j = i then Published else stage_of w j)" for j using i by simp
  have ni: "bs_clients w d \<noteq> Some i" for d
  proof
    assume "bs_clients w d = Some i"
    then have "owned_by w i d" using inv by (simp add: bidi_inv_def clients_ok_def)
    then show False using none(1) by (simp add: owned_by_def)
  qed
  have lane: "bs_lanes ?w e = Some ((lane_or_new w e)\<lparr>ln_current := Some i\<rparr>)" "d \<noteq> e \<Longrightarrow> bs_lanes ?w d = bs_lanes w d" for d by simp_all
  have "owners_ok n ?w" using inv s unfolding bidi_inv_def owners_ok_def o by (auto split: if_splits)
  moreover have "placed ?w" unfolding placed_def
  proof (intro allI impI)
    fix j sj fj assume oj: "own ?w j = Some (sj, fj)"
    show "bs_clients ?w (so_executorID sj) = Some j \<or> so_drained sj \<or> (\<exists>ln. bs_lanes ?w (so_executorID sj) = Some ln \<and> j \<in> set (ln_predecessors ln))"
    proof (cases "j = i")
      case True
      then show ?thesis using oj s by (simp add: o)
    next
      case False
      then have "bs_clients w (so_executorID sj) = Some j \<or> so_drained sj \<or> (\<exists>ln. bs_lanes w (so_executorID sj) = Some ln \<and> j \<in> set (ln_predecessors ln))"
        using inv oj unfolding bidi_inv_def placed_def o by auto
      then show ?thesis using free by (cases "so_executorID sj = e") (auto simp: lane_or_new_def)
    qed
  qed
  moreover have "clients_ok ?w" unfolding clients_ok_def
  proof (intro allI impI)
    fix d j assume "bs_clients ?w d = Some j"
    then consider "d = e" "j = i" | "d \<noteq> e" "bs_clients w d = Some j" by (auto split: if_splits)
    then show "owned_by ?w j d \<and> (\<exists>ln. bs_lanes ?w d = Some ln \<and> ln_current ln = Some j)"
    proof cases
      case 2
      then show ?thesis using inv ni [of d] v(1) by (auto simp: bidi_inv_def clients_ok_def)
    qed (use v(1) in simp)
  qed
  moreover have "passed_alone ?w" unfolding passed_alone_def alone_def
  proof (intro allI impI)
    fix j d k assume a: "bs_clients ?w d = Some j" "passed (stage_of ?w j)" "k \<noteq> j" "owned_by ?w k d"
    then have d: "d \<noteq> e" "j \<noteq> i" "bs_clients w d = Some j" "passed (stage_of w j)" using ni [of d] g by (auto simp: passed_def split: if_splits)
    then have "k \<noteq> i" "owned_by w k d" using a(4) v(1) [of k d] by (auto split: if_splits)
    then show "is_drained ?w k" using inv d a(3) v(2) by (auto simp: bidi_inv_def passed_alone_def alone_def)
  qed
  moreover have "one_registered ?w" using inv unfolding bidi_inv_def one_registered_def v by (metis (no_types))
  moreover have "\<forall>se \<in> set (bs_sessions ?w). offer_ok se"
  proof -
    have "offer_ok ((bs_sessions w ! i)\<lparr>se_owner := Some (s, []), se_stage := Published, se_published := True\<rparr>)" using none(2) i by (auto simp: offer_ok_def)
    then show ?thesis using inv set_update_subset_insert [of "bs_sessions w" i] by (auto simp: bidi_inv_def)
  qed
  ultimately show ?thesis by (simp only: bidi_inv_def)
qed


lemma register_publish_ok:
  assumes inv: "bidi_inv n w" and few: "n < 2 ^ 64" and st: "stage_of w i = Offered"
  shows "\<exists>w'. register_publish parse str i e d w = Inr w' \<and> bidi_inv n w'"
proof (cases "NewSessionOwnerWithClock parse str e (cr_Binding (se_credentials (bs_sessions w ! i))) (bs_duration w)")
  case (Inl x)
  then show ?thesis using register_abandon_ok [OF inv st] by (simp add: register_publish_def)
next
  case (Inr s)
  show ?thesis
  proof (cases "bs_closed w \<or> d")
    case True
    then show ?thesis using Inr register_abandon_ok [OF inv st] by (simp add: register_publish_def)
  next
    case False
    obtain w1 where w1: "(case bs_clients w e of None \<Rightarrow> Inr w | Some old \<Rightarrow> bidi_retireLocked old w) = Inr w1" "bidi_inv n w1" "stage_of w1 i = Offered" "bs_clients w1 e = None"
    proof (cases "bs_clients w e")
      case None
      then show thesis using that [of w] inv st by simp
    next
      case (Some old)
      then have "owned_by w old e" using inv by (simp add: bidi_inv_def clients_ok_def)
      then show thesis using that bidi_retire_ok [OF inv few, of old] Some st by auto
    qed
    have i: "i < length (bs_sessions w1)" "\<not> se_published (bs_sessions w1 ! i)"
      using stage_length [OF w1(3)] inv_offer [OF w1(2), of i] by (auto simp: offer_ok_def)
    then show ?thesis using Inr False w1(1) publish_new_ok [OF w1(2,3,4) Inr]
      by (simp add: register_publish_def close_published_def goto_def upd_session_def)
  qed
qed

lemma wait_round_ok:
  assumes inv: "bidi_inv n w" and st: "stage_of w i = Waiting" and o: "own w i = Some (s, fin)"
  shows "\<exists>w'. wait_round i s w = Inr w' \<and> bidi_inv n w'"
proof -
  let ?e = "so_executorID s"
  have i: "i < length (bs_sessions w)" "\<not> se_activated (bs_sessions w ! i)" using stage_length [OF st] inv_offer [OF inv, of i] by (auto simp: offer_ok_def)
  show ?thesis
  proof (cases "bs_clients w ?e \<noteq> Some i \<or> \<not> so_active s")
    case True
    have "bidi_inv n (goto Ending i w)" using st i by (intro goto_ok [OF inv]) (auto simp: passed_def)
    then show ?thesis using True by (simp add: wait_round_def Let_def)
  next
    case False
    let ?w = "sweepLaneLocked ?e w"
    have w: "bidi_inv n ?w" using sweep_ok [OF inv] .
    obtain ln where ln: "bs_lanes ?w ?e = Some ln" using w False unfolding bidi_inv_def clients_ok_def by (metis sweepLaneLocked_simps(3))
    have "bidi_inv n (goto Connecting i ?w)" if empty: "ln_predecessors ln = []"
    proof (rule goto_ok [OF w])
      have "alone ?w i ?e" unfolding alone_def
      proof (intro allI impI)
        fix j assume j: "j \<noteq> i" "owned_by ?w j ?e"
        then obtain sj fj where oj: "own ?w j = Some (sj, fj)" "so_executorID sj = ?e" by (auto simp: owned_by_def split: option.splits)
        then have "bs_clients w ?e = Some j \<or> so_drained sj \<or> (\<exists>ln. bs_lanes ?w ?e = Some ln \<and> j \<in> set (ln_predecessors ln))"
          using w unfolding bidi_inv_def placed_def by (metis sweepLaneLocked_simps(3))
        then show "is_drained ?w j" using j False ln empty oj by (auto simp: is_drained_def)
      qed
      moreover have "e = ?e" if "bs_clients ?w e = Some i" for e
      proof -
        have "owned_by ?w i e" using that w by (auto simp: bidi_inv_def clients_ok_def)
        then show ?thesis using o by (simp add: owned_by_def)
      qed
      ultimately show "passed (stage_of ?w i) \<or> (\<forall>e. bs_clients ?w e = Some i \<longrightarrow> alone ?w i e)" by blast
    qed (use st i in auto)
    then show ?thesis using False ln w by (simp add: wait_round_def Let_def)
  qed
qed

lemma activate_ok:
  assumes inv: "bidi_inv n w" and few: "n < 2 ^ 64" and st: "stage_of w i = Connected" and o: "own w i = Some (s, fin)"
  shows "\<exists>w'. activate i now d s w = Inr w' \<and> bidi_inv (Suc n) w'"
proof -
  let ?e = "so_executorID s"
  have i: "i < length (bs_sessions w)" "\<not> se_activated (bs_sessions w ! i)" using stage_length [OF st] inv_offer [OF inv, of i] by (auto simp: offer_ok_def)
  have end_ok: "bidi_inv (Suc n) (goto Ending i w)" using st i by (intro goto_ok [OF bidi_inv_mono [OF inv]]) (auto simp: passed_def)
  show ?thesis
  proof (cases "bs_clients w ?e = Some i \<and> \<not> d")
    case False
    then show ?thesis using end_ok by (auto simp: activate_def)
  next
    case True
    then have "alone w i ?e" using inv st by (auto simp: bidi_inv_def passed_alone_def passed_def)
    then have al: "\<forall>e. owned_by w i e \<longrightarrow> alone w i e" using o by (auto simp: owned_by_def)
    obtain b w1 where w1: "with_owner i (OpMark now) w = Inr (b, w1)" "bidi_inv (Suc n) w1" "stage_of w1 = stage_of w" "length (bs_sessions w1) = length (bs_sessions w)"
      using with_owner_ok [OF inv few, of "OpMark now" i] al by auto
    have i1: "i < length (bs_sessions w1)" "stage_of w1 i = Connected" using i w1 st by simp_all
    have na: "\<not> se_activated (bs_sessions w1 ! i)" using stage_length [OF i1(2)] inv_offer [OF w1(2) i1(1)] by (auto simp: offer_ok_def)
    have "bidi_inv (Suc n) (goto Ending i w1)" using i1 na by (intro goto_ok [OF w1(2)]) (auto simp: passed_def)
    moreover have "bidi_inv (Suc n) (goto Serving i (upd_session i (\<lambda>se. se\<lparr>se_activated := True\<rparr>) w1))"
    proof -
      have "bidi_inv (Suc n) (upd_session i (\<lambda>se. se\<lparr>se_activated := True, se_stage := Serving\<rparr>) w1)"
        using i1 inv_offer [OF w1(2) i1(1)] stage_length [OF i1(2)] by (intro session_ok [OF w1(2)]) (auto simp: offer_ok_def passed_def)
      then show ?thesis using i1 by (simp add: goto_def upd_session_def)
    qed
    ultimately show ?thesis using True w1(1) na by (simp add: activate_def)
  qed
qed

lemma confirm_ok:
  assumes inv: "bidi_inv n w" and o: "own w i = Some (s, fin)"
  shows "\<exists>w'. confirm i s w = Inr w' \<and> bidi_inv n w'"
proof -
  have i: "i < length (bs_sessions w)" using own_length [OF o] .
  have ok: "offer_ok (bs_sessions w ! i)" using inv_offer [OF inv i] .
  have "bidi_inv n (upd_session i (\<lambda>se. se\<lparr>se_confirmation := True, se_confirmed := True\<rparr>) w)"
    using ok i by (intro session_ok [OF inv i]) (auto simp: offer_ok_def stage_of_def)
  then show ?thesis using ok inv by (auto simp: confirm_def offer_ok_def)
qed

lemma RemoveClient_ok: "bidi_inv n w \<Longrightarrow> n < 2 ^ 64 \<Longrightarrow> \<exists>w'. RemoveClient i w = Inr w' \<and> bidi_inv n w'"
  using bidi_retire_ok [of n w i] by (auto simp: RemoveClient_def split: option.splits)

lemma retire_clients_ok: "bidi_inv n w \<Longrightarrow> n < 2 ^ 64 \<Longrightarrow> \<exists>w'. retire_clients is w = Inr w' \<and> bidi_inv n w'"
proof (induction "is" arbitrary: w)
  case (Cons i "is")
  then obtain w1 where "RemoveClient i w = Inr w1" "bidi_inv n w1" using RemoveClient_ok by blast
  then show ?case using Cons.IH [of w1] Cons.prems by simp
qed simp


lemma bidi_step_ok:
  assumes inv: "bidi_inv n w" and few: "n < 2 ^ 64"
  shows "\<exists>w'. bidi_step parse str x w = Inr w' \<and> bidi_inv (Suc n) w'"
proof -
  have up: "bidi_inv (Suc n) w" if "bidi_inv n w" for w using bidi_inv_mono [OF that] by simp
  have own_split: "\<exists>w'. on_owner i f w = Inr w' \<and> bidi_inv (Suc n) w'" if "\<And>s fin. own w i = Some (s, fin) \<Longrightarrow> \<exists>w'. f s w = Inr w' \<and> bidi_inv (Suc n) w'" for i f
    using that up [OF inv] by (auto simp: on_owner_def split: option.splits)
  have leave: "bidi_inv n (goto Ending i w)" if "stage_of w i \<notin> {Offered, Gone}" for i
    using that stage_length [of w i] by (intro goto_ok [OF inv]) (auto simp: passed_def)
  show ?thesis
  proof (cases x)
    case (Offer c fp d)
    then show ?thesis using up register_offer_ok [OF inv] by simp
  next
    case (Abandon i)
    then show ?thesis using up inv register_abandon_ok [OF inv, of i] by auto
  next
    case (Publish i e d)
    then show ?thesis using up inv register_publish_ok [OF inv few, of i] by fastforce
  next
    case (SetUp i now d)
    show ?thesis
    proof (cases "stage_of w i = Published")
      case True
      obtain b w1 where w1: "with_owner i (OpAdmit now d True) w = Inr (b, w1)" "bidi_inv (Suc n) w1" "stage_of w1 = stage_of w" "length (bs_sessions w1) = length (bs_sessions w)"
        using with_owner_ok [OF inv few, of "OpAdmit now d True" i] by (auto simp: reg_step_def)
      have i: "i < length (bs_sessions w1)" "stage_of w1 i = Published" using stage_length [OF True] w1(3,4) True by simp_all
      then have "\<not> se_activated (bs_sessions w1 ! i)" using stage_length [OF i(2)] inv_offer [OF w1(2) i(1)] by (auto simp: offer_ok_def)
      then have "bidi_inv (Suc n) (goto (if b then Waiting else Ending) i w1)" using i by (intro goto_ok [OF w1(2)]) (auto simp: passed_def split: if_splits)
      then show ?thesis using SetUp True w1(1) by simp
    qed (use SetUp up inv in simp)
  next
    case (WaitRound i)
    have "\<exists>w'. on_owner i (wait_round i) w = Inr w' \<and> bidi_inv (Suc n) w'" if st: "stage_of w i = Waiting"
      by (rule own_split) (use wait_round_ok [OF inv st] up in blast)
    then show ?thesis using WaitRound up inv by simp
  next
    case (Connect i ok)
    have "bidi_inv n (goto (if ok then Connected else Ending) i w)" if st: "stage_of w i = Connecting"
      using st stage_length [OF st] inv_offer [OF inv, of i] by (intro goto_ok [OF inv]) (auto simp: passed_def offer_ok_def)
    then show ?thesis using Connect up inv by simp
  next
    case (Confirm i)
    have "\<exists>w'. on_owner i (confirm i) w = Inr w' \<and> bidi_inv (Suc n) w'"
      by (rule own_split) (use confirm_ok [OF inv] up in blast)
    then show ?thesis using Confirm by simp
  next
    case (Activate i now d)
    then show ?thesis using up inv activate_ok [OF inv few, of i] own_split [of i "activate i now d"] by auto
  next
    case (Renew i now d q)
    have "\<exists>w'. renew_commit i now d q s w = Inr w' \<and> bidi_inv (Suc n) w'" for s
      using with_owner_ok [OF inv few, of "OpCommit now d q" i] up [OF inv] by (auto simp: renew_commit_def reg_step_def)
    then show ?thesis using Renew own_split [of i "renew_commit i now d q"] by simp
  next
    case (Work i y)
    have "\<exists>b w'. with_owner i y w = Inr (b, w') \<and> bidi_inv (Suc n) w'" if "work_op y"
    proof -
      have "\<not> reg_step y" using that by (auto simp: reg_step_def)
      then obtain b w' where "with_owner i y w = Inr (b, w')" "bidi_inv (if y = OpRetire then n else Suc n) w'" using with_owner_ok [OF inv few, of y i] by blast
      then show ?thesis using up by (auto split: if_splits)
    qed
    then show ?thesis using Work up inv by (auto simp: drop_flag_def)
  next
    case (Remove i)
    then show ?thesis using up RemoveClient_ok [OF inv few, of i] by auto
  next
    case (Leave i)
    then show ?thesis using up inv leave [of i] by auto
  next
    case (Forget i)
    have "bidi_inv n (forget i s w)" if st: "stage_of w i = Ending" for s
    proof -
      have "bidi_inv n (goto Gone i (w\<lparr>bs_offers := remove1 i (bs_offers w)\<rparr>))"
        using st stage_length [OF st] by (intro goto_ok [OF cong_ok(1) [OF inv]]) (auto simp: passed_def)
      then show ?thesis unfolding forget_def by (rule sweep_ok)
    qed
    then show ?thesis using Forget up inv by (auto split: option.splits)
  next
    case CloseServer
    obtain w' where "BidiServer_Close w = Inr w'" "bidi_inv n w'"
      using retire_clients_ok [OF cong_ok(2) [OF inv] few, of "[0..<length (bs_sessions w)]" True] unfolding BidiServer_Close_def by blast
    then show ?thesis using CloseServer up by simp
  qed
qed

lemma bidi_run_ok: "bidi_inv n w \<Longrightarrow> n + length xs < 2 ^ 64 \<Longrightarrow> \<exists>w'. bidi_run parse str xs w = Inr w' \<and> bidi_inv (n + length xs) w'"
proof (induction xs arbitrary: n w)
  case (Cons x xs)
  then obtain w1 where "bidi_step parse str x w = Inr w1" "bidi_inv (Suc n) w1" using bidi_step_ok [of n w parse str x] by auto
  then show ?case using Cons.IH [of "Suc n" w1] Cons.prems(2) by simp
qed simp

lemma New_bidi_inv: "bidi_inv 0 (NewBidiServer e d)"
  by (simp add: bidi_inv_defs NewBidiServer_def own_def owned_by_def is_registered_def)

section \<open>Properties\<close>

text \<open>Ordinary work that a session has under way: admitted on its owner, forks included, and not finished.\<close>

definition working :: "BidiServer \<Rightarrow> nat \<Rightarrow> bool" where
  "working w i \<longleftrightarrow> (case own w i of None \<Rightarrow> False | Some (s, fin) \<Rightarrow> list_ex (\<lambda>mu. \<not> mu_setup mu \<and> \<not> mu_finishedDone mu) (so_muts s))"

text \<open>C4: The ordinary work of two sessions of one executor never overlaps. Whatever connections,
  replacements, confirmations, renewals, expiries, removals, admissions, forks and shutdowns
  interleave, no step panics, and if two different sessions of the same executor ID have been
  published then at most one of them has ordinary work under way; a session that is current and
  has passed its wait is the only one of its executor that has not drained.
\<close>

theorem sessions_never_overlap:
  assumes few: "length xs < 2 ^ 64"
  shows "\<exists>w. bidi_run parse str xs (NewBidiServer incarnation d) = Inr w
    \<and> (\<forall>i j e. i \<noteq> j \<longrightarrow> owned_by w i e \<longrightarrow> owned_by w j e \<longrightarrow> \<not> (working w i \<and> working w j))
    \<and> (\<forall>i e. bs_clients w e = Some i \<longrightarrow> stage_of w i \<in> {Connecting, Connected, Serving} \<longrightarrow> (\<forall>j. j \<noteq> i \<longrightarrow> owned_by w j e \<longrightarrow> is_drained w j))"
proof -
  obtain w where w: "bidi_run parse str xs (NewBidiServer incarnation d) = Inr w" "bidi_inv (length xs) w"
    using bidi_run_ok [OF New_bidi_inv, of xs parse str incarnation d] few by auto
  have reg: "is_registered w i \<and> \<not> is_drained w i" if "working w i" for i
  proof -
    obtain s fin mu where o: "own w i = Some (s, fin)" "mu \<in> set (so_muts s)" "\<not> mu_setup mu" "\<not> mu_finishedDone mu"
      using \<open>working w i\<close> by (auto simp: working_def list_ex_iff split: option.splits)
    have "owners_ok (length xs) w" using w(2) by (simp add: bidi_inv_def)
    then have s: "owner_inv (s, fin)" "so_reg s" unfolding owners_ok_def using o by metis+
    then have "counted s \<noteq> 0" using counted_zero [OF s(1)] o by blast
    then have "\<not> so_drained s" using s(1) by (simp add: owner_inv_def)
    then show ?thesis using o(1) s(2) by (simp add: is_registered_def is_drained_def)
  qed
  have one: "one_registered w" "passed_alone w" using w(2) by (simp_all add: bidi_inv_def)
  have "\<not> (working w i \<and> working w j)" if "i \<noteq> j" "owned_by w i e" "owned_by w j e" for i j e
    using one(1) reg [of i] reg [of j] that unfolding one_registered_def by metis
  moreover have "is_drained w j" if "bs_clients w e = Some i" "stage_of w i \<in> {Connecting, Connected, Serving}" "j \<noteq> i" "owned_by w j e" for i j e
    using one(2) that unfolding passed_alone_def alone_def passed_def by metis
  ultimately show ?thesis using w(1) by (intro exI [of _ w]) simp
qed


text \<open>
  An executor connects, works, connects again while its work is under way, and serves again
  once that work has finished.
\<close>

definition sample_credentials :: "string \<Rightarrow> Credentials" where
  "sample_credentials sid = \<lparr>cr_Binding = \<lparr>Incarnation = ''u'', SessionID = sid\<rparr>, cr_Token = ''t'' @ sid\<rparr>"

definition any_parse :: "string \<Rightarrow> uuid option" where
  "any_parse v = (if v = ''u'' then Some 1 else if v = ''v'' then Some 2 else if v = ''x'' then Some 3 else None)"

definition any_print :: "uuid \<Rightarrow> string" where
  "any_print i = (if i = 1 then ''u'' else if i = 2 then ''v'' else ''x'')"

definition serve :: "nat \<Rightarrow> int \<Rightarrow> bidi_op list" where
  "serve i n = [SetUp i (at_second n) False, WaitRound i, Connect i True, Confirm i, Activate i (at_second n) False, Work i (OpAdmit (at_second n) False False)]"

definition sample_first :: "bidi_op list" where
  "sample_first = [Offer (sample_credentials ''v'') [] False, Publish 0 ''e'' False] @ serve 0 1"

definition sample_second :: "bidi_op list" where
  "sample_second = [Offer (sample_credentials ''x'') [] False, Publish 1 ''e'' False] @ serve 1 2"

definition sample_finish :: "bidi_op list" where
  "sample_finish = concat (map (\<lambda>m. [Work 0 (OpFinish m), Work 0 (OpWatch m), Work 0 (OpJoin m)]) [0, 1])"

theorem sessions_never_overlap_witness:
  "\<exists>w w'. bidi_run any_parse any_print (sample_first @ sample_second) (NewBidiServer ''u'' (5 * Second)) = Inr w
     \<and> bidi_run any_parse any_print (sample_first @ sample_second @ sample_finish @ serve 1 3) (NewBidiServer ''u'' (5 * Second)) = Inr w'
     \<and> working w 0 \<and> \<not> working w 1 \<and> stage_of w 1 = Waiting \<and> working w' 1 \<and> \<not> working w' 0 \<and> is_drained w' 0"
proof -
  let ?a = "sample_first @ sample_second" and ?b = "sample_first @ sample_second @ sample_finish @ serve 1 3"
  have la: "length ?a < 2 ^ 64" "length ?b < 2 ^ 64" by (simp_all add: sample_first_def sample_second_def sample_finish_def serve_def)
  have "case bidi_run any_parse any_print ?a (NewBidiServer ''u'' (5 * Second)) of Inl _ \<Rightarrow> False
    | Inr w \<Rightarrow> working w 0 \<and> owned_by w 0 ''e'' \<and> owned_by w 1 ''e'' \<and> stage_of w 1 = Waiting" by code_simp
  then obtain w where w: "bidi_run any_parse any_print ?a (NewBidiServer ''u'' (5 * Second)) = Inr w" "working w 0" "owned_by w 0 ''e''" "owned_by w 1 ''e''" "stage_of w 1 = Waiting"
    by (auto split: sum.splits)
  have "case bidi_run any_parse any_print ?b (NewBidiServer ''u'' (5 * Second)) of Inl _ \<Rightarrow> False
    | Inr w \<Rightarrow> working w 1 \<and> owned_by w 0 ''e'' \<and> owned_by w 1 ''e'' \<and> stage_of w 1 = Serving \<and> bs_clients w ''e'' = Some 1" by code_simp
  then obtain w' where w': "bidi_run any_parse any_print ?b (NewBidiServer ''u'' (5 * Second)) = Inr w'" "working w' 1" "owned_by w' 0 ''e''" "owned_by w' 1 ''e''"
    "stage_of w' 1 = Serving" "bs_clients w' ''e'' = Some 1" by (auto split: sum.splits)
  obtain v where v: "bidi_run any_parse any_print ?a (NewBidiServer ''u'' (5 * Second)) = Inr v"
    "\<forall>i j e. i \<noteq> j \<longrightarrow> owned_by v i e \<longrightarrow> owned_by v j e \<longrightarrow> \<not> (working v i \<and> working v j)"
    using sessions_never_overlap [OF la(1), of any_parse any_print "''u''" "5 * Second"] by blast
  obtain v' where v': "bidi_run any_parse any_print ?b (NewBidiServer ''u'' (5 * Second)) = Inr v'"
    "\<forall>i j e. i \<noteq> j \<longrightarrow> owned_by v' i e \<longrightarrow> owned_by v' j e \<longrightarrow> \<not> (working v' i \<and> working v' j)"
    "\<forall>i e. bs_clients v' e = Some i \<longrightarrow> stage_of v' i \<in> {Connecting, Connected, Serving} \<longrightarrow> (\<forall>j. j \<noteq> i \<longrightarrow> owned_by v' j e \<longrightarrow> is_drained v' j)"
    using sessions_never_overlap [OF la(2), of any_parse any_print "''u''" "5 * Second"] by blast
  have eq: "v = w" "v' = w'" using v(1) w(1) v'(1) w'(1) by simp_all
  have "\<not> (working w 0 \<and> working w 1)" using v(2) [rule_format, of 0 1 "''e''"] w(3,4) unfolding eq by simp
  moreover have "\<not> (working w' 0 \<and> working w' 1)" using v'(2) [rule_format, of 0 1 "''e''"] w'(3,4) unfolding eq by simp
  moreover have "is_drained w' 0" using v'(3) [rule_format, of "''e''" 1 0] w'(3,5,6) unfolding eq by simp
  ultimately show ?thesis using w(1,2,5) w'(1,2) by blast
qed

end
