(* ===== verification/Floor_Admission.thy ===== *)
theory Floor_Admission
  imports Destinations Job_Scheduler Net_Policy Session_Owner
begin

text \<open>
  How the dispatcher decides whether a run fits: \<^verbatim>\<open>validateDebugletSpec\<close>, \<^verbatim>\<open>admissionWindowEnd\<close> and
  \<^verbatim>\<open>validatePolicyNumbers\<close> of \<^verbatim>\<open>internal/dispatcher/debuglet_service.go\<close>, \<^verbatim>\<open>CheckPolicyNumbers\<close> of \<^verbatim>\<open>models/policy_bounds.go\<close>,
  \<^verbatim>\<open>validateExecutorCapabilities\<close> of \<^verbatim>\<open>capability_admission.go\<close>, and the floors it reserves and releases by run
  identity, \<^verbatim>\<open>terminal_cleanup.go\<close>. It joins the bandwidth schedule, the destination limits and the
  sessions of the executors. Everything runs under the dispatcher's mutex. Instants count
  nanoseconds from the Unix epoch; the readings of the clocks are arguments. A value is absent if a
  call of the schedule does not return, a left value if one panics.
\<close>

section \<open>The numbers of a policy\<close>

definition MaxPolicyTimeoutMS :: int where "MaxPolicyTimeoutMS = go_div i64_max Millisecond"
definition MaxPolicyBandwidthBPS :: int where "MaxPolicyBandwidthBPS = bitrate_Max"

datatype PolicyBound = PolicyBoundOK | PolicyBoundTimeout | PolicyBoundFloor | PolicyBoundCeil | PolicyBoundCeilBelowFloor

definition CheckPolicyNumbers :: "int \<Rightarrow> int \<Rightarrow> int \<Rightarrow> PolicyBound" where
  "CheckPolicyNumbers floorBPS ceilBPS timeoutMS =
     (if timeoutMS < 1 \<or> timeoutMS > MaxPolicyTimeoutMS then PolicyBoundTimeout
      else if \<not> InPolicyRange floorBPS then PolicyBoundFloor
      else if \<not> InPolicyRange ceilBPS then PolicyBoundCeil
      else if ceilBPS < floorBPS then PolicyBoundCeilBelowFloor
      else PolicyBoundOK)"

record DebugletPolicy =
  pol_EgressGrant :: "EgressGrant option"
  pol_FloorBW :: bitrate
  pol_CeilBW :: bitrate
  pol_Timeout :: int
  pol_Addresses :: "string list"
  pol_RequireICMP :: bool
  pol_ListenUDP :: bool
  pol_ListenTCP :: bool
  pol_ListenSCION :: bool

record DebugletSpec =
  sp_StartTime :: "instant option"
  sp_Wasm :: "char list"
  sp_Args :: "string list"
  sp_Policy :: DebugletPolicy
  sp_ExecutorID :: string
  sp_TransactionID :: string
  sp_OrderID :: int

definition validatePolicyNumbers :: "DebugletPolicy \<Rightarrow> PolicyBound" where
  "validatePolicyNumbers p = CheckPolicyNumbers (pol_FloorBW p) (pol_CeilBW p) (go_div (pol_Timeout p) Millisecond)"

section \<open>The reserved window\<close>

definition schedulingGrace :: int where "schedulingGrace = 10 * Second"

text \<open>
  \<open>Time.Add\<close> with the ends of its range: the seconds since year one are a 64-bit integer at which
  the sum saturates, and a time outside the years a monotonic reading can accompany loses it.
\<close>

definition unixToInternal :: int where "unixToInternal = 62135596800"
definition wallToInternal :: int where "wallToInternal = 59453308800"

definition Time_Add :: "instant \<Rightarrow> int \<Rightarrow> instant" where
  "Time_Add t d = (let w = inst_wall t + d; sec = w div Second + unixToInternal; nsec = w mod Second;
     sec' = (if sec > i64_max then i64_max else if sec < i64_min then - i64_max else sec);
     m = (case inst_mono t of None \<Rightarrow> None | Some m \<Rightarrow> if in_i64 (m + d) \<and> 0 \<le> sec - wallToInternal \<and> sec - wallToInternal \<le> 8589934591 then Some (m + d) else None)
     in \<lparr>inst_wall = (sec' - unixToInternal) * Second + nsec, inst_mono = m\<rparr>)"

definition minReservableTime :: instant where "minReservableTime = \<lparr>inst_wall = 0, inst_mono = None\<rparr>"
definition maxReservableTime :: instant where "maxReservableTime = \<lparr>inst_wall = i64_max, inst_mono = None\<rparr>"

datatype window_fault = BudgetOverflow | WindowOverflow | WindowOutside

definition admissionWindowEnd :: "instant \<Rightarrow> int \<Rightarrow> window_fault + instant" where
  "admissionWindowEnd from timeout = (let budget = i64 (timeout + schedulingGrace) in
     if budget < timeout then Inl BudgetOverflow
     else let to = Time_Add from budget in
       if \<not> time_Before from to then Inl WindowOverflow
       else if time_Before from minReservableTime \<or> time_Before maxReservableTime to then Inl WindowOutside
       else Inr to)"

section \<open>The capabilities of an executor\<close>

record Reachability =
  ra_State :: string
  ra_Reason :: string
  ra_ObservedAt :: "int option"
  ra_ExpiresAt :: "int option"
  ra_Stale :: bool

record Connectivity =
  cn_TCPListener :: Reachability
  cn_UDPListener :: Reachability
  cn_SCIONListener :: Reachability
  cn_IPv4 :: Reachability
  cn_IPv6 :: Reachability

text \<open>Of the capability report the listed protocols matter here, of the vantage report the listeners.\<close>

record executorEntry =
  ee_ICMPEnabled :: bool
  ee_Capabilities :: "string list option"
  ee_capabilityObserved :: instant
  ee_vantage :: "string list option"
  ee_vantageObserved :: instant
  ee_connectivity :: "Connectivity option"
  ee_publicHost :: "string option"
  ee_capacity :: bitrate
  ee_owner :: SessionOwner
  ee_egressBudgetVersion :: int

definition PublicHost :: "executorEntry \<Rightarrow> string" where
  "PublicHost e = (case ee_publicHost e of None \<Rightarrow> [] | Some host \<Rightarrow> host)"

definition capabilityLifetime :: int where "capabilityLifetime = 90 * Second"

definition vantageExpired :: "instant \<Rightarrow> instant \<Rightarrow> bool" where
  "vantageExpired observed now \<longleftrightarrow> time_Before now observed \<or> time_Sub now observed \<ge> capabilityLifetime"

definition FreshReachable :: "instant \<Rightarrow> Reachability \<Rightarrow> bool" where
  "FreshReachable now r \<longleftrightarrow> ra_State r = ''reachable'' \<and> \<not> ra_Stale r \<and>
     (case (ra_ObservedAt r, ra_ExpiresAt r) of (Some o', Some x) \<Rightarrow> Unix now \<ge> o' \<and> Unix now < x | _ \<Rightarrow> False)"

datatype capability_code = Unsupported | StaleObservation | Unmeasured | ReachabilityFailed
datatype capability_field = RequireICMP | ListenTCP | ListenUDP | ListenSCION | Addresses

record CapabilityError =
  ce_Field :: capability_field
  ce_Code :: capability_code
  ce_OrderID :: int

definition connectivityRefusal :: "instant \<Rightarrow> Reachability \<Rightarrow> capability_code" where
  "connectivityRefusal now r =
     (if ra_Stale r \<or> (case ra_ExpiresAt r of None \<Rightarrow> False
          | Some x \<Rightarrow> Unix now \<ge> x \<or> (case ra_ObservedAt r of None \<Rightarrow> False | Some o' \<Rightarrow> Unix now < o')) then StaleObservation
      else if ra_State r = ''untested'' then Unmeasured
      else ReachabilityFailed)"

fun first_refusal :: "('a \<Rightarrow> 'b option) \<Rightarrow> 'a list \<Rightarrow> 'b option" where
  "first_refusal f [] = None"
| "first_refusal f (x # xs) = (case f x of None \<Rightarrow> first_refusal f xs | Some r \<Rightarrow> Some r)"

text \<open>A protocol a policy requires, against the current capability report if there is one.\<close>

definition check_protocol :: "executorEntry \<Rightarrow> instant \<Rightarrow> string \<Rightarrow> capability_code option" where
  "check_protocol e now proto = (case ee_Capabilities e of None \<Rightarrow> None
     | Some ps \<Rightarrow> if vantageExpired (ee_capabilityObserved e) now then Some StaleObservation
         else if proto \<notin> set ps then Some Unsupported else None)"

text \<open>A listener a policy requires, against the vantage report and the observed reachability.\<close>

definition check_listener :: "executorEntry \<Rightarrow> instant \<Rightarrow> string \<Rightarrow> (Connectivity \<Rightarrow> Reachability) \<Rightarrow> capability_code option" where
  "check_listener e now transport obs =
     (if (case ee_vantage e of None \<Rightarrow> False | Some ls \<Rightarrow> \<not> vantageExpired (ee_vantageObserved e) now \<and> transport \<notin> set ls) then Some Unsupported
      else (case ee_connectivity e of None \<Rightarrow> None
        | Some c \<Rightarrow> if ra_Reason (obs c) = ''not_configured'' \<or> ra_Reason (obs c) = ''no_controlled_peer'' then None
            else if \<not> FreshReachable now (obs c) then Some (connectivityRefusal now (obs c)) else None))"

definition declared_ip :: "string \<Rightarrow> ip_addr option" where
  "declared_ip address = (case ParseAddr address of Some a \<Rightarrow> Some a
     | None \<Rightarrow> (case ParsePrefix address of Some p \<Rightarrow> Some (prefix_Addr p)
         | None \<Rightarrow> (case net_SplitHostPort address of Inl _ \<Rightarrow> None | Inr (host, _) \<Rightarrow> ParseAddr host)))"

definition check_family :: "Connectivity \<Rightarrow> instant \<Rightarrow> string \<Rightarrow> capability_code option" where
  "check_family c now address = (case declared_ip address of None \<Rightarrow> None
     | Some ip \<Rightarrow> let r = (if Is4 (Unmap ip) then cn_IPv4 c else cn_IPv6 c) in
         if ra_Reason r = ''not_configured'' then None
         else if \<not> FreshReachable now r then Some (connectivityRefusal now r) else None)"

definition validateExecutorCapabilities :: "DebugletSpec \<Rightarrow> executorEntry \<Rightarrow> instant \<Rightarrow> CapabilityError option" where
  "validateExecutorCapabilities spec e now =
     (let p = sp_Policy spec; refuse = (\<lambda>field code. \<lparr>ce_Field = field, ce_Code = code, ce_OrderID = sp_OrderID spec\<rparr>) in
      if pol_RequireICMP p \<and> \<not> ee_ICMPEnabled e then Some (refuse RequireICMP Unsupported)
      else (case (if pol_RequireICMP p then check_protocol e now ''icmp'' else None) of Some code \<Rightarrow> Some (refuse RequireICMP code)
      | None \<Rightarrow> (case (if pol_ListenSCION p then check_protocol e now ''scion'' else None) of Some code \<Rightarrow> Some (refuse ListenSCION code)
      | None \<Rightarrow>
          if (pol_ListenTCP p \<or> pol_ListenUDP p) \<and> PublicHost e = []
          then Some (refuse (if pol_ListenTCP p then ListenTCP else ListenUDP) Unsupported)
          else (case first_refusal (\<lambda>(transport, field, required, obs).
                    if \<not> required then None else map_option (refuse field) (check_listener e now transport obs))
                  [(''tcp'', ListenTCP, pol_ListenTCP p, cn_TCPListener), (''udp'', ListenUDP, pol_ListenUDP p, cn_UDPListener),
                   (''scion'', ListenSCION, pol_ListenSCION p, cn_SCIONListener)] of Some r \<Rightarrow> Some r
          | None \<Rightarrow> (case ee_connectivity e of None \<Rightarrow> None
              | Some c \<Rightarrow> first_refusal (\<lambda>a. map_option (refuse Addresses) (check_family c now a)) (pol_Addresses p))))))"


section \<open>The floors\<close>

record floor_state =
  fl_executors :: "string \<rightharpoonup> executorEntry"
  fl_closed :: bool
  fl_destinations :: DestinationsUsage
  fl_scheduler :: JobScheduler
  fl_reservations :: "uuid \<rightharpoonup> Request"

text \<open>The readings of one validation: its two of \<open>time.Now\<close>, the owner's clock and the dispatcher's.\<close>

record readings =
  rd_now :: instant
  rd_compared :: instant
  rd_lease :: instant
  rd_registry :: instant

datatype submit_error = ErrInvalidPolicy PolicyBound | ErrInvalidWindow window_fault | ErrUnknownExecutor | ErrCapability CapabilityError
  | ErrExecutorFull | ErrDeniedDestination string | ErrDestinationFull string

text \<open>A sum that is not exact is refused like one above the capacity.\<close>

definition over_capacity :: "bitrate \<Rightarrow> bitrate \<Rightarrow> bitrate \<Rightarrow> bool" where
  "over_capacity used use capacity \<longleftrightarrow> (case bitrate_Add used use of (tot, exact) \<Rightarrow> \<not> exact \<or> tot > capacity)"

fun validate_dests :: "string list \<Rightarrow> int \<Rightarrow> int \<Rightarrow> bitrate \<Rightarrow> DestinationsUsage \<Rightarrow> JobScheduler \<Rightarrow> (submit_error option \<times> JobScheduler) option" where
  "validate_dests [] from to use u j = Some (None, j)"
| "validate_dests (dest # ds) from to use u j =
    (if Denied dest u then Some (Some (ErrDeniedDestination dest), j)
     else (case QueryMaxDest dest from to j of None \<Rightarrow> None
       | Some (used, j) \<Rightarrow> if over_capacity used use (Cap dest u) then Some (Some (ErrDestinationFull dest), j)
           else validate_dests ds from to use u j))"

definition spec_starts :: "readings \<Rightarrow> DebugletSpec \<Rightarrow> DebugletSpec" where
  "spec_starts rd spec = (case sp_StartTime spec of None \<Rightarrow> spec
     | Some t \<Rightarrow> if time_Before t (rd_compared rd) then spec\<lparr>sp_StartTime := None\<rparr> else spec)"

definition spec_from :: "readings \<Rightarrow> DebugletSpec \<Rightarrow> instant" where
  "spec_from rd spec = (case sp_StartTime spec of None \<Rightarrow> rd_now rd | Some t \<Rightarrow> t)"

text \<open>The last part of the validation, once the window is known: the executor first, then the destinations.\<close>

definition validate_window :: "Request \<Rightarrow> DebugletSpec \<Rightarrow> bitrate \<Rightarrow> floor_state \<Rightarrow> ((submit_error + Request) \<times> DebugletSpec \<times> JobScheduler) option" where
  "validate_window r spec cap d = (case QueryMaxExec (req_Executor r) (req_From r) (req_To r) (fl_scheduler d) of None \<Rightarrow> None
     | Some (used, j) \<Rightarrow> if over_capacity used (req_Use r) cap then Some (Inl ErrExecutorFull, spec, j)
         else (case validate_dests (req_Destination r) (req_From r) (req_To r) (req_Use r) (fl_destinations d) j of None \<Rightarrow> None
           | Some (Some err, j) \<Rightarrow> Some (Inl err, spec, j)
           | Some (None, j) \<Rightarrow> Some (Inr r, spec, j)))"

definition validateDebugletSpec :: "readings \<Rightarrow> DebugletSpec \<Rightarrow> floor_state \<Rightarrow> ((submit_error + Request) \<times> DebugletSpec \<times> JobScheduler) option" where
  "validateDebugletSpec rd spec d =
     (let j = fl_scheduler d; p = sp_Policy spec in
      if validatePolicyNumbers p \<noteq> PolicyBoundOK then Some (Inl (ErrInvalidPolicy (validatePolicyNumbers p)), spec, j)
      else let spec = spec_starts rd spec in
        (case fl_executors d (sp_ExecutorID spec) of None \<Rightarrow> Some (Inl ErrUnknownExecutor, spec, j)
         | Some e \<Rightarrow>
             if fl_closed d \<or> \<not> availableLocked (rd_lease rd) (ee_owner e) then Some (Inl ErrUnknownExecutor, spec, j)
             else (case validateExecutorCapabilities spec e (rd_registry rd) of Some c \<Rightarrow> Some (Inl (ErrCapability c), spec, j)
             | None \<Rightarrow> let from = spec_from rd spec in
               (case admissionWindowEnd from (pol_Timeout p) of Inl f \<Rightarrow> Some (Inl (ErrInvalidWindow f), spec, j)
                | Inr to \<Rightarrow>
                    validate_window \<lparr>req_Executor = sp_ExecutorID spec, req_Destination = pol_Addresses p, req_From = inst_wall from, req_To = inst_wall to, req_Use = pol_FloorBW p\<rparr> spec (ee_capacity e) d))))"

definition reserveFloor :: "uuid \<Rightarrow> Request \<Rightarrow> floor_state \<Rightarrow> (sched_panic + floor_state) option" where
  "reserveFloor i request d = (if fl_reservations d i \<noteq> None then Some (Inr d)
     else (case Submit request (fl_scheduler d) of None \<Rightarrow> None | Some (Inl p) \<Rightarrow> Some (Inl p)
       | Some (Inr j) \<Rightarrow> Some (Inr (d\<lparr>fl_scheduler := j, fl_reservations := (fl_reservations d)(i \<mapsto> request)\<rparr>))))"

definition releaseFloor :: "uuid \<Rightarrow> floor_state \<Rightarrow> (sched_panic + floor_state) option" where
  "releaseFloor i d = (case fl_reservations d i of None \<Rightarrow> Some (Inr d)
     | Some request \<Rightarrow> (case Scheduler_Remove request (fl_scheduler d) of None \<Rightarrow> None | Some (Inl p) \<Rightarrow> Some (Inl p)
         | Some (Inr j) \<Rightarrow> Some (Inr (d\<lparr>fl_scheduler := j, fl_reservations := (fl_reservations d)(i := None)\<rparr>))))"

section \<open>What the schedule stands for\<close>

definition exec_floor :: "int \<Rightarrow> (uuid \<rightharpoonup> Request) \<Rightarrow> string \<Rightarrow> int \<Rightarrow> int" where
  "exec_floor g m e p = (\<Sum>i \<in> dom m. let q = the (m i) in if e = req_Executor q then req_at g q p else 0)"

definition dest_floor :: "int \<Rightarrow> (uuid \<rightharpoonup> Request) \<Rightarrow> string \<Rightarrow> int \<Rightarrow> int" where
  "dest_floor g m k p = (\<Sum>i \<in> dom m. let q = the (m i) in if k \<in> DestinationKey ` set (req_Destination q) then req_at g q p else 0)"

text \<open>The requests admission builds: a window of the reservable range, a bandwidth of the policy range.\<close>

definition request_ok :: "Request \<Rightarrow> bool" where
  "request_ok q \<longleftrightarrow> 0 \<le> req_From q \<and> req_From q < req_To q \<and> req_To q \<le> i64_max \<and> InPolicyRange (req_Use q)"

text \<open>The schedule is the sum of the reservations, each of them well formed, and no sum leaves 64 bits.\<close>

definition floors_inv :: "floor_state \<Rightarrow> bool" where
  "floors_inv d \<longleftrightarrow> (let g = granularity (fl_scheduler d); m = fl_reservations d in
     job_stands (fl_scheduler d) (exec_floor g m) (dest_floor g m) \<and> finite (dom m) \<and> (\<forall>q \<in> ran m. request_ok q)
     \<and> fits64 (exec_floor g m) \<and> fits64 (dest_floor g m))"

lemma exec_floor_upd: "finite (dom m) \<Longrightarrow> m i = None \<Longrightarrow> exec_floor g (m(i \<mapsto> q)) = exec_plus g q (exec_floor g m)"
proof (intro ext)
  fix e p assume m: "finite (dom m)" "m i = None"
  have "(\<Sum>x \<in> dom m. let q' = the ((m(i \<mapsto> q)) x) in if e = req_Executor q' then req_at g q' p else 0) = exec_floor g m e p"
    unfolding exec_floor_def using m by (intro sum.cong) auto
  then show "exec_floor g (m(i \<mapsto> q)) e p = exec_plus g q (exec_floor g m) e p"
    using m by (simp add: exec_floor_def [of g "m(i \<mapsto> q)"] exec_plus_def domIff Let_def)
qed

lemma dest_floor_upd: "finite (dom m) \<Longrightarrow> m i = None \<Longrightarrow> dest_floor g (m(i \<mapsto> q)) = dest_plus g q (dest_floor g m)"
proof (intro ext)
  fix k p assume m: "finite (dom m)" "m i = None"
  have "(\<Sum>x \<in> dom m. let q' = the ((m(i \<mapsto> q)) x) in if k \<in> DestinationKey ` set (req_Destination q') then req_at g q' p else 0) = dest_floor g m k p"
    unfolding dest_floor_def using m by (intro sum.cong) auto
  then show "dest_floor g (m(i \<mapsto> q)) k p = dest_plus g q (dest_floor g m) k p"
    using m by (simp add: dest_floor_def [of g "m(i \<mapsto> q)"] dest_plus_def domIff Let_def)
qed

text \<open>Taking a request out is adding it with its bandwidth negated.\<close>

lemma floor_del:
  assumes m: "finite (dom m)" "m i = Some q"
  shows "exec_floor g (m(i := None)) = exec_plus g (q\<lparr>req_Use := - req_Use q\<rparr>) (exec_floor g m)"
    and "dest_floor g (m(i := None)) = dest_plus g (q\<lparr>req_Use := - req_Use q\<rparr>) (dest_floor g m)"
proof -
  let ?m = "m(i := None)"
  have m': "finite (dom ?m)" "?m i = None" "?m(i \<mapsto> q) = m" using m by auto
  have n: "req_at g (q\<lparr>req_Use := - req_Use q\<rparr>) p = - req_at g q p" for p by (simp add: req_at_def bucket_from_def bucket_to_def)
  have e: "exec_floor g m = exec_plus g q (exec_floor g ?m)" using exec_floor_upd [OF m'(1,2), of g q] unfolding m'(3) .
  have d: "dest_floor g m = dest_plus g q (dest_floor g ?m)" using dest_floor_upd [OF m'(1,2), of g q] unfolding m'(3) .
  show "exec_floor g ?m = exec_plus g (q\<lparr>req_Use := - req_Use q\<rparr>) (exec_floor g m)" unfolding e by (auto simp: fun_eq_iff exec_plus_def n)
  show "dest_floor g ?m = dest_plus g (q\<lparr>req_Use := - req_Use q\<rparr>) (dest_floor g m)" unfolding d by (auto simp: fun_eq_iff dest_plus_def n)
qed

lemma req_at_nonneg: "request_ok q \<Longrightarrow> 0 \<le> req_at g q p"
  by (simp add: request_ok_def req_at_def InPolicyRange_def)

lemma floor_nonneg:
  assumes "\<forall>q \<in> ran m. request_ok q"
  shows "0 \<le> exec_floor g m e p" "0 \<le> dest_floor g m k p"
  unfolding exec_floor_def dest_floor_def using assms by (auto intro!: sum_nonneg req_at_nonneg simp: Let_def ran_def dom_def)

lemma request_buckets:
  assumes "request_ok q" "0 < g"
  shows "0 \<le> bucket_from g q" "bucket_from g q \<le> bucket_to g q"
  using bucket_covers [OF assms(2), of "req_From q" "req_From q" "req_To q"] assms(1) by (auto simp: request_ok_def bucket_from_def bucket_to_def)


lemma QueryMaxExec_stands:
  assumes "job_stands j E D" "fits64 E"
  shows "\<exists>j'. QueryMaxExec e from to j = Some (max_use (E e) (max (go_div from (granularity j)) 0) (ceil to (granularity j)), j') \<and> job_stands j' E D \<and> granularity j' = granularity j"
  using queryMax_stands [of "execTrees j" E "granularity j" e "from" to] assms by (auto simp: QueryMaxExec_def job_stands_def)

lemma QueryMaxDest_stands:
  assumes "job_stands j E D" "fits64 D"
  shows "\<exists>j'. QueryMaxDest k from to j = Some (max_use (D (DestinationKey k)) (max (go_div from (granularity j)) 0) (ceil to (granularity j)), j') \<and> job_stands j' E D \<and> granularity j' = granularity j"
  using queryMax_stands [of "destTrees j" D "granularity j" "DestinationKey k" "from" to] assms by (auto simp: QueryMaxDest_def job_stands_def)

lemma over_capacity_iff:
  assumes "0 \<le> used" "used \<le> i64_max" "0 \<le> use" "use \<le> i64_max" "in_i64 cap"
  shows "over_capacity used use cap \<longleftrightarrow> used + use > cap"
proof -
  have i: "in_i64 used" "in_i64 use" using assms by (auto simp: in_i64_def i64_min_def)
  show ?thesis using assms unfolding over_capacity_def bitrate_Add_exact_iff [OF i] by (auto simp: in_i64_def i64_min_def)
qed

text \<open>The largest reserved floor of a window, a number of 64 bits.\<close>

definition window_max :: "int \<Rightarrow> (int \<Rightarrow> int) \<Rightarrow> int \<Rightarrow> int \<Rightarrow> int" where
  "window_max g f from to = max_use f (max (go_div from g) 0) (ceil to g)"

lemma window_max_fits:
  assumes "fits64 F"
  shows "0 \<le> window_max g (F k) from to \<and> window_max g (F k) from to \<le> i64_max"
proof (cases "max (go_div from g) 0 \<le> ceil to g")
  case True
  then obtain p where "p \<in> {max (go_div from g) 0..ceil to g}" "window_max g (F k) from to = F k p"
    unfolding window_max_def using max_use_attained by blast
  then show ?thesis using assms ceil_i64 [of to g] by (auto simp: fits64_def)
qed (auto simp: window_max_def max_use_def i64_max_def)

text \<open>The decision in terms of the reserved floors.\<close>

definition dest_verdict :: "int \<Rightarrow> (string \<Rightarrow> int \<Rightarrow> int) \<Rightarrow> int \<Rightarrow> int \<Rightarrow> bitrate \<Rightarrow> DestinationsUsage \<Rightarrow> string \<Rightarrow> submit_error option" where
  "dest_verdict g D from to use u dest = (if Denied dest u then Some (ErrDeniedDestination dest)
     else if window_max g (D (DestinationKey dest)) from to + use > Cap dest u then Some (ErrDestinationFull dest) else None)"

lemma validate_dests_ok:
  assumes "job_stands j E D" "fits64 D" "0 \<le> use" "use \<le> i64_max" "\<forall>k. in_i64 (Cap k u)"
  shows "\<exists>j'. validate_dests ds from to use u j = Some (first_refusal (dest_verdict (granularity j) D from to use u) ds, j')
    \<and> job_stands j' E D \<and> granularity j' = granularity j"
  using assms(1)
proof (induction ds arbitrary: j)
  case (Cons k ds)
  obtain j1 where j1: "QueryMaxDest k from to j = Some (window_max (granularity j) (D (DestinationKey k)) from to, j1)" "job_stands j1 E D" "granularity j1 = granularity j"
    using QueryMaxDest_stands [OF Cons.prems assms(2)] unfolding window_max_def by blast
  have "over_capacity (window_max (granularity j) (D (DestinationKey k)) from to) use (Cap k u)
      \<longleftrightarrow> window_max (granularity j) (D (DestinationKey k)) from to + use > Cap k u"
    using window_max_fits [OF assms(2)] assms(3-5) by (intro over_capacity_iff) auto
  then show ?case using j1 Cons.IH [OF j1(2)] Cons.prems by (simp add: dest_verdict_def)
qed simp

definition spec_request :: "readings \<Rightarrow> DebugletSpec \<Rightarrow> Request" where
  "spec_request rd spec = (let spec = spec_starts rd spec; p = sp_Policy spec; from = spec_from rd spec in
     \<lparr>req_Executor = sp_ExecutorID spec, req_Destination = pol_Addresses p, req_From = inst_wall from,
      req_To = inst_wall from + pol_Timeout p + schedulingGrace, req_Use = pol_FloorBW p\<rparr>)"

text \<open>The types of the program: capacities and timeouts are 64-bit integers.\<close>

definition floors_typed :: "floor_state \<Rightarrow> bool" where
  "floors_typed d \<longleftrightarrow> (\<forall>e \<in> ran (fl_executors d). in_i64 (ee_capacity e)) \<and> (\<forall>k. in_i64 (Cap k (fl_destinations d)))"

lemma window_wraps:
  assumes "in_i64 t" "1 \<le> t"
  shows "i64 (t + schedulingGrace) \<ge> t \<longleftrightarrow> t + schedulingGrace \<le> i64_max" "t + schedulingGrace \<le> i64_max \<Longrightarrow> i64 (t + schedulingGrace) = t + schedulingGrace"
proof -
  show e: "i64 (t + schedulingGrace) = t + schedulingGrace" if "t + schedulingGrace \<le> i64_max"
    using assms that by (intro i64_id) (auto simp: in_i64_def i64_min_def schedulingGrace_def Second_def)
  have "i64 (t + schedulingGrace) < t" if "\<not> t + schedulingGrace \<le> i64_max"
  proof -
    have "x - 18446744073709551616 + 9223372036854775808 = x + 9223372036854775808 - 18446744073709551616" for x :: int by simp
    then have "i64 (t + schedulingGrace) = i64 (t + schedulingGrace - 18446744073709551616)" unfolding i64_def by (metis minus_mod_self2)
    also have "\<dots> = t + schedulingGrace - 18446744073709551616"
      using assms that by (intro i64_id) (auto simp: in_i64_def i64_min_def i64_max_def schedulingGrace_def Second_def)
    finally show ?thesis by (simp add: schedulingGrace_def Second_def)
  qed
  then show "i64 (t + schedulingGrace) \<ge> t \<longleftrightarrow> t + schedulingGrace \<le> i64_max"
    using e by (cases "t + schedulingGrace \<le> i64_max") (auto simp: schedulingGrace_def Second_def)
qed

text \<open>The end of the window is the exact sum, and only a window inside the reservable range has one.\<close>

lemma Time_Add_wall:
  assumes "0 \<le> inst_wall t" "0 < d"
  shows "inst_wall (Time_Add t d) \<le> i64_max \<longleftrightarrow> inst_wall t + d \<le> i64_max" "inst_wall t + d \<le> i64_max \<Longrightarrow> inst_wall (Time_Add t d) = inst_wall t + d"
proof -
  let ?w = "inst_wall t + d"
  have sp: "?w div Second * Second + ?w mod Second = ?w" by simp
  have s0: "0 \<le> ?w div Second" "0 \<le> ?w mod Second" using assms by (simp_all add: Second_def)
  show e: "inst_wall (Time_Add t d) = ?w" if "?w \<le> i64_max"
  proof -
    have "?w div Second \<le> i64_max div Second" using that by (intro zdiv_mono1) (simp_all add: Second_def)
    then have "?w div Second + unixToInternal \<le> i64_max" by (simp add: i64_max_def Second_def unixToInternal_def)
    then show ?thesis using s0 sp by (simp add: Time_Add_def Let_def i64_min_def unixToInternal_def)
  qed
  have "i64_max < inst_wall (Time_Add t d)" if "\<not> ?w \<le> i64_max"
  proof (cases "?w div Second + unixToInternal > i64_max")
    case True
    then have "inst_wall (Time_Add t d) = (i64_max - unixToInternal) * Second + ?w mod Second" by (simp add: Time_Add_def Let_def)
    moreover have "i64_max < (i64_max - unixToInternal) * Second" by (simp add: i64_max_def unixToInternal_def Second_def)
    ultimately show ?thesis using s0(2) by linarith
  next
    case False
    then have "inst_wall (Time_Add t d) = ?w" using s0 sp by (simp add: Time_Add_def Let_def i64_min_def unixToInternal_def)
    then show ?thesis using that by simp
  qed
  then show "inst_wall (Time_Add t d) \<le> i64_max \<longleftrightarrow> ?w \<le> i64_max" using e by (cases "?w \<le> i64_max") auto
qed


lemma reservable_iff:
  "time_Before t minReservableTime \<longleftrightarrow> inst_wall t < 0" "time_Before maxReservableTime t \<longleftrightarrow> i64_max < inst_wall t"
  by (auto simp: time_Before_def minReservableTime_def maxReservableTime_def split: option.splits)

lemma admissionWindowEnd_iff:
  assumes t: "in_i64 t" "1 \<le> t"
  shows "admissionWindowEnd from t = Inr to \<longleftrightarrow> to = Time_Add from (t + schedulingGrace) \<and> t + schedulingGrace \<le> i64_max \<and> 0 \<le> inst_wall from
    \<and> inst_wall from + t + schedulingGrace \<le> i64_max"
proof (cases "t + schedulingGrace \<le> i64_max \<and> 0 \<le> inst_wall from")
  case True
  have g: "0 < t + schedulingGrace" using t by (simp add: schedulingGrace_def Second_def)
  note w = Time_Add_wall [OF conjunct2 [OF True] g]
  have mono: "inst_mono (Time_Add from d) = Some m \<Longrightarrow> \<exists>m0. inst_mono from = Some m0 \<and> m = m0 + d" for m d
    by (auto simp: Time_Add_def Let_def split: option.splits if_splits)
  have "time_Before from (Time_Add from (t + schedulingGrace))" if "inst_wall (Time_Add from (t + schedulingGrace)) \<le> i64_max"
    using w that g mono [of "t + schedulingGrace"] by (auto simp: time_Before_def split: option.splits)
  then show ?thesis using True window_wraps [OF t] w
    by (auto simp: admissionWindowEnd_def Let_def reservable_iff)
next
  case False
  then show ?thesis using window_wraps [OF t]
    by (auto simp: admissionWindowEnd_def Let_def reservable_iff split: if_splits)
qed


lemma policy_ok:
  assumes "validatePolicyNumbers p = PolicyBoundOK" "in_i64 (pol_Timeout p)"
  shows "1 \<le> pol_Timeout p" "InPolicyRange (pol_FloorBW p)" "InPolicyRange (pol_CeilBW p)" "pol_FloorBW p \<le> pol_CeilBW p"
proof -
  have "\<not> go_div (pol_Timeout p) Millisecond < 1" using assms(1) by (auto simp: validatePolicyNumbers_def CheckPolicyNumbers_def split: if_splits)
  moreover have "go_div (pol_Timeout p) Millisecond \<le> 0" if "pol_Timeout p \<le> 0"
  proof -
    have "go_div (pol_Timeout p) Millisecond = i64 (- (\<bar>pol_Timeout p\<bar> div Millisecond))"
      using that by (cases "pol_Timeout p = 0") (auto simp: go_div_def Millisecond_def)
    moreover have "in_i64 (- (\<bar>pol_Timeout p\<bar> div Millisecond))"
    proof -
      have "0 \<le> \<bar>pol_Timeout p\<bar> div Millisecond" by (simp add: Millisecond_def)
      moreover have "\<bar>pol_Timeout p\<bar> div Millisecond \<le> 9223372036854775808 div Millisecond" using assms(2) by (intro zdiv_mono1) (auto simp: in_i64_def i64_min_def i64_max_def Millisecond_def)
      ultimately show ?thesis by (auto simp: in_i64_def i64_min_def i64_max_def Millisecond_def)
    qed
    ultimately show ?thesis by (simp add: i64_id Millisecond_def)
  qed
  ultimately show "1 \<le> pol_Timeout p" by linarith
  show "InPolicyRange (pol_FloorBW p)" "InPolicyRange (pol_CeilBW p)" "pol_FloorBW p \<le> pol_CeilBW p"
    using assms(1) by (auto simp: validatePolicyNumbers_def CheckPolicyNumbers_def split: if_splits)
qed

lemma policy_i64: "InPolicyRange x \<Longrightarrow> 0 \<le> x \<and> x \<le> i64_max"
  by (simp add: InPolicyRange_def bitrate_units i64_max_def)

text \<open>The executor that may take a specification, with the window the specification asks for.\<close>

definition may_take :: "readings \<Rightarrow> DebugletSpec \<Rightarrow> floor_state \<Rightarrow> executorEntry \<Rightarrow> bool" where
  "may_take rd spec d e \<longleftrightarrow> validatePolicyNumbers (sp_Policy spec) = PolicyBoundOK \<and> fl_executors d (sp_ExecutorID spec) = Some e \<and> \<not> fl_closed d
     \<and> availableLocked (rd_lease rd) (ee_owner e) \<and> validateExecutorCapabilities (spec_starts rd spec) e (rd_registry rd) = None
     \<and> pol_Timeout (sp_Policy spec) + schedulingGrace \<le> i64_max \<and> 0 \<le> req_From (spec_request rd spec) \<and> req_To (spec_request rd spec) \<le> i64_max"

text \<open>The run fits: the reserved floors of the window and its own stay within every capacity it touches.\<close>

definition fits_capacity :: "Request \<Rightarrow> bitrate \<Rightarrow> floor_state \<Rightarrow> bool" where
  "fits_capacity r cap d \<longleftrightarrow> (let g = granularity (fl_scheduler d); m = fl_reservations d in
     window_max g (exec_floor g m (req_Executor r)) (req_From r) (req_To r) + req_Use r \<le> cap
     \<and> (\<forall>k \<in> set (req_Destination r). \<not> Denied k (fl_destinations d)
         \<and> window_max g (dest_floor g m (DestinationKey k)) (req_From r) (req_To r) + req_Use r \<le> Cap k (fl_destinations d)))"

lemma first_refusal_None: "first_refusal f xs = None \<longleftrightarrow> (\<forall>x \<in> set xs. f x = None)"
  by (induction xs) (auto split: option.splits)

lemma spec_starts_simps [simp]: "sp_Policy (spec_starts rd spec) = sp_Policy spec" "sp_ExecutorID (spec_starts rd spec) = sp_ExecutorID spec"
  by (simp_all add: spec_starts_def split: option.splits)

lemma floors_invD:
  assumes "floors_inv d"
  shows "job_stands (fl_scheduler d) (exec_floor (granularity (fl_scheduler d)) (fl_reservations d)) (dest_floor (granularity (fl_scheduler d)) (fl_reservations d))"
    "finite (dom (fl_reservations d))" "\<forall>q \<in> ran (fl_reservations d). request_ok q" "fits64 (exec_floor (granularity (fl_scheduler d)) (fl_reservations d))"
    "fits64 (dest_floor (granularity (fl_scheduler d)) (fl_reservations d))"
  using assms by (simp_all add: floors_inv_def Let_def)

lemma validate_window_ok:
  assumes inv: "floors_inv d" and typed: "floors_typed d" and use: "InPolicyRange (req_Use r)" and cap: "in_i64 cap"
  shows "\<exists>res j. validate_window r spec cap d = Some (res, spec, j) \<and> granularity j = granularity (fl_scheduler d) \<and> floors_inv (d\<lparr>fl_scheduler := j\<rparr>)
    \<and> (\<forall>r'. res = Inr r' \<longleftrightarrow> r' = r \<and> fits_capacity r cap d)"
proof -
  let ?g = "granularity (fl_scheduler d)"
  let ?E = "exec_floor ?g (fl_reservations d)" and ?D = "dest_floor ?g (fl_reservations d)"
  note i = floors_invD [OF inv]
  have keep: "floors_inv (d\<lparr>fl_scheduler := j\<rparr>)" if "job_stands j ?E ?D" "granularity j = ?g" for j
    using that i by (simp add: floors_inv_def Let_def)
  obtain j1 where j1: "QueryMaxExec (req_Executor r) (req_From r) (req_To r) (fl_scheduler d) = Some (window_max ?g (?E (req_Executor r)) (req_From r) (req_To r), j1)"
    "job_stands j1 ?E ?D" "granularity j1 = ?g"
    using QueryMaxExec_stands [OF i(1,4)] unfolding window_max_def by blast
  have ov: "over_capacity (window_max ?g (?E (req_Executor r)) (req_From r) (req_To r)) (req_Use r) cap
      \<longleftrightarrow> window_max ?g (?E (req_Executor r)) (req_From r) (req_To r) + req_Use r > cap"
    using window_max_fits [OF i(4)] policy_i64 [OF use] cap by (intro over_capacity_iff) auto
  obtain j2 where j2: "validate_dests (req_Destination r) (req_From r) (req_To r) (req_Use r) (fl_destinations d) j1
      = Some (first_refusal (dest_verdict ?g ?D (req_From r) (req_To r) (req_Use r) (fl_destinations d)) (req_Destination r), j2)" "job_stands j2 ?E ?D" "granularity j2 = ?g"
    using validate_dests_ok [OF j1(2) i(5), of "req_Use r" "fl_destinations d" "req_Destination r" "req_From r" "req_To r"] policy_i64 [OF use] typed j1(3)
    by (auto simp: floors_typed_def)
  show ?thesis
  proof (cases "window_max ?g (?E (req_Executor r)) (req_From r) (req_To r) + req_Use r > cap")
    case True
    then show ?thesis using j1 ov keep [OF j1(2,3)] by (auto simp: validate_window_def fits_capacity_def Let_def)
  next
    case False
    show ?thesis
    proof (cases "first_refusal (dest_verdict ?g ?D (req_From r) (req_To r) (req_Use r) (fl_destinations d)) (req_Destination r)")
      case None
      then have "fits_capacity r cap d" using False by (auto simp: fits_capacity_def Let_def first_refusal_None dest_verdict_def split: if_splits)
      then show ?thesis using j1 j2 ov False None keep [OF j2(2,3)] by (auto simp: validate_window_def)
    next
      case (Some err)
      then have "\<exists>k \<in> set (req_Destination r). dest_verdict ?g ?D (req_From r) (req_To r) (req_Use r) (fl_destinations d) k \<noteq> None" using first_refusal_None by (metis option.distinct(1))
      then have "\<not> fits_capacity r cap d" by (fastforce simp: fits_capacity_def Let_def dest_verdict_def split: if_splits)
      then show ?thesis using j1 j2 ov False Some keep [OF j2(2,3)] by (auto simp: validate_window_def)
    qed
  qed
qed

lemma validate_decides:
  assumes inv: "floors_inv d" and typed: "floors_typed d" and t: "in_i64 (pol_Timeout (sp_Policy spec))"
  shows "\<exists>res spec' j. validateDebugletSpec rd spec d = Some (res, spec', j) \<and> granularity j = granularity (fl_scheduler d) \<and> floors_inv (d\<lparr>fl_scheduler := j\<rparr>)
    \<and> (\<forall>r. res = Inr r \<longleftrightarrow> r = spec_request rd spec \<and> (\<exists>e. may_take rd spec d e \<and> fits_capacity r (ee_capacity e) d))"
proof -
  let ?j = "fl_scheduler d" and ?p = "sp_Policy spec" and ?s = "spec_starts rd spec" and ?r = "spec_request rd spec"
  let ?g = "granularity ?j" and ?E = "exec_floor (granularity ?j) (fl_reservations d)" and ?D = "dest_floor (granularity ?j) (fl_reservations d)"
  note i = floors_invD [OF inv]
  have keep: "floors_inv (d\<lparr>fl_scheduler := j\<rparr>)" if "job_stands j ?E ?D" "granularity j = ?g" for j
    using that i by (simp add: floors_inv_def Let_def)
  have early: ?thesis if "validateDebugletSpec rd spec d = Some (Inl err, spec', ?j)" "\<not> (\<exists>e. may_take rd spec d e)" for err spec'
    using that keep [OF i(1)] inv by auto
  show ?thesis
  proof (cases "validatePolicyNumbers ?p = PolicyBoundOK")
    case False
    then show ?thesis by (intro early) (auto simp: validateDebugletSpec_def Let_def may_take_def)
  next
    case num: True
    note pol = policy_ok [OF num t]
    show ?thesis
    proof (cases "fl_executors d (sp_ExecutorID spec)")
      case None
      then show ?thesis using num by (intro early) (auto simp: validateDebugletSpec_def Let_def may_take_def)
    next
      case (Some e)
      show ?thesis
      proof (cases "fl_closed d \<or> \<not> availableLocked (rd_lease rd) (ee_owner e)")
        case True
        then show ?thesis using num Some by (intro early [of ErrUnknownExecutor ?s]) (auto simp: validateDebugletSpec_def Let_def may_take_def)
      next
        case av: False
        show ?thesis
        proof (cases "validateExecutorCapabilities ?s e (rd_registry rd)")
          case (Some c)
          then show ?thesis using num av \<open>fl_executors d (sp_ExecutorID spec) = Some e\<close>
            by (intro early [of "ErrCapability c" ?s]) (auto simp: validateDebugletSpec_def Let_def may_take_def)
        next
          case cap: None
          have win: "admissionWindowEnd (spec_from rd ?s) (pol_Timeout ?p) = Inr to \<longleftrightarrow> to = Time_Add (spec_from rd ?s) (pol_Timeout ?p + schedulingGrace)
              \<and> pol_Timeout ?p + schedulingGrace \<le> i64_max \<and> 0 \<le> req_From ?r \<and> req_To ?r \<le> i64_max" for to
            using admissionWindowEnd_iff [OF t pol(1)] by (simp add: spec_request_def Let_def)
          show ?thesis
          proof (cases "admissionWindowEnd (spec_from rd ?s) (pol_Timeout ?p)")
            case (Inl f)
            then have "\<not> may_take rd spec d e'" for e' using win by (auto simp: may_take_def)
            then show ?thesis using num av cap Inl \<open>fl_executors d (sp_ExecutorID spec) = Some e\<close>
              by (intro early [of "ErrInvalidWindow f" ?s]) (auto simp: validateDebugletSpec_def Let_def)
          next
            case (Inr to)
            have in_range: "pol_Timeout ?p + schedulingGrace \<le> i64_max" "0 \<le> req_From ?r" "req_To ?r \<le> i64_max" "to = Time_Add (spec_from rd ?s) (pol_Timeout ?p + schedulingGrace)"
              using win Inr by blast+
            have "inst_wall to = inst_wall (spec_from rd ?s) + (pol_Timeout ?p + schedulingGrace)"
              unfolding in_range(4) using in_range(2,3) pol(1) by (intro Time_Add_wall(2)) (simp_all add: spec_request_def Let_def schedulingGrace_def Second_def)
            then have r: "?r = \<lparr>req_Executor = sp_ExecutorID spec, req_Destination = pol_Addresses ?p, req_From = inst_wall (spec_from rd ?s), req_To = inst_wall to, req_Use = pol_FloorBW ?p\<rparr>"
              by (simp add: spec_request_def Let_def)
            have take: "may_take rd spec d e' \<longleftrightarrow> e' = e" for e'
              using num av cap in_range \<open>fl_executors d (sp_ExecutorID spec) = Some e\<close> by (auto simp: may_take_def)
            have "validateDebugletSpec rd spec d = validate_window ?r ?s (ee_capacity e) d"
              using num av cap Inr \<open>fl_executors d (sp_ExecutorID spec) = Some e\<close> by (simp add: validateDebugletSpec_def Let_def r)
            moreover have "in_i64 (ee_capacity e)" using typed \<open>fl_executors d (sp_ExecutorID spec) = Some e\<close> by (auto simp: floors_typed_def ran_def)
            moreover have "InPolicyRange (req_Use ?r)" using pol(2) by (simp add: spec_request_def Let_def)
            ultimately obtain res j where v: "validateDebugletSpec rd spec d = Some (res, ?s, j)" "granularity j = ?g" "floors_inv (d\<lparr>fl_scheduler := j\<rparr>)"
              "\<forall>r'. res = Inr r' \<longleftrightarrow> r' = ?r \<and> fits_capacity ?r (ee_capacity e) d"
              using validate_window_ok [OF inv typed, of ?r "ee_capacity e" ?s] by auto
            then have "\<forall>r'. res = Inr r' \<longleftrightarrow> r' = ?r \<and> (\<exists>e. may_take rd spec d e \<and> fits_capacity r' (ee_capacity e) d)" using take by auto
            then show ?thesis using v(1-3) by blast
          qed
        qed
      qed
    qed
  qed
qed


section \<open>Reserving and releasing\<close>

lemma reserve_ok:
  assumes inv: "floors_inv d" and new: "fl_reservations d i = None" and q: "request_ok q"
    and fit: "fits64 (exec_plus (granularity (fl_scheduler d)) q (exec_floor (granularity (fl_scheduler d)) (fl_reservations d)))"
      "fits64 (dest_plus (granularity (fl_scheduler d)) q (dest_floor (granularity (fl_scheduler d)) (fl_reservations d)))"
  shows "\<exists>j. reserveFloor i q d = Some (Inr (d\<lparr>fl_scheduler := j, fl_reservations := (fl_reservations d)(i \<mapsto> q)\<rparr>))
    \<and> granularity j = granularity (fl_scheduler d) \<and> floors_inv (d\<lparr>fl_scheduler := j, fl_reservations := (fl_reservations d)(i \<mapsto> q)\<rparr>)"
proof -
  let ?g = "granularity (fl_scheduler d)"
  note iv = floors_invD [OF inv]
  have g: "0 < ?g" using iv(1) by (simp add: job_stands_def)
  obtain j where j: "Submit q (fl_scheduler d) = Some (Inr j)" "granularity j = ?g"
    "job_stands j (exec_plus ?g q (exec_floor ?g (fl_reservations d))) (dest_plus ?g q (dest_floor ?g (fl_reservations d)))"
    using Submit_stands [OF iv(1) _ _ fit] request_buckets [OF q g] by auto
  have up: "exec_floor ?g ((fl_reservations d)(i \<mapsto> q)) = exec_plus ?g q (exec_floor ?g (fl_reservations d))"
    "dest_floor ?g ((fl_reservations d)(i \<mapsto> q)) = dest_plus ?g q (dest_floor ?g (fl_reservations d))"
    using exec_floor_upd [OF iv(2) new] dest_floor_upd [OF iv(2) new] by simp_all
  have "floors_inv (d\<lparr>fl_scheduler := j, fl_reservations := (fl_reservations d)(i \<mapsto> q)\<rparr>)"
    using j iv(2,3) q fit unfolding floors_inv_def by (auto simp: Let_def up ran_def)
  then show ?thesis using j new by (intro exI [of _ j]) (simp add: reserveFloor_def)
qed

lemma release_ok:
  assumes inv: "floors_inv d"
  shows "\<exists>j. releaseFloor i d = Some (Inr (d\<lparr>fl_scheduler := j, fl_reservations := (fl_reservations d)(i := None)\<rparr>))
    \<and> granularity j = granularity (fl_scheduler d) \<and> floors_inv (d\<lparr>fl_scheduler := j, fl_reservations := (fl_reservations d)(i := None)\<rparr>)"
proof (cases "fl_reservations d i")
  case None
  then have "d\<lparr>fl_scheduler := fl_scheduler d, fl_reservations := (fl_reservations d)(i := None)\<rparr> = d" by (simp add: fun_upd_idem)
  then show ?thesis using inv None by (intro exI [of _ "fl_scheduler d"]) (simp add: releaseFloor_def)
next
  case (Some q)
  let ?g = "granularity (fl_scheduler d)" and ?m = "(fl_reservations d)(i := None)" and ?n = "q\<lparr>req_Use := - req_Use q\<rparr>"
  note iv = floors_invD [OF inv]
  have q: "request_ok q" using iv(3) Some by (auto simp: ran_def)
  have g: "0 < ?g" using iv(1) by (simp add: job_stands_def)
  have del: "exec_floor ?g ?m = exec_plus ?g ?n (exec_floor ?g (fl_reservations d))" "dest_floor ?g ?m = dest_plus ?g ?n (dest_floor ?g (fl_reservations d))"
    using floor_del [OF iv(2) Some] by simp_all
  have ok: "\<forall>q \<in> ran ?m. request_ok q" using iv(3) by (auto simp: ran_def split: if_splits)
  have le: "exec_floor ?g ?m e p \<le> exec_floor ?g (fl_reservations d) e p" "dest_floor ?g ?m k p \<le> dest_floor ?g (fl_reservations d) k p" for e k p
  proof -
    have "req_at ?g ?n p \<le> 0" using req_at_nonneg [OF q, of ?g p] by (auto simp: req_at_def bucket_from_def bucket_to_def)
    then show "exec_floor ?g ?m e p \<le> exec_floor ?g (fl_reservations d) e p" "dest_floor ?g ?m k p \<le> dest_floor ?g (fl_reservations d) k p"
      unfolding del by (auto simp: exec_plus_def dest_plus_def)
  qed
  have fit: "fits64 (exec_floor ?g ?m)" "fits64 (dest_floor ?g ?m)" using iv(4,5) floor_nonneg [OF ok] le unfolding fits64_def by (meson order_trans)+
  have use: "in_i64 (- req_Use q)" using q policy_i64 [of "req_Use q"] by (auto simp: request_ok_def in_i64_def i64_min_def i64_max_def)
  have b: "bucket_from ?g ?n = bucket_from ?g q" "bucket_to ?g ?n = bucket_to ?g q" by (simp_all add: bucket_from_def bucket_to_def)
  obtain j where j: "Submit ?n (fl_scheduler d) = Some (Inr j)" "granularity j = ?g" "job_stands j (exec_floor ?g ?m) (dest_floor ?g ?m)"
    using Submit_stands [OF iv(1), of ?n] request_buckets [OF q g] fit unfolding del b by auto
  have "floors_inv (d\<lparr>fl_scheduler := j, fl_reservations := ?m\<rparr>)" using j iv(2) ok fit by (simp add: floors_inv_def Let_def)
  then show ?thesis using j Some use by (intro exI [of _ j]) (simp add: releaseFloor_def Scheduler_Remove_def i64_id)
qed

text \<open>A run that fits keeps every sum within its capacity, so within 64 bits.\<close>

lemma window_max_ge: "0 < g \<Longrightarrow> request_ok q \<Longrightarrow> bucket_from g q \<le> p \<Longrightarrow> p \<le> bucket_to g q \<Longrightarrow> f p \<le> window_max g f (req_From q) (req_To q)"
  using request_buckets [of q g] unfolding window_max_def by (intro max_use_ge) (simp add: bucket_from_def bucket_to_def)

lemma fits_capacity_plus:
  assumes inv: "floors_inv d" and q: "request_ok q" and fit: "fits_capacity q cap d" and cap: "cap \<le> i64_max" "floors_typed d"
  defines "g \<equiv> granularity (fl_scheduler d)" and "m \<equiv> fl_reservations d"
  shows "exec_plus g q (exec_floor g m) e p \<le> (if e = req_Executor q \<and> bucket_from g q \<le> p \<and> p \<le> bucket_to g q then cap else exec_floor g m e p)"
    and "k \<in> set (req_Destination q) \<Longrightarrow> bucket_from g q \<le> p \<Longrightarrow> p \<le> bucket_to g q \<Longrightarrow> dest_plus g q (dest_floor g m) (DestinationKey k) p \<le> Cap k (fl_destinations d)"
    and "fits64 (exec_plus g q (exec_floor g m))" "fits64 (dest_plus g q (dest_floor g m))"
proof -
  note iv = floors_invD [OF inv, folded g_def m_def]
  have g: "0 < g" using iv(1) by (simp add: job_stands_def g_def)
  note wm = window_max_ge [OF g q]
  have f: "window_max g (exec_floor g m (req_Executor q)) (req_From q) (req_To q) + req_Use q \<le> cap"
    "\<And>k. k \<in> set (req_Destination q) \<Longrightarrow> window_max g (dest_floor g m (DestinationKey k)) (req_From q) (req_To q) + req_Use q \<le> Cap k (fl_destinations d)"
    using fit by (auto simp: fits_capacity_def Let_def g_def m_def)
  show e: "exec_plus g q (exec_floor g m) e p \<le> (if e = req_Executor q \<and> bucket_from g q \<le> p \<and> p \<le> bucket_to g q then cap else exec_floor g m e p)" for e p
    using f(1) wm [of p "exec_floor g m (req_Executor q)"] by (auto simp: exec_plus_def req_at_def)
  show d: "dest_plus g q (dest_floor g m) (DestinationKey k) p \<le> Cap k (fl_destinations d)"
    if k: "k \<in> set (req_Destination q)" "bucket_from g q \<le> p" "p \<le> bucket_to g q" for k p
    using f(2) [OF k(1)] wm [OF k(2,3), of "dest_floor g m (DestinationKey k)"] k by (auto simp: dest_plus_def req_at_def)
  have u: "0 \<le> req_at g q p" for p using req_at_nonneg [OF q] .
  show "fits64 (exec_plus g q (exec_floor g m))" unfolding fits64_def
  proof (intro allI ballI conjI)
    fix e p assume p: "p \<in> {0..i64_max}"
    show "0 \<le> exec_plus g q (exec_floor g m) e p" using floor_nonneg(1) [OF iv(3)] u by (auto simp: exec_plus_def)
    show "exec_plus g q (exec_floor g m) e p \<le> i64_max" using e [of e p] cap(1) iv(4) p by (auto simp: fits64_def split: if_splits intro: order_trans)
  qed
  show "fits64 (dest_plus g q (dest_floor g m))" unfolding fits64_def
  proof (intro allI ballI conjI)
    fix x p assume p: "p \<in> {0..i64_max}"
    show "0 \<le> dest_plus g q (dest_floor g m) x p" using floor_nonneg(2) [OF iv(3)] u by (auto simp: dest_plus_def)
    show "dest_plus g q (dest_floor g m) x p \<le> i64_max"
    proof (cases "x \<in> DestinationKey ` set (req_Destination q) \<and> bucket_from g q \<le> p \<and> p \<le> bucket_to g q")
      case True
      then obtain k where "k \<in> set (req_Destination q)" "x = DestinationKey k" by blast
      then show ?thesis using d [of k p] True cap(2) by (auto simp: floors_typed_def in_i64_def intro: order_trans)
    next
      case False
      then show ?thesis using iv(5) p by (auto simp: dest_plus_def req_at_def fits64_def)
    qed
  qed
qed


section \<open>Sequences of admissions and releases\<close>

datatype floor_op = AdmitOp readings DebugletSpec uuid | ReleaseOp uuid

fun floor_step :: "floor_op \<Rightarrow> floor_state \<Rightarrow> (sched_panic + floor_state) option" where
  "floor_step (AdmitOp rd spec i) d = (case validateDebugletSpec rd spec d of None \<Rightarrow> None
     | Some (Inl err, spec', j) \<Rightarrow> Some (Inr (d\<lparr>fl_scheduler := j\<rparr>))
     | Some (Inr r, spec', j) \<Rightarrow> reserveFloor i r (d\<lparr>fl_scheduler := j\<rparr>))"
| "floor_step (ReleaseOp i) d = releaseFloor i d"

fun floor_run :: "floor_op list \<Rightarrow> floor_state \<Rightarrow> (sched_panic + floor_state) option" where
  "floor_run [] d = Some (Inr d)"
| "floor_run (x # xs) d = (case floor_step x d of None \<Rightarrow> None | Some (Inl p) \<Rightarrow> Some (Inl p) | Some (Inr d) \<Rightarrow> floor_run xs d)"

fun op_typed :: "floor_op \<Rightarrow> bool" where
  "op_typed (AdmitOp rd spec i) \<longleftrightarrow> in_i64 (pol_Timeout (sp_Policy spec))"
| "op_typed (ReleaseOp i) \<longleftrightarrow> True"

text \<open>Every sum of reserved floors is within the capacity it was admitted against.\<close>

definition within_capacity :: "floor_state \<Rightarrow> bool" where
  "within_capacity d \<longleftrightarrow> (let g = granularity (fl_scheduler d); m = fl_reservations d in
     (\<forall>e x p. fl_executors d e = Some x \<longrightarrow> exec_floor g m e p \<le> max 0 (ee_capacity x))
     \<and> (\<forall>k p. dest_floor g m (DestinationKey k) p \<le> max 0 (Cap k (fl_destinations d))))"

lemma Cap_cong: "DestinationKey k = DestinationKey k' \<Longrightarrow> Cap k u = Cap k' u"
  by (simp add: Cap_def)

lemma spec_request_ok:
  assumes "may_take rd spec d e" "in_i64 (pol_Timeout (sp_Policy spec))"
  shows "request_ok (spec_request rd spec)"
  using assms policy_ok [of "sp_Policy spec"] by (auto simp: may_take_def request_ok_def spec_request_def Let_def schedulingGrace_def Second_def)

lemma within_capacity_upd:
  assumes inv: "floors_inv d" and w: "within_capacity d" and typed: "floors_typed d" and e: "fl_executors d (req_Executor q) = Some x"
    and q: "request_ok q" "fits_capacity q (ee_capacity x) d" and new: "fl_reservations d i = None" and g: "granularity j = granularity (fl_scheduler d)"
  shows "within_capacity (d\<lparr>fl_scheduler := j, fl_reservations := (fl_reservations d)(i \<mapsto> q)\<rparr>)"
proof -
  let ?g = "granularity (fl_scheduler d)" and ?m = "fl_reservations d"
  have cap: "ee_capacity x \<le> i64_max" using typed e by (auto simp: floors_typed_def ran_def in_i64_def)
  note pl = fits_capacity_plus [OF inv q cap typed]
  note fin = floors_invD(2) [OF inv]
  have "exec_floor ?g (?m(i \<mapsto> q)) e' p \<le> max 0 (ee_capacity y)" if y: "fl_executors d e' = Some y" for e' y p
  proof -
    have "exec_floor ?g ?m e' p \<le> max 0 (ee_capacity y)" using w y by (simp add: within_capacity_def Let_def)
    then show ?thesis using pl(1) [of e' p] e y unfolding exec_floor_upd [OF fin new] by (auto split: if_splits)
  qed
  moreover have "dest_floor ?g (?m(i \<mapsto> q)) (DestinationKey k) p \<le> max 0 (Cap k (fl_destinations d))" for k p
  proof (cases "DestinationKey k \<in> DestinationKey ` set (req_Destination q) \<and> bucket_from ?g q \<le> p \<and> p \<le> bucket_to ?g q")
    case True
    then obtain k' where "k' \<in> set (req_Destination q)" "DestinationKey k = DestinationKey k'" by blast
    then show ?thesis using pl(2) [of k' p] True Cap_cong [of k k'] unfolding dest_floor_upd [OF fin new] by auto
  next
    case False
    then show ?thesis using w unfolding dest_floor_upd [OF fin new] by (auto simp: dest_plus_def req_at_def within_capacity_def Let_def)
  qed
  ultimately show ?thesis using g by (simp add: within_capacity_def Let_def)
qed

lemma within_capacity_del:
  assumes inv: "floors_inv d" and w: "within_capacity d" and g: "granularity j = granularity (fl_scheduler d)"
  shows "within_capacity (d\<lparr>fl_scheduler := j, fl_reservations := (fl_reservations d)(i := None)\<rparr>)"
proof (cases "fl_reservations d i")
  case None
  then show ?thesis using w g by (simp add: within_capacity_def Let_def fun_upd_idem)
next
  case (Some q)
  let ?g = "granularity (fl_scheduler d)" and ?m = "fl_reservations d" and ?n = "q\<lparr>req_Use := - req_Use q\<rparr>"
  have "request_ok q" using floors_invD(3) [OF inv] Some by (auto simp: ran_def)
  then have "req_at ?g ?n p \<le> 0" for p using req_at_nonneg [of q ?g p] by (auto simp: req_at_def bucket_from_def bucket_to_def)
  then have "exec_floor ?g (?m(i := None)) e p \<le> exec_floor ?g ?m e p" "dest_floor ?g (?m(i := None)) k p \<le> dest_floor ?g ?m k p" for e k p
    unfolding floor_del [OF floors_invD(2) [OF inv] Some] by (auto simp: exec_plus_def dest_plus_def)
  then show ?thesis using w g unfolding within_capacity_def Let_def by simp (meson order_trans)
qed

definition floors_good :: "floor_state \<Rightarrow> bool" where
  "floors_good d \<longleftrightarrow> floors_inv d \<and> floors_typed d \<and> within_capacity d"

lemma good_scheduler:
  assumes "floors_good d" "floors_inv (d\<lparr>fl_scheduler := j\<rparr>)" "granularity j = granularity (fl_scheduler d)"
  shows "floors_good (d\<lparr>fl_scheduler := j\<rparr>)"
  using assms by (simp add: floors_good_def floors_typed_def within_capacity_def Let_def)

lemma may_take_scheduler: "may_take rd spec (d\<lparr>fl_scheduler := j\<rparr>) e = may_take rd spec d e"
  "granularity j = granularity (fl_scheduler d) \<Longrightarrow> fits_capacity r c (d\<lparr>fl_scheduler := j\<rparr>) = fits_capacity r c d"
  by (simp_all add: may_take_def fits_capacity_def Let_def)

text \<open>The reservation of a validated run.\<close>

lemma reserve_good:
  assumes good: "floors_good d" and t: "in_i64 (pol_Timeout (sp_Policy spec))" and e: "may_take rd spec d e" and fit: "fits_capacity (spec_request rd spec) (ee_capacity e) d"
  shows "\<exists>d'. reserveFloor i (spec_request rd spec) d = Some (Inr d') \<and> floors_good d' \<and> granularity (fl_scheduler d') = granularity (fl_scheduler d)
    \<and> fl_executors d' = fl_executors d \<and> fl_destinations d' = fl_destinations d \<and> fl_closed d' = fl_closed d
    \<and> fl_reservations d' = (case fl_reservations d i of None \<Rightarrow> (fl_reservations d)(i \<mapsto> spec_request rd spec) | Some _ \<Rightarrow> fl_reservations d)"
proof (cases "fl_reservations d i")
  case (Some q)
  then show ?thesis using good by (simp add: reserveFloor_def)
next
  case None
  let ?q = "spec_request rd spec"
  have g: "floors_inv d" "floors_typed d" "within_capacity d" using good by (simp_all add: floors_good_def)
  have q: "request_ok ?q" using spec_request_ok [OF e t] .
  have x: "fl_executors d (req_Executor ?q) = Some e" using e by (simp add: may_take_def spec_request_def Let_def)
  have cap: "ee_capacity e \<le> i64_max" using g(2) x by (auto simp: floors_typed_def ran_def in_i64_def)
  note pl = fits_capacity_plus(3,4) [OF g(1) q fit cap g(2)]
  obtain j where j: "reserveFloor i ?q d = Some (Inr (d\<lparr>fl_scheduler := j, fl_reservations := (fl_reservations d)(i \<mapsto> ?q)\<rparr>))"
    "granularity j = granularity (fl_scheduler d)" "floors_inv (d\<lparr>fl_scheduler := j, fl_reservations := (fl_reservations d)(i \<mapsto> ?q)\<rparr>)"
    using reserve_ok [OF g(1) None q pl] by blast
  have "floors_good (d\<lparr>fl_scheduler := j, fl_reservations := (fl_reservations d)(i \<mapsto> ?q)\<rparr>)"
    using j(3) within_capacity_upd [OF g(1,3,2) x q fit None j(2)] g(2) by (simp add: floors_good_def floors_typed_def)
  then show ?thesis using j(1,2) None by simp
qed

lemma release_good:
  assumes good: "floors_good d"
  shows "\<exists>d'. releaseFloor i d = Some (Inr d') \<and> floors_good d' \<and> granularity (fl_scheduler d') = granularity (fl_scheduler d)
    \<and> fl_executors d' = fl_executors d \<and> fl_destinations d' = fl_destinations d \<and> fl_closed d' = fl_closed d \<and> fl_reservations d' = (fl_reservations d)(i := None)"
proof -
  have g: "floors_inv d" "floors_typed d" "within_capacity d" using good by (simp_all add: floors_good_def)
  obtain j where j: "releaseFloor i d = Some (Inr (d\<lparr>fl_scheduler := j, fl_reservations := (fl_reservations d)(i := None)\<rparr>))"
    "granularity j = granularity (fl_scheduler d)" "floors_inv (d\<lparr>fl_scheduler := j, fl_reservations := (fl_reservations d)(i := None)\<rparr>)"
    using release_ok [OF g(1)] by blast
  then show ?thesis using within_capacity_del [OF g(1,3) j(2)] g(2) by (simp add: floors_good_def floors_typed_def)
qed


lemma floor_step_good:
  assumes good: "floors_good d" and t: "op_typed x"
  shows "\<exists>d'. floor_step x d = Some (Inr d') \<and> floors_good d' \<and> granularity (fl_scheduler d') = granularity (fl_scheduler d)
    \<and> fl_executors d' = fl_executors d \<and> fl_destinations d' = fl_destinations d"
proof (cases x)
  case (AdmitOp rd spec i)
  then have t: "in_i64 (pol_Timeout (sp_Policy spec))" using t by simp
  have g: "floors_inv d" "floors_typed d" using good by (simp_all add: floors_good_def)
  obtain res spec' j where v: "validateDebugletSpec rd spec d = Some (res, spec', j)" "granularity j = granularity (fl_scheduler d)" "floors_inv (d\<lparr>fl_scheduler := j\<rparr>)"
    "\<forall>r. res = Inr r \<longleftrightarrow> r = spec_request rd spec \<and> (\<exists>e. may_take rd spec d e \<and> fits_capacity r (ee_capacity e) d)"
    using validate_decides [OF g t] by blast
  have g1: "floors_good (d\<lparr>fl_scheduler := j\<rparr>)" using good_scheduler [OF good v(3,2)] .
  show ?thesis
  proof (cases res)
    case (Inl err)
    then show ?thesis using AdmitOp v(1,2) g1 by simp
  next
    case (Inr r)
    then obtain e where "r = spec_request rd spec" "may_take rd spec d e" "fits_capacity r (ee_capacity e) d" using v(4) by blast
    then show ?thesis using AdmitOp v(1,2) Inr reserve_good [OF g1 t, of rd e i] by (auto simp: may_take_scheduler)
  qed
next
  case (ReleaseOp i)
  then show ?thesis using release_good [OF good, of i] by auto
qed

lemma floor_run_good:
  "floors_good d \<Longrightarrow> \<forall>x \<in> set xs. op_typed x \<Longrightarrow> \<exists>d'. floor_run xs d = Some (Inr d') \<and> floors_good d' \<and> granularity (fl_scheduler d') = granularity (fl_scheduler d)
    \<and> fl_executors d' = fl_executors d \<and> fl_destinations d' = fl_destinations d"
proof (induction xs arbitrary: d)
  case (Cons x xs)
  then obtain d1 where d1: "floor_step x d = Some (Inr d1)" "floors_good d1" "granularity (fl_scheduler d1) = granularity (fl_scheduler d)"
    "fl_executors d1 = fl_executors d" "fl_destinations d1 = fl_destinations d" using floor_step_good [of d x] by auto
  then show ?case using Cons.IH [OF d1(2)] Cons.prems(2) by auto
qed simp

definition NewFloors :: "(string \<rightharpoonup> executorEntry) \<Rightarrow> DestinationsUsage \<Rightarrow> JobScheduler \<Rightarrow> floor_state" where
  "NewFloors es u j = \<lparr>fl_executors = es, fl_closed = False, fl_destinations = u, fl_scheduler = j, fl_reservations = Map.empty\<rparr>"

lemma NewFloors_good:
  assumes g: "0 < g" "in_i64 g" and new: "JobScheduler_New g = Inr j" and typed: "floors_typed (NewFloors es u j)"
  shows "floors_good (NewFloors es u j)" "granularity j = g"
proof -
  have z: "exec_floor x Map.empty = (\<lambda>_ _. 0)" "dest_floor x Map.empty = (\<lambda>_ _. 0)" for x by (simp_all add: exec_floor_def dest_floor_def fun_eq_iff)
  have j: "execTrees j = Map.empty" "destTrees j = Map.empty" "granularity j = g" using new g by (auto simp: JobScheduler_New_def)
  then show "granularity j = g" by simp
  have "job_stands j (\<lambda>_ _. 0) (\<lambda>_ _. 0)" using j g seg.trees_stand_empty by (simp add: job_stands_def)
  then show "floors_good (NewFloors es u j)" using typed
    by (simp add: floors_good_def floors_inv_def within_capacity_def NewFloors_def Let_def z fits64_def i64_max_def)
qed

section \<open>Properties\<close>

text \<open>The bandwidth the reserved runs are promised at an instant, on an executor and towards a destination.\<close>

definition promised_on :: "(uuid \<rightharpoonup> Request) \<Rightarrow> string \<Rightarrow> int \<Rightarrow> int" where
  "promised_on m e x = (\<Sum>i \<in> dom m. let q = the (m i) in if e = req_Executor q \<and> req_From q \<le> x \<and> x \<le> req_To q then req_Use q else 0)"

definition promised_to :: "(uuid \<rightharpoonup> Request) \<Rightarrow> string \<Rightarrow> int \<Rightarrow> int" where
  "promised_to m k x = (\<Sum>i \<in> dom m. let q = the (m i) in
     if DestinationKey k \<in> DestinationKey ` set (req_Destination q) \<and> req_From q \<le> x \<and> x \<le> req_To q then req_Use q else 0)"

lemma promised_le:
  assumes inv: "floors_inv d"
  defines "g \<equiv> granularity (fl_scheduler d)" and "m \<equiv> fl_reservations d"
  shows "promised_on m e x \<le> exec_floor g m e (x div g)" "promised_to m k x \<le> dest_floor g m (DestinationKey k) (x div g)"
proof -
  note iv = floors_invD [OF inv, folded g_def m_def]
  have g: "0 < g" using iv(1) by (simp add: job_stands_def g_def)
  have at: "(if P \<and> req_From q \<le> x \<and> x \<le> req_To q then req_Use q else 0) \<le> (if P then req_at g q (x div g) else 0)" if "q \<in> ran m" for q P
  proof -
    have q: "request_ok q" using iv(3) that by blast
    have "req_at g q (x div g) = req_Use q" if "req_From q \<le> x" "x \<le> req_To q"
      using bucket_covers [OF g, of "req_From q" x "req_To q"] q that by (auto simp: req_at_def bucket_from_def bucket_to_def request_ok_def)
    then show ?thesis using req_at_nonneg [OF q] by auto
  qed
  have r: "the (m i) \<in> ran m" if "i \<in> dom m" for i using that by (auto simp: ran_def)
  show "promised_on m e x \<le> exec_floor g m e (x div g)" unfolding promised_on_def exec_floor_def Let_def using at [OF r] by (intro sum_mono) auto
  show "promised_to m k x \<le> dest_floor g m (DestinationKey k) (x div g)" unfolding promised_to_def dest_floor_def Let_def using at [OF r] by (intro sum_mono) auto
qed

text \<open>An executor of ten bits a second within its lease, and a run that wants seven of them for five seconds.\<close>

definition sample_entry :: executorEntry where
  "sample_entry = \<lparr>ee_ICMPEnabled = False, ee_Capabilities = None, ee_capabilityObserved = zero_time, ee_vantage = None, ee_vantageObserved = zero_time,
     ee_connectivity = None, ee_publicHost = None, ee_capacity = 10, ee_owner = sample_session\<lparr>so_reg := True, so_deadline := at_second 200\<rparr>, ee_egressBudgetVersion = 0\<rparr>"

definition sample_spec :: DebugletSpec where
  "sample_spec = \<lparr>sp_StartTime = None, sp_Wasm = [], sp_Args = [], sp_Policy = \<lparr>pol_EgressGrant = None, pol_FloorBW = 7, pol_CeilBW = 7, pol_Timeout = 5 * Second,
     pol_Addresses = [''probe.example''], pol_RequireICMP = False, pol_ListenUDP = False, pol_ListenTCP = False, pol_ListenSCION = False\<rparr>,
     sp_ExecutorID = ''e'', sp_TransactionID = ''t'', sp_OrderID = 1\<rparr>"

definition sample_readings :: readings where
  "sample_readings = \<lparr>rd_now = at_second 100, rd_compared = at_second 100, rd_lease = at_second 100, rd_registry = at_second 100\<rparr>"

definition sample_scheduler :: JobScheduler where
  "sample_scheduler = \<lparr>execTrees = Map.empty, destTrees = Map.empty, granularity = 30 * Second\<rparr>"

definition sample_floors :: floor_state where
  "sample_floors = NewFloors [''e'' \<mapsto> sample_entry] (NewDestinations Gigabit) sample_scheduler"

lemma sample_typed: "floors_typed sample_floors"
  by (auto simp: floors_typed_def sample_floors_def NewFloors_def Cap_def NewDestinations_def bitrate_units sample_entry_def in_i64_def i64_min_def i64_max_def)

lemma sample_start:
  "0 < 30 * Second" "in_i64 (30 * Second)" "JobScheduler_New (30 * Second) = Inr sample_scheduler" "in_i64 (pol_Timeout (sp_Policy sample_spec))"
  by (simp_all add: JobScheduler_New_def sample_scheduler_def sample_spec_def in_i64_def i64_min_def i64_max_def Second_def)

lemma sample_good: "floors_good sample_floors"
  using NewFloors_good(1) [OF sample_start(1-3)] sample_typed unfolding sample_floors_def .

lemma sample_run_fits: "may_take sample_readings sample_spec sample_floors sample_entry" "fits_capacity (spec_request sample_readings sample_spec) 10 sample_floors"
proof -
  show "may_take sample_readings sample_spec sample_floors sample_entry" unfolding may_take_def
  proof (intro conjI)
    show "fl_executors sample_floors (sp_ExecutorID sample_spec) = Some sample_entry" by (simp add: sample_floors_def NewFloors_def sample_spec_def)
  qed code_simp+
  have "max_use (\<lambda>_. 0) a b = 0" for a b by (cases "a \<le> b") (auto simp: max_use_def intro!: max_use_eqI [unfolded max_use_def])
  then have z: "window_max g (\<lambda>_. 0) a b = 0" for g a b by (simp add: window_max_def)
  have f: "exec_floor g Map.empty e = (\<lambda>_. 0)" "dest_floor g Map.empty k = (\<lambda>_. 0)" for g e k by (simp_all add: exec_floor_def dest_floor_def fun_eq_iff)
  show "fits_capacity (spec_request sample_readings sample_spec) 10 sample_floors"
    by (simp add: fits_capacity_def Let_def sample_floors_def NewFloors_def f z sample_spec_def spec_request_def spec_starts_def Denied_def Cap_def NewDestinations_def bitrate_units)
qed

text \<open>C5: No promise beyond capacity. Whatever runs are validated, reserved and released, in whatever
  order, every call of the schedule returns without panic, and at every instant the floors of the
  reserved runs that execute on an executor add up to no more than its capacity, and those towards a
  destination, whatever spelling each run declared, to no more than the capacity of the destination.
\<close>

theorem floors_within_capacity:
  assumes g: "0 < g" "in_i64 g" and new: "JobScheduler_New g = Inr j" and typed: "floors_typed (NewFloors es u j)" and ops: "\<forall>x \<in> set xs. op_typed x"
  shows "\<exists>d. floor_run xs (NewFloors es u j) = Some (Inr d)
    \<and> (\<forall>e entry x. es e = Some entry \<longrightarrow> promised_on (fl_reservations d) e x \<le> max 0 (ee_capacity entry))
    \<and> (\<forall>k x. promised_to (fl_reservations d) k x \<le> max 0 (Cap k u))"
proof -
  obtain d where d: "floor_run xs (NewFloors es u j) = Some (Inr d)" "floors_good d" "fl_executors d = es" "fl_destinations d = u"
    using floor_run_good [OF NewFloors_good(1) [OF g new typed] ops] by (auto simp: NewFloors_def)
  have "floors_inv d" "within_capacity d" using d(2) by (simp_all add: floors_good_def)
  then have w: "\<And>e x p. es e = Some x \<Longrightarrow> exec_floor (granularity (fl_scheduler d)) (fl_reservations d) e p \<le> max 0 (ee_capacity x)"
    "\<And>k p. dest_floor (granularity (fl_scheduler d)) (fl_reservations d) (DestinationKey k) p \<le> max 0 (Cap k u)"
    using d(3,4) by (simp_all add: within_capacity_def Let_def)
  have "promised_on (fl_reservations d) e x \<le> max 0 (ee_capacity entry)" if "es e = Some entry" for e entry x
    using order_trans [OF promised_le(1) [OF \<open>floors_inv d\<close>] w(1) [OF that]] .
  moreover have "promised_to (fl_reservations d) k x \<le> max 0 (Cap k u)" for k x
    using order_trans [OF promised_le(2) [OF \<open>floors_inv d\<close>] w(2)] .
  ultimately show ?thesis using d(1) by blast
qed

theorem floors_within_capacity_witness:
  "\<exists>d. floor_run [AdmitOp sample_readings sample_spec 1, AdmitOp sample_readings sample_spec 2, ReleaseOp 1] sample_floors = Some (Inr d)
     \<and> promised_on (fl_reservations d) ''e'' (101 * Second) \<le> 10 \<and> promised_to (fl_reservations d) ''probe.example'' (101 * Second) \<le> Gigabit"
proof -
  have typed: "floors_typed (NewFloors [''e'' \<mapsto> sample_entry] (NewDestinations Gigabit) sample_scheduler)" using sample_typed by (simp add: sample_floors_def)
  obtain d where d: "floor_run [AdmitOp sample_readings sample_spec 1, AdmitOp sample_readings sample_spec 2, ReleaseOp 1] sample_floors = Some (Inr d)"
    "\<forall>e entry x. [''e'' \<mapsto> sample_entry] e = Some entry \<longrightarrow> promised_on (fl_reservations d) e x \<le> max 0 (ee_capacity entry)"
    "\<forall>k x. promised_to (fl_reservations d) k x \<le> max 0 (Cap k (NewDestinations Gigabit))"
    using floors_within_capacity [OF sample_start(1-3) typed, of "[AdmitOp sample_readings sample_spec 1, AdmitOp sample_readings sample_spec 2, ReleaseOp 1]"] sample_start(4)
    unfolding sample_floors_def by auto
  have "promised_on (fl_reservations d) ''e'' (101 * Second) \<le> 10" using d(2) [rule_format, of "''e''" sample_entry] by (simp add: sample_entry_def)
  moreover have "promised_to (fl_reservations d) ''probe.example'' (101 * Second) \<le> Gigabit"
    using d(3) [rule_format, of "''probe.example''"] by (simp add: Cap_def NewDestinations_def bitrate_units)
  ultimately show ?thesis using d(1) by blast
qed

text \<open>C14: What admission decides. Validation returns for every specification and every state the floors
  can be in; it admits a run exactly if its numbers are in range, its executor is registered, within
  its lease and able to serve it, the window with its grace fits the reservable range without
  wrapping, and the largest reserved floor of the window plus its own is within the capacity of
  the executor and of each destination, none of which is denied; and the request it builds is well
  formed, so reserving it never panics.
\<close>

theorem validate_admits_exactly:
  assumes good: "floors_good d" and t: "in_i64 (pol_Timeout (sp_Policy spec))"
  shows "\<exists>res spec' j. validateDebugletSpec rd spec d = Some (res, spec', j)
    \<and> (\<forall>r. res = Inr r \<longleftrightarrow> r = spec_request rd spec \<and> (\<exists>e. may_take rd spec d e \<and> fits_capacity r (ee_capacity e) d))
    \<and> (\<forall>r. res = Inr r \<longrightarrow> request_ok r \<and> req_To r = req_From r + pol_Timeout (sp_Policy spec) + schedulingGrace
         \<and> (\<exists>d'. reserveFloor i r (d\<lparr>fl_scheduler := j\<rparr>) = Some (Inr d') \<and> floors_good d'))"
proof -
  have g: "floors_inv d" "floors_typed d" using good by (simp_all add: floors_good_def)
  obtain res spec' j where v: "validateDebugletSpec rd spec d = Some (res, spec', j)" "granularity j = granularity (fl_scheduler d)" "floors_inv (d\<lparr>fl_scheduler := j\<rparr>)"
    "\<forall>r. res = Inr r \<longleftrightarrow> r = spec_request rd spec \<and> (\<exists>e. may_take rd spec d e \<and> fits_capacity r (ee_capacity e) d)"
    using validate_decides [OF g t] by blast
  have g1: "floors_good (d\<lparr>fl_scheduler := j\<rparr>)" using good_scheduler [OF good v(3,2)] .
  have "request_ok r \<and> req_To r = req_From r + pol_Timeout (sp_Policy spec) + schedulingGrace \<and> (\<exists>d'. reserveFloor i r (d\<lparr>fl_scheduler := j\<rparr>) = Some (Inr d') \<and> floors_good d')"
    if ir: "res = Inr r" for r
  proof -
    obtain e where e: "r = spec_request rd spec" "may_take rd spec d e" "fits_capacity r (ee_capacity e) d"
      using iffD1 [OF spec [OF v(4)] ir] by (elim conjE exE)
    have e': "may_take rd spec (d\<lparr>fl_scheduler := j\<rparr>) e" "fits_capacity (spec_request rd spec) (ee_capacity e) (d\<lparr>fl_scheduler := j\<rparr>)"
      using e v(2) by (simp_all add: may_take_scheduler)
    obtain d' where "reserveFloor i (spec_request rd spec) (d\<lparr>fl_scheduler := j\<rparr>) = Some (Inr d')" "floors_good d'" using reserve_good [OF g1 t e'] by blast
    moreover have "req_To r = req_From r + pol_Timeout (sp_Policy spec) + schedulingGrace" by (simp add: e(1) spec_request_def Let_def)
    ultimately show ?thesis using spec_request_ok [OF e(2) t] e(1) by blast
  qed
  then show ?thesis using v(1,4) by (intro exI [of _ res] exI [of _ spec'] exI [of _ j]) blast
qed

theorem validate_admits_exactly_witness:
  "\<exists>r spec' j d'. validateDebugletSpec sample_readings sample_spec sample_floors = Some (Inr r, spec', j) \<and> req_From r = 100 * Second \<and> req_To r = 115 * Second
     \<and> reserveFloor 1 r (sample_floors\<lparr>fl_scheduler := j\<rparr>) = Some (Inr d')"
proof -
  obtain res spec' j where v: "validateDebugletSpec sample_readings sample_spec sample_floors = Some (res, spec', j)"
    "\<forall>r. res = Inr r \<longleftrightarrow> r = spec_request sample_readings sample_spec
       \<and> (\<exists>e. may_take sample_readings sample_spec sample_floors e \<and> fits_capacity r (ee_capacity e) sample_floors)"
    "\<forall>r. res = Inr r \<longrightarrow> request_ok r \<and> req_To r = req_From r + pol_Timeout (sp_Policy sample_spec) + schedulingGrace
       \<and> (\<exists>d'. reserveFloor 1 r (sample_floors\<lparr>fl_scheduler := j\<rparr>) = Some (Inr d') \<and> floors_good d')"
    using validate_admits_exactly [OF sample_good sample_start(4), of sample_readings 1] by blast
  have "ee_capacity sample_entry = 10" by (simp add: sample_entry_def)
  then have "res = Inr (spec_request sample_readings sample_spec)" using v(2) sample_run_fits by metis
  moreover have "req_From (spec_request sample_readings sample_spec) = 100 * Second" by code_simp
  ultimately show ?thesis using v(1,3) by (auto simp: sample_spec_def schedulingGrace_def)
qed

end
