(* ===== verification/Account_Quota.thy ===== *)
theory Account_Quota
  imports Floor_Admission
begin

text \<open>
  What an account may have under way: the size of a submission, \<^verbatim>\<open>internal/uploadsize/limits.go\<close>, the limits of
  \<^verbatim>\<open>dispatcher/config/admission.go\<close> and the reservations of \<^verbatim>\<open>dispatcher/account_limits.go\<close>. The tables are lists of
  rows; a call of the database that fails is a named fault of the environment, and the caller's
  transaction discards what was written before it. Stored times keep their nanoseconds.
\<close>

section \<open>The size of a submission\<close>

definition MaxModuleBytes :: int where "MaxModuleBytes = 25165824"
definition MaxStoredRunBytes :: int where "MaxStoredRunBytes = 33554432"
definition MaxBatchRuns :: int where "MaxBatchRuns = 128"
definition RowCharge :: int where "RowCharge = 512"

text \<open>The closure \<open>add\<close>: the new total, or none if the size does not fit.\<close>

definition add_size :: "int \<Rightarrow> int \<Rightarrow> int option" where
  "add_size sz tot = (if sz > MaxStoredRunBytes - tot then None else Some (tot + sz))"

fun add_texts :: "string list \<Rightarrow> int \<Rightarrow> int option" where
  "add_texts [] t = Some t"
| "add_texts (x # xs) t = Option.bind (add_size (int (length x)) t) (add_texts xs)"

fun add_list :: "bool \<Rightarrow> string list \<Rightarrow> int \<Rightarrow> int option" where
  "add_list first [] t = Some t"
| "add_list first (x # xs) t =
     (if int (length x) > MaxStoredRunBytes then None
      else Option.bind (add_size ((int (length x) + 2) div 3 * 4) t) (\<lambda>t.
        Option.bind (if first then Some t else add_size 1 t) (add_list False xs)))"

definition StoredBytesForModule :: "int \<Rightarrow> string list \<Rightarrow> string list \<Rightarrow> string list \<Rightarrow> int option" where
  "StoredBytesForModule moduleBytes args addresses textFields =
     (if moduleBytes < 0 \<or> moduleBytes > MaxModuleBytes then None
      else Option.bind (add_texts textFields (RowCharge + moduleBytes)) (\<lambda>t. Option.bind (add_list True args t) (add_list True addresses)))"

definition StoredBytes :: "char list \<Rightarrow> string list \<Rightarrow> string list \<Rightarrow> string list \<Rightarrow> int option" where
  "StoredBytes wasm args addresses textFields = StoredBytesForModule (int (length wasm)) args addresses textFields"

fun sum_charges :: "DebugletSpec list \<Rightarrow> int \<Rightarrow> int option" where
  "sum_charges [] bytes = Some bytes"
| "sum_charges (sp # sps) bytes = (case StoredBytes (sp_Wasm sp) (sp_Args sp) (pol_Addresses (sp_Policy sp)) [sp_TransactionID sp] of None \<Rightarrow> None
     | Some c \<Rightarrow> sum_charges sps (bytes + (c + 256)))"

definition validateSubmissionSize :: "DebugletSpec list \<Rightarrow> int option" where
  "validateSubmissionSize specs = (if int (length specs) > MaxBatchRuns then None else sum_charges specs 0)"

section \<open>The limits of an account\<close>

record AccountLimits =
  al_RequestsPerMinute :: int
  al_QueuedJobs :: int
  al_ActiveJobs :: int
  al_QueuedBytes :: int

record AdmissionConfig =
  ac_Account :: AccountLimits
  ac_Operator :: AccountLimits

definition DefaultAdmissionConfig :: AdmissionConfig where
  "DefaultAdmissionConfig = \<lparr>ac_Account = \<lparr>al_RequestsPerMinute = 60, al_QueuedJobs = 128, al_ActiveJobs = 16, al_QueuedBytes = 268435456\<rparr>,
     ac_Operator = \<lparr>al_RequestsPerMinute = 240, al_QueuedJobs = 1024, al_ActiveJobs = 64, al_QueuedBytes = 1073741824\<rparr>\<rparr>"

definition limits_valid :: "AccountLimits \<Rightarrow> bool" where
  "limits_valid l \<longleftrightarrow> \<not> (al_RequestsPerMinute l < 1 \<or> al_RequestsPerMinute l > 100000)
     \<and> \<not> (al_QueuedJobs l < 1 \<or> al_QueuedJobs l > 100000 \<or> al_ActiveJobs l < 1 \<or> al_ActiveJobs l > al_QueuedJobs l)
     \<and> \<not> (al_QueuedBytes l < 512 \<or> al_QueuedBytes l > 1125899906842624)"

definition AdmissionConfig_Validate :: "AdmissionConfig \<Rightarrow> bool" where
  "AdmissionConfig_Validate c \<longleftrightarrow> limits_valid (ac_Account c) \<and> limits_valid (ac_Operator c)"

record user_row =
  us_ID :: int
  us_UUID :: uuid
  us_Role :: string

datatype quota_resource = RequestBudget | QueuedJobs | QueuedBytes | ActiveJobs

datatype account_error = AccountQuotaError quota_resource | AccountDatabase | AccountSize | AccountGrant | AccountPanic

definition accountLimits :: "AdmissionConfig \<Rightarrow> user_row list \<Rightarrow> uuid option \<Rightarrow> account_error + int \<times> AccountLimits" where
  "accountLimits conf users owner = (case owner of None \<Rightarrow> Inr (0, ac_Operator conf)
     | Some u \<Rightarrow> (case List.find (\<lambda>r. us_UUID r = u) users of None \<Rightarrow> Inl AccountDatabase
         | Some r \<Rightarrow> Inr (us_ID r, if us_Role r = ''operator'' then ac_Operator conf else ac_Account conf)))"

section \<open>The request budget\<close>

text \<open>
  The token bucket \<open>rate.Limiter\<close> is not part of the program: \<open>allowN\<close> configures one for a number of
  requests per minute and asks it for a token, \<open>fresh\<close> makes one.
\<close>

record 'l accountRate =
  rt_limiter :: 'l
  rt_last :: instant

definition maxAccountRates :: nat where "maxAccountRates = 4096"

definition allow_account ::
  "(int \<Rightarrow> 'l) \<Rightarrow> (instant \<Rightarrow> int \<Rightarrow> 'l \<Rightarrow> bool \<times> 'l) \<Rightarrow> instant \<Rightarrow> int \<Rightarrow> AccountLimits \<Rightarrow> (int \<times> 'l accountRate) list
   \<Rightarrow> account_error option \<times> (int \<times> 'l accountRate) list" where
  "allow_account fresh allowN now accountID limits rates =
     (let use = (\<lambda>r rates. case allowN now (al_RequestsPerMinute limits) (rt_limiter r) of (ok, lim) \<Rightarrow>
            (if ok then None else Some (AccountQuotaError RequestBudget), (accountID, \<lparr>rt_limiter = lim, rt_last = now\<rparr>) # filter (\<lambda>(i, _). i \<noteq> accountID) rates)) in
      (case map_of rates accountID of Some r \<Rightarrow> use r rates
       | None \<Rightarrow>
           let rates = (if length rates \<ge> maxAccountRates then filter (\<lambda>(_, old). time_Sub now (rt_last old) < 2 * Minute) rates else rates) in
           if length rates \<ge> maxAccountRates then (Some (AccountQuotaError RequestBudget), rates)
           else use \<lparr>rt_limiter = fresh (al_RequestsPerMinute limits), rt_last = now\<rparr> rates))"

definition AllowAdmissionRequest ::
  "(int \<Rightarrow> 'l) \<Rightarrow> (instant \<Rightarrow> int \<Rightarrow> 'l \<Rightarrow> bool \<times> 'l) \<Rightarrow> AdmissionConfig \<Rightarrow> user_row list \<Rightarrow> instant \<Rightarrow> uuid option \<Rightarrow> (int \<times> 'l accountRate) list
   \<Rightarrow> account_error option \<times> (int \<times> 'l accountRate) list" where
  "AllowAdmissionRequest fresh allowN conf users now owner rates = (case accountLimits conf users owner of Inl e \<Rightarrow> (Some e, rates)
     | Inr (account, limits) \<Rightarrow> allow_account fresh allowN now account limits rates)"

section \<open>The reservations of an account\<close>

record debuglet_row =
  db_ID :: int
  db_UUID :: uuid
  db_StartTime :: int
  db_EndTime :: int
  db_ExecutorID :: string
  db_Usage :: bitrate
  db_Ceil :: bitrate
  db_State :: int
  db_Error :: "string option"
  db_Addresses :: "string list"
  db_TransactionID :: string
  db_OrderID :: int
  db_Incarnation :: string
  db_Session :: string

record reservation_row =
  rv_DebugletID :: int
  rv_AccountID :: int
  rv_QueuedBytes :: int
  rv_RetiredAt :: "int option"

record run_tables =
  tb_debuglets :: "debuglet_row list"
  tb_reservations :: "reservation_row list"

text \<open>Rows of the inner join, in the order of the reservations; the statement stops at its limit.\<close>

definition live_of :: "debuglet_row list \<Rightarrow> int \<Rightarrow> reservation_row \<Rightarrow> (int \<times> int \<times> int) list" where
  "live_of ds account r = (if rv_AccountID r = account \<and> rv_RetiredAt r = None
     then map (\<lambda>d. (rv_QueuedBytes r, db_StartTime d, db_EndTime d)) (filter (\<lambda>d. db_ID d = rv_DebugletID r) ds) else [])"

definition live_rows :: "int \<Rightarrow> 'a run_tables_scheme \<Rightarrow> (int \<times> int \<times> int) list" where
  "live_rows account t = concat (map (live_of (tb_debuglets t) account) (tb_reservations t))"

definition ListAccountReservations :: "int \<Rightarrow> 'a run_tables_scheme \<Rightarrow> (int \<times> int \<times> int) list" where
  "ListAccountReservations account t = take 100001 (live_rows account t)"

definition GetDebugletByUUID :: "uuid \<Rightarrow> 'a run_tables_scheme \<Rightarrow> debuglet_row option" where
  "GetDebugletByUUID i t = List.find (\<lambda>d. db_UUID d = i) (tb_debuglets t)"

text \<open>\<open>debuglet_id\<close> is the primary key.\<close>

definition ReserveAccountRun :: "int \<Rightarrow> int \<Rightarrow> int \<Rightarrow> 'a run_tables_scheme \<Rightarrow> 'a run_tables_scheme option" where
  "ReserveAccountRun i account bytes t = (if i \<in> rv_DebugletID ` set (tb_reservations t) then None
     else Some (t\<lparr>tb_reservations := tb_reservations t @ [\<lparr>rv_DebugletID = i, rv_AccountID = account, rv_QueuedBytes = bytes, rv_RetiredAt = None\<rparr>]\<rparr>))"

type_synonym quota_window = "int \<times> int"
type_synonym quota_event = "int \<times> int"

text \<open>The existing rows: their bytes are added while they fit.\<close>

fun add_existing :: "int \<Rightarrow> (int \<times> int \<times> int) list \<Rightarrow> int \<Rightarrow> quota_window list \<Rightarrow> account_error + int \<times> quota_window list" where
  "add_existing limit [] bytes ws = Inr (bytes, ws)"
| "add_existing limit ((b, f, t) # rows) bytes ws =
     (if b > i64 (limit - bytes) then Inl (AccountQuotaError QueuedBytes) else add_existing limit rows (i64 (bytes + b)) (ws @ [(f, t)]))"

text \<open>
  The runs of the batch: the row of each, its charge with the stored binding and grant, its window. The
  encoding of a grant is the protobuf library's and may fail; \<open>specs[i]\<close> panics past the end.
\<close>

fun add_batch :: "(EgressGrant \<Rightarrow> string option) \<Rightarrow> int \<Rightarrow> 'a run_tables_scheme \<Rightarrow> uuid list \<Rightarrow> DebugletSpec list \<Rightarrow> int \<Rightarrow> quota_window list
    \<Rightarrow> account_error + (debuglet_row \<times> int) list \<times> quota_window list" where
  "add_batch marshal limit t [] specs bytes ws = Inr ([], ws)"
| "add_batch marshal limit t (i # ids) specs bytes ws = (case GetDebugletByUUID i t of None \<Rightarrow> Inl AccountDatabase
     | Some row \<Rightarrow> (case specs of [] \<Rightarrow> Inl AccountPanic
     | sp # specs \<Rightarrow> (case (case pol_EgressGrant (sp_Policy sp) of None \<Rightarrow> Some [] | Some g \<Rightarrow> marshal g) of None \<Rightarrow> Inl AccountGrant
     | Some grant \<Rightarrow>
         (case StoredBytes (sp_Wasm sp) (sp_Args sp) (pol_Addresses (sp_Policy sp)) [sp_TransactionID sp, db_Incarnation row, db_Session row, grant] of
            None \<Rightarrow> Inl AccountSize
          | Some cost \<Rightarrow>
              if cost > i64 (limit - bytes) then Inl (AccountQuotaError QueuedBytes)
              else (case add_batch marshal limit t ids specs (i64 (bytes + cost)) (ws @ [(db_StartTime row, db_EndTime row)]) of Inl e \<Rightarrow> Inl e
                | Inr (rows, ws) \<Rightarrow> Inr ((row, cost) # rows, ws))))))"

text \<open>Windows that have ended count at every later time; the others open and close.\<close>

fun window_events :: "int \<Rightarrow> quota_window list \<Rightarrow> int \<times> quota_event list" where
  "window_events now [] = (0, [])"
| "window_events now ((f, t) # ws) = (case window_events now ws of (active, es) \<Rightarrow>
     if \<not> t > now then (active + 1, es) else (active, (if f < now then now else f, 1) # (t, -1) # es))"

text \<open>The order of the events: by instant, and of one instant the openings first. Equal events are the same event.\<close>

definition event_less :: "quota_event \<Rightarrow> quota_event \<Rightarrow> bool" where
  "event_less a b \<longleftrightarrow> (if fst a = fst b then snd a > snd b else fst a < fst b)"

fun insert_event :: "quota_event \<Rightarrow> quota_event list \<Rightarrow> quota_event list" where
  "insert_event e [] = [e]"
| "insert_event e (x # xs) = (if event_less x e then x # insert_event e xs else e # x # xs)"

definition sort_events :: "quota_event list \<Rightarrow> quota_event list" where
  "sort_events es = foldr insert_event es []"

fun sweep_events :: "int \<Rightarrow> quota_event list \<Rightarrow> int \<Rightarrow> bool" where
  "sweep_events limit [] active = True"
| "sweep_events limit ((at, change) # es) active = (\<not> active + change > limit \<and> sweep_events limit es (active + change))"

definition active_within :: "int \<Rightarrow> int \<Rightarrow> quota_window list \<Rightarrow> bool" where
  "active_within limit now ws = (case window_events now ws of (active, es) \<Rightarrow> \<not> active > limit \<and> sweep_events limit (sort_events es) active)"

fun reserve_rows :: "int \<Rightarrow> (debuglet_row \<times> int) list \<Rightarrow> 'a run_tables_scheme \<Rightarrow> account_error + 'a run_tables_scheme" where
  "reserve_rows account [] t = Inr t"
| "reserve_rows account ((row, cost) # rows) t = (case ReserveAccountRun (db_ID row) account cost t of None \<Rightarrow> Inl AccountDatabase
     | Some t \<Rightarrow> reserve_rows account rows t)"

definition reserveAccountRuns ::
  "(EgressGrant \<Rightarrow> string option) \<Rightarrow> AdmissionConfig \<Rightarrow> user_row list \<Rightarrow> int \<Rightarrow> uuid list \<Rightarrow> DebugletSpec list \<Rightarrow> uuid option \<Rightarrow> 'a run_tables_scheme
   \<Rightarrow> account_error + 'a run_tables_scheme" where
  "reserveAccountRuns marshal conf users now ids specs owner t =
     (case accountLimits conf users owner of Inl e \<Rightarrow> Inl e
      | Inr (account, limits) \<Rightarrow>
          let existing = ListAccountReservations account t in
          if int (length existing) > i64 (al_QueuedJobs limits - int (length ids)) then Inl (AccountQuotaError QueuedJobs)
          else (case add_existing (al_QueuedBytes limits) existing 0 [] of Inl e \<Rightarrow> Inl e
            | Inr (bytes, ws) \<Rightarrow> (case add_batch marshal (al_QueuedBytes limits) t ids specs bytes ws of Inl e \<Rightarrow> Inl e
                | Inr (rows, ws) \<Rightarrow> if \<not> active_within (al_ActiveJobs limits) now ws then Inl (AccountQuotaError ActiveJobs)
                    else reserve_rows account rows t)))"


section \<open>The sweep\<close>

text \<open>A window holds a slot at an instant: always once it has ended without a confirmed retirement, else from its start to its end.\<close>

definition holds_slot :: "int \<Rightarrow> int \<Rightarrow> quota_window \<Rightarrow> bool" where
  "holds_slot now x w \<longleftrightarrow> \<not> snd w > now \<or> ((if fst w < now then now else fst w) \<le> x \<and> x \<le> snd w)"

definition slots_at :: "int \<Rightarrow> quota_window list \<Rightarrow> int \<Rightarrow> int" where
  "slots_at now ws x = int (length (filter (holds_slot now x) ws))"

definition before :: "int \<Rightarrow> quota_event \<Rightarrow> bool" where
  "before x e \<longleftrightarrow> fst e < x \<or> fst e = x \<and> snd e > 0"

definition opened :: "quota_event list \<Rightarrow> int \<Rightarrow> int" where
  "opened es x = (\<Sum>e \<leftarrow> es. if before x e then snd e else 0)"

definition events_sorted :: "quota_event list \<Rightarrow> bool" where
  "events_sorted es \<longleftrightarrow> sorted_wrt (\<lambda>a b. \<not> event_less b a) es"

lemma event_less_trans: "\<not> event_less b a \<Longrightarrow> \<not> event_less c b \<Longrightarrow> \<not> event_less c a"
  by (auto simp: event_less_def split: if_splits)

lemma set_insert_event: "set (insert_event e es) = insert e (set es)"
  by (induction es) auto

lemma insert_event_sorted: "events_sorted es \<Longrightarrow> events_sorted (insert_event e es)"
proof (induction es)
  case (Cons x xs)
  have x: "\<not> event_less y x" if "y \<in> set xs" for y using Cons.prems that by (auto simp: events_sorted_def)
  show ?case
  proof (cases "event_less x e")
    case True
    then have "\<not> event_less e x" by (auto simp: event_less_def split: if_splits)
    then show ?thesis using True Cons x by (auto simp: events_sorted_def set_insert_event)
  next
    case False
    then show ?thesis using Cons.prems x event_less_trans [of x e] by (auto simp: events_sorted_def)
  qed
qed (simp add: events_sorted_def)

lemma sort_events_sorted: "events_sorted (sort_events es)"
  unfolding sort_events_def by (induction es) (simp add: events_sorted_def, simp add: insert_event_sorted)

lemma mset_insert_event: "mset (insert_event e es) = add_mset e (mset es)"
  by (induction es) auto

lemma mset_sort_events: "mset (sort_events es) = mset es"
  unfolding sort_events_def by (induction es) (simp_all add: mset_insert_event)

lemma opened_mset:
  assumes "mset es = mset fs"
  shows "opened es = opened fs"
proof (rule ext)
  fix x
  have "opened gs x = sum_mset (image_mset (\<lambda>e. if before x e then snd e else 0) (mset gs))" for gs
    unfolding opened_def by (induction gs) simp_all
  then show "opened es x = opened fs x" using assms by simp
qed

lemma sweep_prefix: "sweep_events l es a \<longleftrightarrow> (\<forall>n < length es. a + sum_list (map snd (take (Suc n) es)) \<le> l)"
proof (induction es arbitrary: a)
  case (Cons e es)
  obtain x c where e: "e = (x, c)" by (cases e)
  have "sweep_events l (e # es) a \<longleftrightarrow> a + c \<le> l \<and> (\<forall>n < length es. a + c + sum_list (map snd (take (Suc n) es)) \<le> l)"
    unfolding e sweep_events.simps Cons.IH by (simp add: not_less)
  also have "\<dots> \<longleftrightarrow> (\<forall>n < Suc (length es). a + sum_list (map snd (take (Suc n) (e # es))) \<le> l)"
    unfolding All_less_Suc2 by (simp add: e add.assoc)
  finally show ?case by simp
qed simp

lemma before_down: "snd a = 1 \<or> snd a = -1 \<Longrightarrow> snd b = 1 \<or> snd b = -1 \<Longrightarrow> before x b \<Longrightarrow> \<not> event_less b a \<Longrightarrow> before x a"
  by (auto simp: before_def event_less_def split: if_splits)

lemma sum_if_filter: "(\<Sum>e \<leftarrow> es. if P e then f e else (0 :: int)) = sum_list (map f (filter P es))"
  by (induction es) auto

lemma opened_append: "opened (es @ fs) x = opened es x + opened fs x"
  by (simp add: opened_def)

text \<open>The running count of the sorted events exceeds the limit exactly if the count at some instant does.\<close>

lemma sweep_sorted:
  assumes s: "events_sorted es" and unit: "\<forall>e \<in> set es. snd e = 1 \<or> snd e = -1" and open': "\<forall>e \<in> set es. snd e = 1 \<longrightarrow> now \<le> fst e" and a: "a \<le> l"
  shows "sweep_events l es a \<longleftrightarrow> (\<forall>x \<ge> now. a + opened es x \<le> l)"
proof
  assume sw: "sweep_events l es a"
  show "\<forall>x \<ge> now. a + opened es x \<le> l"
  proof (intro allI impI)
    fix x
    have "filter (before x) es = takeWhile (before x) es" using s unit
    proof (induction es)
      case (Cons e es)
      have "filter (before x) es = []" if "\<not> before x e"
      proof -
        have "\<not> before x b" if b: "b \<in> set es" for b
          using that before_down [of e b x] Cons.prems \<open>\<not> before x e\<close> unfolding events_sorted_def by (metis list.set_intros sorted_wrt.simps(2))
        then show ?thesis by (simp add: filter_empty_conv)
      qed
      moreover have "filter (before x) es = takeWhile (before x) es" using Cons by (simp add: events_sorted_def)
      ultimately show ?case by simp
    qed simp
    then obtain n where n: "n \<le> length es" "filter (before x) es = take n es" by (metis length_takeWhile_le takeWhile_eq_take)
    have "opened es x = sum_list (map snd (take n es))" unfolding opened_def sum_if_filter n(2) ..
    then show "a + opened es x \<le> l" using sw n(1) a unfolding sweep_prefix by (cases n) (auto simp: Suc_le_eq)
  qed
next
  assume all: "\<forall>x \<ge> now. a + opened es x \<le> l"
  have "a + sum_list (map snd (take n es)) \<le> l" if "n \<le> length es" for n
    using that
  proof (induction n)
    case (Suc n)
    let ?e = "es ! n"
    have mem: "?e \<in> set es" using Suc.prems by simp
    have split: "take (Suc n) es = take n es @ [?e]" using Suc.prems by (simp add: take_Suc_conv_app_nth)
    show ?case
    proof (cases "snd ?e = 1")
      case False
      then have "snd ?e = -1" using unit mem by blast
      then show ?thesis using Suc by (simp add: split)
    next
      case True
      let ?x = "fst ?e"
      have pre: "before ?x f" if f: "f \<in> set (take (Suc n) es)" for f
      proof -
        obtain k where k: "k \<le> n" "f = es ! k" using f Suc.prems by (auto simp: in_set_conv_nth less_Suc_eq_le)
        then have "f = ?e \<or> \<not> event_less ?e f" using s Suc.prems by (cases "k = n") (auto simp: events_sorted_def sorted_wrt_iff_nth_less)
        then show ?thesis using True unit mem k Suc.prems by (auto simp: before_def event_less_def split: if_splits)
      qed
      have post: "0 \<le> (if before ?x f then snd f else 0)" if f: "f \<in> set (drop (Suc n) es)" for f
      proof -
        obtain i where i: "i < length es - Suc n" "f = es ! Suc (n + i)" using f by (auto simp: in_set_conv_nth)
        have "Suc (n + i) < length es" using i(1) by simp
        then have "\<not> event_less f ?e" using s unfolding events_sorted_def sorted_wrt_iff_nth_less i(2) by simp
        then show ?thesis using True by (auto simp: before_def event_less_def split: if_splits)
      qed
      have "opened es ?x = opened (take (Suc n) es) ?x + opened (drop (Suc n) es) ?x"
        using opened_append [of "take (Suc n) es" "drop (Suc n) es" ?x] by simp
      moreover have "opened (take (Suc n) es) ?x = sum_list (map snd (take (Suc n) es))"
        unfolding opened_def using pre by (simp cong: map_cong)
      moreover have "0 \<le> opened (drop (Suc n) es) ?x" unfolding opened_def
      proof (rule sum_list_nonneg)
        fix y assume "y \<in> set (map (\<lambda>e. if before ?x e then snd e else 0) (drop (Suc n) es))"
        then obtain f where "f \<in> set (drop (Suc n) es)" "y = (if before ?x f then snd f else 0)" unfolding set_map by blast
        then show "0 \<le> y" using post by metis
      qed
      moreover have "a + opened es ?x \<le> l" using all open' mem True by blast
      ultimately show ?thesis by linarith
    qed
  qed (use a in simp)
  then show "sweep_events l es a" unfolding sweep_prefix using Suc_leI by blast
qed

text \<open>The events of the windows: what they open by an instant, with the ended windows, is the slots held then.\<close>

lemma window_events_shape:
  "window_events now ws = (n, es) \<Longrightarrow> 0 \<le> n \<and> n = int (length (filter (\<lambda>w. \<not> snd w > now) ws))
     \<and> (\<forall>e \<in> set es. (snd e = 1 \<or> snd e = -1) \<and> (snd e = 1 \<longrightarrow> now \<le> fst e))"
proof (induction ws arbitrary: n es)
  case (Cons w ws)
  obtain f t where w: "w = (f, t)" by (cases w)
  obtain m fs where r: "window_events now ws = (m, fs)" by (cases "window_events now ws")
  show ?case using Cons.IH [OF r] Cons.prems by (auto simp: w r split: if_splits)
qed simp

lemma window_events_slots:
  "window_events now ws = (n, es) \<Longrightarrow> \<forall>w \<in> set ws. fst w \<le> snd w \<Longrightarrow> now \<le> x \<Longrightarrow> n + opened es x = slots_at now ws x"
proof (induction ws arbitrary: n es)
  case Nil
  then show ?case by (simp add: opened_def slots_at_def)
next
  case (Cons w ws)
  obtain f t where w: "w = (f, t)" by (cases w)
  obtain m fs where r: "window_events now ws = (m, fs)" by (cases "window_events now ws")
  have "m + opened fs x = slots_at now ws x" using Cons.IH [OF r] Cons.prems by simp
  moreover have "f \<le> t" using Cons.prems(2) w by simp
  ultimately show ?case using Cons.prems(1,3) by (auto simp: w r opened_def slots_at_def holds_slot_def before_def split: if_splits)
qed

lemma ended_hold: "int (length (filter (\<lambda>w. \<not> snd w > now) ws)) \<le> slots_at now ws x"
  unfolding slots_at_def by (induction ws) (auto simp: holds_slot_def)

lemma active_within_iff:
  "\<forall>w \<in> set ws. fst w \<le> snd w \<Longrightarrow> active_within limit now ws \<longleftrightarrow> (\<forall>x \<ge> now. slots_at now ws x \<le> limit)"
  (is "?O \<Longrightarrow> ?A \<longleftrightarrow> ?S")
proof -
  assume o: ?O
  obtain n es where r: "window_events now ws = (n, es)" by (cases "window_events now ws")
  note sh = window_events_shape [OF r]
  have mem: "set (sort_events es) = set es" using mset_sort_events mset_eq_setD by blast
  show "?A \<longleftrightarrow> ?S"
  proof (cases "n > limit")
    case True
    then have "\<not> slots_at now ws now \<le> limit" using sh ended_hold [of now ws now] by linarith
    then show ?thesis using True by (auto simp: active_within_def r)
  next
    case False
    have "sweep_events limit (sort_events es) n \<longleftrightarrow> (\<forall>x \<ge> now. n + opened (sort_events es) x \<le> limit)"
      by (rule sweep_sorted) (use sort_events_sorted sh mem False in auto)
    also have "\<dots> \<longleftrightarrow> ?S" using window_events_slots [OF r o] opened_mset [OF mset_sort_events] by auto
    finally show ?thesis using False by (simp add: active_within_def r)
  qed
qed

text \<open>C22: The sweep over the sorted openings and closings admits a set of windows exactly if at no instant from
  now on more slots are held than the limit, which the sweep only looks at where a window opens.
\<close>

theorem active_within_exact:
  "\<forall>w \<in> set ws. fst w \<le> snd w \<Longrightarrow> active_within limit now ws \<longleftrightarrow> (\<forall>x \<ge> now. slots_at now ws x \<le> limit)"
  by (rule active_within_iff)

theorem active_within_exact_witness:
  "active_within 2 10 [(0, 5), (8, 20), (20, 30)] = (\<forall>x \<ge> 10. slots_at 10 [(0, 5), (8, 20), (20, 30)] x \<le> 2)
     \<and> \<not> active_within 2 10 [(0, 5), (8, 20), (20, 30)] \<and> active_within 2 10 [(0, 5), (8, 20), (21, 30)]"
proof (intro conjI)
  show "active_within 2 10 [(0, 5), (8, 20), (20, 30)] = (\<forall>x \<ge> 10. slots_at 10 [(0, 5), (8, 20), (20, 30)] x \<le> 2)"
    by (rule active_within_exact) simp
qed code_simp+

section \<open>The quota\<close>

lemma add_size_mono: "add_size s t = Some t' \<Longrightarrow> 0 \<le> s \<Longrightarrow> t \<le> MaxStoredRunBytes \<Longrightarrow> t \<le> t' \<and> t' \<le> MaxStoredRunBytes"
  by (auto simp: add_size_def split: if_splits)

lemma add_texts_mono: "add_texts xs t = Some t' \<Longrightarrow> t \<le> MaxStoredRunBytes \<Longrightarrow> t \<le> t' \<and> t' \<le> MaxStoredRunBytes"
proof (induction xs arbitrary: t)
  case (Cons x xs)
  obtain u where u: "add_size (int (length x)) t = Some u" "add_texts xs u = Some t'" using Cons.prems(1) by (auto simp: bind_eq_Some_conv)
  show ?case using Cons.IH [OF u(2)] add_size_mono [OF u(1)] Cons.prems(2) by simp
qed simp

lemma add_list_mono: "add_list f xs t = Some t' \<Longrightarrow> t \<le> MaxStoredRunBytes \<Longrightarrow> t \<le> t' \<and> t' \<le> MaxStoredRunBytes"
proof (induction xs arbitrary: f t)
  case (Cons x xs)
  obtain u v where u: "add_size ((int (length x) + 2) div 3 * 4) t = Some u" "(if f then Some u else add_size 1 u) = Some v" "add_list False xs v = Some t'"
    using Cons.prems(1) by (cases f) (auto simp: bind_eq_Some_conv split: if_splits)
  have "t \<le> u \<and> u \<le> MaxStoredRunBytes" using add_size_mono [OF u(1)] Cons.prems(2) by simp
  moreover from this have "u \<le> v \<and> v \<le> MaxStoredRunBytes" using u(2) add_size_mono [of 1 u v] by (auto split: if_splits)
  ultimately show ?case using Cons.IH [OF u(3)] by simp
qed simp

lemma StoredBytes_bounds: "StoredBytes wasm args addresses texts = Some c \<Longrightarrow> RowCharge + int (length wasm) \<le> c \<and> c \<le> MaxStoredRunBytes"
proof -
  assume a: "StoredBytes wasm args addresses texts = Some c"
  obtain u v where "int (length wasm) \<le> MaxModuleBytes" and u: "add_texts texts (RowCharge + int (length wasm)) = Some u"
    and v: "add_list True args u = Some v" "add_list True addresses v = Some c"
    using a by (auto simp: StoredBytes_def StoredBytesForModule_def bind_eq_Some_conv split: if_splits)
  then have "RowCharge + int (length wasm) \<le> MaxStoredRunBytes" by (simp add: MaxModuleBytes_def MaxStoredRunBytes_def RowCharge_def)
  then show ?thesis using add_texts_mono [OF u] add_list_mono [OF v(1)] add_list_mono [OF v(2)] by linarith
qed

lemma room_exact: "0 \<le> b \<Longrightarrow> b \<le> l \<Longrightarrow> l \<le> i64_max \<Longrightarrow> i64 (l - b) = l - b"
  by (rule i64_id) (simp add: i64_bounds)

lemma add_existing_result:
  "add_existing l rows b ws = Inr (b', ws') \<Longrightarrow> 0 \<le> b \<Longrightarrow> b \<le> l \<Longrightarrow> l \<le> i64_max \<Longrightarrow> \<forall>r \<in> set rows. 0 \<le> fst r
     \<Longrightarrow> b' = b + sum_list (map fst rows) \<and> 0 \<le> b' \<and> b' \<le> l \<and> ws' = ws @ map snd rows"
proof (induction rows arbitrary: b ws)
  case (Cons r rows)
  obtain c f u where r: "r = (c, f, u)" by (cases r)
  have c: "0 \<le> c" "c \<le> l - b" and rest: "add_existing l rows (i64 (b + c)) (ws @ [(f, u)]) = Inr (b', ws')"
    using Cons.prems room_exact [OF Cons.prems(2-4)] by (auto simp: r split: if_splits)
  have "i64 (b + c) = b + c" using c Cons.prems by (intro i64_id) (simp add: i64_bounds)
  then show ?case using Cons.IH [of "b + c" "ws @ [(f, u)]"] rest c Cons.prems by (simp add: r)
qed simp

definition row_window :: "debuglet_row \<times> int \<Rightarrow> quota_window" where
  "row_window rw = (db_StartTime (fst rw), db_EndTime (fst rw))"

lemma add_batch_result:
  "add_batch marshal l t ids specs b ws = Inr (rows, ws') \<Longrightarrow> 0 \<le> b \<Longrightarrow> b \<le> l \<Longrightarrow> l \<le> i64_max
     \<Longrightarrow> b + sum_list (map snd rows) \<le> l \<and> ws' = ws @ map row_window rows \<and> length rows = length ids
       \<and> (\<forall>rw \<in> set rows. fst rw \<in> set (tb_debuglets t) \<and> 0 \<le> snd rw)"
proof (induction ids arbitrary: specs b ws rows)
  case (Cons i ids)
  obtain d sp rest g c where d: "GetDebugletByUUID i t = Some d" and sp: "specs = sp # rest"
    and c: "StoredBytes (sp_Wasm sp) (sp_Args sp) (pol_Addresses (sp_Policy sp)) [sp_TransactionID sp, db_Incarnation d, db_Session d, g] = Some c"
    and fits: "\<not> c > i64 (l - b)"
    and more: "(case add_batch marshal l t ids rest (i64 (b + c)) (ws @ [(db_StartTime d, db_EndTime d)]) of Inl e \<Rightarrow> Inl e
                | Inr (rows, ws) \<Rightarrow> Inr ((d, c) # rows, ws)) = Inr (rows, ws')"
    using Cons.prems(1) by (auto split: option.splits list.splits if_splits)
  obtain rs where rs: "add_batch marshal l t ids rest (i64 (b + c)) (ws @ [(db_StartTime d, db_EndTime d)]) = Inr (rs, ws')" "rows = (d, c) # rs"
    using more by (auto split: sum.splits)
  have c': "0 \<le> c" "c \<le> l - b" using StoredBytes_bounds [OF c] fits room_exact [OF Cons.prems(2-4)] by (auto simp: RowCharge_def)
  have "i64 (b + c) = b + c" using c' Cons.prems by (intro i64_id) (simp add: i64_bounds)
  moreover have "d \<in> set (tb_debuglets t)" using d unfolding GetDebugletByUUID_def find_Some_iff by auto
  ultimately show ?case using Cons.IH [of rest "b + c" "ws @ [(db_StartTime d, db_EndTime d)]" rs] rs c' Cons.prems by (simp add: row_window_def)
qed simp

definition row_reservation :: "int \<Rightarrow> debuglet_row \<times> int \<Rightarrow> reservation_row" where
  "row_reservation account rw = \<lparr>rv_DebugletID = db_ID (fst rw), rv_AccountID = account, rv_QueuedBytes = snd rw, rv_RetiredAt = None\<rparr>"

lemma reserve_rows_result:
  "reserve_rows account rows t = Inr t' \<Longrightarrow> t' = t\<lparr>tb_reservations := tb_reservations t @ map (row_reservation account) rows\<rparr>"
proof (induction rows arbitrary: t)
  case (Cons rw rows)
  obtain d c where rw: "rw = (d, c)" by (cases rw)
  obtain u where "ReserveAccountRun (db_ID d) account c t = Some u" and r: "reserve_rows account rows u = Inr t'"
    using Cons.prems by (auto simp: rw split: option.splits)
  then have "u = t\<lparr>tb_reservations := tb_reservations t @ [row_reservation account rw]\<rparr>"
    by (auto simp: ReserveAccountRun_def row_reservation_def rw split: if_splits)
  then show ?case using Cons.IH [OF r] by simp
qed simp

definition good_tables :: "'a run_tables_scheme \<Rightarrow> bool" where
  "good_tables t \<longleftrightarrow> distinct (map db_ID (tb_debuglets t)) \<and> (\<forall>d \<in> set (tb_debuglets t). db_StartTime d \<le> db_EndTime d)
     \<and> (\<forall>r \<in> set (tb_reservations t). 0 \<le> rv_QueuedBytes r)"

lemma filter_key: "distinct (map f xs) \<Longrightarrow> x \<in> set xs \<Longrightarrow> filter (\<lambda>y. f y = f x) xs = [x]"
proof (induction xs)
  case (Cons y ys)
  have none: "filter (\<lambda>z. f z = f y) ys = []" using Cons.prems(1) by (auto simp: filter_empty_conv image_iff)
  show ?case
  proof (cases "x = y")
    case True
    then show ?thesis using none by simp
  next
    case False
    then have "x \<in> set ys" "f y \<noteq> f x" using Cons.prems by auto
    then show ?thesis using Cons by simp
  qed
qed simp

lemma live_rows_append:
  "distinct (map db_ID (tb_debuglets t)) \<Longrightarrow> \<forall>rw \<in> set rows. fst rw \<in> set (tb_debuglets t)
     \<Longrightarrow> live_rows b (t\<lparr>tb_reservations := tb_reservations t @ map (row_reservation account) rows\<rparr>)
       = live_rows b t @ (if b = account then map (\<lambda>rw. (snd rw, row_window rw)) rows else [])"
proof (induction rows)
  case (Cons rw rows)
  have "filter (\<lambda>d. db_ID d = db_ID (fst rw)) (tb_debuglets t) = [fst rw]" by (rule filter_key) (use Cons.prems in auto)
  then show ?case using Cons by (simp add: live_rows_def live_of_def row_reservation_def row_window_def)
qed (simp add: live_rows_def)

lemma live_rows_good: "good_tables t \<Longrightarrow> r \<in> set (live_rows b t) \<Longrightarrow> 0 \<le> fst r \<and> fst (snd r) \<le> snd (snd r)"
  by (auto simp: live_rows_def live_of_def good_tables_def split: if_splits)

lemma limits_of_valid: "AdmissionConfig_Validate conf \<Longrightarrow> accountLimits conf users owner = Inr (account, l) \<Longrightarrow> limits_valid l"
  by (auto simp: AdmissionConfig_Validate_def accountLimits_def split: option.splits if_splits)

lemma reserved_rows:
  assumes go: "reserveAccountRuns marshal conf users now ids specs owner t = Inr t'" and acc: "accountLimits conf users owner = Inr (account, l)"
    and v: "limits_valid l" and g: "good_tables t" and n: "int (length ids) \<le> i64_max"
  obtains rows where "t' = t\<lparr>tb_reservations := tb_reservations t @ map (row_reservation account) rows\<rparr>"
    and "\<forall>rw \<in> set rows. fst rw \<in> set (tb_debuglets t) \<and> 0 \<le> snd rw" and "length rows = length ids"
    and "int (length (live_rows account t)) + int (length ids) \<le> al_QueuedJobs l"
    and "sum_list (map fst (live_rows account t)) + sum_list (map snd rows) \<le> al_QueuedBytes l"
    and "active_within (al_ActiveJobs l) now (map snd (live_rows account t) @ map row_window rows)"
proof -
  let ?ex = "ListAccountReservations account t"
  have lim: "1 \<le> al_QueuedJobs l" "al_QueuedJobs l \<le> 100000" "0 \<le> al_QueuedBytes l" "al_QueuedBytes l \<le> i64_max"
    using v by (auto simp: limits_valid_def i64_bounds)
  obtain b ws rows ws' where jobs: "\<not> int (length ?ex) > i64 (al_QueuedJobs l - int (length ids))"
    and ex: "add_existing (al_QueuedBytes l) ?ex 0 [] = Inr (b, ws)"
    and ba: "add_batch marshal (al_QueuedBytes l) t ids specs b ws = Inr (rows, ws')"
    and within: "active_within (al_ActiveJobs l) now ws'" and rr: "reserve_rows account rows t = Inr t'"
    using go by (auto simp: reserveAccountRuns_def acc Let_def split: sum.splits if_splits)
  have "i64 (al_QueuedJobs l - int (length ids)) = al_QueuedJobs l - int (length ids)" using lim n by (intro i64_id) (simp add: i64_bounds)
  then have len: "int (length ?ex) + int (length ids) \<le> al_QueuedJobs l" using jobs by linarith
  then have all: "?ex = live_rows account t" using lim by (auto simp: ListAccountReservations_def min_def split: if_splits)
  have "\<forall>r \<in> set ?ex. 0 \<le> fst r" using live_rows_good [OF g] all by auto
  from add_existing_result [OF ex _ _ _ this] lim have b: "b = sum_list (map fst ?ex)" "0 \<le> b" "b \<le> al_QueuedBytes l" "ws = map snd ?ex" by auto
  note r = add_batch_result [OF ba b(2,3) lim(4)]
  show thesis by (rule that [OF reserve_rows_result [OF rr]]) (use r len all b within in auto)
qed


definition sample_row :: "nat \<Rightarrow> int \<Rightarrow> int \<Rightarrow> debuglet_row" where
  "sample_row n f u = \<lparr>db_ID = int n, db_UUID = n, db_StartTime = f, db_EndTime = u, db_ExecutorID = ''e'', db_Usage = 0, db_Ceil = 0, db_State = 0, db_Error = None,
     db_Addresses = [], db_TransactionID = [], db_OrderID = 0, db_Incarnation = ''i'', db_Session = ''s''\<rparr>"

definition sample_tables :: run_tables where
  "sample_tables = \<lparr>tb_debuglets = [sample_row 1 0 5, sample_row 2 8 20, sample_row 3 20 30],
     tb_reservations = [\<lparr>rv_DebugletID = 1, rv_AccountID = 0, rv_QueuedBytes = 600, rv_RetiredAt = None\<rparr>]\<rparr>"

definition sample_grant :: "EgressGrant \<Rightarrow> string option" where
  "sample_grant g = None"

lemma sample_listed: "ListAccountReservations 0 sample_tables = [(600, 0, 5)]"
  by (simp add: ListAccountReservations_def live_rows_def live_of_def sample_tables_def sample_row_def)

lemma sample_batch:
  "add_batch sample_grant 1073741824 sample_tables [2, 3] [sample_spec, sample_spec] 600 [(0, 5)]
     = Inr ([(sample_row 2 8 20, 535), (sample_row 3 20 30, 535)], [(0, 5), (8, 20), (20, 30)])"
  by code_simp

lemma sample_reserved:
  "reserveAccountRuns sample_grant DefaultAdmissionConfig [] 10 [2, 3] [sample_spec, sample_spec] None sample_tables
     = Inr (sample_tables\<lparr>tb_reservations := tb_reservations sample_tables @ map (row_reservation 0) [(sample_row 2 8 20, 535), (sample_row 3 20 30, 535)]\<rparr>)"
proof -
  have "accountLimits DefaultAdmissionConfig [] None = Inr (0, ac_Operator DefaultAdmissionConfig)" by (simp add: accountLimits_def)
  moreover have "add_existing 1073741824 [(600, 0, 5)] 0 [] = Inr (600, [(0, 5)])" by code_simp
  moreover have "active_within 64 10 [(0, 5), (8, 20), (20, 30)]" by code_simp
  moreover have "i64 1022 = 1022" by code_simp
  ultimately show ?thesis
    by (simp add: reserveAccountRuns_def sample_listed sample_batch DefaultAdmissionConfig_def del: add_existing.simps add_batch.simps)
      (simp add: ReserveAccountRun_def sample_tables_def sample_row_def row_reservation_def)
qed


section \<open>The request budget, bounded\<close>

text \<open>However many accounts ask, at most \<open>maxAccountRates\<close> buckets are kept, one for an account.\<close>

lemma allow_account_bounded:
  "distinct (map fst rates) \<Longrightarrow> length rates \<le> maxAccountRates \<Longrightarrow> allow_account fresh allowN now account l rates = (res, rates')
     \<Longrightarrow> distinct (map fst rates') \<and> length rates' \<le> maxAccountRates"
proof -
  assume d: "distinct (map fst rates)" and n: "length rates \<le> maxAccountRates" and go: "allow_account fresh allowN now account l rates = (res, rates')"
  have df: "distinct (map fst (filter P rs))" if "distinct (map fst rs)" for P and rs :: "(int \<times> 'a accountRate) list"
    using that by (rule distinct_map_filter)
  have used: "distinct (map fst ((account, r) # filter (\<lambda>(i, _). i \<noteq> account) rs)) \<and> length ((account, r) # filter (\<lambda>(i, _). i \<noteq> account) rs) \<le> maxAccountRates"
    if rs: "distinct (map fst rs)" "length rs < maxAccountRates \<or> account \<in> fst ` set rs \<and> length rs \<le> maxAccountRates" for r and rs :: "(int \<times> 'a accountRate) list"
  proof -
    have "length (filter (\<lambda>(i, _). i \<noteq> account) rs) < length rs" if "account \<in> fst ` set rs"
      using that by (auto intro!: length_filter_less)
    moreover have "length (filter (\<lambda>(i, _). i \<noteq> account) rs) \<le> length rs" by simp
    ultimately have "length (filter (\<lambda>(i, _). i \<noteq> account) rs) < maxAccountRates" using rs(2) by linarith
    then show ?thesis using rs(1) df by auto
  qed
  show ?thesis
  proof (cases "map_of rates account")
    case (Some r)
    then have "account \<in> fst ` set rates" by (metis map_of_eq_None_iff option.distinct(1))
    then show ?thesis using go used [OF d] n by (auto simp: allow_account_def Some Let_def split: prod.splits)
  next
    case None
    define rs where "rs = (if length rates \<ge> maxAccountRates then filter (\<lambda>(_, old). time_Sub now (rt_last old) < 2 * Minute) rates else rates)"
    have rs: "distinct (map fst rs)" "length rs \<le> maxAccountRates" using d df n by (auto simp: rs_def intro: le_trans [OF length_filter_le])
    show ?thesis using go rs used [OF rs(1)] by (auto simp: allow_account_def None Let_def rs_def [symmetric] not_le split: prod.splits if_splits)
  qed
qed

lemma rates_bounded:
  "distinct (map fst rates) \<Longrightarrow> length rates \<le> maxAccountRates \<Longrightarrow> AllowAdmissionRequest fresh allowN conf users now owner rates = (res, rates')
     \<Longrightarrow> distinct (map fst rates') \<and> length rates' \<le> maxAccountRates"
  unfolding AllowAdmissionRequest_def by (auto split: sum.splits prod.splits dest: allow_account_bounded)

end
