(* ===== verification/Spec2Isabelle.thy ===== *)
theory Spec2Isabelle
  imports Destinations Limiter Job_Scheduler Tagger Ownership Key_Store Attribution_Verify Net_Admission Control_Sessions Account_Quota
begin

text \<open>
  Verification of the debuglet dispatcher and executor.

  \<^bold>\<open>The program.\<close> A dispatcher accepts measurement programs (debuglets), reserves bandwidth for them and
  sends them to executors; an executor queues them, runs them within rate limits and a network policy, and tags the packets they
  send so that anybody who receives one can ask the dispatcher which run sent it. The tags are keyed by a
  one-way chain of keys (TESLA): an executor signs with the key of the current epoch and discloses it some
  epochs later, the dispatcher checks disclosed keys against the anchor of the chain, keeps them, and
  answers for captured packets from them, or by asking the executor while the key is still secret. Dispatcher and
  executor talk over control sessions, each with an owner that holds a lease and counts the work admitted on it.

  \<^bold>\<open>The theories\<close>, each with the source it models under \<^verbatim>\<open>src/\<close>:

  \<^item> \<open>Prelude\<close>: 64-bit integers (\<open>i64\<close> wraps, \<open>go_div\<close> truncates), results, association lists.
  \<^item> \<open>Avl\<close>: \<^verbatim>\<open>internal/avl/avl.go\<close>. The tree of demands with the addresses of its nodes and the map of
    references to them. Every sequence of operations refines a finite map, and \<open>Fairshare\<close> is the max-min fair level.
  \<^item> \<open>Bitrate\<close>, \<open>Net_Addr\<close>: \<^verbatim>\<open>internal/bitrate\<close>, \<^verbatim>\<open>internal/netaddr\<close>. Checked 64-bit sums; keys of destinations
    and lists of ports.
  \<^item> \<open>Destinations\<close>: \<^verbatim>\<open>internal/dispatcher/resource/destinations.go\<close>. Admission on several destinations at once is
    atomic, shares fit the capacity and respect floors and ceilings.
  \<^item> \<open>Dyn_Seg_Tree\<close>, \<open>Job_Scheduler\<close>: \<^verbatim>\<open>resource/schedule/dyn/dynamic.go\<close>, \<^verbatim>\<open>resource/schedule/schedule.go\<close>. The
    segment tree with lazy additions, and reservations over time, which refine a plain sum of bandwidths.
  \<^item> \<open>Limiter\<close>: \<^verbatim>\<open>internal/executor/ratelimit/app\<close>. The shares of the runs of an executor with their version-checked
    caches, and the token buckets; the bucket of golang.org/x/time/rate is a record of operations.
  \<^item> \<open>Timed_Queue\<close>, \<open>Ownership\<close>: \<^verbatim>\<open>internal/executor/scheduler/memory\<close>. The heap of queued runs with item pointers, and
    the admission core around it: insertion, restoration, cancellation, deletion, start loop, drain and shutdown.
  \<^item> \<open>Net_Policy\<close>, \<open>Net_Admission\<close>: \<^verbatim>\<open>internal/executor/debuglet/netpolicy\<close>. What a guest may connect to: the operator's denials in
    every spelling of an address, the destinations of the job, revocations, egress grants, and the cache of resolved names.
  \<^item> \<open>Tag_Spec\<close>, \<open>Tesla\<close>, \<open>Tagger\<close>: \<^verbatim>\<open>pkg/tagspec\<close>, \<^verbatim>\<open>internal/executor/tagger/tesla\<close>, \<^verbatim>\<open>tagger.go\<close>. The canonical input and
    SipHash-2-4 of a packet, the key schedule with signing, disclosure and attribution, and the packet rewriter.
  \<^item> \<open>Attribution_Db\<close>, \<open>Key_Store\<close>: \<^verbatim>\<open>internal/dispatcher/database/attribution*.sql.go\<close>, \<^verbatim>\<open>attribution.go\<close>,
    \<^verbatim>\<open>tag/keystore.go\<close>, \<open>storeDisclosure\<close> of \<^verbatim>\<open>rpc_handlers.go\<close>. The tables and queries of attribution, pruning,
    and the cache of verified keys over them.
  \<^item> \<open>Verify_Tags\<close>, \<open>Attribution_Verify\<close>: \<^verbatim>\<open>internal/executor/verify_tags.go\<close>,
    \<^verbatim>\<open>internal/dispatcher/attribution_verify.go\<close>. The executor's verdict before disclosure; the dispatcher's grouping of
    packets, its own check, and the budget of questions.
  \<^item> \<open>Session_Owner\<close>, \<open>Control_Sessions\<close>: \<^verbatim>\<open>internal/dispatcher/transport/rpc\<close> (\<^verbatim>\<open>session.go\<close>, \<^verbatim>\<open>mutation.go\<close>, \<^verbatim>\<open>bidi.go\<close>,
    \<^verbatim>\<open>negotiation.go\<close>, \<^verbatim>\<open>lease.go\<close>), \<^verbatim>\<open>internal/controlsession\<close>. A session is registered, holds a lease, admits work and
    drains; a replacement is registered only after the earlier sessions of its executor have drained.
  \<^item> \<open>Floor_Admission\<close>, \<open>Account_Quota\<close>: \<^verbatim>\<open>internal/dispatcher/debuglet_service.go\<close>, \<^verbatim>\<open>capability_admission.go\<close>,
    \<^verbatim>\<open>terminal_cleanup.go\<close>, \<^verbatim>\<open>account_limits.go\<close>, \<^verbatim>\<open>internal/uploadsize\<close>. Which submissions are admitted: the numbers
    of a policy, its window, the capabilities of the executor, the floors left on the executor and on every destination,
    and the jobs, bytes and slots of the account.
  \<^item> this theory: what the parts do together. A packet tagged by an executor is attributed to its run; the
    verdicts before and after disclosure agree; a key disclosed on time is accepted; the first disclosure of
    a chain is not recorded.

  \<^bold>\<open>How the code is rendered.\<close> A struct is a record, a fallible function returns a sum or an option, a panic is
  a value of its own, and \<open>int64\<close> arithmetic is on \<open>int\<close> with the wrap-around written out where it can
  happen; bytes and checksums are words. Pointers that are shared are addresses or indices into a
  store (tree nodes, heap items, cached chains). Interfaces between components are locales: the contract of the
  queue and the backend of the key store (\<open>key_record\<close>), for instance, are proved for the model's own definitions
  by interpretation, and the clients' lemmas are proved from the contract. Code that runs concurrently is one
  function per critical section and a relation that interleaves them: \<open>signer_step\<close> for the compare-and-swap of
  \<open>CurrentKey\<close>, \<open>ks_reachable\<close> for the key store, \<open>owner_run\<close> and \<open>bidi_run\<close> for control sessions, \<open>ms_reachable\<close> for the scheduler, whose fields
  \<open>tasks\<close> and \<open>readers\<close> only record which goroutines are under way. SHA-256, HKDF, the clock, the resolver, the answers of a
  remote party and the failures of the database are arguments.

  \<^bold>\<open>Bounds.\<close> The segment tree is \<open>partial_function (option)\<close>, since an addition with a negative left end recurses
  for ever; the theorems say when it returns. \<open>store_run\<close> runs one call of \<open>Store\<close> for eight sections, which is the most
  a call has. Every other function is total. \<open>Shutdown\<close> is a condition polled on the state; that the work it waits
  for runs out is proved with a measure.

  \<^bold>\<open>Not modelled.\<close> Parsing and printing of bitrates (floating point), the eBPF programs, the WebAssembly runtime and the
  socket wrappers, persistence of runs, gRPC and its streams, the HTTP API, payments, enrolment, configuration,
  the client library, commands, demonstration and packaging: they are I/O, generated code or calls of libraries whose
  behaviour is not in the sources. Of the dispatcher's services the disclosure handler, the verification and the
  admission of submissions are modelled, not the upload of a run, its cancellation and the handlers of its reports. Read-write locks of the single-threaded models (accounting, schedule, limiter) are
  left out: each operation there is one critical section. Hash collisions are excluded by hypotheses
  that name the finite set of anchors in use.
\<close>

section \<open>Derived keys and received packets\<close>

text \<open>The dispatcher derives the executor's own key from a later one on record.\<close>

lemma NextAttributionKey_ge: "NextAttributionKey ex cid epoch db = Some (m, k) \<Longrightarrow> epoch \<le> m"
  by (auto simp: NextAttributionKey_def dest!: first_by_Some(1))

lemma KeyAtEpoch_Some: "KeyAtEpoch ks e = Some k \<Longrightarrow> 0 \<le> e \<and> e \<le> ChainLength (cfg ks) \<and> keyForEpoch ks e = Some k"
  by (simp add: KeyAtEpoch_def split: if_splits)

lemma recordedEpochKey_schedule:
  assumes ok: "schedule_ok sha ks" and n: "NextAttributionKey ex cid e db = Some (m, km)" "m - e \<le> maxVerifyDerivation"
    and k: "KeyAtEpoch ks m = Some km" "KeyAtEpoch ks e = Some key"
  shows "recordedEpochKey sha ex cid e db = Some key"
proof -
  note e = KeyAtEpoch_Some [OF k(2)] and m = KeyAtEpoch_Some [OF k(1)] and le = NextAttributionKey_ge [OF n(1)]
  have "in_i64 (m - e)" using e m le n(2) by (simp add: in_i64_def i64_min_def i64_max_def maxVerifyDerivation_def)
  then have i: "i64 (m - e) = m - e" by (rule i64_id)
  have "DeriveFromDisclosed sha km m e = keyForEpoch ks e" using schedule_derive [OF ok _ le] e m by blast
  then show ?thesis using n e le i by (simp add: recordedEpochKey_def DeriveFromDisclosed_def)
qed

lemma in_i64_saturate: "in_i64 (saturate x)"
  by (simp add: in_i64_def saturate_def i64_min_def i64_max_def)

text \<open>The packet as it was received: every field that is hashed, and the Identification, as they were sent.\<close>

lemma tagWithKey_carries:
  assumes w: "tagWithKey hkdf (bytes_of run) pkt (Some key) = Inr q" and p: "refusal pkt = None"
    and hkdf: "hkdf key (bytes_of run) 32 = Some ak" "16 \<le> length ak"
    and recv: "HashInput p = HashInput q" "PacketID p = PacketID q"
  shows "carries_tag hkdf key run p" "\<exists>inp. HashInput p = Inr inp"
proof -
  have "tagged pkt" using p by (simp add: refusal_None)
  then obtain q' inp where q: "tagWithKey hkdf (bytes_of run) pkt (Some key) = Inr q'" "HashInput q' = Inr inp"
    "ComputeTag ak inp = Inr (ReadIPID q')" "PacketID q' = Some (ReadIPID q')"
    using tagWithKey_written [where hkdf = hkdf and k = key and mid = "bytes_of run", OF _ hkdf] by blast
  then show "carries_tag hkdf key run p" "\<exists>inp. HashInput p = Inr inp"
    using w hkdf(1) recv by (simp_all add: carries_tag_def DeriveAK_def PacketTag_def)
qed

lemma packet_inputs_HashInput: "packet_inputs ps = Some xs \<Longrightarrow> p \<in> set ps \<Longrightarrow> \<exists>inp. HashInput p = Inr inp"
  by (induction ps arbitrary: xs) (auto split: if_splits sum.splits)

section \<open>Properties\<close>

text \<open>C1: Sender to verdict: the packets that an executor tagged for a run with its chain's key of an epoch, as they arrive with the fields that routers rewrite
  changed, are attributed to that run. Once the dispatcher has a key of that chain from a later epoch on record it derives the very key
  that tagged them, and its check gives all of them to the run as verified, unless another candidate run happens to reproduce all the tags too.\<close>

theorem tagged_packets_verified:
  assumes ok: "schedule_ok sha ks" and key: "KeyAtEpoch ks e = Some key" and hkdf: "hkdf key (bytes_of run) 32 = Some ak" "16 \<le> length ak"
    and rec: "NextAttributionKey ex cid e db = Some (m, km)" "KeyAtEpoch ks m = Some km" "m - e \<le> maxVerifyDerivation"
    and sent: "\<forall>i \<in> set (vg_Packets base). \<exists>pkt q. refusal pkt = None \<and> tagWithKey hkdf (bytes_of run) pkt (Some key) = Inr q
      \<and> HashInput (vp_Data (packets ! i)) = HashInput q \<and> PacketID (vp_Data (packets ! i)) = PacketID q"
    and cs: "distinct cands" "run \<in> set cands" "vg_Packets base \<noteq> []"
    and alone: "\<forall>r \<in> set cands - {run}. \<exists>i \<in> set (vg_Packets base). \<not> carries_tag hkdf key r (vp_Data (packets ! i))"
  shows "recordedEpochKey sha ex cid e db = Some key
    \<and> matchRuns hkdf key cands base packets = [base\<lparr>vg_RunID := run, vg_Verdict := Some VerifyVerified\<rparr>]"
proof -
  have c: "carries_tag hkdf key run (vp_Data (packets ! i))" "\<exists>inp. HashInput (vp_Data (packets ! i)) = Inr inp" if i: "i \<in> set (vg_Packets base)" for i
    using bspec [OF sent i] tagWithKey_carries [where hkdf = hkdf and key = key and run = run, OF _ _ hkdf] by blast+
  have "run_matches hkdf key (vp_Data (packets ! i)) r \<longleftrightarrow> carries_tag hkdf key r (vp_Data (packets ! i))" if "i \<in> set (vg_Packets base)" for i r
    using c(2) [OF that] run_matches_iff by blast
  then have "{r \<in> set cands. \<forall>i \<in> set (vg_Packets base). run_matches hkdf key (vp_Data (packets ! i)) r} = {run}"
    using c(1) cs(2) alone by auto
  from matchRuns_single [OF cs(1,3) this] show ?thesis using recordedEpochKey_schedule [OF ok rec(1,3,2) key] by simp
qed

text \<open>C21: Before and after disclosure the verdicts agree: when the executor names a run for a group of packets before the key of their epoch is disclosed,
  the dispatcher's own check of the same group, with the key derived from a later one on record, names the same run for all of them.\<close>

theorem server_agrees_offline:
  assumes ok: "schedule_ok sha ks" and ans: "verifyTags hkdf isID IE order (Some ks) req now = Some (verifyMatched run)"
    and rec: "NextAttributionKey ex cid (req_Epoch req) db = Some (m, km)" "KeyAtEpoch ks m = Some km" "m - req_Epoch req \<le> maxVerifyDerivation"
    and same: "map (\<lambda>i. vp_Data (packets ! i)) (vg_Packets base) = req_Packets req"
  shows "\<exists>key. recordedEpochKey sha ex cid (req_Epoch req) db = Some key
    \<and> matchRuns hkdf key (req_CandidateRunIds req) base packets = [base\<lparr>vg_RunID := run, vg_Verdict := Some VerifyVerified\<rparr>]"
proof -
  obtain ks' key xs where k': "Some ks = Some ks'" "KeyAtEpoch ks' (req_Epoch req) = Some key" and k: "packet_inputs (req_Packets req) = Some xs" "distinct (req_CandidateRunIds req)" "req_Packets req \<noteq> []"
    and r: "verifyMatched run = (let f = filter (\<lambda>i. \<forall>p \<in> set (req_Packets req). carries_tag hkdf key i p) (req_CandidateRunIds req) in
       if f = [] then verifyUnmatched else if length f = 1 then verifyMatched (hd f) else verifyAmbiguous)"
    by (rule verifyTags_answer [OF ans]) auto
  have key: "KeyAtEpoch ks (req_Epoch req) = Some key" using k' by simp
  have "filter (\<lambda>i. \<forall>p \<in> set (req_Packets req). carries_tag hkdf key i p) (req_CandidateRunIds req) = [run]"
    using r by (auto simp: Let_def length_Suc_conv split: if_splits)
  then have "{r \<in> set (req_CandidateRunIds req). \<forall>p \<in> set (req_Packets req). carries_tag hkdf key r p} = {run}" by (metis list.set(1) list.set(2) set_filter)
  moreover have "run_matches hkdf key p i \<longleftrightarrow> carries_tag hkdf key i p" if "p \<in> set (req_Packets req)" for p i
    using packet_inputs_HashInput [OF k(1) that] run_matches_iff by blast
  moreover have "set (req_Packets req) = (\<lambda>i. vp_Data (packets ! i)) ` set (vg_Packets base)" "vg_Packets base \<noteq> []" using same k(3) by (auto simp flip: same)
  ultimately show ?thesis using matchRuns_single [OF k(2), of base hkdf key packets run] recordedEpochKey_schedule [OF ok rec(1,3,2) key] by auto
qed

text \<open>C32: The dispatcher accepts every key that a correct executor discloses on time: if it knows the chain by the schedule that the executor follows, has not
  advanced beyond the disclosed epoch, is at most a week of epochs behind, and its clock is no further behind the executor's than
  the skew it allows, then the key that \<open>DisclosedKey\<close> gives passes its check.\<close>

theorem honest_disclosure_accepted:
  fixes ks :: "'h KeySchedule"
  assumes ok: "schedule_ok sha ks" and L: "0 < ChainLength (cfg ks)" and d: "in_i64 (DisclosureDelay (cfg ks))" and x: "in_i64 (fst (Elapsed ks t))"
    and inst: "\<forall>h \<in> set order. snd (IE h) \<longrightarrow> 1 \<le> fst (IE h) \<and> in_i64 (fst (IE h))"
    and disc: "DisclosedKey IE order t ks = Some (i, k)"
    and chain: "ch_Anchor chain = Anchor ks" "Anchor ks \<noteq> []" "ch_Interval chain = EpochLength (cfg ks)" "ch_DisclosureDelay chain = DisclosureDelay (cfg ks)"
    and clock: "fst (Elapsed ks t) \<le> time_Sub (time_Add now clockSkew) (ch_Start chain)"
    and base: "KeyAtEpoch ks b = Some bk" "b \<le> i" "i - b \<le> maxVerifyWalk"
  shows "\<exists>key. k = Some key \<and> verify_reason sha chain now i key b bk = None"
proof -
  let ?x = "fst (Elapsed ks t)" and ?y = "time_Sub (time_Add now clockSkew) (ch_Start chain)" and ?e = "EpochLength (cfg ks)" and ?d = "DisclosureDelay (cfg ks)" and ?L = "ChainLength (cfg ks)"
  have pos: "0 < ?e" "2 \<le> ?d" using ok by (simp_all add: schedule_ok_def MinDisclosureDelay_def)
  have x0: "0 \<le> ?x" using disc by (auto simp: DisclosedKey_def Let_def split: if_splits)
  note unf = DisclosedKey_unfold [OF ok refl x0 x L d, of IE order]
  have cur: "?d \<le> ?x div ?e" and i: "i = fold (disclosable_after IE) order (min (?x div ?e - ?d) (?L - 1))" and k: "k = keyForEpoch ks i"
    using disc unf by (auto simp: Let_def split: if_splits)
  have f: "0 \<le> i \<and> i \<le> ?x div ?e - ?d \<and> i \<le> ?L"
    using fold_disclosable [of order IE "min (?x div ?e - ?d) (?L - 1)"] inst cur L unfolding i by auto
  obtain key where key: "keyForEpoch ks i = Some key" using schedule_key [OF ok, of i] f by auto
  have y: "in_i64 ?y" by (simp add: time_Sub_def in_i64_saturate split: option.splits)
  have q: "go_div ?y ?e = ?y div ?e" using go_div_nonneg [OF _ y pos(1)] clock x0 by simp
  have le: "?x div ?e \<le> ?y div ?e" using clock pos by (simp add: zdiv_mono1)
  have "?y div ?e \<le> ?y" using clock x0 pos zdiv_mono2 [of ?y 1 ?e] by simp
  then have "i64 (?y div ?e - ?d) = ?y div ?e - ?d" using y cur le pos by (intro i64_id) (simp add: in_i64_def i64_min_def)
  then have m: "maxEpoch chain now = Some (?y div ?e - ?d)"
    using chain pos clock x0 q by (simp add: maxEpoch_def disclosureDelay_def Let_def)
  note b = KeyAtEpoch_Some [OF base(1)]
  have "i64 (i - b) = i - b" using b base f by (intro i64_id) (simp add: in_i64_def i64_min_def i64_max_def maxVerifyWalk_def)
  moreover have "DeriveFromDisclosed sha key i b = Some bk" using schedule_derive [OF ok _ base(2) _ key] b f by simp
  ultimately have "verify_reason sha chain now i key b bk = None" using m f le base chain by (simp add: verify_reason_def)
  then show ?thesis using k key by simp
qed


text \<open>C33: The first key that a chain discloses is never put on record: through the whole epoch in which disclosure begins, \<open>DisclosedKey\<close> gives the anchor as the
  key of the epoch 0, the key store verifies it and saves it, the table of keys takes positive epochs only, and so every disclosure of
  that epoch fails as if the database did.\<close>

theorem first_disclosure_fails:
  fixes ks :: "'h KeySchedule"
  assumes ok: "schedule_ok sha ks" and L: "0 < ChainLength (cfg ks)" and d: "in_i64 (DisclosureDelay (cfg ks))" and x: "in_i64 (fst (Elapsed ks t))"
    and inst: "\<forall>h \<in> set order. snd (IE h) \<longrightarrow> 1 \<le> fst (IE h) \<and> in_i64 (fst (IE h))"
    and first: "fst (Elapsed ks t) div EpochLength (cfg ks) = DisclosureDelay (cfg ks)"
    and chain: "ch_Anchor chain = Anchor ks" "Anchor ks \<noteq> []" "\<forall>m. maxEpoch chain now = Some m \<longrightarrow> 0 \<le> m"
    and db: "LatestAttributionKey ex (ChainID sha (Anchor ks)) db = None"
  shows "DisclosedKey IE order t ks = Some (0, Some (Anchor ks))
    \<and> fst (KeyStore_Store sha (Some (attributionBackend sha)) ex chain now 0 (Anchor ks) NewKeyStore db) = Some BackendFailed
    \<and> snd (snd (KeyStore_Store sha (Some (attributionBackend sha)) ex chain now 0 (Anchor ks) NewKeyStore db)) = db"
proof -
  have "0 \<le> fst (Elapsed ks t) div EpochLength (cfg ks)" using first ok by (simp add: schedule_ok_def MinDisclosureDelay_def)
  then have x0: "0 \<le> fst (Elapsed ks t)" using ok by (simp add: schedule_ok_def pos_imp_zdiv_nonneg_iff)
  have "keyForEpoch ks 0 = Some (Anchor ks)" using ok by (simp add: schedule_ok_def keyForEpoch_def Anchor_def key_slot_def)
  moreover have "fold (disclosable_after IE) order 0 = 0" using fold_disclosable [OF inst, of 0] by simp
  ultimately have "DisclosedKey IE order t ks = Some (0, Some (Anchor ks))"
    using DisclosedKey_unfold [OF ok refl x0 x L d, of IE order] first L by (simp add: Let_def)
  moreover have "verify_reason sha chain now 0 (Anchor ks) 0 (Anchor ks) = None"
    using chain by (cases "maxEpoch chain now") (auto simp: verify_reason_def Let_def maxVerifyWalk_def DeriveFromDisclosed_def i64_def not_less)
  moreover have "backend_Save sha ex chain 0 (Anchor ks) now db = None"
    by (cases "RecordAttributionChain (chainParams sha ex chain now) db") (simp_all add: backend_Save_def InsertAttributionKey_def)
  ultimately show ?thesis using chain db
    by (simp add: KeyStore_Store_def numeral_eq_Suc store_start_def Store_step_def NewKeyStore_def KeyStore_chain_def cached_install_def set_cell_def
        maxChainsPerExecutor_def Let_def store_check_def finish_def store_commit_def attributionBackend_def backend_Latest_def)
qed

section \<open>Instances\<close>

definition toy_hkdf :: hkdf where
  "toy_hkdf = (\<lambda>_ _ n. Some (replicate n 1))"

text \<open>A chain of three epochs, and the record of its key of the epoch 2.\<close>

definition disclosed_db :: "byte list \<Rightarrow> attribution_db" where
  "disclosed_db k = empty_db\<lparr>attribution_keys := [\<lparr>kr_executor = ''x'', kr_chain_id = ''c'', kr_epoch = 2, kr_key = k, kr_disclosed_at = 0\<rparr>]\<rparr>"

lemma disclosed_next: "NextAttributionKey ''x'' ''c'' 1 (disclosed_db k) = Some (2, k)"
  by (simp add: disclosed_db_def NextAttributionKey_def first_by_def key_is_def)

lemma sample_keys:
  obtains ks :: "nat KeySchedule" and k1 k2 where "NewKeySchedule toy_sha None zero_time sample_config = Inr ks" "cfg ks = sample_config\<lparr>Clock := Some hostClock\<rparr>"
    "schedule_ok toy_sha ks" "KeyAtEpoch ks 1 = Some k1" "KeyAtEpoch ks 2 = Some k2" "keyForEpoch ks 0 = Some (Anchor ks)" "Anchor ks \<noteq> []"
proof -
  obtain ks :: "nat KeySchedule" where ks: "NewKeySchedule toy_sha None zero_time sample_config = Inr ks" "cfg ks = sample_config\<lparr>Clock := Some hostClock\<rparr>"
    using sample_schedule by blast
  note ok = NewKeySchedule_ok(1) [OF ks(1) sample_i64 toy_sha_length]
  have L: "ChainLength (cfg ks) = 3" using ks(2) by (simp add: sample_config_def)
  have "\<exists>k. KeyAtEpoch ks e = Some k" if "0 \<le> e" "e \<le> 3" for e using schedule_key [OF ok, of e] that L by (simp add: KeyAtEpoch_def)
  moreover have a: "keyForEpoch ks 0 = Some (Anchor ks)" using L by (simp add: keyForEpoch_def Anchor_def key_slot_def)
  moreover have "Anchor ks \<noteq> []"
  proof -
    have "Anchor ks = toy_sha ((toy_sha ^^ 2) (chain_tail toy_sha (Seed (cfg ks))))" using schedule_key [OF ok, of 0] L a by (simp add: numeral_eq_Suc)
    then show ?thesis using toy_sha_length by (metis keySize_def list.size(3) zero_neq_numeral)
  qed
  ultimately show ?thesis using that [OF ks ok] by force
qed

lemma sample_tagged:
  obtains q inp where "tagWithKey toy_hkdf (bytes_of ''r'') sample_packet (Some k) = Inr q" "HashInput q = Inr inp"
    "ComputeTag (replicate 32 1) inp = Inr (ReadIPID q)" "PacketID q = Some (ReadIPID q)" "length q = 20"
proof -
  have "tagged sample_packet" using sample_packet_ok(1) by (simp add: refusal_None)
  moreover have "toy_hkdf k (bytes_of ''r'') 32 = Some (replicate 32 1)" by (simp add: toy_hkdf_def)
  moreover have "length sample_packet = 20" by (simp add: sample_packet_def)
  ultimately show ?thesis using that tagWithKey_written [where hkdf = toy_hkdf and k = k and mid = "bytes_of ''r''" and ak = "replicate 32 1" and pkt = sample_packet]
    by (simp add: rewritten_def) metis
qed

theorem tagged_packets_verified_witness:
  "\<exists>key k2 q. tagWithKey toy_hkdf (bytes_of ''r'') sample_packet (Some key) = Inr q \<and> recordedEpochKey toy_sha ''x'' ''c'' 1 (disclosed_db k2) = Some key
    \<and> matchRuns toy_hkdf key [''r''] (new_result [] [0]) [\<lparr>vp_Data = q, vp_CapturedAt = 0\<rparr>] = [(new_result [] [0])\<lparr>vg_RunID := ''r'', vg_Verdict := Some VerifyVerified\<rparr>]"
proof -
  obtain ks :: "nat KeySchedule" and k1 k2 where ks: "schedule_ok toy_sha ks" "KeyAtEpoch ks 1 = Some k1" "KeyAtEpoch ks 2 = Some k2" by (rule sample_keys)
  obtain q where q: "tagWithKey toy_hkdf (bytes_of ''r'') sample_packet (Some k1) = Inr q" by (rule sample_tagged)
  have "toy_hkdf k1 (bytes_of ''r'') 32 = Some (replicate 32 1)" by (simp add: toy_hkdf_def)
  from tagged_packets_verified [where hkdf = toy_hkdf and run = "''r''" and cands = "[''r'']" and base = "new_result [] [0]"
      and packets = "[\<lparr>vp_Data = q, vp_CapturedAt = 0\<rparr>]", OF ks(1,2) this _ disclosed_next ks(3)]
  show ?thesis using q sample_packet_ok(1) by (auto simp: maxVerifyDerivation_def new_result_def)
qed

theorem server_agrees_offline_witness:
  "\<exists>key k2 q. recordedEpochKey toy_sha ''x'' ''c'' 1 (disclosed_db k2) = Some key
    \<and> matchRuns toy_hkdf key [''r''] (new_result [] [0]) [\<lparr>vp_Data = q, vp_CapturedAt = 0\<rparr>] = [(new_result [] [0])\<lparr>vg_RunID := ''r'', vg_Verdict := Some VerifyVerified\<rparr>]"
proof -
  obtain ks :: "nat KeySchedule" and k1 k2 where ks: "cfg ks = sample_config\<lparr>Clock := Some hostClock\<rparr>" "schedule_ok toy_sha ks" "KeyAtEpoch ks 1 = Some k1" "KeyAtEpoch ks 2 = Some k2"
    by (rule sample_keys)
  obtain q inp where q: "HashInput q = Inr inp" "ComputeTag (replicate 32 1) inp = Inr (ReadIPID q)" "PacketID q = Some (ReadIPID q)" "length q = 20"
    by (rule sample_tagged)
  let ?now = "\<lparr>inst_wall = 110, inst_mono = Some 10\<rparr>"
  let ?req = "\<lparr>req_ChainAnchor = Anchor ks, req_Epoch = 1, req_CandidateRunIds = [''r''], req_Packets = [q]\<rparr>"
  have el: "Elapsed ks ?now = (10, 10)" using sample_elapsed [OF ks(1), of 10] by (simp add: saturate_def i64_min_def i64_max_def)
  have inp: "packet_inputs [q] = Some [(inp, ReadIPID q)]" using q by (simp add: minVerifyPacket_def MaxInput_def)
  have d: "DisclosedKey (\<lambda>_. (0, False)) [] ?now ks = None"
    using ks(1) by (simp add: DisclosedKey_def el Let_def sample_config_def go_div_def i64_def)
  have "reproducesTags (replicate 32 1) [(inp, ReadIPID q)]" using q by simp
  then have "verifyTags toy_hkdf (\<lambda>_. True) (\<lambda>_. (0, False)) [] (Some ks) ?req ?now = Some (verifyMatched ''r'')"
    using ks(1,3) by (simp add: verifyTags_def Let_def maxVerifyCandidates_def maxVerifyPackets_def inp d Drift_def el MaxDrift_def sample_config_def
        go_div_def i64_def verifierClockTolerance_def Second_def DeriveAK_def toy_hkdf_def del: packet_inputs.simps reproducesTags.simps)
  from server_agrees_offline [OF ks(2) this, of "''x''" "''c''" "disclosed_db k2" 2 k2 "[\<lparr>vp_Data = q, vp_CapturedAt = 0\<rparr>]" "new_result [] [0]"]
  show ?thesis using ks(4) disclosed_next [of k2] by (auto simp: maxVerifyDerivation_def new_result_def)
qed

theorem honest_disclosure_accepted_witness:
  "\<exists>key anchor. verify_reason toy_sha \<lparr>ch_Anchor = anchor, ch_Start = \<lparr>inst_wall = 100, inst_mono = None\<rparr>, ch_Interval = 10, ch_DisclosureDelay = 2, ch_Length = 3, ch_TagSpec = 1\<rparr>
     \<lparr>inst_wall = 130, inst_mono = None\<rparr> 1 key 0 anchor = None"
proof -
  obtain ks :: "nat KeySchedule" and k1 k2 where ks: "cfg ks = sample_config\<lparr>Clock := Some hostClock\<rparr>" "schedule_ok toy_sha ks" "KeyAtEpoch ks 1 = Some k1" "KeyAtEpoch ks 2 = Some k2"
    "keyForEpoch ks 0 = Some (Anchor ks)" "Anchor ks \<noteq> []" by (rule sample_keys)
  let ?t = "\<lparr>inst_wall = 130, inst_mono = Some 30\<rparr>"
  have el: "fst (Elapsed ks ?t) = 30" using sample_elapsed [OF ks(1), of 30] by (simp add: saturate_def i64_min_def i64_max_def)
  have c: "0 < ChainLength (cfg ks)" "in_i64 (DisclosureDelay (cfg ks))" "in_i64 30" "EpochLength (cfg ks) = 10" "DisclosureDelay (cfg ks) = 2" "ChainLength (cfg ks) = 3"
    by (simp_all add: ks(1) sample_config_def in_i64_def i64_min_def i64_max_def)
  have disc: "DisclosedKey (\<lambda>_. (0, False)) [] ?t ks = Some (1, keyForEpoch ks 1)"
    using DisclosedKey_unfold [OF ks(2) el _ c(3) c(1,2), of "\<lambda>_. (0, False)" "[]"] c by simp
  have "KeyAtEpoch ks 0 = Some (Anchor ks)" using ks(5) c by (simp add: KeyAtEpoch_def)
  then show ?thesis
    using honest_disclosure_accepted [OF ks(2) c(1,2) _ _ disc,
      of "\<lparr>ch_Anchor = Anchor ks, ch_Start = \<lparr>inst_wall = 100, inst_mono = None\<rparr>, ch_Interval = 10, ch_DisclosureDelay = 2, ch_Length = 3, ch_TagSpec = 1\<rparr>" "\<lparr>inst_wall = 130, inst_mono = None\<rparr>" 0 "Anchor ks"]
      el c ks(6) by (auto simp: time_Sub_def time_Add_def clockSkew_def Second_def saturate_def i64_min_def i64_max_def maxVerifyWalk_def)
qed

theorem first_disclosure_fails_witness:
  "\<exists>anchor. fst (KeyStore_Store toy_sha (Some (attributionBackend toy_sha)) ''x''
     \<lparr>ch_Anchor = anchor, ch_Start = zero_time, ch_Interval = 10, ch_DisclosureDelay = 2, ch_Length = 3, ch_TagSpec = 1\<rparr> \<lparr>inst_wall = 20, inst_mono = None\<rparr> 0 anchor NewKeyStore empty_db) = Some BackendFailed"
proof -
  obtain ks :: "nat KeySchedule" and k1 k2 where ks: "cfg ks = sample_config\<lparr>Clock := Some hostClock\<rparr>" "schedule_ok toy_sha ks" "KeyAtEpoch ks 1 = Some k1" "KeyAtEpoch ks 2 = Some k2"
    "keyForEpoch ks 0 = Some (Anchor ks)" "Anchor ks \<noteq> []" by (rule sample_keys)
  let ?t = "\<lparr>inst_wall = 120, inst_mono = Some 20\<rparr>"
  let ?chain = "\<lparr>ch_Anchor = Anchor ks, ch_Start = zero_time, ch_Interval = 10, ch_DisclosureDelay = 2, ch_Length = 3, ch_TagSpec = 1\<rparr>"
  have el: "fst (Elapsed ks ?t) = 20" using sample_elapsed [OF ks(1), of 20] by (simp add: saturate_def i64_min_def i64_max_def)
  have c: "0 < ChainLength (cfg ks)" "in_i64 (DisclosureDelay (cfg ks))" "in_i64 20" "EpochLength (cfg ks) = 10" "DisclosureDelay (cfg ks) = 2"
    by (simp_all add: ks(1) sample_config_def in_i64_def i64_min_def i64_max_def)
  have "maxEpoch ?chain \<lparr>inst_wall = 20, inst_mono = None\<rparr> = Some 500000000"
    by (simp add: maxEpoch_def Let_def time_Sub_def time_Add_def clockSkew_def Second_def saturate_def i64_min_def i64_max_def zero_time_def disclosureDelay_def go_div_def i64_def)
  moreover have "LatestAttributionKey ''x'' (ChainID toy_sha (Anchor ks)) empty_db = None" by (simp add: LatestAttributionKey_def empty_db_def first_by_def)
  ultimately show ?thesis
    using first_disclosure_fails [OF ks(2) c(1,2), of ?t "[]" "\<lambda>_. (0, False)" ?chain "\<lparr>inst_wall = 20, inst_mono = None\<rparr>" "''x''" empty_db] el c ks(6) by auto
qed

end
